(* ===== verification/Prelude.thy ===== *)
theory Prelude
  imports Main "HOL-Library.Word" "HOL-Library.Monad_Syntax"
begin

text \<open>
  Shared vocabulary of the development: the C integer types as words, arrays as lists with
  checked reads and writes, the byte values of C character constants, and the generic
  interfaces (locales) that several components instantiate.

  A C object of \<open>n\<close> bytes is a list of length \<open>n\<close>.  The operations \<open>rd\<close>, \<open>wr\<close> and \<open>blit\<close>
  return \<open>None\<close> when the C code would touch memory outside the object, so a theorem that a
  routine returns \<open>Some\<close> is a memory-safety theorem for it.
\<close>

unbundle bit_operations_syntax

section \<open>Machine integers\<close>

type_synonym u8 = "8 word"
type_synonym u16 = "16 word"
type_synonym u32 = "32 word"
type_synonym u64 = "64 word"
type_synonym bytes = "u8 list"

text \<open>Facts for proving equations between bytes bit by bit.\<close>

named_theorems byte_bits

lemma nat_less_8:
  "(n < (8::nat)) = (n \<in> {0, 1, 2, 3, 4, 5, 6, 7})"
  by auto

lemma byte_high_bit [byte_bits]: "8 \<le> n \<Longrightarrow> \<not> bit (w :: u8) n"
  using bit_imp_le_length [of w n] by auto

lemma small_Sucs [byte_bits]: "Suc (Suc 0) = 2" "Suc 2 = 3"
  by simp_all

lemma byte_eqI:
  "bit v 0 = bit w 0 \<Longrightarrow> bit v 1 = bit w 1 \<Longrightarrow> bit v 2 = bit w 2 \<Longrightarrow> bit v 3 = bit w 3 \<Longrightarrow>
   bit v 4 = bit w 4 \<Longrightarrow> bit v 5 = bit w 5 \<Longrightarrow> bit v 6 = bit w 6 \<Longrightarrow> bit v 7 = bit w 7 \<Longrightarrow>
   v = (w :: u8)"
  by (rule bit_word_eqI) (auto simp: nat_less_8)

text \<open>A statement about every byte follows from the 256 closed instances.\<close>

lemma byte_cases:
  assumes "\<And>n. n < 256 \<Longrightarrow> P (word_of_nat n :: u8)"
  shows "P c"
proof -
  have "unat c < 256" using unsigned_less [of c] by simp
  then have "P (word_of_nat (unat c))" by (rule assms)
  then show ?thesis by simp
qed

lemma unat_u8_less [simp]: "unat (c :: u8) < 256"
  using unsigned_less [of c] by simp

lemma word_inject:
  fixes v w :: "'a::len word"
  shows "uint v = uint w \<longleftrightarrow> v = w" "sint v = sint w \<longleftrightarrow> v = w" "unat v = unat w \<longleftrightarrow> v = w"
  by (auto intro: unsigned_word_eqI signed_word_eqI)

lemma unat_small: "n < 2 ^ LENGTH('a) \<Longrightarrow> unat (word_of_nat n :: 'a::len word) = n"
  by (simp add: unat_of_nat take_bit_nat_eq_self)

lemma nat_less_16:
  "(n < (16::nat)) = (n \<in> {0, 1, 2, 3, 4, 5, 6, 7, 8, 9, 10, 11, 12, 13, 14, 15})"
  by (simp only: insert_iff empty_iff) arith

lemma nibble_less [simp]: "unat (drop_bit 4 (c :: u8)) < 16" "unat (c AND 15) < 16"
proof -
  show "unat (drop_bit 4 c) < 16"
    using unat_u8_less [of c] by (simp add: drop_bit_eq_div unat_div less_mult_imp_div_less)
  have "unat (c AND 15) = take_bit 4 (unat c)"
    by (simp add: unsigned_and_eq take_bit_eq_mask mask_eq_exp_minus_1)
  then show "unat (c AND 15) < 16" using take_bit_nat_less_exp [of 4 "unat c"] by simp
qed

section \<open>The type int\<close>

text \<open>
  A result of type \<open>int\<close> (32 bits): a signed overflow is undefined.  \<open>nat31\<close> is the same for a
  computation that cannot go below zero.  \<open>int_cast\<close> is \<open>(int) n\<close> for an unsigned \<open>n\<close>, which keeps the low 32 bits.
\<close>

definition int32 :: "int \<Rightarrow> int option" where
  "int32 i = (if - (2 ^ 31) \<le> i \<and> i < 2 ^ 31 then Some i else None)"

definition nat31 :: "nat \<Rightarrow> nat option" where
  "nat31 n = (if n < 2 ^ 31 then Some n else None)"

definition int_cast :: "nat \<Rightarrow> int" where
  "int_cast n = sint (word_of_nat n :: u32)"

lemma int32_Some [simp]: "- (2 ^ 31) \<le> i \<Longrightarrow> i < 2 ^ 31 \<Longrightarrow> int32 i = Some i"
  by (simp add: int32_def)

lemma nat31_Some [simp]: "n < 2 ^ 31 \<Longrightarrow> nat31 n = Some n"
  by (simp add: nat31_def)

lemma int_cast_small [simp]: "n < 2 ^ 31 \<Longrightarrow> int_cast n = int n"
  by (simp add: int_cast_def signed_of_nat signed_take_bit_int_eq_self)

section \<open>Arrays with checked access\<close>

definition rd :: "'a list \<Rightarrow> nat \<Rightarrow> 'a option" where
  "rd xs i = (if i < length xs then Some (xs ! i) else None)"

definition wr :: "'a list \<Rightarrow> nat \<Rightarrow> 'a \<Rightarrow> 'a list option" where
  "wr xs i v = (if i < length xs then Some (xs[i := v]) else None)"

text \<open>\<open>blit dst ofs src\<close> is \<open>memcpy(dst + ofs, src, n)\<close> for the \<open>n\<close> bytes \<open>src\<close>.\<close>

definition blit :: "'a list \<Rightarrow> nat \<Rightarrow> 'a list \<Rightarrow> 'a list option" where
  "blit dst ofs src =
     (if ofs + length src \<le> length dst
      then Some (take ofs dst @ src @ drop (ofs + length src) dst) else None)"

definition span :: "'a list \<Rightarrow> nat \<Rightarrow> nat \<Rightarrow> 'a list" where
  "span xs ofs n = take n (drop ofs xs)"

text \<open>Reading \<open>n\<close> bytes at an offset, checked.\<close>

definition slice :: "bytes \<Rightarrow> nat \<Rightarrow> nat \<Rightarrow> bytes option" where
  "slice data i n = (if i + n \<le> length data then Some (span data i n) else None)"

lemma rd_Some [simp]: "i < length xs \<Longrightarrow> rd xs i = Some (xs ! i)"
  by (simp add: rd_def)

lemma rd_eq_Some_iff: "rd xs i = Some v \<longleftrightarrow> i < length xs \<and> v = xs ! i"
  by (auto simp: rd_def)

lemma wr_Some [simp]: "i < length xs \<Longrightarrow> wr xs i v = Some (xs[i := v])"
  by (simp add: wr_def)

lemma wr_eq_Some_iff: "wr xs i v = Some ys \<longleftrightarrow> i < length xs \<and> ys = xs[i := v]"
  by (auto simp: wr_def)

lemma blit_eq_Some_iff:
  "blit dst ofs src = Some r \<longleftrightarrow>
     ofs + length src \<le> length dst \<and> r = take ofs dst @ src @ drop (ofs + length src) dst"
  by (auto simp: blit_def)

lemma length_blit: "blit dst ofs src = Some r \<Longrightarrow> length r = length dst"
  by (auto simp: blit_eq_Some_iff)

lemma take_blit: "blit dst ofs src = Some r \<Longrightarrow> take ofs r = take ofs dst"
  by (auto simp: blit_eq_Some_iff)

lemma length_span [simp]: "length (span xs ofs n) = min n (length xs - ofs)"
  by (simp add: span_def)

lemma nth_span [simp]: "i < n \<Longrightarrow> ofs + i < length xs \<Longrightarrow> span xs ofs n ! i = xs ! (ofs + i)"
  by (simp add: span_def)

lemma span_0 [simp]: "span xs 0 n = take n xs" "span xs ofs 0 = []"
  by (simp_all add: span_def)

lemma span_mid: "span (a @ x @ r) (length a) (length x) = x"
  by (simp add: span_def)

lemma take_Suc_update:
  "n < length xs \<Longrightarrow> take (Suc n) (xs[n := v]) = take n xs @ [v]"
  by (simp add: take_Suc_conv_app_nth)

lemma take_update_ge: "n \<le> i \<Longrightarrow> take n (xs[i := v]) = take n xs"
  by simp

section \<open>Byte order\<close>

text \<open>Words in memory: little endian (the host order of the program) and network order.\<close>

definition le32 :: "u32 \<Rightarrow> bytes" where
  "le32 w = [ucast w, ucast (drop_bit 8 w), ucast (drop_bit 16 w), ucast (drop_bit 24 w)]"

definition un32 :: "bytes \<Rightarrow> u32" where
  "un32 b = ucast (b ! 0) OR push_bit 8 (ucast (b ! 1)) OR push_bit 16 (ucast (b ! 2)) OR
     push_bit 24 (ucast (b ! 3))"

definition be16 :: "u16 \<Rightarrow> bytes" where
  "be16 w = [ucast (drop_bit 8 w), ucast w]"

definition unbe16 :: "bytes \<Rightarrow> u16" where
  "unbe16 b = push_bit 8 (ucast (b ! 0)) OR ucast (b ! 1)"

definition be32 :: "u32 \<Rightarrow> bytes" where
  "be32 w = [ucast (drop_bit 24 w), ucast (drop_bit 16 w), ucast (drop_bit 8 w), ucast w]"

definition unbe32 :: "bytes \<Rightarrow> u32" where
  "unbe32 b = push_bit 24 (ucast (b ! 0)) OR push_bit 16 (ucast (b ! 1)) OR push_bit 8 (ucast (b ! 2)) OR
     ucast (b ! 3)"

lemma word32_bytes:
  fixes n :: nat
  assumes "n < LENGTH(32)"
  obtains "n < 8" | "8 \<le> n" "n < 16" | "16 \<le> n" "n < 24" | "24 \<le> n" "n < 32"
  using assms by fastforce

lemma un32_le32 [simp]: "un32 (le32 w) = w"
proof (rule bit_word_eqI)
  fix n assume "n < LENGTH(32)"
  then show "bit (un32 (le32 w)) n = bit w n"
    by (cases rule: word32_bytes) (auto simp: un32_def le32_def bit_simps)
qed

lemma unbe32_be32 [simp]: "unbe32 (be32 w) = w"
proof (rule bit_word_eqI)
  fix n assume "n < LENGTH(32)"
  then show "bit (unbe32 (be32 w)) n = bit w n"
    by (cases rule: word32_bytes) (auto simp: unbe32_def be32_def bit_simps)
qed

lemma unbe16_be16 [simp]: "unbe16 (be16 w) = w"
proof (rule bit_word_eqI)
  fix n assume "n < LENGTH(16)"
  then consider "n < 8" | "8 \<le> n" "n < 16" by fastforce
  then show "bit (unbe16 (be16 w)) n = bit w n"
    by cases (auto simp: unbe16_def be16_def bit_simps)
qed

lemma word_bytes_length [simp]: "length (le32 w) = 4" "length (be32 w) = 4" "length (be16 v) = 2"
  by (simp_all add: le32_def be32_def be16_def)

section \<open>Strings\<close>

text \<open>The bytes of a C string literal, without its terminating zero.\<close>

definition bs :: "string \<Rightarrow> bytes" where
  "bs s = map of_char s"

lemma bs_simps [simp]: "bs [] = []" "bs (c # cs) = of_char c # bs cs"
  by (simp_all add: bs_def)

lemma length_bs [simp]: "length (bs s) = length s"
  by (simp add: bs_def)

text \<open>\<open>strlen\<close> of the memory at a pointer: the bytes before the first zero.\<close>

definition cstr :: "bytes \<Rightarrow> bytes" where
  "cstr xs = takeWhile (\<lambda>c. c \<noteq> 0) xs"

section \<open>Decimal numbers\<close>

definition is_digit :: "u8 \<Rightarrow> bool" where
  "is_digit c \<longleftrightarrow> 48 \<le> c \<and> c \<le> 57"

definition digit_val :: "u8 \<Rightarrow> nat" where
  "digit_val c = unat c - 48"

definition digit_char :: "nat \<Rightarrow> u8" where
  "digit_char d = 48 + word_of_nat d"

definition digits_val :: "bytes \<Rightarrow> nat" where
  "digits_val ds = foldl (\<lambda>a c. 10 * a + digit_val c) 0 ds"

fun dec_of :: "nat \<Rightarrow> bytes" where
  "dec_of n = (if n < 10 then [digit_char n] else dec_of (n div 10) @ [digit_char (n mod 10)])"

declare dec_of.simps [simp del]

lemma digit_cases: "d < 10 \<Longrightarrow> d = 0 \<or> d = 1 \<or> d = 2 \<or> d = 3 \<or> d = 4 \<or> d = 5 \<or> d = 6 \<or> d = 7 \<or> d = 8 \<or> d = (9 :: nat)"
  by auto

lemma digit_char_props [simp]:
  assumes "d < 10"
  shows "is_digit (digit_char d)" "digit_val (digit_char d) = d"
  using digit_cases [OF assms] by (elim disjE; simp add: is_digit_def digit_val_def digit_char_def)+

lemma is_digit_cases:
  assumes "is_digit c"
  shows "c = 48 \<or> c = 49 \<or> c = 50 \<or> c = 51 \<or> c = 52 \<or> c = 53 \<or> c = 54 \<or> c = 55 \<or> c = 56 \<or> c = 57"
proof -
  have "48 \<le> unat c" "unat c \<le> 57" using assms by (auto simp: is_digit_def word_le_nat_alt)
  moreover have "48 \<le> n \<Longrightarrow> n \<le> 57 \<Longrightarrow> n = 48 \<or> n = 49 \<or> n = 50 \<or> n = 51 \<or> n = 52 \<or>
      n = 53 \<or> n = 54 \<or> n = 55 \<or> n = 56 \<or> n = 57" for n :: nat
    by presburger
  ultimately have "unat c = 48 \<or> unat c = 49 \<or> unat c = 50 \<or> unat c = 51 \<or> unat c = 52 \<or>
      unat c = 53 \<or> unat c = 54 \<or> unat c = 55 \<or> unat c = 56 \<or> unat c = 57"
    by blast
  then show ?thesis by (simp add: word_inject(3) [symmetric])
qed

lemma digit_sint: "is_digit c \<Longrightarrow> 48 \<le> sint c \<and> sint c \<le> 57 \<and> sint c - 48 = int (digit_val c)"
  by (drule is_digit_cases) (elim disjE; simp add: digit_val_def)

lemma digits_val_snoc [simp]: "digits_val (ds @ [c]) = 10 * digits_val ds + digit_val c"
  by (simp add: digits_val_def)

lemma dec_of_props:
  "dec_of n \<noteq> [] \<and> (\<forall>c \<in> set (dec_of n). is_digit c) \<and> digits_val (dec_of n) = n"
proof (induction n rule: dec_of.induct)
  case (1 n)
  then show ?case
    by (cases "n < 10") (auto simp: dec_of.simps [of n] digits_val_def)
qed

lemma takeWhile_digits:
  "\<not> is_digit c \<Longrightarrow> takeWhile is_digit (dec_of n @ c # r) = dec_of n"
  "takeWhile is_digit (dec_of n) = dec_of n"
  using dec_of_props [of n] by (simp_all add: takeWhile_append)

lemma hd_dec_of: "is_digit (hd (dec_of n @ r))"
  using dec_of_props [of n] by (cases "dec_of n") auto

section \<open>Interfaces\<close>

text \<open>
  A codec: a decoder that inverts an encoder on the valid values.  The prefix codec decodes the
  first message of a byte stream and says how many bytes it took; decoding is then unambiguous
  on concatenations, and reading a stream message by message returns the messages sent.
\<close>

locale codec =
  fixes enc :: "'a \<Rightarrow> bytes"
    and dec :: "bytes \<Rightarrow> 'a option"
    and valid :: "'a \<Rightarrow> bool"
  assumes dec_enc: "valid x \<Longrightarrow> dec (enc x) = Some x"
begin

lemma enc_inject: "valid x \<Longrightarrow> valid y \<Longrightarrow> enc x = enc y \<longleftrightarrow> x = y"
  by (metis dec_enc option.inject)

lemma dec_unique: "valid x \<Longrightarrow> dec b = Some y \<Longrightarrow> y \<noteq> x \<Longrightarrow> b \<noteq> enc x"
  using dec_enc by force

end

fun read_stream :: "(bytes \<Rightarrow> ('a \<times> nat) option) \<Rightarrow> nat \<Rightarrow> bytes \<Rightarrow> 'a list \<times> bytes" where
  "read_stream dec 0 b = ([], b)"
| "read_stream dec (Suc fuel) b =
     (case dec b of
        None \<Rightarrow> ([], b)
      | Some (x, n) \<Rightarrow> let (xs, r) = read_stream dec fuel (drop n b) in (x # xs, r))"

locale prefix_codec =
  fixes enc :: "'a \<Rightarrow> bytes"
    and dec :: "bytes \<Rightarrow> ('a \<times> nat) option"
    and valid :: "'a \<Rightarrow> bool"
  assumes dec_enc_append: "valid x \<Longrightarrow> dec (enc x @ rest) = Some (x, length (enc x))"
begin

lemma prefix_free:
  assumes "valid x" "valid y" "enc x @ r = enc y @ s"
  shows "x = y \<and> r = s"
proof -
  from assms have "Some (x, length (enc x)) = Some (y, length (enc y))"
    by (metis dec_enc_append)
  with assms(3) show ?thesis by auto
qed

lemma read_stream_concat:
  assumes "\<forall>x \<in> set xs. valid x" and "dec rest = None" and "length xs < fuel"
  shows "read_stream dec fuel (concat (map enc xs) @ rest) = (xs, rest)"
  using assms
proof (induction xs arbitrary: fuel)
  case Nil
  then show ?case by (cases fuel) auto
next
  case (Cons x xs)
  then obtain f where f: "fuel = Suc f" by (cases fuel) auto
  with Cons show ?case
    by (simp add: dec_enc_append)
qed

end

sublocale prefix_codec \<subseteq> whole: codec enc
    "\<lambda>b. case dec b of None \<Rightarrow> None | Some (x, n) \<Rightarrow> if n = length b then Some x else None" valid
  using dec_enc_append [of _ "[]"] by unfold_locales simp

end
