(* ===== verification/Mg_Iobuf.thy ===== *)
theory Mg_Iobuf
  imports Prelude
begin

text \<open>
  \<open>src/iobuf.c\<close>: the growing byte buffers behind every connection's \<open>recv\<close> and \<open>send\<close>.  The
  heap is a parameter: \<open>alloc n\<close> says whether \<open>calloc(1, n)\<close> succeeds.  \<open>None\<close> as a result is
  an access outside the block; sizes are taken to stay far below \<open>SIZE_MAX\<close>.
\<close>

section \<open>The code\<close>

record mg_iobuf =
  buf :: "bytes option"
  size :: nat
  len :: nat
  align :: nat

definition roundup :: "nat \<Rightarrow> nat \<Rightarrow> nat" where
  "roundup n a = (if a = 0 then n else (n + a - 1) div a * a)"

text \<open>\<open>memmove(io->buf + dst, io->buf + src, n)\<close> inside one block.\<close>

definition move_in :: "bytes option \<Rightarrow> nat \<Rightarrow> nat \<Rightarrow> nat \<Rightarrow> bytes option option" where
  "move_in b dst src n =
     (if n = 0 then Some b
      else case b of None \<Rightarrow> None
           | Some m \<Rightarrow> if src + n \<le> length m then map_option Some (blit m dst (span m src n)) else None)"

definition copy_in :: "bytes option \<Rightarrow> nat \<Rightarrow> bytes \<Rightarrow> bytes option option" where
  "copy_in b dst data =
     (if data = [] then Some b
      else case b of None \<Rightarrow> None | Some m \<Rightarrow> map_option Some (blit m dst data))"

definition mg_iobuf_resize :: "(nat \<Rightarrow> bool) \<Rightarrow> mg_iobuf \<Rightarrow> nat \<Rightarrow> (bool \<times> mg_iobuf) option" where
  "mg_iobuf_resize alloc io new_size =
     (let new_size = roundup new_size (align io) in
      if new_size = 0 then Some (True, io\<lparr>buf := None, len := 0, size := 0\<rparr>)
      else if new_size \<noteq> size io then
        (if alloc new_size then do {
           let n = (if new_size < len io then new_size else len io);
           p \<leftarrow> (if n > 0 \<and> buf io \<noteq> None then blit (replicate new_size 0) 0 (take n (the (buf io)))
                else Some (replicate new_size 0));
           Some (True, io\<lparr>buf := Some p, size := new_size\<rparr>) }
         else Some (False, io))
      else Some (True, io))"

definition mg_iobuf_init :: "(nat \<Rightarrow> bool) \<Rightarrow> nat \<Rightarrow> nat \<Rightarrow> (bool \<times> mg_iobuf) option" where
  "mg_iobuf_init alloc sz al = mg_iobuf_resize alloc \<lparr>buf = None, size = 0, len = 0, align = al\<rparr> sz"

text \<open>
  \<open>Inl n\<close> is a null source with the length \<open>n\<close>: the caller only reserves space.  The result is
  the number of bytes added and the buffer.
\<close>

definition mg_iobuf_add ::
  "(nat \<Rightarrow> bool) \<Rightarrow> mg_iobuf \<Rightarrow> nat \<Rightarrow> nat + bytes \<Rightarrow> (nat \<times> mg_iobuf) option" where
  "mg_iobuf_add alloc io ofs src =
     (let n = (case src of Inl n \<Rightarrow> n | Inr data \<Rightarrow> length data);
          new_size = roundup (len io + n) (align io)
      in do {
        (ok, io) \<leftarrow> mg_iobuf_resize alloc io new_size;
        let n = (if new_size \<noteq> size io then 0 else n);
        b \<leftarrow> (if ofs < len io then move_in (buf io) (ofs + n) ofs (len io - ofs) else Some (buf io));
        b \<leftarrow> (case src of Inl _ \<Rightarrow> Some b | Inr data \<Rightarrow> copy_in b ofs (take n data));
        let l = (if ofs > len io then ofs else len io);
        Some (n, io\<lparr>buf := b, len := l + n\<rparr>) })"

definition mg_iobuf_del :: "mg_iobuf \<Rightarrow> nat \<Rightarrow> nat \<Rightarrow> (nat \<times> mg_iobuf) option" where
  "mg_iobuf_del io ofs n =
     (let ofs = (if ofs > len io then len io else ofs);
          n = (if ofs + n > len io then len io - ofs else n)
      in do {
        b \<leftarrow> (if buf io \<noteq> None then move_in (buf io) ofs (ofs + n) (len io - ofs - n) else Some None);
        b \<leftarrow> copy_in b (len io - n) (if b = None then [] else replicate n 0);
        Some (n, io\<lparr>buf := b, len := len io - n\<rparr>) })"

definition mg_iobuf_free :: "mg_iobuf \<Rightarrow> (bool \<times> mg_iobuf) option" where
  "mg_iobuf_free io = mg_iobuf_resize (\<lambda>_. False) io 0"

section \<open>Well-formed buffers\<close>

definition iobuf_wf :: "mg_iobuf \<Rightarrow> bool" where
  "iobuf_wf io \<longleftrightarrow> len io \<le> size io \<and>
     (case buf io of None \<Rightarrow> size io = 0 | Some b \<Rightarrow> length b = size io)"

definition content :: "mg_iobuf \<Rightarrow> bytes" where
  "content io = (case buf io of None \<Rightarrow> [] | Some b \<Rightarrow> take (len io) b)"

lemma length_content [simp]: "iobuf_wf io \<Longrightarrow> length (content io) = len io"
  by (auto simp: iobuf_wf_def content_def split: option.splits)

lemma roundup_ge: "n \<le> roundup n a"
proof (cases "a = 0")
  case False
  have "n + a - 1 = (n + a - 1) div a * a + (n + a - 1) mod a" by simp
  moreover have "(n + a - 1) mod a < a" using False by simp
  ultimately have "n \<le> (n + a - 1) div a * a" using False by linarith
  then show ?thesis using False by (simp add: roundup_def)
qed (simp add: roundup_def)

lemma roundup_idem [simp]: "roundup (roundup n a) a = roundup n a"
proof (cases "a = 0")
  case False
  then obtain m where m: "a = Suc m" by (cases a) auto
  have "q * a + a - 1 = m + q * Suc m" for q by (simp add: m)
  then have "(q * a + a - 1) div a = q" for q
    unfolding m by (simp only:, subst div_mult_self1) simp_all
  with False show ?thesis by (simp add: roundup_def)
qed (simp add: roundup_def)

lemma resize_ok:
  assumes "iobuf_wf io" "len io \<le> n"
  shows "\<exists>ok io'. mg_iobuf_resize alloc io n = Some (ok, io') \<and> iobuf_wf io' \<and>
     content io' = content io \<and> len io' = len io \<and> align io' = align io \<and>
     (size io' = roundup n (align io) \<or> size io' = size io)"
proof -
  let ?r = "roundup n (align io)"
  have ge: "len io \<le> ?r" using roundup_ge [of n "align io"] assms(2) by simp
  consider "?r = 0" | "?r \<noteq> 0" "?r = size io" | "?r \<noteq> 0" "?r \<noteq> size io" "\<not> alloc ?r"
    | "?r \<noteq> 0" "?r \<noteq> size io" "alloc ?r" by blast
  then show ?thesis
  proof cases
    case 4
    show ?thesis
    proof (cases "buf io")
      case None
      then have "len io = 0" using assms(1) by (auto simp: iobuf_wf_def)
      with None 4 ge show ?thesis
        by (auto simp: mg_iobuf_resize_def Let_def iobuf_wf_def content_def)
    next
      case (Some b)
      then have b: "length b = size io" "len io \<le> size io" using assms(1) by (auto simp: iobuf_wf_def)
      let ?p = "take (len io) b @ replicate (?r - len io) 0"
      have "(if (if ?r < len io then ?r else len io) > 0 \<and> buf io \<noteq> None
          then blit (replicate ?r 0) 0 (take (if ?r < len io then ?r else len io) (the (buf io)))
          else Some (replicate ?r 0)) = Some ?p"
        using Some ge b by (auto simp: blit_def min_absorb2)
      then have "mg_iobuf_resize alloc io n = Some (True, io\<lparr>buf := Some ?p, size := ?r\<rparr>)"
        using 4 by (simp add: mg_iobuf_resize_def Let_def)
      with Some ge b show ?thesis
        by (intro exI [of _ True] exI) (auto simp: iobuf_wf_def content_def)
    qed
  qed (use assms ge in \<open>auto simp: mg_iobuf_resize_def Let_def iobuf_wf_def content_def split: option.splits\<close>)
qed

lemma iobuf_add_spec:
  assumes "iobuf_wf io" "ofs \<le> len io"
  shows "\<exists>n io'. mg_iobuf_add alloc io ofs (Inr data) = Some (n, io') \<and> iobuf_wf io' \<and> (n = 0 \<or> n = length data) \<and>
     content io' = take ofs (content io) @ take n data @ drop ofs (content io) \<and> align io' = align io"
proof -
  let ?r = "roundup (len io + length data) (align io)"
  have ge: "len io + length data \<le> ?r" by (rule roundup_ge)
  then obtain ok io1 where r: "mg_iobuf_resize alloc io ?r = Some (ok, io1)" "iobuf_wf io1"
      "content io1 = content io" "len io1 = len io" "align io1 = align io"
    using resize_ok [OF assms(1), of ?r alloc] by auto
  define n where "n = (if ?r \<noteq> size io1 then 0 else length data)"
  have n: "n = 0 \<or> n = length data" "len io + n \<le> size io1"
    using r ge by (auto simp: n_def iobuf_wf_def)
  show ?thesis
  proof (cases "buf io1")
    case None
    then have z: "size io1 = 0" "len io = 0" "n = 0" using r n(2) by (auto simp: iobuf_wf_def)
    with assms(2) have "mg_iobuf_add alloc io ofs (Inr data) = Some (0, io1\<lparr>buf := None, len := 0\<rparr>)"
      using r(1,4) None ge z by (auto simp: mg_iobuf_add_def Let_def copy_in_def)
    then show ?thesis
      using z None r assms by (auto simp: iobuf_wf_def content_def split: option.splits)
  next
    case (Some b)
    then have b: "length b = size io1" using r(2) by (simp add: iobuf_wf_def)
    define m where "m = len io - ofs"
    have c: "content io = take (len io) b" using r(3,4) Some by (simp add: content_def)
    define b2 where "b2 = take (ofs + n) b @ span b ofs m @ drop (len io + n) b"
    define b3 where "b3 = take ofs b2 @ take n data @ drop (ofs + n) b2"
    have lb: "length b2 = length b" using n(2) b assms(2) by (simp add: b2_def m_def)
    have 1: "ofs < len io \<Longrightarrow> move_in (Some b) (ofs + n) ofs (len io - ofs) = Some (Some b2)"
      using n(2) b r(4) by (auto simp: move_in_def blit_def m_def b2_def ac_simps)
    have e: "ofs = len io \<Longrightarrow> b2 = b"
      using n(2) b by (simp add: b2_def m_def)
    have 2: "copy_in (Some b2) ofs (take n data) = Some (Some b3)"
      using n lb b assms(2) by (auto simp: copy_in_def blit_def b3_def)
    have add: "mg_iobuf_add alloc io ofs (Inr data) = Some (n, io1\<lparr>buf := Some b3, len := len io + n\<rparr>)"
      using r(1,4) assms(2) 1 e 2 Some
      by (cases "ofs = len io") (auto simp: mg_iobuf_add_def Let_def n_def [symmetric])
    have l3: "length b3 = length b" using lb n b assms(2) by (auto simp: b3_def)
    have "take (len io + n) b3 = take ofs b @ take n data @ take m (drop ofs b)"
      using n b assms(2) by (auto simp: b3_def b2_def m_def span_def min_absorb1 min_absorb2)
    also have "\<dots> = take ofs (content io) @ take n data @ drop ofs (content io)"
      using assms(2) by (simp add: c m_def min_absorb1 drop_take)
    finally show ?thesis
      using add r n b l3 Some by (simp add: iobuf_wf_def content_def)
  qed
qed

lemma iobuf_del_spec:
  assumes "iobuf_wf io"
  shows "\<exists>n io'. mg_iobuf_del io ofs k = Some (n, io') \<and> iobuf_wf io' \<and> size io' = size io \<and>
     content io' = take ofs (content io) @ drop (ofs + k) (content io) \<and> len io' = len io - n"
proof (cases "buf io")
  case None
  with assms show ?thesis
    by (auto simp: mg_iobuf_del_def Let_def copy_in_def iobuf_wf_def content_def)
next
  case (Some b)
  define o' where "o' = (if ofs > len io then len io else ofs)"
  define n where "n = (if o' + k > len io then len io - o' else k)"
  define m where "m = len io - o' - n"
  have b: "length b = size io" "len io \<le> size io" using Some assms by (auto simp: iobuf_wf_def)
  have o: "o' + n + m = len io" by (auto simp: o'_def n_def m_def)
  define b2 where "b2 = take o' b @ span b (o' + n) m @ drop (o' + m) b"
  have l2: "length b2 = length b" using o b by (simp add: b2_def)
  have "move_in (Some b) o' (o' + n) m = Some (Some b2)"
    using o b by (cases "m = 0") (auto simp: move_in_def blit_def b2_def)
  then have 1: "move_in (Some b) o' (o' + n) (len io - o' - n) = Some (Some b2)"
    by (simp only: m_def)
  have 2: "copy_in (Some b2) (len io - n) (replicate n 0) =
      Some (Some (take (len io - n) b2 @ replicate n 0 @ drop (len io) b2))"
    using o b l2 by (auto simp: copy_in_def blit_def)
  define b3 where "b3 = take (len io - n) b2 @ replicate n 0 @ drop (len io) b2"
  have del: "mg_iobuf_del io ofs k = Some (n, io\<lparr>buf := Some b3, len := len io - n\<rparr>)"
    using Some 1 2 by (simp add: mg_iobuf_del_def Let_def flip: o'_def n_def b3_def)
  have b3: "length b3 = length b" "take (len io - n) b3 = take (len io - n) b2"
    using l2 b o by (simp_all add: b3_def)
  have c: "content (io\<lparr>buf := Some b3, len := len io - n\<rparr>) = take (len io - n) b2"
    using b3 by (simp add: content_def)
  have "take (len io - n) b2 = take o' b @ span b (o' + n) m"
    using o b by (auto simp: b2_def)
  also have "\<dots> = take ofs (take (len io) b) @ drop (ofs + k) (take (len io) b)"
    using o b by (auto simp: o'_def n_def m_def span_def drop_take min_def split: if_splits)
  finally have "content (io\<lparr>buf := Some b3, len := len io - n\<rparr>) = take ofs (content io) @ drop (ofs + k) (content io)"
    using c Some by (simp add: content_def)
  moreover have "iobuf_wf (io\<lparr>buf := Some b3, len := len io - n\<rparr>)"
    using b b3 by (simp add: iobuf_wf_def)
  ultimately show ?thesis using del by auto
qed

section \<open>Buffers as byte streams\<close>

text \<open>
  The contract the connection code relies on: bytes are appended at the end, all or none of
  them, and consumed at the front.
\<close>

datatype stream_op = Append bytes | Consume nat

locale byte_stream =
  fixes inv :: "'s \<Rightarrow> bool"
    and bytes_of :: "'s \<Rightarrow> bytes"
    and append :: "'s \<Rightarrow> bytes \<Rightarrow> (nat \<times> 's) option"
    and consume :: "'s \<Rightarrow> nat \<Rightarrow> 's option"
  assumes append_law: "inv s \<Longrightarrow> \<exists>n s'. append s d = Some (n, s') \<and> inv s' \<and>
            bytes_of s' = bytes_of s @ take n d \<and> (n = 0 \<or> n = length d)"
    and consume_law: "inv s \<Longrightarrow> \<exists>s'. consume s n = Some s' \<and> inv s' \<and> bytes_of s' = drop n (bytes_of s)"
begin

text \<open>A run: the bytes taken out, the bytes accepted, the last state.\<close>

fun run :: "'s \<Rightarrow> stream_op list \<Rightarrow> (bytes \<times> bytes \<times> 's) option" where
  "run s [] = Some ([], [], s)"
| "run s (Append d # ops) = do {
     (n, s') \<leftarrow> append s d;
     (out, acc, s'') \<leftarrow> run s' ops;
     Some (out, take n d @ acc, s'') }"
| "run s (Consume n # ops) = do {
     s' \<leftarrow> consume s n;
     (out, acc, s'') \<leftarrow> run s' ops;
     Some (take n (bytes_of s) @ out, acc, s'') }"

lemma run_fifo:
  "inv s \<Longrightarrow> \<exists>out acc s'. run s ops = Some (out, acc, s') \<and> inv s' \<and>
     out @ bytes_of s' = bytes_of s @ acc"
proof (induction ops arbitrary: s)
  case (Cons p ops)
  show ?case
  proof (cases p)
    case (Append d)
    obtain n s' where s': "append s d = Some (n, s')" "inv s'" "bytes_of s' = bytes_of s @ take n d"
      using append_law [OF Cons.prems, of d] by blast
    with Cons.IH [OF s'(2)] show ?thesis by (auto simp: Append)
  next
    case (Consume n)
    obtain s' where s': "consume s n = Some s'" "inv s'" "bytes_of s' = drop n (bytes_of s)"
      using consume_law [OF Cons.prems, of n] by blast
    with Cons.IH [OF s'(2)] show ?thesis
      by (auto simp: Consume)
  qed
qed simp

end

definition iobuf_append :: "(nat \<Rightarrow> bool) \<Rightarrow> mg_iobuf \<Rightarrow> bytes \<Rightarrow> (nat \<times> mg_iobuf) option" where
  "iobuf_append alloc io d = mg_iobuf_add alloc io (len io) (Inr d)"

definition iobuf_consume :: "mg_iobuf \<Rightarrow> nat \<Rightarrow> mg_iobuf option" where
  "iobuf_consume io n = map_option snd (mg_iobuf_del io 0 n)"

interpretation io: byte_stream iobuf_wf content "iobuf_append alloc" iobuf_consume for alloc
proof
  fix s d assume "iobuf_wf s"
  from iobuf_add_spec [OF this order_refl, of alloc d] this
  show "\<exists>n s'. iobuf_append alloc s d = Some (n, s') \<and> iobuf_wf s' \<and>
      content s' = content s @ take n d \<and> (n = 0 \<or> n = length d)"
    by (auto simp: iobuf_append_def)
next
  fix s n assume "iobuf_wf s"
  from iobuf_del_spec [OF this, of 0 n]
  show "\<exists>s'. iobuf_consume s n = Some s' \<and> iobuf_wf s' \<and> content s' = drop n (content s)"
    by (auto simp: iobuf_consume_def)
qed

text \<open>
  Inserting into and deleting from a well-formed buffer at any position inside its contents
  never touches memory outside the block, whether or not the allocation succeeds; the contents
  change exactly as specified or, when memory is short, not at all, and the buffer stays
  well-formed.
\<close>

theorem mg_iobuf_correct:
  assumes "iobuf_wf io" "ofs \<le> len io"
  shows "(\<exists>n io'. mg_iobuf_add alloc io ofs (Inr data) = Some (n, io') \<and> iobuf_wf io' \<and>
            (n = 0 \<or> n = length data) \<and>
            content io' = take ofs (content io) @ take n data @ drop ofs (content io)) \<and>
         (\<exists>n io'. mg_iobuf_del io ofs k = Some (n, io') \<and> iobuf_wf io' \<and>
            content io' = take ofs (content io) @ drop (ofs + k) (content io))"
  using iobuf_add_spec [OF assms, of alloc data] iobuf_del_spec [OF assms(1), of ofs k] by auto

theorem mg_iobuf_correct_witness:
  "\<exists>n io'. mg_iobuf_add (\<lambda>_. True) \<lparr>buf = Some [1, 2, 3, 0], size = 4, len = 3, align = 4\<rparr> 1 (Inr [9, 9]) = Some (n, io') \<and>
     (n = 0 \<or> n = 2) \<and> content io' = [1] @ take n [9, 9] @ [2, 3]"
  using mg_iobuf_correct [of "\<lparr>buf = Some [1, 2, 3, 0], size = 4, len = 3, align = 4\<rparr>" 1 "\<lambda>_. True" "[9, 9]" 0]
  by (auto simp: iobuf_wf_def content_def)

text \<open>
  C33.  A connection buffer is a byte stream: over any sequence of appends (some refused for lack
  of memory) and consumptions, no operation faults and the bytes read out followed by the bytes
  still buffered are the bytes accepted, in order: nothing lost, duplicated or reordered.
\<close>

theorem mg_iobuf_stream:
  "iobuf_wf io \<Longrightarrow> \<exists>out acc io'. io.run alloc io ops = Some (out, acc, io') \<and> iobuf_wf io' \<and>
     out @ content io' = content io @ acc"
  by (rule io.run_fifo)

theorem mg_iobuf_stream_witness:
  "\<exists>out acc io'. io.run (\<lambda>n. n < 100) \<lparr>buf = None, size = 0, len = 0, align = 16\<rparr>
     [Append [1, 2], Append [3], Consume 2] = Some (out, acc, io') \<and> out @ content io' = acc"
proof -
  have "iobuf_wf \<lparr>buf = None, size = 0, len = 0, align = 16\<rparr>"
    "content \<lparr>buf = None, size = 0, len = 0, align = 16\<rparr> = []"
    by (simp_all add: iobuf_wf_def content_def)
  from mg_iobuf_stream [OF this(1), of "\<lambda>n. n < 100" "[Append [1, 2], Append [3], Consume 2]"]
    this(2) show ?thesis by (simp del: io.run.simps) blast
qed

text \<open>
  Two uses the code does not guard against: shrinking below the stored length keeps \<open>len\<close>, so
  it ends up larger than \<open>size\<close>, and adding beyond the end sizes the block from \<open>len\<close> alone.
\<close>

lemma mg_iobuf_shrink_breaks_wf:
  "\<exists>io'. mg_iobuf_resize (\<lambda>_. True) \<lparr>buf = Some [1, 2, 3], size = 3, len = 3, align = 0\<rparr> 2 = Some (True, io') \<and>
     len io' = 3 \<and> size io' = 2 \<and> \<not> iobuf_wf io'"
  by (simp add: mg_iobuf_resize_def roundup_def blit_def iobuf_wf_def)

lemma mg_iobuf_add_beyond_end:
  "mg_iobuf_add (\<lambda>_. True) \<lparr>buf = Some [1], size = 1, len = 1, align = 0\<rparr> 5 (Inr [7]) = None"
  by (simp add: mg_iobuf_add_def mg_iobuf_resize_def roundup_def blit_def copy_in_def Let_def)

end
