(* ===== verification/Mg_Str.thy ===== *)
theory Mg_Str
  imports Prelude "HOL-Library.List_Lexorder"
begin

text \<open>
  The string helpers of \<open>src/str.c\<close>: comparisons, searching, stripping, the wildcard matcher
  \<open>mg_match\<close> with its captures, the key-value splitter behind \<open>mg_split\<close> and \<open>mg_commalist\<close>,
  hexadecimal conversion and the path check.  A \<open>struct mg_str\<close> is its bytes; a
  zero-terminated string is the memory at the pointer, read with \<open>rd\<close>.
\<close>

section \<open>Comparisons\<close>

definition mg_lower :: "u8 \<Rightarrow> int" where
  "mg_lower ch = (let c = sint ch in if 65 \<le> c \<and> c \<le> 90 then c + 32 else c)"

text \<open>The \<open>do ... while\<close> loop, on the memory at \<open>s1\<close> and \<open>s2\<close>.\<close>

fun mg_ncasecmp :: "bytes \<Rightarrow> bytes \<Rightarrow> nat \<Rightarrow> int option" where
  "mg_ncasecmp s1 s2 0 = Some 0"
| "mg_ncasecmp s1 s2 (Suc len) = do {
     a \<leftarrow> rd s1 0;
     b \<leftarrow> rd s2 0;
     let diff = mg_lower a - mg_lower b;
     if diff = 0 \<and> a \<noteq> 0 \<and> len > 0 then mg_ncasecmp (tl s1) (tl s2) len else Some diff }"

definition mg_casecmp :: "bytes \<Rightarrow> bytes \<Rightarrow> int option" where
  "mg_casecmp s1 s2 = mg_ncasecmp s1 s2 (2 ^ 64 - 1)"

text \<open>The library's \<open>strncmp\<close>: bytes compared as \<open>unsigned char\<close> up to a zero or \<open>n\<close> bytes.\<close>

fun strncmp :: "bytes \<Rightarrow> bytes \<Rightarrow> nat \<Rightarrow> int option" where
  "strncmp s1 s2 0 = Some 0"
| "strncmp s1 s2 (Suc n) = do {
     a \<leftarrow> rd s1 0;
     b \<leftarrow> rd s2 0;
     if a \<noteq> b then Some (uint a - uint b)
     else if a = 0 then Some 0
     else strncmp (tl s1) (tl s2) n }"

text \<open>\<open>(int) (n1 - n2)\<close> of two lengths.\<close>

definition len_diff :: "nat \<Rightarrow> nat \<Rightarrow> int" where
  "len_diff n1 n2 = sint (word_of_int (int n1 - int n2) :: u32)"

definition mg_vcmp :: "bytes \<Rightarrow> bytes \<Rightarrow> int option" where
  "mg_vcmp s1 s2 = (let n2 = length (cstr s2); n1 = length s1 in do {
     r \<leftarrow> strncmp s1 s2 (if n1 < n2 then n1 else n2);
     Some (if r = 0 then len_diff n1 n2 else r) })"

definition mg_vcasecmp :: "bytes \<Rightarrow> bytes \<Rightarrow> int option" where
  "mg_vcasecmp s1 s2 = (let n2 = length (cstr s2); n1 = length s1 in do {
     r \<leftarrow> mg_ncasecmp s1 s2 (if n1 < n2 then n1 else n2);
     Some (if r = 0 then len_diff n1 n2 else r) })"

text \<open>\<open>alloc\<close> is whether \<open>calloc\<close> succeeds; the result is \<open>None\<close> for the null string.\<close>

definition mg_strdup :: "bool \<Rightarrow> bytes option \<Rightarrow> bytes option" where
  "mg_strdup alloc s =
     (case s of None \<Rightarrow> None | Some b \<Rightarrow> if length b > 0 \<and> alloc then Some b else None)"

fun mg_strcmp :: "bytes \<Rightarrow> bytes \<Rightarrow> int" where
  "mg_strcmp (a # s1) (b # s2) =
     (if sint a < sint b then -1 else if sint a > sint b then 1 else mg_strcmp s1 s2)"
| "mg_strcmp (a # s1) [] = 1"
| "mg_strcmp [] (b # s2) = -1"
| "mg_strcmp [] [] = 0"

section \<open>Searching and stripping\<close>

fun strstr_loop :: "nat \<Rightarrow> nat \<Rightarrow> bytes \<Rightarrow> bytes \<Rightarrow> nat option" where
  "strstr_loop 0 i h n = None"
| "strstr_loop (Suc k) i h n =
     (if span h i (length n) = n then Some i else strstr_loop k (i + 1) h n)"

text \<open>The result is the offset of the pointer into the haystack.\<close>

definition mg_strstr :: "bytes \<Rightarrow> bytes \<Rightarrow> nat option" where
  "mg_strstr haystack needle =
     (if length needle > length haystack then None
      else if length needle = 0 then Some 0
      else strstr_loop (length haystack - length needle + 1) 0 haystack needle)"

definition is_space :: "u8 \<Rightarrow> bool" where
  "is_space c \<longleftrightarrow> c = 32 \<or> c = 13 \<or> c = 10 \<or> c = 9"

fun strip_front :: "bytes \<Rightarrow> bytes" where
  "strip_front (c # s) = (if is_space c then strip_front s else c # s)"
| "strip_front [] = []"

function strip_back :: "bytes \<Rightarrow> bytes" where
  "strip_back s =
     (if length s > 0 \<and> is_space (s ! (length s - 1)) then strip_back (take (length s - 1) s) else s)"
  by pat_completeness auto
termination by (relation "measure length") auto

declare strip_back.simps [simp del]

definition mg_strstrip :: "bytes \<Rightarrow> bytes" where
  "mg_strstrip s = strip_back (strip_front s)"

section \<open>The wildcard matcher\<close>

text \<open>
  A capture is a pointer into \<open>s\<close> (or null) and a length; \<open>Some (cs, k)\<close> is the array \<open>caps\<close>
  points into and the index it has reached.  A run ends with a verdict, faults on an access
  outside the strings or the capture array, or is still running when the fuel is used up.
\<close>

type_synonym cap = "nat option \<times> nat"
type_synonym caps = "(cap list \<times> nat) option"

datatype match_result = Matched bool caps | Fault | Running

definition cap_next :: "cap list \<Rightarrow> nat \<Rightarrow> cap \<Rightarrow> caps option" where
  "cap_next cs k v = do {
     cs \<leftarrow> wr cs k v;
     cs \<leftarrow> wr cs (k + 1) (None, 0);
     Some (Some (cs, k + 1)) }"

definition cap_on_match :: "u8 \<Rightarrow> nat \<Rightarrow> caps \<Rightarrow> caps option" where
  "cap_on_match pc j caps =
     (case caps of
        None \<Rightarrow> Some None
      | Some (cs, k) \<Rightarrow>
          if pc = 63 then cap_next cs k (Some j, 1)
          else do {
            (ptr, len) \<leftarrow> rd cs k;
            case ptr of
              None \<Rightarrow> Some caps
            | Some q \<Rightarrow> if len = 0 then cap_next cs k (Some q, j - q) else Some caps })"

definition cap_on_star :: "nat \<Rightarrow> caps \<Rightarrow> caps option" where
  "cap_on_star j caps =
     (case caps of
        None \<Rightarrow> Some None
      | Some (cs, k) \<Rightarrow> do {
          (ptr, len) \<leftarrow> rd cs k;
          if ptr = None then do { cs \<leftarrow> wr cs k (Some j, 0); Some (Some (cs, k)) }
          else Some caps })"

definition cap_on_back :: "caps \<Rightarrow> caps option" where
  "cap_on_back caps =
     (case caps of
        None \<Rightarrow> Some None
      | Some (cs, k) \<Rightarrow> do {
          (ptr, len) \<leftarrow> rd cs k;
          if ptr = None \<and> len = 0 then
            (if k = 0 then None
             else do {
               (q, l) \<leftarrow> rd cs (k - 1);
               cs \<leftarrow> wr cs (k - 1) (q, 0);
               Some (Some (cs, k - 1)) })
          else Some caps })"

definition cap_on_end :: "nat \<Rightarrow> caps \<Rightarrow> caps option" where
  "cap_on_end j caps =
     (case caps of
        None \<Rightarrow> Some None
      | Some (cs, k) \<Rightarrow> do {
          (ptr, len) \<leftarrow> rd cs k;
          case ptr of
            Some q \<Rightarrow>
              if len = 0 then do { cs \<leftarrow> wr cs k (Some q, j - q); Some (Some (cs, k)) } else Some caps
          | None \<Rightarrow> Some caps })"

text \<open>
  The loop, on the memory \<open>sm\<close> at \<open>s.ptr\<close> and the length \<open>sl\<close>: the test before a backtrack
  reads \<open>s.ptr[j]\<close> even when \<open>j = s.len\<close>.
\<close>

fun match_loop :: "nat \<Rightarrow> bytes \<Rightarrow> nat \<Rightarrow> bytes \<Rightarrow> caps \<Rightarrow> nat \<Rightarrow> nat \<Rightarrow> nat \<Rightarrow> nat \<Rightarrow> match_result" where
  "match_loop 0 sm sl p caps i j ni nj = Running"
| "match_loop (Suc fuel) sm sl p caps i j ni nj =
     (if i < length p \<or> j < sl then
        if i < length p \<and> j < sl \<and> (p ! i = 63 \<or> sm ! j = p ! i) then
          (case cap_on_match (p ! i) j caps of
             None \<Rightarrow> Fault
           | Some caps \<Rightarrow> match_loop fuel sm sl p caps (i + 1) (j + 1) ni nj)
        else if i < length p \<and> (p ! i = 42 \<or> p ! i = 35) then
          (case cap_on_star j caps of
             None \<Rightarrow> Fault
           | Some caps \<Rightarrow> match_loop fuel sm sl p caps (i + 1) j i (j + 1))
        else if nj > 0 \<and> nj \<le> sl then
          (if p ! ni = 35 then
             (case cap_on_back caps of
                None \<Rightarrow> Fault
              | Some caps \<Rightarrow> match_loop fuel sm sl p caps ni nj ni nj)
           else
             (case rd sm j of
                None \<Rightarrow> Fault
              | Some c \<Rightarrow>
                  if c \<noteq> 47 then
                    (case cap_on_back caps of
                       None \<Rightarrow> Fault
                     | Some caps \<Rightarrow> match_loop fuel sm sl p caps ni nj ni nj)
                  else Matched False caps))
        else Matched False caps
      else
        (case cap_on_end j caps of None \<Rightarrow> Fault | Some caps \<Rightarrow> Matched True caps))"

definition mg_match :: "nat \<Rightarrow> bytes \<Rightarrow> nat \<Rightarrow> bytes \<Rightarrow> cap list option \<Rightarrow> match_result" where
  "mg_match fuel sm sl p caps =
     (case caps of
        None \<Rightarrow> match_loop fuel sm sl p None 0 0 0 0
      | Some cs \<Rightarrow>
          (case wr cs 0 (None, 0) of
             None \<Rightarrow> Fault
           | Some cs \<Rightarrow> match_loop fuel sm sl p (Some (cs, 0)) 0 0 0 0))"

definition mg_globmatch :: "nat \<Rightarrow> bytes \<Rightarrow> bytes \<Rightarrow> nat \<Rightarrow> match_result" where
  "mg_globmatch fuel s1 sm n2 = mg_match fuel sm n2 s1 None"

subsection \<open>What a pattern means\<close>

text \<open>\<open>?\<close> stands for one character, \<open>#\<close> for any sequence of characters.\<close>

fun glob :: "bytes \<Rightarrow> bytes \<Rightarrow> bool" where
  "glob [] s \<longleftrightarrow> s = []"
| "glob (c # p) s \<longleftrightarrow>
     (if c = 35 then \<exists>n \<le> length s. glob p (drop n s)
      else s \<noteq> [] \<and> (c = 63 \<or> hd s = c) \<and> glob p (tl s))"

lemma glob_literals:
  "35 \<notin> set m \<Longrightarrow> glob (m @ q) s \<Longrightarrow> length m \<le> length s \<and> glob q (drop (length m) s)"
proof (induction m arbitrary: s)
  case (Cons c m)
  then obtain d t where s: "s = d # t" by (cases s) auto
  with Cons show ?case by auto
qed simp

lemma glob_hash_mono:
  assumes "glob (35 # q) (drop k s)" "j \<le> k" "j \<le> length s"
  shows "glob (35 # q) (drop j s)"
proof (cases "k \<le> length s")
  case True
  from assms(1) obtain n where n: "n \<le> length s - k" "glob q (drop (n + k) s)" by auto
  then have "n + (k - j) \<le> length s - j" "glob q (drop (n + (k - j) + j) s)"
    using True assms(2) by (simp, simp)
  then show ?thesis by auto
next
  case False
  then have "drop k s = []" by simp
  with assms(1) have "glob q []" by simp
  with assms(3) show ?thesis by (auto intro!: exI [of _ "length s - j"])
qed

lemma glob_restart:
  assumes "glob (35 # m @ 35 # q) (drop a s)" "35 \<notin> set m" "a \<le> length s" "j \<le> a + length m" "j \<le> length s"
  shows "glob (35 # q) (drop j s)"
proof -
  from assms(1) obtain n where n: "n \<le> length s - a" "glob (m @ 35 # q) (drop (n + a) s)"
    by auto
  from glob_literals [OF assms(2) n(2)]
  have "glob (35 # q) (drop (length m + (n + a)) s)" by (simp only: drop_drop)
  then show ?thesis by (rule glob_hash_mono) (use assms in simp_all)
qed

lemma glob_nil: "s \<noteq> [] \<Longrightarrow> \<not> glob [] s" by simp

subsection \<open>The matcher implements the meaning\<close>

text \<open>
  The state of the loop: \<open>ni\<close> is the last wildcard seen and \<open>nj\<close> where its next attempt starts;
  between them the pattern has literals only, matched against the same number of characters.
\<close>

definition match_inv :: "nat \<Rightarrow> bytes \<Rightarrow> nat \<Rightarrow> nat \<Rightarrow> nat \<Rightarrow> nat \<Rightarrow> bool" where
  "match_inv sl p i j ni nj \<longleftrightarrow> i \<le> length p \<and> j \<le> sl \<and> (nj > 0 \<longrightarrow>
     ni < length p \<and> p ! ni = 35 \<and> nj \<le> sl + 1 \<and>
     (i = ni \<and> j = nj \<or>
      ni < i \<and> j + ni + 2 = nj + i \<and> 35 \<notin> set (span p (ni + 1) (i - (ni + 1)))))"

definition match_measure :: "nat \<Rightarrow> bytes \<Rightarrow> nat \<Rightarrow> nat \<Rightarrow> nat \<Rightarrow> nat" where
  "match_measure sl p i ni nj =
     (sl + 2 - (nj + (if nj > 0 \<and> i = ni then 1 else 0))) * (length p + 1) - i"

definition match_meaning :: "bytes \<Rightarrow> bytes \<Rightarrow> nat \<Rightarrow> nat \<Rightarrow> nat \<Rightarrow> nat \<Rightarrow> bool" where
  "match_meaning s p i j ni nj \<longleftrightarrow> glob (drop i p) (drop j s) \<or>
     nj > 0 \<and> nj \<le> length s \<and> glob (drop ni p) (drop nj s)"

lemma measure_drop:
  assumes "(a :: nat) \<le> b" "0 < a" "i \<le> n" "a = b \<Longrightarrow> i < i'" 
  shows "a * (n + 1) - i' < b * (n + 1) - i"
proof -
  have "1 * (n + 1) \<le> b * (n + 1)" using assms by (intro mult_right_mono) auto
  then have 1: "i < b * (n + 1)" using assms(3) by simp
  show ?thesis
  proof (cases "a = b")
    case True
    then show ?thesis using assms 1 by (simp add: diff_less_mono2)
  next
    case False
    with assms have "(a + 1) * (n + 1) \<le> b * (n + 1)" by (intro mult_right_mono) auto
    with assms show ?thesis by (simp add: algebra_simps)
  qed
qed

lemma step_literal:
  assumes "match_inv (length s) p i j ni nj" "i < length p" "j < length s"
    "p ! i = 63 \<or> s ! j = p ! i" "35 \<notin> set s"
  shows "match_inv (length s) p (i + 1) (j + 1) ni nj"
    "match_measure (length s) p (i + 1) ni nj < match_measure (length s) p i ni nj"
    "match_meaning s p i j ni nj = match_meaning s p (i + 1) (j + 1) ni nj"
proof -
  have "s ! j \<noteq> 35" using assms(3,5) by (metis nth_mem)
  then have n: "p ! i \<noteq> 35" using assms(4) by auto
  then have ne: "nj > 0 \<Longrightarrow> ni < i" using assms(1) by (auto simp: match_inv_def)
  have sp: "nj > 0 \<Longrightarrow> span p (ni + 1) (i + 1 - (ni + 1)) = span p (ni + 1) (i - (ni + 1)) @ [p ! i]"
  proof -
    assume "nj > 0"
    then obtain d where d: "i = ni + 1 + d" using ne less_imp_add_positive [of ni i]
      by (metis Suc_eq_plus1 add_Suc_shift less_iff_Suc_add)
    then show ?thesis using assms(2) by (simp add: span_def take_Suc_conv_app_nth)
  qed
  show "match_inv (length s) p (i + 1) (j + 1) ni nj"
    using assms(1-3) n ne sp by (auto simp: match_inv_def)
  show "match_measure (length s) p (i + 1) ni nj < match_measure (length s) p i ni nj"
    using assms(1,2) ne unfolding match_measure_def
    by (intro measure_drop) (auto simp: match_inv_def)
  have "glob (drop i p) (drop j s) = glob (drop (i + 1) p) (drop (j + 1) s)"
    using assms(2-4) n by (auto simp: Cons_nth_drop_Suc [symmetric])
  then show "match_meaning s p i j ni nj = match_meaning s p (i + 1) (j + 1) ni nj"
    by (simp add: match_meaning_def)
qed

lemma step_star:
  assumes "match_inv (length s) p i j ni nj" "i < length p" "p ! i = 35"
  shows "match_inv (length s) p (i + 1) j i (j + 1)"
    "match_measure (length s) p (i + 1) i (j + 1) < match_measure (length s) p i ni nj"
    "match_meaning s p i j ni nj = match_meaning s p (i + 1) j i (j + 1)"
proof -
  show "match_inv (length s) p (i + 1) j i (j + 1)"
    using assms by (auto simp: match_inv_def)
  show "match_measure (length s) p (i + 1) i (j + 1) < match_measure (length s) p i ni nj"
    using assms(1,2) unfolding match_measure_def
    by (intro measure_drop) (auto simp: match_inv_def)
  have p: "drop i p = 35 # drop (i + 1) p" using assms(2,3) by (simp add: Cons_nth_drop_Suc [symmetric])
  have j: "j \<le> length s" using assms(1) by (simp add: match_inv_def)
  have "glob (drop i p) (drop j s)" if "nj > 0" "nj \<le> length s" "glob (drop ni p) (drop nj s)"
  proof (cases "i = ni")
    case True
    with that assms(1) show ?thesis by (auto simp: match_inv_def)
  next
    case False
    let ?m = "span p (ni + 1) (i - (ni + 1))"
    from False that(1) assms(1) have *: "ni < i" "p ! ni = 35" "35 \<notin> set ?m" "j + ni + 2 = nj + i" "ni < length p"
      by (auto simp: match_inv_def)
    then have "drop ni p = 35 # ?m @ drop i p"
      using assms(2)
      by (simp add: Cons_nth_drop_Suc [symmetric, of ni] span_def)
         (metis Suc_leI append_take_drop_id drop_drop le_add_diff_inverse2)
    then have "glob (35 # ?m @ 35 # drop (i + 1) p) (drop nj s)" using that(3) p by simp
    then show ?thesis unfolding p by (rule glob_restart) (use * that(2) j assms(2) in simp_all)
  qed
  then have "match_meaning s p i j ni nj = glob (drop i p) (drop j s)"
    by (auto simp: match_meaning_def)
  also have "\<dots> = match_meaning s p (i + 1) j i (j + 1)"
  proof
    assume "glob (drop i p) (drop j s)"
    then obtain n where n: "n \<le> length s - j" "glob (drop (i + 1) p) (drop (n + j) s)"
      unfolding p by auto
    show "match_meaning s p (i + 1) j i (j + 1)"
    proof (cases n)
      case 0
      then show ?thesis using n by (simp add: match_meaning_def)
    next
      case (Suc m)
      then have "glob (drop i p) (drop (j + 1) s)" unfolding p using n
        by (auto intro!: exI [of _ m] simp: ac_simps)
      then show ?thesis using Suc n by (auto simp: match_meaning_def)
    qed
  next
    assume "match_meaning s p (i + 1) j i (j + 1)"
    then consider "glob (drop (i + 1) p) (drop j s)" | "j + 1 \<le> length s" "glob (drop i p) (drop (j + 1) s)"
      by (auto simp: match_meaning_def)
    then show "glob (drop i p) (drop j s)"
    proof cases
      case 1
      then show ?thesis unfolding p by (auto intro!: exI [of _ 0])
    next
      case 2
      then show ?thesis unfolding p using glob_hash_mono [of _ "j + 1" s j] by simp
    qed
  qed
  finally show "match_meaning s p i j ni nj = match_meaning s p (i + 1) j i (j + 1)" .
qed

lemma step_back:
  assumes "match_inv (length s) p i j ni nj" "nj > 0" "nj \<le> length s" "\<not> glob (drop i p) (drop j s)"
    "i < length p \<longrightarrow> p ! i \<noteq> 35"
  shows "match_inv (length s) p ni nj ni nj"
    "match_measure (length s) p ni ni nj < match_measure (length s) p i ni nj"
    "match_meaning s p i j ni nj = match_meaning s p ni nj ni nj"
proof -
  from assms(1,2,5) have ne: "ni < i" by (auto simp: match_inv_def)
  show "match_inv (length s) p ni nj ni nj" using assms(1-3) by (auto simp: match_inv_def)
  show "match_measure (length s) p ni ni nj < match_measure (length s) p i ni nj"
    using assms(1-3) ne unfolding match_measure_def
    by (intro measure_drop) (auto simp: match_inv_def)
  show "match_meaning s p i j ni nj = match_meaning s p ni nj ni nj"
    using assms(2-4) by (auto simp: match_meaning_def)
qed

lemma no_glob_at_mismatch:
  assumes "i < length p \<or> j < length s" "i \<le> length p"
    "\<not> (i < length p \<and> j < length s \<and> (p ! i = 63 \<or> s ! j = p ! i))"
    "i < length p \<longrightarrow> p ! i \<noteq> 35" "j \<le> length s"
  shows "\<not> glob (drop i p) (drop j s)"
proof (cases "i < length p")
  case True
  then have "drop i p = p ! i # drop (i + 1) p" by (simp add: Cons_nth_drop_Suc)
  with True assms show ?thesis by (cases "j < length s") (auto simp: hd_drop_conv_nth)
next
  case False
  with assms show ?thesis by simp
qed

text \<open>The four ways through the loop body, without captures.\<close>

lemma loop_steps:
  assumes "i < length p \<or> j < sl"
  shows "i < length p \<and> j < sl \<and> (p ! i = 63 \<or> sm ! j = p ! i) \<Longrightarrow>
      match_loop (Suc fuel) sm sl p None i j ni nj = match_loop fuel sm sl p None (i + 1) (j + 1) ni nj"
    and "\<not> (i < length p \<and> j < sl \<and> (p ! i = 63 \<or> sm ! j = p ! i)) \<Longrightarrow>
      i < length p \<and> (p ! i = 42 \<or> p ! i = 35) \<Longrightarrow>
      match_loop (Suc fuel) sm sl p None i j ni nj = match_loop fuel sm sl p None (i + 1) j i (j + 1)"
    and "\<not> (i < length p \<and> j < sl \<and> (p ! i = 63 \<or> sm ! j = p ! i)) \<Longrightarrow>
      \<not> (i < length p \<and> (p ! i = 42 \<or> p ! i = 35)) \<Longrightarrow> nj > 0 \<and> nj \<le> sl \<Longrightarrow> p ! ni = 35 \<Longrightarrow>
      match_loop (Suc fuel) sm sl p None i j ni nj = match_loop fuel sm sl p None ni nj ni nj"
    and "\<not> (i < length p \<and> j < sl \<and> (p ! i = 63 \<or> sm ! j = p ! i)) \<Longrightarrow>
      \<not> (i < length p \<and> (p ! i = 42 \<or> p ! i = 35)) \<Longrightarrow> \<not> (nj > 0 \<and> nj \<le> sl) \<Longrightarrow>
      match_loop (Suc fuel) sm sl p None i j ni nj = Matched False None"
proof -
  note d = cap_on_match_def cap_on_star_def cap_on_back_def option.case
  show "i < length p \<and> j < sl \<and> (p ! i = 63 \<or> sm ! j = p ! i) \<Longrightarrow>
      match_loop (Suc fuel) sm sl p None i j ni nj = match_loop fuel sm sl p None (i + 1) (j + 1) ni nj"
    unfolding match_loop.simps d using assms by simp
  show "\<not> (i < length p \<and> j < sl \<and> (p ! i = 63 \<or> sm ! j = p ! i)) \<Longrightarrow>
      i < length p \<and> (p ! i = 42 \<or> p ! i = 35) \<Longrightarrow>
      match_loop (Suc fuel) sm sl p None i j ni nj = match_loop fuel sm sl p None (i + 1) j i (j + 1)"
    unfolding match_loop.simps d using assms by (simp only: if_True if_False simp_thms)
  show "\<not> (i < length p \<and> j < sl \<and> (p ! i = 63 \<or> sm ! j = p ! i)) \<Longrightarrow>
      \<not> (i < length p \<and> (p ! i = 42 \<or> p ! i = 35)) \<Longrightarrow> nj > 0 \<and> nj \<le> sl \<Longrightarrow> p ! ni = 35 \<Longrightarrow>
      match_loop (Suc fuel) sm sl p None i j ni nj = match_loop fuel sm sl p None ni nj ni nj"
    unfolding match_loop.simps d using assms by (simp only: if_True if_False simp_thms)
  show "\<not> (i < length p \<and> j < sl \<and> (p ! i = 63 \<or> sm ! j = p ! i)) \<Longrightarrow>
      \<not> (i < length p \<and> (p ! i = 42 \<or> p ! i = 35)) \<Longrightarrow> \<not> (nj > 0 \<and> nj \<le> sl) \<Longrightarrow>
      match_loop (Suc fuel) sm sl p None i j ni nj = Matched False None"
    unfolding match_loop.simps d using assms by (simp only: if_True if_False simp_thms)
qed

lemma match_loop_glob:
  assumes "42 \<notin> set p" "length s \<le> length sm" "s = take sl sm" "35 \<notin> set s" "sl = length s"
    "match_inv (length s) p i j ni nj" "match_measure (length s) p i ni nj < fuel"
  shows "match_loop fuel sm sl p None i j ni nj = Matched (match_meaning s p i j ni nj) None"
  using assms(6,7)
proof (induction fuel arbitrary: i j ni nj)
  case (Suc fuel)
  note inv = Suc.prems(1)
  let ?run = "match_loop (Suc fuel) sm sl p None i j ni nj"
  let ?lit = "i < length p \<and> j < sl \<and> (p ! i = 63 \<or> sm ! j = p ! i)"
  have sm: "j < length s \<Longrightarrow> sm ! j = s ! j" using assms(3) by (metis nth_take assms(5))
  have le: "i \<le> length p" "j \<le> length s" using inv by (auto simp: match_inv_def)
  have star: "(i < length p \<and> (p ! i = 42 \<or> p ! i = 35)) = (i < length p \<and> p ! i = 35)"
    using assms(1) by (metis nth_mem)
  have pni: "nj > 0 \<Longrightarrow> p ! ni = 35" using inv by (auto simp: match_inv_def)
  consider (stop) "i = length p" "j = sl"
    | (lit) "i < length p \<or> j < sl" ?lit
    | (star) "i < length p \<or> j < sl" "\<not> ?lit" "i < length p \<and> p ! i = 35"
    | (again) "i < length p \<or> j < sl" "\<not> ?lit" "\<not> (i < length p \<and> p ! i = 35)" "nj > 0 \<and> nj \<le> sl"
    | (stuck) "i < length p \<or> j < sl" "\<not> ?lit" "\<not> (i < length p \<and> p ! i = 35)" "\<not> (nj > 0 \<and> nj \<le> sl)"
    using le assms(5) by linarith
  then show ?case
  proof cases
    case stop
    then show ?thesis by (simp add: cap_on_end_def match_meaning_def assms(5))
  next
    case lit
    then have l: "i < length p" "j < length s" "p ! i = 63 \<or> s ! j = p ! i"
      using sm assms(5) by auto
    note st = step_literal [OF inv l assms(4)]
    have "?run = match_loop fuel sm sl p None (i + 1) (j + 1) ni nj" by (rule loop_steps(1) [OF lit])
    also have "\<dots> = Matched (match_meaning s p i j ni nj) None"
      unfolding st(3) by (rule Suc.IH [OF st(1)]) (use st(2) Suc.prems(2) in linarith)
    finally show ?thesis .
  next
    case star: star
    then have l: "i < length p" "p ! i = 35" by auto
    note st = step_star [OF inv l]
    have "?run = match_loop fuel sm sl p None (i + 1) j i (j + 1)"
      using star(3) by (intro loop_steps(2) [OF star(1,2)]) auto
    also have "\<dots> = Matched (match_meaning s p i j ni nj) None"
      unfolding st(3) by (rule Suc.IH [OF st(1)]) (use st(2) Suc.prems(2) in linarith)
    finally show ?thesis .
  next
    case again
    have b: "nj > 0" "nj \<le> length s" "i < length p \<longrightarrow> p ! i \<noteq> 35" using again(3,4) assms(5) by auto
    have g: "\<not> glob (drop i p) (drop j s)"
    proof (rule no_glob_at_mismatch)
      show "\<not> (i < length p \<and> j < length s \<and> (p ! i = 63 \<or> s ! j = p ! i))"
        using again(2) sm assms(5) by auto
    qed (use again(1,3) le assms(5) in auto)
    note st = step_back [OF inv b(1,2) g b(3)]
    have "?run = match_loop fuel sm sl p None ni nj ni nj"
      using loop_steps(3) [OF again(1,2) _ again(4) pni [OF b(1)]] again(3) star by blast
    also have "\<dots> = Matched (match_meaning s p i j ni nj) None"
      unfolding st(3) by (rule Suc.IH [OF st(1)]) (use st(2) Suc.prems(2) in linarith)
    finally show ?thesis .
  next
    case stuck
    have "\<not> glob (drop i p) (drop j s)"
    proof (rule no_glob_at_mismatch)
      show "\<not> (i < length p \<and> j < length s \<and> (p ! i = 63 \<or> s ! j = p ! i))"
        using stuck(2) sm assms(5) by auto
    qed (use stuck(1,3) le assms(5) in auto)
    moreover have "?run = Matched False None"
      using loop_steps(4) [OF stuck(1,2) _ stuck(4)] stuck(3) star by blast
    ultimately show ?thesis
      using stuck(4) assms(5) by (auto simp add: match_meaning_def simp del: match_loop.simps)
  qed
qed simp

subsection \<open>Patterns without wildcards\<close>

lemma match_loop_literal:
  assumes "42 \<notin> set p" "35 \<notin> set p" "63 \<notin> set p" "sl \<le> length sm"
    "i \<le> length p" "j \<le> sl" "length p - i < fuel"
  shows "match_loop fuel sm sl p None i j ni 0 = Matched (drop i p = drop j (take sl sm)) None"
  using assms(5-7)
proof (induction fuel arbitrary: i j)
  case (Suc fuel)
  have wild: "i < length p \<Longrightarrow> p ! i \<noteq> 42 \<and> p ! i \<noteq> 35 \<and> p ! i \<noteq> 63"
    using assms(1-3) by (metis nth_mem)
  consider "i = length p" "j = sl" | "i < length p" "j < sl" "sm ! j = p ! i"
    | "i < length p" "j < sl" "sm ! j \<noteq> p ! i" | "i < length p" "j = sl" | "i = length p" "j < sl"
    using Suc.prems by linarith
  then show ?case
  proof cases
    case 1
    then show ?thesis by (simp add: cap_on_end_def)
  next
    case 2
    have "match_loop (Suc fuel) sm sl p None i j ni 0 = match_loop fuel sm sl p None (i + 1) (j + 1) ni 0"
      by (rule loop_steps(1)) (use 2 in auto)
    also have "\<dots> = Matched (drop (i + 1) p = drop (j + 1) (take sl sm)) None"
      by (rule Suc.IH) (use Suc.prems 2 in auto)
    also have "(drop (i + 1) p = drop (j + 1) (take sl sm)) = (drop i p = drop j (take sl sm))"
      using 2 assms(4) by (simp add: Cons_nth_drop_Suc [symmetric, of i] Cons_nth_drop_Suc [symmetric, of j])
    finally show ?thesis .
  next
    case 3
    have "match_loop (Suc fuel) sm sl p None i j ni 0 = Matched False None"
      by (rule loop_steps(4)) (use 3 wild in auto)
    then show ?thesis
      using 3 assms(4) by (simp add: Cons_nth_drop_Suc [symmetric, of i] Cons_nth_drop_Suc [symmetric, of j])
  next
    case 4
    have "match_loop (Suc fuel) sm sl p None i j ni 0 = Matched False None"
      by (rule loop_steps(4)) (use 4 wild in auto)
    then show ?thesis using 4 assms(4) by simp
  next
    case 5
    have "match_loop (Suc fuel) sm sl p None i j ni 0 = Matched False None"
      by (rule loop_steps(4)) (use 5 wild in auto)
    then show ?thesis using 5 assms(4) by simp
  qed
qed simp

declare match_loop.simps(2) [simp del]

subsection \<open>Properties of the matcher\<close>

text \<open>
  A pattern without wildcards, such as every URI the program dispatches on, matches exactly
  the equal string; the loop ends within length p + 1 rounds and stays inside both strings,
  whatever the string holds.
\<close>

theorem mg_match_literal:
  assumes "42 \<notin> set p" "35 \<notin> set p" "63 \<notin> set p" "sl \<le> length sm" "length p < fuel"
  shows "mg_match fuel sm sl p None = Matched (take sl sm = p) None"
  using match_loop_literal [OF assms(1-4), of 0 0 fuel 0] assms(5)
  by (auto simp: mg_match_def)

theorem mg_match_literal_witness:
  "mg_match 7 (bs ''/login?'') 6 (bs ''/login'') None = Matched True None"
  using mg_match_literal [of "bs ''/login''" 6 "bs ''/login?''" 7] by simp

lemma tail_star:
  assumes "p = q @ [42]" "sl \<le> length sm" "42 \<notin> set (take sl sm)" "j \<le> sl" "2 * (sl - j) + 2 < Suc fuel"
  shows "match_loop fuel sm sl p None (length q) j ni nj = Matched (47 \<notin> set (drop j (take sl sm))) None"
  using assms(4,5)
proof (induction "sl - j" arbitrary: j ni nj fuel)
  case 0
  then have j: "j = sl" by simp
  obtain f where f: "fuel = Suc (Suc f)" using 0 by (metis Suc_lessD Suc_less_eq add_2_eq_Suc' less_imp_Suc_add add_Suc_right)
  have "match_loop fuel sm sl p None (length q) j ni nj = match_loop (Suc f) sm sl p None (length q + 1) j (length q) (j + 1)"
    unfolding f by (rule loop_steps(2)) (use assms(1) j in auto)
  then show ?case using assms(1) j by (simp add: match_loop.simps cap_on_end_def)
next
  case (Suc n)
  then have j: "j < sl" by simp
  obtain f where f: "fuel = Suc (Suc f)" using Suc by (metis Suc_lessD Suc_less_eq add_2_eq_Suc' less_imp_Suc_add add_Suc_right)
  have c: "sm ! j \<noteq> 42" using assms(3) j Suc.hyps assms(2) by (metis in_set_conv_nth length_take min.absorb2 nth_take)
  have d: "drop j (take sl sm) = sm ! j # drop (j + 1) (take sl sm)"
    using j assms(2) by (simp add: Cons_nth_drop_Suc [symmetric])
  have "match_loop fuel sm sl p None (length q) j ni nj = match_loop (Suc f) sm sl p None (length q + 1) j (length q) (j + 1)"
    unfolding f by (rule loop_steps(2)) (use assms(1) j c in auto)
  also have "\<dots> = (if sm ! j = 47 then Matched False None else match_loop f sm sl p None (length q) (j + 1) (length q) (j + 1))"
    using assms(1,2) j by (simp add: match_loop.simps rd_def cap_on_back_def)
  also have "\<dots> = Matched (47 \<notin> set (drop j (take sl sm))) None"
    using Suc.hyps(1) [of "j + 1" f] Suc.hyps(2) Suc.prems(2) j f d by auto
  finally show ?case .
qed

lemma match_loop_tail_star:
  assumes "p = q @ [42]" "42 \<notin> set q" "35 \<notin> set q" "sl \<le> length sm" "42 \<notin> set (take sl sm)"
    "i \<le> length q" "j \<le> sl" "length q - i + 2 * (sl - j) + 2 < Suc fuel"
  shows "match_loop fuel sm sl p None i j ni 0 =
    Matched (length q - i \<le> sl - j \<and> glob (drop i q) (take (length q - i) (drop j (take sl sm))) \<and>
      47 \<notin> set (drop (length q - i + j) (take sl sm))) None"
  using assms(6-8)
proof (induction "length q - i" arbitrary: i j fuel)
  case 0
  then show ?case using tail_star [OF assms(1,4,5), of j fuel ni 0] by simp
next
  case (Suc n)
  then have i: "i < length q" "p ! i = q ! i" "i < length p" using assms(1) by (auto simp: nth_append)
  have wild: "p ! i \<noteq> 42" "p ! i \<noteq> 35" using i assms(2,3) by (metis nth_mem)+
  obtain f where f: "fuel = Suc f" using Suc.prems by (cases fuel) auto
  have dq: "drop i q = q ! i # drop (i + 1) q" using i by (simp add: Cons_nth_drop_Suc)
  show ?case
  proof (cases "j < sl \<and> (p ! i = 63 \<or> sm ! j = p ! i)")
    case True
    have d: "drop j (take sl sm) = sm ! j # drop (j + 1) (take sl sm)"
      using True assms(4) by (simp add: Cons_nth_drop_Suc [symmetric])
    have "match_loop fuel sm sl p None i j ni 0 = match_loop f sm sl p None (i + 1) (j + 1) ni 0"
      unfolding f by (rule loop_steps(1)) (use True i in auto)
    also have "\<dots> = Matched (length q - (i + 1) \<le> sl - (j + 1) \<and>
        glob (drop (i + 1) q) (take (length q - (i + 1)) (drop (j + 1) (take sl sm))) \<and>
        47 \<notin> set (drop (length q - (i + 1) + (j + 1)) (take sl sm))) None"
      by (rule Suc.hyps(1)) (use Suc.hyps(2) Suc.prems True i f in auto)
    also have "\<dots> = Matched (length q - i \<le> sl - j \<and> glob (drop i q) (take (length q - i) (drop j (take sl sm))) \<and>
      47 \<notin> set (drop (length q - i + j) (take sl sm))) None"
    proof -
      obtain k where k: "length q - i = Suc k" "length q - (i + 1) = k" using i by (cases "length q - i") auto
      have "q ! i \<noteq> 35" "q ! i = 63 \<or> sm ! j = q ! i" using wild True i by auto
      then show ?thesis unfolding k dq d using True by auto
    qed
    finally show ?thesis .
  next
    case False
    have "match_loop fuel sm sl p None i j ni 0 = Matched False None"
      unfolding f by (rule loop_steps(4)) (use False wild i in auto)
    moreover have "\<not> (length q - i \<le> sl - j \<and> glob (drop i q) (take (length q - i) (drop j (take sl sm))))"
    proof (cases "j < sl")
      case True
      then have "drop j (take sl sm) = sm ! j # drop (j + 1) (take sl sm)"
        using assms(4) by (simp add: Cons_nth_drop_Suc [symmetric])
      then show ?thesis using False True wild i dq by (cases "length q - i") auto
    qed (use i in auto)
    ultimately show ?thesis by auto
  qed
qed

text \<open>The meaning of all three wildcards: \<open>*\<close> stands for any sequence of characters without a slash.\<close>

fun wild_match :: "bytes \<Rightarrow> bytes \<Rightarrow> bool" where
  "wild_match [] s \<longleftrightarrow> s = []"
| "wild_match (c # p) s \<longleftrightarrow>
     (if c = 35 then \<exists>n \<le> length s. wild_match p (drop n s)
      else if c = 42 then \<exists>n \<le> length s. 47 \<notin> set (take n s) \<and> wild_match p (drop n s)
      else s \<noteq> [] \<and> (c = 63 \<or> hd s = c) \<and> wild_match p (tl s))"

lemma wild_match_glob: "42 \<notin> set p \<Longrightarrow> wild_match p s = glob p s"
  by (induction p s rule: glob.induct) auto

lemma wild_match_star:
  "42 \<notin> set q \<Longrightarrow> 35 \<notin> set q \<Longrightarrow> wild_match (q @ [42]) s \<longleftrightarrow>
     length q \<le> length s \<and> glob q (take (length q) s) \<and> 47 \<notin> set (drop (length q) s)"
proof (induction q arbitrary: s)
  case (Cons c q)
  then show ?case by (cases s) auto
qed auto

text \<open>The patterns and subjects for which the matcher, which backtracks to the last wildcard only, is complete.\<close>

definition pattern_ok :: "bytes \<Rightarrow> bytes \<Rightarrow> bool" where
  "pattern_ok p s \<longleftrightarrow> 42 \<notin> set p \<and> 35 \<notin> set s \<or>
     (\<exists>q. p = q @ [42] \<and> 42 \<notin> set q \<and> 35 \<notin> set q \<and> 42 \<notin> set s)"

text \<open>
  C15.  Total correctness of the wildcard matcher without captures, for patterns of characters, \<open>?\<close> and \<open>#\<close>
  on subjects without \<open>#\<close>, and for patterns of characters and \<open>?\<close> with one \<open>*\<close>, at their end, on
  subjects without \<open>*\<close>: the backtracking loop ends within (n + 2) * (m + 1) rounds, never reads
  outside the string, and its verdict is the meaning of the pattern.  For other patterns with \<open>*\<close>
  the verdict is not their meaning (\<open>mg_match_star_crosses_slash\<close>, \<open>mg_match_star_forgets_hash\<close>), and
  when the subject holds the wildcard the loop need not end (\<open>mg_match_diverges\<close>).
\<close>

theorem mg_match_glob:
  assumes "pattern_ok p (take sl sm)" "sl \<le> length sm" "(sl + 2) * (length p + 1) < fuel"
  shows "mg_match fuel sm sl p None = Matched (wild_match p (take sl sm)) None"
  using assms(1) unfolding pattern_ok_def
proof (elim disjE exE conjE)
  assume "42 \<notin> set p" "35 \<notin> set (take sl sm)"
  then show ?thesis
    using match_loop_glob [of p "take sl sm" sm sl 0 0 0 0 fuel] assms(2,3)
    by (auto simp: mg_match_def match_inv_def match_measure_def match_meaning_def wild_match_glob)
next
  fix q assume q: "p = q @ [42]" "42 \<notin> set q" "35 \<notin> set q" "42 \<notin> set (take sl sm)"
  have "length q + 2 * sl + 2 < Suc fuel" using assms(3) q(1) by (simp add: algebra_simps)
  then show ?thesis
    using match_loop_tail_star [OF q(1-3) assms(2) q(4), of 0 0 fuel 0] wild_match_star [OF q(2,3)] q(1) assms(2)
    by (simp add: mg_match_def)
qed

theorem mg_match_glob_witness:
  "mg_match 50 (bs ''abcb'') 4 (bs ''#?b'') None = Matched (wild_match (bs ''#?b'') (bs ''abcb'')) None \<and>
   wild_match (bs ''#?b'') (bs ''abcb'') \<and>
   mg_match 60 (bs ''/api/x'') 6 (bs ''/api/*'') None = Matched (wild_match (bs ''/api/*'') (bs ''/api/x'')) None"
proof (intro conjI)
  show "mg_match 50 (bs ''abcb'') 4 (bs ''#?b'') None = Matched (wild_match (bs ''#?b'') (bs ''abcb'')) None"
    using mg_match_glob [of "bs ''#?b''" 4 "bs ''abcb''" 50] by (simp add: pattern_ok_def)
  show "wild_match (bs ''#?b'') (bs ''abcb'')" by (auto intro!: exI [of _ 2])
  have "pattern_ok (bs ''/api/*'') (take 6 (bs ''/api/x''))"
    unfolding pattern_ok_def by (intro disjI2 exI [of _ "bs ''/api/''"]) simp
  then show "mg_match 60 (bs ''/api/x'') 6 (bs ''/api/*'') None = Matched (wild_match (bs ''/api/*'') (bs ''/api/x'')) None"
    using mg_match_glob [of "bs ''/api/*''" 6 "bs ''/api/x''" 60] by simp
qed

text \<open>
  A \<open>*\<close> before a slash takes slashes in: the test for a slash looks at the character where the
  pattern failed, not at the ones the wildcard takes.  And after a \<open>*\<close> an earlier \<open>#\<close> is not tried again.
\<close>

lemma mg_match_star_crosses_slash:
  "mg_match 50 (bs ''/a/b'') 4 (bs ''*/b'') None = Matched True None \<and> \<not> wild_match (bs ''*/b'') (bs ''/a/b'')"
proof
  show "mg_match 50 (bs ''/a/b'') 4 (bs ''*/b'') None = Matched True None" by code_simp
  have "47 \<in> set (take (Suc n) (bs ''/a/b''))" for n by simp
  then have "n = 0" if "47 \<notin> set (take n (bs ''/a/b''))" for n using that by (cases n) auto
  then show "\<not> wild_match (bs ''*/b'') (bs ''/a/b'')" by fastforce
qed

lemma mg_match_star_forgets_hash:
  "mg_match 50 (bs ''a/ab'') 4 (bs ''#a*b'') None = Matched False None \<and> wild_match (bs ''#a*b'') (bs ''a/ab'')"
proof
  show "mg_match 50 (bs ''a/ab'') 4 (bs ''#a*b'') None = Matched False None" by code_simp
  show "wild_match (bs ''#a*b'') (bs ''a/ab'')" by (simp, rule exI [of _ 2], simp, rule exI [of _ 0], simp)
qed

lemma match_cycle:
  "match_loop fuel (bs ''/api/b*c'') 8 (bs ''/api/*'') None 5 6 5 6 = Running"
proof (induction fuel rule: less_induct)
  case (less fuel)
  consider "fuel = 0" | "fuel = Suc 0" | f where "fuel = Suc (Suc f)" by (metis nat.exhaust)
  then show ?case
    using less by cases (simp_all add: match_loop.simps cap_on_match_def cap_on_back_def)
qed

text \<open>The rounds before the cycle, each one as long as the next.\<close>

lemma prefix_round:
  assumes "j \<le> 4" "\<And>n. match_loop n (bs ''/api/b*c'') 8 (bs ''/api/*'') None (j + 1) (j + 1) 0 0 = Running"
  shows "match_loop n (bs ''/api/b*c'') 8 (bs ''/api/*'') None j j 0 0 = Running"
proof (cases n)
  case (Suc m)
  consider "j = 0" | "j = 1" | "j = 2" | "j = 3" | "j = 4" using assms(1) by linarith
  then show ?thesis
    using assms(2) [of m] by cases (simp_all add: Suc match_loop.simps cap_on_match_def eval_nat_numeral)
qed (simp add: match_loop.simps)

lemma star_round: "match_loop n (bs ''/api/b*c'') 8 (bs ''/api/*'') None 5 5 0 0 = Running"
proof (cases n)
  case (Suc m)
  then show ?thesis
    using match_cycle by (cases m) (simp_all add: match_loop.simps cap_on_star_def cap_on_back_def)
qed (simp add: match_loop.simps)

text \<open>
  C16.  The guard on the string is needed: on the pattern \<open>/api/*\<close> and the string \<open>/api/b*c\<close> the
  loop never ends, whatever the fuel.  The wildcard character of the string is taken as a literal
  match of the pattern's wildcard, and the loop then retries the same position for ever.
\<close>

theorem mg_match_diverges:
  "mg_match fuel (bs ''/api/b*c'') 8 (bs ''/api/*'') None = Running"
proof -
  have "match_loop n (bs ''/api/b*c'') 8 (bs ''/api/*'') None (5 - k) (5 - k) 0 0 = Running" for n k
  proof (induction k arbitrary: n)
    case (Suc k)
    show ?case
    proof (cases "k < 5")
      case True
      then have "5 - Suc k + 1 = 5 - k" "5 - Suc k \<le> 4" by auto
      then show ?thesis using prefix_round [of "5 - Suc k"] Suc by simp
    next
      case False
      then show ?thesis using Suc [of n] by simp
    qed
  qed (use star_round in simp)
  from this [of fuel 5] show ?thesis by (simp add: mg_match_def)
qed

text \<open>
  A capture array with one entry per wildcard and the terminating one is not enough: every
  retry of a \<open>#\<close> before a \<open>?\<close> moves the capture pointer one further.
\<close>

lemma mg_match_caps_overflow:
  "mg_match 100 (bs ''axaxab'') 6 (bs ''#a?b'') (Some (replicate 3 (None, 0))) = Fault"
  by code_simp

section \<open>Splitting, hexadecimal digits and paths\<close>

text \<open>\<open>(koff, klen, voff, vlen, ofs')\<close>; the two \<open>for\<close> loops count bytes up to a delimiter.\<close>

definition mg_nce :: "bytes \<Rightarrow> nat \<Rightarrow> u8 \<Rightarrow> nat \<times> nat \<times> nat \<times> nat \<times> nat" where
  "mg_nce s ofs delim =
     (let n = length s;
          kvlen = length (takeWhile (\<lambda>c. c \<noteq> delim) (drop ofs s));
          kl = length (takeWhile (\<lambda>c. c \<noteq> 61) (span s ofs kvlen));
          ofs' = ofs + kvlen + 1
      in (ofs, kl, if kl < kvlen then ofs + kl + 1 else 0, if kl < kvlen then kvlen - kl - 1 else 0,
          if ofs' > n then n else ofs'))"

text \<open>The result, the key, the value and the rest of the string.\<close>

definition mg_split :: "bytes \<Rightarrow> u8 \<Rightarrow> bool \<times> bytes \<times> bytes \<times> bytes" where
  "mg_split s sep =
     (if length s = 0 then (False, [], [], s)
      else let (koff, klen, voff, vlen, off) = mg_nce s 0 sep
           in (off > 0, span s koff klen, span s voff vlen, drop off s))"

definition mg_commalist :: "bytes \<Rightarrow> bool \<times> bytes \<times> bytes \<times> bytes" where
  "mg_commalist s = mg_split s 44"

definition hex_digits :: bytes where "hex_digits = bs ''0123456789abcdef''"

fun hex_loop :: "bytes \<Rightarrow> bytes \<Rightarrow> nat \<Rightarrow> bytes option" where
  "hex_loop [] to i = wr to i 0"
| "hex_loop (c # p) to i = do {
     to \<leftarrow> wr to i (hex_digits ! unat (drop_bit 4 c));
     to \<leftarrow> wr to (i + 1) (hex_digits ! unat (c AND 15));
     hex_loop p to (i + 2) }"

definition mg_hex :: "bytes \<Rightarrow> bytes \<Rightarrow> bytes option" where
  "mg_hex buf to = hex_loop buf to 0"

definition mg_unhex_nimble :: "u8 \<Rightarrow> u8" where
  "mg_unhex_nimble c =
     (if 48 \<le> c \<and> c \<le> 57 then c - 48 else if 65 \<le> c \<and> c \<le> 70 then c - 55 else c - 87)"

text \<open>\<open>unsigned long\<close> has 64 bits on the targets of the program.\<close>

fun unhexn_loop :: "bytes \<Rightarrow> nat \<Rightarrow> nat \<Rightarrow> u64 \<Rightarrow> u64 option" where
  "unhexn_loop s i 0 v = Some v"
| "unhexn_loop s i (Suc n) v = do {
     c \<leftarrow> rd s i;
     unhexn_loop s (i + 1) n (push_bit 4 v OR ucast (mg_unhex_nimble c)) }"

definition mg_unhexn :: "bytes \<Rightarrow> nat \<Rightarrow> nat \<Rightarrow> u64 option" where
  "mg_unhexn s ofs n = unhexn_loop s ofs n 0"

text \<open>One round for every \<open>i < len\<close> with \<open>i\<close> even; \<open>k\<close> counts the rounds left.\<close>

fun unhex_loop :: "bytes \<Rightarrow> nat \<Rightarrow> nat \<Rightarrow> bytes \<Rightarrow> bytes option" where
  "unhex_loop buf i 0 to = Some to"
| "unhex_loop buf i (Suc k) to = do {
     v \<leftarrow> mg_unhexn buf i 2;
     to \<leftarrow> wr to (i div 2) (ucast v);
     unhex_loop buf (i + 2) k to }"

definition mg_unhex :: "bytes \<Rightarrow> nat \<Rightarrow> bytes \<Rightarrow> bytes option" where
  "mg_unhex buf len to = unhex_loop buf 0 ((len + 1) div 2) to"

fun path_loop :: "bool \<Rightarrow> bytes \<Rightarrow> bool option" where
  "path_loop first [] = None"
| "path_loop first (c # s) =
     (if c = 0 then Some True
      else if first \<or> c = 47 \<or> c = 92 then do {
        a \<leftarrow> rd s 0;
        if a = 46 then do {
          b \<leftarrow> rd s 1;
          if b = 46 then Some False else path_loop False s }
        else path_loop False s }
      else path_loop False s)"

definition mg_path_is_sane :: "bytes \<Rightarrow> bool option" where
  "mg_path_is_sane path = path_loop True path"

section \<open>Comparison lemmas\<close>

lemma strncmp_eq:
  "0 \<notin> set t \<Longrightarrow> n \<le> length s \<Longrightarrow> n \<le> length t \<Longrightarrow>
     \<exists>r. strncmp s (t @ [0]) n = Some r \<and> (r = 0 \<longleftrightarrow> take n s = take n t)"
proof (induction n arbitrary: s t)
  case (Suc n)
  then obtain a s' b t' where st: "s = a # s'" "t = b # t'"
    by (metis Suc_le_length_iff)
  with Suc.prems Suc.IH [of t' s'] show ?case by (auto simp: word_inject)
qed simp

lemma mg_lower_0_iff: "mg_lower a = 0 \<longleftrightarrow> a = 0"
  by (auto simp: mg_lower_def Let_def signed_eq_0_iff)

lemma ncasecmp_eq:
  "0 \<notin> set t \<Longrightarrow> n \<le> length s \<Longrightarrow> n \<le> length t \<Longrightarrow>
     \<exists>r. mg_ncasecmp s (t @ [0]) n = Some r \<and>
         (r = 0 \<longleftrightarrow> map mg_lower (take n s) = map mg_lower (take n t))"
proof (induction n arbitrary: s t)
  case (Suc n)
  then obtain a s' b t' where st: "s = a # s'" "t = b # t'"
    by (metis Suc_le_length_iff)
  have "mg_lower a = mg_lower b \<Longrightarrow> a \<noteq> 0"
    using Suc.prems(1) st mg_lower_0_iff [of a] mg_lower_0_iff [of b] by auto
  with st Suc.prems Suc.IH [of t' s'] show ?case by (auto simp: Let_def)
qed simp

lemma cstr_append: "0 \<notin> set t \<Longrightarrow> cstr (t @ 0 # r) = t"
  unfolding cstr_def by (subst takeWhile_append2) auto

lemma len_diff_0_iff:
  assumes "n1 < 2 ^ 31" "n2 < 2 ^ 31"
  shows "len_diff n1 n2 = 0 \<longleftrightarrow> n1 = n2"
proof -
  have "sint (word_of_int k :: u32) = signed_take_bit 31 k" for k
    by (simp add: signed_of_int)
  then have "len_diff n1 n2 = signed_take_bit 31 (int n1 - int n2)"
    by (simp only: len_diff_def)
  also have "\<dots> = int n1 - int n2"
    using assms by (intro signed_take_bit_int_eq_self) auto
  finally have "len_diff n1 n2 = int n1 - int n2" .
  then show ?thesis by simp
qed

lemma vcmp_eq:
  assumes "0 \<notin> set t" "length s < 2 ^ 31" "length t < 2 ^ 31"
  shows "\<exists>r. mg_vcmp s (t @ [0]) = Some r \<and> (r = 0 \<longleftrightarrow> s = t)"
proof -
  let ?n = "if length s < length t then length s else length t"
  have n: "?n \<le> length s" "?n \<le> length t" by auto
  obtain r where r: "strncmp s (t @ [0]) ?n = Some r" "r = 0 \<longleftrightarrow> take ?n s = take ?n t"
    using strncmp_eq [OF assms(1) n] by blast
  then show ?thesis
    using len_diff_0_iff [OF assms(2,3)] assms(1)
    by (auto simp: mg_vcmp_def cstr_append Let_def split: if_splits)
qed

lemma vcasecmp_eq:
  assumes "0 \<notin> set t" "length s < 2 ^ 31" "length t < 2 ^ 31"
  shows "\<exists>r. mg_vcasecmp s (t @ [0]) = Some r \<and> (r = 0 \<longleftrightarrow> map mg_lower s = map mg_lower t)"
proof -
  let ?n = "if length s < length t then length s else length t"
  have n: "?n \<le> length s" "?n \<le> length t" by auto
  obtain r where r: "mg_ncasecmp s (t @ [0]) ?n = Some r"
      "r = 0 \<longleftrightarrow> map mg_lower (take ?n s) = map mg_lower (take ?n t)"
    using ncasecmp_eq [OF assms(1) n] by blast
  have l: "map mg_lower s = map mg_lower t \<Longrightarrow> length s = length t" by (rule map_eq_imp_length_eq)
  have v: "mg_vcasecmp s (t @ [0]) = Some (if r = 0 then len_diff (length s) (length t) else r)"
    using r(1) assms(1) by (simp add: mg_vcasecmp_def cstr_append Let_def)
  show ?thesis
  proof (cases "length s = length t")
    case True
    then show ?thesis using r(2) len_diff_0_iff [OF assms(2,3)] by (simp add: v)
  next
    case False
    then have "map mg_lower s \<noteq> map mg_lower t" using l by blast
    then show ?thesis using False len_diff_0_iff [OF assms(2,3)] by (simp add: v)
  qed
qed

lemma mg_strcmp_lex:
  "mg_strcmp a b = (if a = b then 0 else if map sint a < map sint b then -1 else 1)"
  by (induction a b rule: mg_strcmp.induct) (auto simp: word_inject)

lemma strstr_loop_least:
  "strstr_loop k i h n =
     (if \<exists>m. i \<le> m \<and> m < i + k \<and> span h m (length n) = n
      then Some (LEAST m. i \<le> m \<and> span h m (length n) = n) else None)"
proof (induction k arbitrary: i)
  case (Suc k)
  show ?case
  proof (cases "span h i (length n) = n")
    case True
    then have "(LEAST m. i \<le> m \<and> span h m (length n) = n) = i"
      by (intro Least_equality) auto
    moreover have "\<exists>m. i \<le> m \<and> m < i + Suc k \<and> span h m (length n) = n"
      using True by (intro exI [of _ i]) simp
    ultimately show ?thesis using True by simp
  next
    case False
    then have eq: "(i \<le> m \<and> span h m (length n) = n) = (i + 1 \<le> m \<and> span h m (length n) = n)" for m
      by (metis Suc_eq_plus1 Suc_leD le_antisym not_less_eq_eq)
    have "(\<exists>m. i \<le> m \<and> m < i + Suc k \<and> span h m (length n) = n) =
        (\<exists>m. i + 1 \<le> m \<and> m < i + 1 + k \<and> span h m (length n) = n)"
      using eq by (metis Suc_eq_plus1 add_Suc add_Suc_right)
    with False Suc.IH [of "i + 1"] show ?thesis unfolding eq by simp
  qed
qed simp

subsection \<open>Properties of the comparisons\<close>

text \<open>
  Comparing a counted string with a zero-terminated literal stays inside both and yields 0
  exactly for equal strings; the case-insensitive comparison yields 0 exactly for strings that
  are equal after \<open>mg_lower\<close>, which is the test behind every HTTP header lookup.
\<close>

theorem mg_vcmp_correct:
  assumes "0 \<notin> set t" "length s < 2 ^ 31" "length t < 2 ^ 31"
  shows "\<exists>r q. mg_vcmp s (t @ [0]) = Some r \<and> (r = 0 \<longleftrightarrow> s = t) \<and>
           mg_vcasecmp s (t @ [0]) = Some q \<and> (q = 0 \<longleftrightarrow> map mg_lower s = map mg_lower t)"
  using vcmp_eq [OF assms] vcasecmp_eq [OF assms] by auto

theorem mg_vcmp_correct_witness:
  "\<exists>q. mg_vcasecmp (bs ''HOST'') (bs ''Host'' @ [0]) = Some q \<and> q = 0"
  using mg_vcmp_correct [of "bs ''Host''" "bs ''HOST''"] by (auto simp: mg_lower_def)

text \<open>
  \<open>mg_strstr\<close> finds the first occurrence of a non-empty needle, and finds one whenever there
  is one.
\<close>

theorem mg_strstr_first:
  "n \<noteq> [] \<Longrightarrow> mg_strstr h n =
     (if \<exists>m. m + length n \<le> length h \<and> span h m (length n) = n
      then Some (LEAST m. span h m (length n) = n) else None)"
  by (auto simp: mg_strstr_def strstr_loop_least less_Suc_eq_le le_diff_conv2)
     

section \<open>Splitting\<close>

text \<open>The loop \<open>while (mg_split(&s, &k, &v, sep)) ...\<close> of the callers, with what it sees.\<close>

function split_all :: "u8 \<Rightarrow> bytes \<Rightarrow> (bytes \<times> bytes) list" where
  "split_all sep s =
     (let (ok, k, v, s') = mg_split s sep in if ok then (k, v) # split_all sep s' else [])"
  by pat_completeness auto
termination
  by (relation "measure (\<lambda>(sep, s). length s)") (auto simp: mg_split_def mg_nce_def Let_def split: if_splits)

declare split_all.simps [simp del]

definition kv_pair :: "bytes \<times> bytes \<Rightarrow> bytes" where
  "kv_pair kv = fst kv @ 61 # snd kv"

fun join :: "u8 \<Rightarrow> bytes list \<Rightarrow> bytes" where
  "join sep [] = []"
| "join sep [x] = x"
| "join sep (x # y # xs) = x @ sep # join sep (y # xs)"

lemma mg_split_pair:
  assumes "61 \<notin> set k" "sep \<notin> set k" "sep \<notin> set v" "sep \<noteq> 61" "r = [] \<or> (\<exists>t. r = sep # t)"
  shows "mg_split (kv_pair (k, v) @ r) sep = (True, k, v, tl r)"
proof -
  have 1: "takeWhile (\<lambda>c. c \<noteq> sep) (k @ 61 # v @ r) = k @ 61 # v"
    using assms by (subst takeWhile_append2) (auto simp: takeWhile_append)
  have 2: "takeWhile (\<lambda>c. c \<noteq> 61) (k @ 61 # v) = k"
    using assms(1) by (subst takeWhile_append2) auto
  show ?thesis
    using assms(5) by (auto simp: mg_split_def mg_nce_def kv_pair_def 1 2 span_def Let_def)
qed

lemma split_all_join:
  assumes "sep \<noteq> 61" "\<forall>(k, v) \<in> set kvs. 61 \<notin> set k \<and> sep \<notin> set k \<and> sep \<notin> set v"
  shows "split_all sep (join sep (map kv_pair kvs)) = kvs"
  using assms(2)
proof (induction kvs rule: induct_list012)
  case 1
  then show ?case by (subst split_all.simps) (simp add: mg_split_def)
next
  case (2 kv)
  then have "mg_split (kv_pair kv @ []) sep = (True, fst kv, snd kv, [])"
    using mg_split_pair [of "fst kv" sep "snd kv" "[]"] assms(1) by (auto split: prod.splits)
  then show ?case
    by (subst split_all.simps) (simp add: split_all.simps [of sep "[]"] mg_split_def)
next
  case (3 kv kw kvs)
  then have "mg_split (kv_pair kv @ sep # join sep (map kv_pair (kw # kvs))) sep =
      (True, fst kv, snd kv, join sep (map kv_pair (kw # kvs)))"
    using mg_split_pair [of "fst kv" sep "snd kv" "sep # join sep (map kv_pair (kw # kvs))"] assms(1)
    by (auto split: prod.splits)
  with 3 show ?case by (subst split_all.simps) (simp add: prod.collapse)
qed

text \<open>
  Splitting inverts joining: the loop over \<open>mg_split\<close> (and so over \<open>mg_commalist\<close>) returns
  exactly the key-value pairs of a list written as \<open>k=v\<close> items with a separator, in order.
\<close>

theorem mg_split_roundtrip:
  assumes "sep \<noteq> 61" "\<forall>(k, v) \<in> set kvs. 61 \<notin> set k \<and> sep \<notin> set k \<and> sep \<notin> set v"
  shows "split_all sep (join sep (map kv_pair kvs)) = kvs"
  using assms by (rule split_all_join)

theorem mg_split_roundtrip_witness:
  "split_all 44 (join 44 (map kv_pair [(bs ''a'', bs ''1''), (bs ''b'', [])])) =
     [(bs ''a'', bs ''1''), (bs ''b'', [])]"
  using mg_split_roundtrip [of 44 "[(bs ''a'', bs ''1''), (bs ''b'', [])]"] by simp

section \<open>Hexadecimal\<close>

definition hex_char :: "u8 \<Rightarrow> u8" where
  "hex_char n = hex_digits ! unat n"

fun hex_spec :: "bytes \<Rightarrow> bytes" where
  "hex_spec [] = []"
| "hex_spec (c # p) = hex_char (drop_bit 4 c) # hex_char (c AND 15) # hex_spec p"

lemma length_hex_spec [simp]: "length (hex_spec p) = 2 * length p"
  by (induction p) auto

lemma hex_loop_spec:
  "i + 2 * length p < length to \<Longrightarrow>
     hex_loop p to i = Some (take i to @ hex_spec p @ 0 # drop (i + 2 * length p + 1) to)"
proof (induction p arbitrary: to i)
  case Nil
  then show ?case by (simp add: upd_conv_take_nth_drop)
next
  case (Cons c p)
  then show ?case by (simp add: hex_char_def take_Suc_conv_app_nth numeral_eq_Suc)
qed

lemma unhex_digit:
  "n < 16 \<Longrightarrow> mg_unhex_nimble (hex_char (word_of_nat n)) = word_of_nat n"
  unfolding nat_less_16 insert_iff empty_iff
  by (elim disjE FalseE) (simp_all add: hex_char_def hex_digits_def mg_unhex_nimble_def)

lemma unhex_nibbles:
  "mg_unhex_nimble (hex_char (drop_bit 4 c)) = drop_bit 4 c"
  "mg_unhex_nimble (hex_char (c AND 15)) = c AND 15"
  using unhex_digit [OF nibble_less(1), of c] unhex_digit [OF nibble_less(2), of c] by simp_all

lemma join_nibbles: "push_bit 4 (drop_bit 4 c) OR (c AND 15) = (c :: u8)"
  by (rule byte_eqI) (simp_all add: bit_simps byte_bits)

lemma unhexn_pair:
  assumes "i + 1 < length buf" "buf ! i = hex_char (drop_bit 4 c)" "buf ! (i + 1) = hex_char (c AND 15)"
  shows "\<exists>v. mg_unhexn buf i 2 = Some v \<and> ucast v = c"
proof -
  have "mg_unhexn buf i 2 =
      Some (push_bit 4 (ucast (drop_bit 4 c)) OR ucast (c AND 15))"
    using assms by (simp add: mg_unhexn_def numeral_2_eq_2 unhex_nibbles)
  moreover have "(ucast (push_bit 4 (ucast (drop_bit 4 c) :: u64) OR ucast (c AND 15)) :: u8) =
      push_bit 4 (drop_bit 4 c) OR (c AND 15)"
    by (rule byte_eqI) (simp_all add: bit_simps byte_bits)
  ultimately show ?thesis using join_nibbles by simp
qed

lemma unhex_loop_spec:
  "span buf i (2 * length p) = hex_spec p \<Longrightarrow> i + 2 * length p \<le> length buf \<Longrightarrow> even i \<Longrightarrow>
   i div 2 + length p \<le> length to \<Longrightarrow>
   unhex_loop buf i (length p) to = Some (take (i div 2) to @ p @ drop (i div 2 + length p) to)"
proof (induction p arbitrary: i to)
  case (Cons c p)
  have nth: "buf ! i = hex_char (drop_bit 4 c)" "buf ! (i + 1) = hex_char (c AND 15)"
    using Cons.prems(1,2) nth_span [of 0 "2 * length (c # p)" i buf] nth_span [of 1 "2 * length (c # p)" i buf]
    by simp_all
  obtain v where v: "mg_unhexn buf i 2 = Some v" "ucast v = c"
    using unhexn_pair [OF _ nth] Cons.prems(2) by auto
  have "span buf (i + 2) (2 * length p) = drop 2 (span buf i (2 * length (c # p)))"
    by (simp add: span_def drop_take add.commute)
  then have "span buf (i + 2) (2 * length p) = hex_spec p"
    using Cons.prems(1) by (simp add: numeral_2_eq_2)
  from Cons.IH [OF this, of "to[i div 2 := c]"] Cons.prems(2-4) v show ?case
    by (simp add: take_Suc_conv_app_nth)
qed simp

text \<open>
  Hexadecimal round trip with exact sizes: \<open>mg_hex\<close> fills any buffer of more than 2n bytes
  with 2n lower-case digits and a zero, and \<open>mg_unhex\<close> of those digits writes exactly the n
  original bytes.
\<close>

theorem mg_hex_roundtrip:
  assumes "2 * length p < length to" "length p \<le> length dst"
  shows "\<exists>to'. mg_hex p to = Some to' \<and> length to' = length to \<and> to' ! (2 * length p) = 0 \<and>
           mg_unhex to' (2 * length p) dst = Some (p @ drop (length p) dst)"
proof -
  define to' where "to' = hex_spec p @ 0 # drop (2 * length p + 1) to"
  have "mg_hex p to = Some to'"
    using hex_loop_spec [of 0 p to] assms(1) by (simp add: mg_hex_def to'_def)
  moreover have "mg_unhex to' (2 * length p) dst = Some (p @ drop (length p) dst)"
    using unhex_loop_spec [of to' 0 p dst] assms(2) by (simp add: mg_unhex_def to'_def)
  ultimately show ?thesis using assms(1) by (simp add: to'_def nth_append)
qed

theorem mg_hex_roundtrip_witness:
  "\<exists>to'. mg_hex [222, 173] (replicate 5 0) = Some to' \<and> mg_unhex to' 4 [0, 0, 7] = Some [222, 173, 7]"
  using mg_hex_roundtrip [of "[222, 173]" "replicate 5 0" "[0, 0, 7]"] by auto

section \<open>The path check\<close>

definition climbs :: "bytes \<Rightarrow> nat \<Rightarrow> bool" where
  "climbs p i \<longleftrightarrow> i + 2 < length p \<and> p ! (i + 1) = 46 \<and> p ! (i + 2) = 46"

lemma path_loop_spec:
  "0 \<notin> set p \<Longrightarrow> path_loop first (p @ [0]) =
     Some (\<not> (\<exists>i < length p. (first \<and> i = 0 \<or> p ! i = 47 \<or> p ! i = 92) \<and> climbs p i))"
proof (induction p arbitrary: first)
  case (Cons c p)
  have shift: "(\<exists>i < length (c # p). (first \<and> i = 0 \<or> (c # p) ! i = 47 \<or> (c # p) ! i = 92) \<and> climbs (c # p) i) \<longleftrightarrow>
      (first \<or> c = 47 \<or> c = 92) \<and> climbs (c # p) 0 \<or>
      (\<exists>i < length p. (p ! i = 47 \<or> p ! i = 92) \<and> climbs p i)" (is "?l \<longleftrightarrow> ?r")
    by (auto simp: less_Suc_eq_0_disj climbs_def)
  have c0: "climbs (c # p) 0 \<longleftrightarrow> rd (p @ [0]) 0 = Some 46 \<and> rd (p @ [0]) 1 = Some 46"
  proof (cases p)
    case (Cons a q)
    then show ?thesis by (cases q) (auto simp: climbs_def rd_def)
  qed (auto simp: climbs_def rd_def)
  have r: "\<exists>a. rd (p @ [0]) 0 = Some a" "rd (p @ [0]) 0 = Some 46 \<Longrightarrow> \<exists>b. rd (p @ [0]) 1 = Some b"
    by (cases p; simp)+
  show ?case
    unfolding shift c0 using Cons r by (auto split: Option.bind_splits)
qed simp

text \<open>
  \<open>mg_path_is_sane\<close> accepts a path exactly when no slash or backslash, and not the very
  first character whatever it is, is followed by two dots.  (A path that starts with \<open>../\<close> is
  accepted: the check of the first character looks at the two after it.)
\<close>

theorem mg_path_is_sane_correct:
  "0 \<notin> set p \<Longrightarrow> mg_path_is_sane (p @ [0]) =
     Some (\<forall>i < length p. i = 0 \<or> p ! i = 47 \<or> p ! i = 92 \<longrightarrow> \<not> climbs p i)"
  using path_loop_spec [of p True] by (auto simp: mg_path_is_sane_def intro: gr0I)

theorem mg_path_is_sane_correct_witness:
  "mg_path_is_sane (bs ''../x'' @ [0]) = Some True \<and> mg_path_is_sane (bs ''/../x'' @ [0]) = Some False"
  using mg_path_is_sane_correct [of "bs ''../x''"] mg_path_is_sane_correct [of "bs ''/../x''"]
  by (auto simp: climbs_def less_Suc_eq_0_disj)

end
