(* ===== verification/Mg_Util.thy ===== *)
theory Mg_Util
  imports Mg_Str
begin

text \<open>
  \<open>src/util.c\<close>: network byte order, the table-driven CRC-32, the address filter
  \<open>mg_check_ip_acl\<close> and random strings.  The host is little-endian.
\<close>

section \<open>The code\<close>

definition mg_ntohl :: "u32 \<Rightarrow> u32" where
  "mg_ntohl net =
     (let data = (\<lambda>k. ucast (drop_bit (8 * k) net) :: u8)
      in push_bit 0 (ucast (data 3)) OR push_bit 8 (ucast (data 2)) OR
         push_bit 16 (ucast (data 1)) OR push_bit 24 (ucast (data 0)))"

definition mg_ntohs :: "u16 \<Rightarrow> u16" where
  "mg_ntohs net =
     (let data = (\<lambda>k. ucast (drop_bit (8 * k) net) :: u8)
      in ucast (data 1) OR push_bit 8 (ucast (data 0)))"

definition crclut :: "u32 list" where
  "crclut = [
      0x00000000, 0x1DB71064, 0x3B6E20C8, 0x26D930AC, 0x76DC4190, 0x6B6B51F4,
      0x4DB26158, 0x5005713C, 0xEDB88320, 0xF00F9344, 0xD6D6A3E8, 0xCB61B38C,
      0x9B64C2B0, 0x86D3D2D4, 0xA00AE278, 0xBDBDF21C]"

definition crc_byte :: "u32 \<Rightarrow> u8 \<Rightarrow> u32" where
  "crc_byte crc byte =
     (let crc = crclut ! unat ((crc XOR ucast byte) AND 0x0F) XOR drop_bit 4 crc
      in crclut ! unat ((crc XOR ucast (drop_bit 4 byte)) AND 0x0F) XOR drop_bit 4 crc)"

definition mg_crc32 :: "u32 \<Rightarrow> bytes \<Rightarrow> u32" where
  "mg_crc32 crc buf = NOT (foldl crc_byte (NOT crc) buf)"

definition mg_random_str :: "bytes \<Rightarrow> bytes" where
  "mg_random_str rnd =
     map (\<lambda>i. let c = (rnd ! i) mod 62 in
            if i = length rnd - 1 then 0
            else if c < 26 then 97 + c else if c < 52 then 65 + c - 26 else 48 + c - 52)
       [0..<length rnd]"

text \<open>
  The conversion \<open>%d\<close> of \<open>sscanf\<close> and the two formats of \<open>parse_net\<close>.  A number outside the
  range of \<open>int\<close> is undefined in C; the model keeps its mathematical value.
\<close>

definition c_isspace :: "u8 \<Rightarrow> bool" where
  "c_isspace c \<longleftrightarrow> c = 32 \<or> 9 \<le> c \<and> c \<le> 13"

definition scan_int :: "bytes \<Rightarrow> (int \<times> bytes) option" where
  "scan_int s =
     (let s = dropWhile c_isspace s;
          (neg, s) = (case s of c # t \<Rightarrow> if c = 45 then (True, t) else if c = 43 then (False, t) else (False, s)
                      | [] \<Rightarrow> (False, s));
          ds = takeWhile is_digit s
      in if ds = [] then None
         else Some (if neg then - int (digits_val ds) else int (digits_val ds), drop (length ds) s))"

definition scan_char :: "u8 \<Rightarrow> bytes \<Rightarrow> bytes option" where
  "scan_char c s = (case s of [] \<Rightarrow> None | d # t \<Rightarrow> if d = c then Some t else None)"

definition scan_quad :: "bytes \<Rightarrow> (int \<times> int \<times> int \<times> int \<times> bytes) option" where
  "scan_quad s = do {
     (a, s) \<leftarrow> scan_int s; s \<leftarrow> scan_char 46 s;
     (b, s) \<leftarrow> scan_int s; s \<leftarrow> scan_char 46 s;
     (c, s) \<leftarrow> scan_int s; s \<leftarrow> scan_char 46 s;
     (d, s) \<leftarrow> scan_int s;
     Some (a, b, c, d, s) }"

definition isbyte :: "int \<Rightarrow> bool" where
  "isbyte n \<longleftrightarrow> 0 \<le> n \<and> n \<le> 255"

text \<open>The result is \<open>None\<close> where the code returns the length 0.\<close>

definition parse_net :: "bytes \<Rightarrow> (u32 \<times> u32 \<times> nat) option" where
  "parse_net spec = do {
     (a, b, c, d, r) \<leftarrow> scan_quad spec;
     let (slash, r) = (case (do { s \<leftarrow> scan_char 47 r; scan_int s }) of
                         Some (k, r') \<Rightarrow> (k, r') | None \<Rightarrow> (32, r));
     if isbyte a \<and> isbyte b \<and> isbyte c \<and> isbyte d \<and> 0 \<le> slash \<and> slash < 33 then
       Some (push_bit 24 (word_of_int a) OR push_bit 16 (word_of_int b) OR
               push_bit 8 (word_of_int c) OR word_of_int d,
             if slash \<noteq> 0 then push_bit (nat (32 - slash)) 0xffffffff else 0,
             length spec - length r)
     else None }"

text \<open>
  \<open>k.ptr\<close> points into the list, so \<open>k.ptr[0]\<close> and \<open>parse_net\<close> read the memory from there on,
  which ends with the zero of the caller's string.
\<close>

function acl_loop :: "bytes \<Rightarrow> bytes \<Rightarrow> u32 \<Rightarrow> u8 \<Rightarrow> int" where
  "acl_loop acl tail ip allowed =
     (let (ok, k, v, acl') = mg_commalist acl in
      if \<not> ok then (if allowed = 43 then 1 else 0)
      else let k0 = hd (acl @ tail) in
        if k0 \<noteq> 43 \<and> k0 \<noteq> 45 then -1
        else case parse_net (tl (acl @ tail)) of
               None \<Rightarrow> -2
             | Some (net, netmask, n) \<Rightarrow>
                 acl_loop acl' tail ip (if mg_ntohl ip AND netmask = net then k0 else allowed))"
  by pat_completeness auto
termination
  by (relation "measure (\<lambda>(acl, tail, ip, allowed). length acl)")
     (auto simp: mg_commalist_def mg_split_def mg_nce_def Let_def split: if_splits)

declare acl_loop.simps [simp del]

definition mg_check_ip_acl :: "bytes \<Rightarrow> u32 \<Rightarrow> int" where
  "mg_check_ip_acl acl remote_ip =
     acl_loop acl [0] remote_ip (if length acl = 0 then 43 else 45)"

section \<open>Byte order\<close>

lemma bit_ntohl:
  "bit (mg_ntohl x) n \<longleftrightarrow>
     (if n < 8 then bit x (n + 24) else if n < 16 then bit x (n + 8)
      else if n < 24 then bit x (n - 8) else n < 32 \<and> bit x (n - 24))"
proof -
  consider "n < 8" | "8 \<le> n" "n < 16" | "16 \<le> n" "n < 24" | "24 \<le> n" by linarith
  then show ?thesis
    by cases (auto simp: mg_ntohl_def bit_simps Let_def add.commute [of n])
qed

lemma bit_ntohs:
  "bit (mg_ntohs x) n \<longleftrightarrow> (if n < 8 then bit x (n + 8) else n < 16 \<and> bit x (n - 8))"
  by (auto simp: mg_ntohs_def bit_simps Let_def add.commute [of n])

text \<open>
  Network byte order: \<open>mg_ntohl\<close> reverses the four bytes of its argument and \<open>mg_ntohs\<close> the
  two bytes of its, so each is its own inverse (\<open>mg_htonl\<close> is the same function).
\<close>

theorem mg_ntohl_involution: "mg_ntohl (mg_ntohl x) = x \<and> mg_ntohs (mg_ntohs y) = y"
proof
  show "mg_ntohl (mg_ntohl x) = x"
    by (rule bit_word_eqI) (auto simp: bit_ntohl)
  show "mg_ntohs (mg_ntohs y) = y"
    by (rule bit_word_eqI) (auto simp: bit_ntohs)
qed

section \<open>CRC-32\<close>

text \<open>The definition of the checksum, one bit at a time.\<close>

definition crc_bit :: "u32 \<Rightarrow> u32" where
  "crc_bit c = drop_bit 1 c XOR (if bit c 0 then 0xEDB88320 else 0)"

definition crc_byte_spec :: "u32 \<Rightarrow> u8 \<Rightarrow> u32" where
  "crc_byte_spec crc byte = (crc_bit ^^ 8) (crc XOR ucast byte)"

lemma crc_bit_xor: "crc_bit (a XOR b) = crc_bit a XOR crc_bit b"
  by (rule bit_word_eqI) (auto simp: crc_bit_def bit_simps)

lemma crc_bit_xor_iter: "(crc_bit ^^ n) (a XOR b) = (crc_bit ^^ n) a XOR (crc_bit ^^ n) b"
  by (induction n arbitrary: a b) (simp_all add: crc_bit_xor)

lemma crc_bit_even: "\<not> bit c 0 \<Longrightarrow> crc_bit c = drop_bit 1 c"
  by (simp add: crc_bit_def)

lemma crc_bit_push:
  assumes "0 < m" "m \<le> 4"
  shows "crc_bit (push_bit m (drop_bit 4 c)) = push_bit (m - 1) (drop_bit 4 c)"
proof -
  have "\<not> bit (push_bit m (drop_bit 4 c)) 0" using assms(1) by (simp add: bit_push_bit_iff)
  then show ?thesis unfolding crc_bit_even [OF \<open>\<not> bit (push_bit m (drop_bit 4 c)) 0\<close>]
    using assms by (intro bit_word_eqI) (auto simp: bit_simps dest: bit_imp_le_length)
qed

lemma funpow_4: "(f ^^ 4) x = f (f (f (f x)))"
  by (simp add: eval_nat_numeral)

lemma crc_4_high: "(crc_bit ^^ 4) (push_bit 4 (drop_bit 4 c)) = drop_bit 4 c"
  using crc_bit_push [of 4 c] crc_bit_push [of 3 c] crc_bit_push [of 2 c] crc_bit_push [of 1 c]
  by (simp add: funpow_4)

lemma crc_4_low:
  "n < 16 \<Longrightarrow> (crc_bit ^^ 4) (word_of_nat n) = crclut ! n"
  unfolding nat_less_16 insert_iff empty_iff
  by (elim disjE FalseE) (simp_all add: crc_bit_def crclut_def funpow_4)

lemma low_nibble_less: "unat ((c :: u32) AND 15) < 16"
proof -
  have "unat (c AND 15) = take_bit 4 (unat c)"
    by (simp add: unsigned_and_eq take_bit_eq_mask mask_eq_exp_minus_1)
  then show ?thesis using take_bit_nat_less_exp [of 4 "unat c"] by simp
qed

lemma and_15: "(c :: u32) AND 15 = take_bit 4 c"
  by (simp add: take_bit_eq_mask mask_eq_exp_minus_1)

lemma crc_nibble: "(crc_bit ^^ 4) c = crclut ! unat (c AND 15) XOR drop_bit 4 c"
proof -
  have "c = (c AND 15) XOR push_bit 4 (drop_bit 4 c)"
    unfolding and_15 by (rule bit_word_eqI) (auto simp: bit_simps)
  then have "(crc_bit ^^ 4) c = (crc_bit ^^ 4) (c AND 15) XOR (crc_bit ^^ 4) (push_bit 4 (drop_bit 4 c))"
    by (metis crc_bit_xor_iter)
  then show ?thesis using crc_4_low [OF low_nibble_less [of c]] by (simp add: crc_4_high)
qed

lemma crc_byte_eq: "crc_byte crc byte = crc_byte_spec crc byte"
proof -
  let ?b = "ucast byte :: u32"
  define c1 where "c1 = crclut ! unat ((crc XOR ?b) AND 15) XOR drop_bit 4 crc"
  have hi: "ucast (drop_bit 4 byte) = drop_bit 4 ?b" "drop_bit 8 ?b = 0"
    by (rule bit_word_eqI; auto simp: bit_simps dest: bit_imp_le_length)+
  have "(crc_bit ^^ 4) (crc XOR ?b) = c1 XOR drop_bit 4 ?b"
    by (simp add: crc_nibble c1_def drop_bit_xor xor.assoc xor.left_commute)
  moreover have "(crc_bit ^^ 8) x = (crc_bit ^^ 4) ((crc_bit ^^ 4) x)" for x
    by (simp flip: funpow_add [of 4 4, simplified comp_def, THEN fun_cong])
  ultimately have "crc_byte_spec crc byte = (crc_bit ^^ 4) (c1 XOR drop_bit 4 ?b)"
    by (simp add: crc_byte_spec_def)
  also have "\<dots> = crclut ! unat ((c1 XOR drop_bit 4 ?b) AND 15) XOR drop_bit 4 c1"
    by (simp add: crc_nibble drop_bit_xor hi)
  finally show ?thesis by (simp add: crc_byte_def c1_def hi Let_def)
qed

text \<open>
  C36.  The nibble-table CRC-32 is the reflected polynomial division by 0xEDB88320, bit by bit,
  on every start value and every buffer, and it can be computed in pieces: the checksum of a
  concatenation continues from the checksum of the first part.
\<close>

theorem mg_crc32_correct:
  "mg_crc32 crc buf = NOT (foldl crc_byte_spec (NOT crc) buf) \<and>
   mg_crc32 crc (buf @ more) = mg_crc32 (mg_crc32 crc buf) more"
proof -
  have "crc_byte = crc_byte_spec" by (intro ext crc_byte_eq)
  then show ?thesis by (simp add: mg_crc32_def)
qed

text \<open>
  A random string ends with a zero and otherwise has letters and digits only, whatever the
  random bytes are.
\<close>

lemma random_char: "(c :: u8) < 62 \<Longrightarrow>
   let d = (if c < 26 then 97 + c else if c < 52 then 65 + c - 26 else 48 + c - 52)
   in is_digit d \<or> 65 \<le> d \<and> d \<le> 90 \<or> 97 \<le> d \<and> d \<le> 122"
  by (auto simp: is_digit_def word_le_nat_alt word_less_nat_alt Let_def unat_word_ariths unat_plus_if' unat_sub_if')

theorem mg_random_str_alphanumeric:
  "rnd \<noteq> [] \<Longrightarrow> length (mg_random_str rnd) = length rnd \<and> last (mg_random_str rnd) = 0 \<and>
     (\<forall>d \<in> set (butlast (mg_random_str rnd)).
        is_digit d \<or> 65 \<le> d \<and> d \<le> 90 \<or> 97 \<le> d \<and> d \<le> 122)"
proof -
  assume "rnd \<noteq> []"
  then obtain n where n: "length rnd = Suc n" by (cases rnd) auto
  have "(rnd ! i) mod 62 < 62" for i by (simp add: word_less_nat_alt unat_mod)
  note r = random_char [OF this, unfolded Let_def]
  have "butlast (mg_random_str rnd) = map (\<lambda>i. let c = (rnd ! i) mod 62 in
      if c < 26 then 97 + c else if c < 52 then 65 + c - 26 else 48 + c - 52) [0..<n]"
    by (simp add: mg_random_str_def n)
  moreover have "last (mg_random_str rnd) = 0" "length (mg_random_str rnd) = length rnd"
    by (simp_all add: mg_random_str_def n)
  moreover have "\<forall>d \<in> set (butlast (mg_random_str rnd)).
      is_digit d \<or> 65 \<le> d \<and> d \<le> 90 \<or> 97 \<le> d \<and> d \<le> 122"
    unfolding calculation(1) Let_def set_map
    by (rule ballI, erule imageE, hypsubst, rule r)
  ultimately show ?thesis by blast
qed

theorem mg_random_str_alphanumeric_witness:
  "last (mg_random_str [200, 3]) = 0 \<and> mg_random_str [200, 3] ! 0 = 111"
  using mg_random_str_alphanumeric [of "[200, 3]"] by (simp add: mg_random_str_def)

section \<open>The address filter\<close>

lemma digit_not_special: "is_digit c \<Longrightarrow> \<not> c_isspace c \<and> c \<noteq> 45 \<and> c \<noteq> 43 \<and> c \<noteq> 44 \<and> c \<noteq> 46 \<and> c \<noteq> 47 \<and> c \<noteq> 61"
  by (auto simp: is_digit_def c_isspace_def word_le_nat_alt)

lemma scan_int_dec:
  assumes "r = [] \<or> \<not> is_digit (hd r)"
  shows "scan_int (dec_of n @ r) = Some (int n, r)"
proof -
  obtain c t where ct: "dec_of n = c # t" using dec_of_props [of n] by (cases "dec_of n") auto
  with dec_of_props [of n] have c: "is_digit c" by simp
  have tw: "takeWhile is_digit (dec_of n @ r) = dec_of n"
    using assms takeWhile_digits(1) [of "hd r" n "tl r"] takeWhile_digits(2) [of n] by (cases r) auto
  have "dropWhile c_isspace (dec_of n @ r) = dec_of n @ r"
    using digit_not_special [OF c] by (simp add: ct)
  moreover have "takeWhile is_digit (c # t @ r) = c # t" using tw by (simp add: ct)
  moreover have "digits_val (c # t) = n" using dec_of_props [of n] by (simp add: ct)
  ultimately show ?thesis
    using digit_not_special [OF c] by (simp add: scan_int_def ct Let_def)
qed

record acl_rule =
  allow :: bool
  net_a :: nat
  net_b :: nat
  net_c :: nat
  net_d :: nat
  bits :: nat

definition rule_bytes :: "acl_rule \<Rightarrow> bytes" where
  "rule_bytes r = (if allow r then 43 else 45) # dec_of (net_a r) @ 46 # dec_of (net_b r) @ 46 #
     dec_of (net_c r) @ 46 # dec_of (net_d r) @ 47 # dec_of (bits r)"

definition rule_ok :: "acl_rule \<Rightarrow> bool" where
  "rule_ok r \<longleftrightarrow> net_a r < 256 \<and> net_b r < 256 \<and> net_c r < 256 \<and> net_d r < 256 \<and> bits r \<le> 32"

definition rule_net :: "acl_rule \<Rightarrow> u32" where
  "rule_net r = push_bit 24 (of_nat (net_a r)) OR push_bit 16 (of_nat (net_b r)) OR
     push_bit 8 (of_nat (net_c r)) OR of_nat (net_d r)"

text \<open>A rule matches an address when the address, cut to its leading \<open>bits\<close>, is the network.\<close>

definition rule_matches :: "acl_rule \<Rightarrow> u32 \<Rightarrow> bool" where
  "rule_matches r ip \<longleftrightarrow> push_bit (32 - bits r) (drop_bit (32 - bits r) ip) = rule_net r"

definition acl_decision :: "acl_rule list \<Rightarrow> bool \<Rightarrow> u32 \<Rightarrow> bool" where
  "acl_decision rules start ip =
     foldl (\<lambda>dec r. if rule_matches r ip then allow r else dec) start rules"

lemma net_mask:
  assumes "b \<le> 32"
  shows "(ip :: u32) AND (if b = 0 then 0 else push_bit (32 - b) 0xffffffff) =
     push_bit (32 - b) (drop_bit (32 - b) ip)"
proof -
  have m: "(0xffffffff :: u32) = mask 32" by (simp add: mask_eq_exp_minus_1)
  show ?thesis
    unfolding m using assms
    by (intro bit_word_eqI) (auto simp: bit_simps dest: bit_imp_le_length)
qed

lemma parse_net_rule:
  assumes "rule_ok r" "rest = [] \<or> \<not> is_digit (hd rest)"
  shows "\<exists>n. parse_net (tl (rule_bytes r @ rest)) =
    Some (rule_net r, if bits r = 0 then 0 else push_bit (32 - bits r) 0xffffffff, n)"
proof -
  have nd: "\<not> is_digit 46" "\<not> is_digit 47" by (simp_all add: is_digit_def)
  have q: "scan_quad (tl (rule_bytes r @ rest)) = Some (int (net_a r), int (net_b r), int (net_c r),
      int (net_d r), 47 # dec_of (bits r) @ rest)"
    by (simp add: scan_quad_def rule_bytes_def scan_int_dec nd scan_char_def)
  have "nat (32 - int (bits r)) = 32 - bits r" by simp
  with assms q show ?thesis
    by (simp add: parse_net_def scan_char_def scan_int_dec rule_ok_def isbyte_def rule_net_def)
qed

lemma rule_bytes_clean:
  "44 \<notin> set (rule_bytes r) \<and> 61 \<notin> set (rule_bytes r) \<and> rule_bytes r \<noteq> []"
proof -
  have "44 \<notin> set (dec_of n) \<and> 61 \<notin> set (dec_of n)" for n
    using dec_of_props [of n] digit_not_special by blast
  then show ?thesis by (auto simp: rule_bytes_def)
qed

lemma commalist_item:
  assumes "44 \<notin> set x" "x \<noteq> []" "r = [] \<or> (\<exists>t. r = 44 # t)"
  shows "\<exists>k v. mg_commalist (x @ r) = (True, k, v, tl r)"
proof -
  have "takeWhile (\<lambda>c. c \<noteq> 44) (x @ r) = x"
    using assms by (subst takeWhile_append2) auto
  then show ?thesis
    using assms(2,3) by (auto simp: mg_commalist_def mg_split_def mg_nce_def Let_def)
qed

lemma acl_loop_step:
  assumes "rule_ok r" "rest = [] \<or> (\<exists>t. rest = 44 # t)"
  shows "acl_loop (rule_bytes r @ rest) [0] ip dec =
     acl_loop (tl rest) [0] ip
       (if rule_matches r (mg_ntohl ip) then (if allow r then 43 else 45) else dec)"
proof -
  obtain k v where kv: "mg_commalist (rule_bytes r @ rest) = (True, k, v, tl rest)"
    using commalist_item [of "rule_bytes r" rest] rule_bytes_clean [of r] assms(2) by blast
  have nd: "\<not> is_digit 0" "\<not> is_digit 44" by (simp_all add: is_digit_def)
  obtain n where n: "parse_net (tl (rule_bytes r @ rest @ [0])) =
      Some (rule_net r, if bits r = 0 then 0 else push_bit (32 - bits r) 0xffffffff, n)"
    using parse_net_rule [OF assms(1), of "rest @ [0]"] assms(2) nd by auto
  have h: "hd (rule_bytes r @ rest @ [0]) = (if allow r then 43 else 45)" by (simp add: rule_bytes_def)
  have "bits r \<le> 32" using assms(1) by (simp add: rule_ok_def)
  from net_mask [OF this, of "mg_ntohl ip"] have m:
    "(mg_ntohl ip AND (if bits r = 0 then 0 else push_bit (32 - bits r) 0xffffffff) = rule_net r) =
     rule_matches r (mg_ntohl ip)" by (simp only: rule_matches_def)
  show ?thesis
    by (subst acl_loop.simps) (simp only: kv append_assoc n h m prod.case Let_def option.case simp_thms if_False, simp)
qed

lemma acl_loop_nil: "acl_loop [] tail ip dec = (if dec = 43 then 1 else 0)"
  by (subst acl_loop.simps) (simp add: mg_commalist_def mg_split_def)

lemma acl_loop_rules:
  assumes "\<forall>r \<in> set rules. rule_ok r"
  shows "acl_loop (join 44 (map rule_bytes rules)) [0] ip (if dec then 43 else 45) =
     (if acl_decision rules dec (mg_ntohl ip) then 1 else 0)"
  using assms
proof (induction rules arbitrary: dec rule: induct_list012)
  case 1
  then show ?case by (simp add: acl_loop_nil acl_decision_def)
next
  case (2 r)
  then show ?case using acl_loop_step [of r "[]" ip "if dec then 43 else 45"]
    by (simp add: acl_loop_nil acl_decision_def)
next
  case (3 r s rs)
  let ?d = "if rule_matches r (mg_ntohl ip) then allow r else dec"
  have "acl_loop (join 44 (map rule_bytes (r # s # rs))) [0] ip (if dec then 43 else 45) =
      acl_loop (join 44 (map rule_bytes (s # rs))) [0] ip (if ?d then 43 else 45)"
    using acl_loop_step [of r "44 # join 44 (map rule_bytes (s # rs))" ip "if dec then 43 else 45"] 3(3)
    by (auto split: if_splits)
  also have "\<dots> = (if acl_decision (s # rs) ?d (mg_ntohl ip) then 1 else 0)"
    using 3(3) by (intro 3(2)) simp
  finally show ?case by (simp add: acl_decision_def)
qed

text \<open>
  C38.  The address filter decides what its rules say: for a list of rules \<open>+a.b.c.d/n\<close> and
  \<open>-a.b.c.d/n\<close> the last rule whose network equals the leading \<open>n\<close> bits of the peer address wins,
  the default is deny when there is any rule, and an empty filter allows everybody.
\<close>

theorem mg_check_ip_acl_correct:
  assumes "\<forall>r \<in> set rules. rule_ok r"
  shows "mg_check_ip_acl (join 44 (map rule_bytes rules)) ip =
     (if acl_decision rules (rules = []) (mg_ntohl ip) then 1 else 0)"
proof -
  have "length (join 44 (map rule_bytes rules)) = 0 \<longleftrightarrow> rules = []"
    using rule_bytes_clean by (cases rules; cases "tl rules") auto
  then show ?thesis
    using acl_loop_rules [OF assms, of ip "rules = []"] by (auto simp: mg_check_ip_acl_def)
qed

definition sample_acl :: "acl_rule list" where
  "sample_acl =
     [\<lparr>allow = False, net_a = 0, net_b = 0, net_c = 0, net_d = 0, bits = 0\<rparr>,
      \<lparr>allow = True, net_a = 10, net_b = 0, net_c = 0, net_d = 0, bits = 8\<rparr>]"

theorem mg_check_ip_acl_correct_witness:
  "mg_check_ip_acl (join 44 (map rule_bytes sample_acl)) 0x0500000A = 1"
proof -
  have "\<forall>r \<in> set sample_acl. rule_ok r" by (simp add: sample_acl_def rule_ok_def)
  moreover have "acl_decision sample_acl (sample_acl = []) (mg_ntohl 0x0500000A)"
    by (simp add: sample_acl_def acl_decision_def rule_matches_def rule_net_def mg_ntohl_def Let_def)
  ultimately show ?thesis using mg_check_ip_acl_correct by simp
qed

end
