(* ===== verification/Mg_Fmt.thy ===== *)
theory Mg_Fmt
  imports Mg_Iobuf Mg_Str Mg_Util
begin

text \<open>
  Formatted output (\<open>src/mongoose.c\<close>, \<open>fmt.c\<close> and \<open>printf.c\<close>): number conversion \<open>mg_lld\<close>, the
  format interpreter \<open>mg_vxprintf\<close>, and its two sinks, a fixed array (\<open>mg_vsnprintf\<close>) and a
  growing buffer (\<open>mg_pfn_iobuf\<close>).  A format is a string literal, the arguments a list of tagged
  values whose tags \<open>va_arg\<close> must meet; an output function that collects characters is the list
  of these characters.  The floating-point conversions \<open>%g\<close> and \<open>%f\<close> are not modelled (\<open>None\<close>).
\<close>

section \<open>Numbers\<close>

function lld_digits :: "bool \<Rightarrow> u64 \<Rightarrow> nat \<Rightarrow> nat \<Rightarrow> bytes \<Rightarrow> (nat \<times> bytes) option" where
  "lld_digits hex v s n mem =
     (if v = 0 then Some (n, mem)
      else do {
        mem \<leftarrow> wr mem (s + n) (hex_digits ! unat (if hex then v AND 15 else v mod 10));
        lld_digits hex (if hex then drop_bit 4 v else v div 10) s (n + 1) mem })"
  by pat_completeness auto
termination
proof (relation "measure (\<lambda>(hex, v, s, n, mem). unat v)")
  fix hex and v :: u64 and s n :: nat and mem mem' :: bytes
  assume "v \<noteq> 0"
  then have "0 < unat v" by (simp add: unat_gt_0)
  then show "((hex, if hex then drop_bit 4 v else v div 10, s, n + 1, mem'), hex, v, s, n, mem)
      \<in> measure (\<lambda>(hex, v, s, n, mem). unat v)"
    by (auto simp: drop_bit_eq_div unat_div)
qed simp

declare lld_digits.simps [simp del]

text \<open>The loop that reverses the digits, \<open>k\<close> swaps to go.\<close>

fun lld_reverse :: "nat \<Rightarrow> nat \<Rightarrow> nat \<Rightarrow> nat \<Rightarrow> bytes \<Rightarrow> bytes option" where
  "lld_reverse 0 i s n mem = Some mem"
| "lld_reverse (Suc k) i s n mem = do {
     t \<leftarrow> rd mem (s + i);
     u \<leftarrow> rd mem (s + n - i - 1);
     mem \<leftarrow> wr mem (s + i) u;
     mem \<leftarrow> wr mem (s + n - i - 1) t;
     lld_reverse k (i + 1) s n mem }"

definition mg_lld :: "bytes \<Rightarrow> u64 \<Rightarrow> bool \<Rightarrow> bool \<Rightarrow> (nat \<times> bytes) option" where
  "mg_lld mem val is_signed is_hex = do {
     (s, v, mem) \<leftarrow>
       (if is_signed \<and> sint val < 0 then do { mem \<leftarrow> wr mem 0 45; Some (1, - val, mem) }
        else Some (0, val, mem));
     (n, mem) \<leftarrow> lld_digits is_hex v s 0 mem;
     mem \<leftarrow> lld_reverse (n div 2) 0 s n mem;
     (n, mem) \<leftarrow> (if val = 0 then do { mem \<leftarrow> wr mem n 48; Some (n + 1, mem) } else Some (n, mem));
     Some (n + s, mem) }"

section \<open>The format interpreter\<close>

text \<open>Arguments: \<open>int\<close>, \<open>long\<close>, a pointer to characters, a printer with what it prints and returns.\<close>

datatype fmt_arg =
    Int32 u32
  | Int64 u64
  | Str "bytes option"
  | Printer bytes nat

record fmt_spec =
  f_alt :: bool
  f_minus :: bool
  f_zero :: bool
  f_width :: nat
  f_prec :: nat
  f_long :: nat

text \<open>The precision that stands for none, \<open>~0U\<close>.\<close>

definition no_prec :: nat where "no_prec = 4294967295"

fun scpy :: "bytes \<Rightarrow> nat \<Rightarrow> bytes option" where
  "scpy m 0 = Some []"
| "scpy [] (Suc k) = None"
| "scpy (c # m) (Suc k) = (if c = 0 then Some [] else map_option ((#) c) (scpy m k))"

definition fmt_flag :: "u8 \<Rightarrow> bytes \<Rightarrow> bool \<times> bytes" where
  "fmt_flag ch s = (case s of [] \<Rightarrow> (False, s) | c # r \<Rightarrow> if c = ch then (True, r) else (False, s))"

definition fmt_number :: "bytes \<Rightarrow> nat \<times> bytes" where
  "fmt_number s = (digits_val (takeWhile is_digit s), dropWhile is_digit s)"

definition fmt_prec :: "bytes \<Rightarrow> fmt_arg list \<Rightarrow> (nat \<times> bytes \<times> fmt_arg list) option" where
  "fmt_prec s args =
     (case fmt_flag 46 s of
        (False, s) \<Rightarrow> Some (no_prec, s, args)
      | (True, s) \<Rightarrow>
          (case fmt_flag 42 s of
             (False, s) \<Rightarrow> let (p, s) = fmt_number s in Some (p, s, args)
           | (True, s) \<Rightarrow>
               (case args of
                  Int32 v # args \<Rightarrow> Some (unat (scast v :: u64), s, args)
                | _ \<Rightarrow> None)))"

text \<open>Flags, width, precision and length of a conversion, in the order the code reads them.\<close>

definition fmt_head :: "bytes \<Rightarrow> fmt_arg list \<Rightarrow> (fmt_spec \<times> bytes \<times> fmt_arg list) option" where
  "fmt_head s args =
     (let (alt, s) = fmt_flag 35 s;
          (minus, s) = fmt_flag 45 s;
          (zero, s) = fmt_flag 48 s;
          (w, s) = fmt_number s
      in do {
        (pr, s, args) \<leftarrow> fmt_prec s args;
        let s = dropWhile (\<lambda>c. c = 104) s;
        let (l, s) = fmt_flag 108 s;
        let (ll, s) = (if l then fmt_flag 108 s else (False, s));
        Some (\<lparr>f_alt = alt, f_minus = minus, f_zero = zero, f_width = w, f_prec = pr,
               f_long = (if ll then 2 else if l then 1 else 0)\<rparr>, s, args) })"

text \<open>The 64-bit value handed to \<open>mg_lld\<close>.\<close>

definition int_arg :: "bool \<Rightarrow> nat \<Rightarrow> fmt_arg list \<Rightarrow> (u64 \<times> fmt_arg list) option" where
  "int_arg sg longs args =
     (case args of
        Int32 v # args \<Rightarrow> if longs = 0 then Some (if sg then scast v else ucast v, args) else None
      | Int64 v # args \<Rightarrow> if longs = 0 then None else Some (v, args)
      | _ \<Rightarrow> None)"

definition padding :: "bool \<Rightarrow> u8 \<Rightarrow> nat \<Rightarrow> nat \<Rightarrow> bytes" where
  "padding b ch k w = (if b \<and> k < w then replicate (w - k) ch else [])"

definition fmt_int :: "fmt_spec \<Rightarrow> u8 \<Rightarrow> fmt_arg list \<Rightarrow> (bytes \<times> nat \<times> fmt_arg list) option" where
  "fmt_int sp c args =
     (let p = (c = 112); x = (f_alt sp \<or> p); longs = (if p then 1 else f_long sp); s = (c = 100);
          h = (c = 120 \<or> c = 88 \<or> p); xl = (if x then 2 else 0)
      in do {
        (v, args) \<leftarrow> int_arg s longs args;
        (k, tmp) \<leftarrow> mg_lld (replicate 40 0) v s h;
        let w = f_width sp - xl;
        pre \<leftarrow> scpy (bs ''0x'' @ [0]) xl;
        num \<leftarrow> scpy tmp k;
        let out = padding (\<not> f_zero sp \<and> \<not> f_minus sp) 32 k w @ pre @ padding (f_zero sp) 48 k w @ num @
                  padding (\<not> f_zero sp \<and> f_minus sp) 32 k w;
        Some (out, length out, args) })"

definition fmt_str :: "fmt_spec \<Rightarrow> fmt_arg list \<Rightarrow> (bytes \<times> nat \<times> fmt_arg list) option" where
  "fmt_str sp args =
     (case args of
        Str p # args \<Rightarrow>
          (let pad = (if f_zero sp then 48 else 32) in do {
             pr \<leftarrow> (if f_prec sp = no_prec then
                      (case p of None \<Rightarrow> Some 0 | Some m \<Rightarrow> if 0 \<in> set m then Some (length (cstr m)) else None)
                   else Some (f_prec sp));
             t \<leftarrow> scpy (case p of None \<Rightarrow> [] | Some m \<Rightarrow> m) pr;
             let out = padding (\<not> f_minus sp) pad pr (f_width sp) @ t @ padding (f_minus sp) pad pr (f_width sp);
             Some (out, length out, args) })
      | _ \<Rightarrow> None)"

text \<open>One conversion: what it prints, what it adds to the count, and the arguments left.\<close>

definition fmt_conv :: "fmt_spec \<Rightarrow> u8 \<Rightarrow> fmt_arg list \<Rightarrow> (bytes \<times> nat \<times> fmt_arg list) option" where
  "fmt_conv sp c args =
     (if c \<in> set (bs ''duxXp'') then fmt_int sp c args
      else if c \<in> set (bs ''gf'') then None
      else if c = 109 \<or> c = 77 then
        (case args of
           Printer t n # args \<Rightarrow> if c = 109 then Some (34 # t @ [34], n + 2, args) else Some (t, n, args)
         | _ \<Rightarrow> None)
      else if c = 99 then (case args of Int32 v # args \<Rightarrow> Some ([ucast v], 1, args) | _ \<Rightarrow> None)
      else if c = 115 then fmt_str sp args
      else if c = 37 then Some ([37], 1, args)
      else Some ([37, c], 2, args))"

lemma fmt_number_length: "length (snd (fmt_number s)) \<le> length s"
  by (simp add: fmt_number_def length_dropWhile_le)

lemma fmt_flag_length: "fmt_flag ch s = (b, r) \<Longrightarrow> length r \<le> length s"
  by (auto simp: fmt_flag_def split: list.splits if_splits)

lemma fmt_prec_length:
  assumes "fmt_prec s args = Some (p, r, args')"
  shows "length r \<le> length s"
proof -
  obtain d s1 where d: "fmt_flag 46 s = (d, s1)" by fastforce
  obtain st s2 where st: "fmt_flag 42 s1 = (st, s2)" by fastforce
  have "length (snd (fmt_number s2)) \<le> length s2" by (rule fmt_number_length)
  then have "r = s \<or> length r \<le> length s2"
    using assms d st by (auto simp: fmt_prec_def fmt_flag_def split: bool.splits list.splits fmt_arg.splits prod.splits if_splits)
  then show ?thesis using fmt_flag_length [OF d] fmt_flag_length [OF st] by auto
qed

lemma fmt_head_length: "fmt_head s args = Some (sp, r, args') \<Longrightarrow> length r \<le> length s"
proof -
  assume a: "fmt_head s args = Some (sp, r, args')"
  obtain al s1 mi s2 ze s3 w s4 where f: "fmt_flag 35 s = (al, s1)" "fmt_flag 45 s1 = (mi, s2)" "fmt_flag 48 s2 = (ze, s3)"
      "fmt_number s3 = (w, s4)" by fastforce
  with a obtain p s5 args5 where p: "fmt_prec s4 args = Some (p, s5, args5)"
    by (auto simp: fmt_head_def split: option.splits prod.splits bind_splits)
  let ?d = "dropWhile (\<lambda>c. c = 104) s5"
  obtain l s6 where l: "fmt_flag 108 ?d = (l, s6)" by fastforce
  obtain ll s7 where ll: "(if l then fmt_flag 108 s6 else (False, s6)) = (ll, s7)" by fastforce
  have "r = s7" using a f p l ll by (simp add: fmt_head_def)
  moreover have "length s7 \<le> length s6" using ll by (cases l) (auto dest: fmt_flag_length)
  moreover have "length s4 \<le> length s3" using f(4) fmt_number_length [of s3] by simp
  moreover have "length s6 \<le> length ?d" "length ?d \<le> length s5" by (rule fmt_flag_length [OF l], rule length_dropWhile_le)
  ultimately have "length s7 \<le> length s"
    using fmt_flag_length [OF f(1)] fmt_flag_length [OF f(2)] fmt_flag_length [OF f(3)] fmt_prec_length [OF p] by linarith
  then show ?thesis using \<open>r = s7\<close> by simp
qed

text \<open>
  \<open>mg_vxprintf\<close>: the characters put out and the length returned.  A format that ends inside a
  conversion makes the code step over its terminating zero: \<open>None\<close>.
\<close>

function mg_vxprintf :: "bytes \<Rightarrow> fmt_arg list \<Rightarrow> (bytes \<times> nat) option" where
  "mg_vxprintf [] args = Some ([], 0)"
| "mg_vxprintf (ch # fmt) args =
     (if ch = 37 then
        (case fmt_head fmt args of
           None \<Rightarrow> None
         | Some (sp, s, args) \<Rightarrow>
             (case s of
                [] \<Rightarrow> None
              | c # s \<Rightarrow> do {
                  (t, k, args) \<leftarrow> fmt_conv sp c args;
                  (out, n) \<leftarrow> mg_vxprintf s args;
                  Some (t @ out, k + n) }))
      else do {
        (out, n) \<leftarrow> mg_vxprintf fmt args;
        Some (ch # out, n + 1) })"
  by pat_completeness auto
termination
  by (relation "measure (\<lambda>(fmt, args). length fmt)") (auto dest!: fmt_head_length)

declare mg_vxprintf.simps(2) [simp del]

section \<open>Correctness of the number conversion\<close>

text \<open>The digits of a number, least significant first, and the usual way around.\<close>

function digits_rev :: "nat \<Rightarrow> nat \<Rightarrow> bytes" where
  "digits_rev b v = (if v = 0 \<or> b < 2 then [] else hex_digits ! (v mod b) # digits_rev b (v div b))"
  by pat_completeness auto
termination by (relation "measure snd") auto

declare digits_rev.simps [simp del]

definition num_of :: "nat \<Rightarrow> nat \<Rightarrow> bytes" where
  "num_of b v = (if v = 0 then [48] else rev (digits_rev b v))"

definition num_text :: "u64 \<Rightarrow> bool \<Rightarrow> bool \<Rightarrow> bytes" where
  "num_text v sg hex =
     (let b = (if hex then 16 else 10) in
      if sg \<and> sint v < 0 then 45 # num_of b (nat (- sint v)) else num_of b (unat v))"

lemma hex_digit_char: "d < 10 \<Longrightarrow> hex_digits ! d = digit_char d"
  by (drule digit_cases) (elim disjE; simp add: hex_digits_def digit_char_def)

lemma num_of_dec: "num_of 10 n = dec_of n"
proof (cases "n = 0")
  case False
  then show ?thesis
  proof (induction n rule: dec_of.induct)
    case (1 n)
    have z: "digits_rev 10 0 = []" by (simp add: digits_rev.simps)
    have "n mod 10 = n" "n div 10 = 0" if "n < 10" using that by simp_all
    then show ?case
      using 1 by (cases "n < 10")
        (auto simp: num_of_def dec_of.simps [of n] digits_rev.simps [of 10 n] hex_digit_char z)
  qed
qed (simp add: num_of_def dec_of.simps digit_char_def)

lemma digits_rev_length: "v < b ^ k \<Longrightarrow> length (digits_rev b v) \<le> k"
proof (induction k arbitrary: v)
  case (Suc k)
  then have "v div b < b ^ k" by (simp add: less_mult_imp_div_less mult.commute)
  then show ?case using Suc.IH by (simp add: digits_rev.simps [of b v])
qed (simp add: digits_rev.simps)

lemma u64_div_mod:
  fixes v :: u64
  shows "unat (if hex then v AND 15 else v mod 10) = unat v mod (if hex then 16 else 10)"
    "unat (if hex then drop_bit 4 v else v div 10) = unat v div (if hex then 16 else 10)"
proof -
  have "v AND 15 = take_bit 4 v" by (simp add: take_bit_eq_mask mask_eq_exp_minus_1)
  then show "unat (if hex then v AND 15 else v mod 10) = unat v mod (if hex then 16 else 10)"
    by (simp add: unat_mod unsigned_take_bit_eq take_bit_eq_mod)
  show "unat (if hex then drop_bit 4 v else v div 10) = unat v div (if hex then 16 else 10)"
    by (simp add: drop_bit_eq_div unat_div)
qed

lemma lld_digits_spec:
  defines "base hex \<equiv> (if hex then 16 else 10 :: nat)"
  assumes "length pre = s + n" "length (digits_rev (base hex) (unat v)) \<le> length post"
  shows "lld_digits hex v s n (pre @ post) =
    Some (n + length (digits_rev (base hex) (unat v)),
      pre @ digits_rev (base hex) (unat v) @ drop (length (digits_rev (base hex) (unat v))) post)"
  using assms(2,3)
proof (induction hex v s n "pre @ post" arbitrary: pre post rule: lld_digits.induct)
  case (1 hex v s n)
  note u = u64_div_mod [of hex v, folded base_def]
  show ?case
  proof (cases "v = 0")
    case False
    then have d: "digits_rev (base hex) (unat v) =
        hex_digits ! (unat v mod base hex) # digits_rev (base hex) (unat v div base hex)"
      by (subst digits_rev.simps) (simp add: unat_eq_0 base_def)
    then obtain x rest where post: "post = x # rest" using 1(3) by (cases post) auto
    let ?c = "hex_digits ! (unat v mod base hex)"
    have w: "wr (pre @ post) (s + n) (hex_digits ! unat (if hex then v AND 15 else v mod 10)) = Some ((pre @ [?c]) @ rest)"
      using 1(2) post unfolding u(1) by (simp add: list_update_append)
    have "lld_digits hex (if hex then drop_bit 4 v else v div 10) s (n + 1) ((pre @ [?c]) @ rest) =
      Some (n + 1 + length (digits_rev (base hex) (unat v div base hex)),
        (pre @ [?c]) @ digits_rev (base hex) (unat v div base hex) @
          drop (length (digits_rev (base hex) (unat v div base hex))) rest)"
      using "1.hyps" [OF False w] 1(2,3) d post unfolding u(2)
      by simp
    then show ?thesis using False d post w by (subst lld_digits.simps) simp
  qed (simp add: lld_digits.simps digits_rev.simps)
qed

lemma lld_reverse_spec:
  "length pre = s \<Longrightarrow> length a = i \<Longrightarrow> length z = i \<Longrightarrow> k = length m div 2 \<Longrightarrow> n = length m + 2 * i \<Longrightarrow>
   lld_reverse k i s n (pre @ a @ m @ z @ post) = Some (pre @ a @ rev m @ z @ post)"
proof (induction k arbitrary: i a m z)
  case 0
  then have "length m < 2" by simp
  then have "rev m = m" by (cases m; cases "tl m") auto
  then show ?case by simp
next
  case (Suc k)
  then obtain x m1 where "m = x # m1" "m1 \<noteq> []" by (cases m; cases "tl m") auto
  then obtain m' y where m: "m = x # m' @ [y]" by (cases m1 rule: rev_exhaust) auto
  have "lld_reverse k (i + 1) s n (pre @ (a @ [y]) @ m' @ (x # z) @ post) = Some (pre @ (a @ [y]) @ rev m' @ (x # z) @ post)"
    using Suc m by (intro Suc.IH) auto
  moreover have "rd (pre @ a @ m @ z @ post) (s + i) = Some x"
    using Suc.prems m by (simp add: nth_append)
  moreover have "rd (pre @ a @ m @ z @ post) (s + n - i - 1) = Some y"
    using Suc.prems m by (simp add: nth_append)
  moreover have "wr (pre @ a @ m @ z @ post) (s + i) y = Some (pre @ a @ (y # m' @ [y]) @ z @ post)"
    using Suc.prems m by (simp add: list_update_append)
  moreover have "wr (pre @ a @ (y # m' @ [y]) @ z @ post) (s + n - i - 1) x = Some (pre @ (a @ [y]) @ m' @ (x # z) @ post)"
    using Suc.prems m by (simp add: list_update_append)
  ultimately show ?case by (simp add: m)
qed


lemma unat_neg_sint:
  fixes v :: u64
  assumes "sint v < 0"
  shows "unat (- v) = nat (- sint v)"
proof -
  have "- (2 ^ 63) \<le> sint v" using sint_ge [of v] by simp
  then have "(- sint v) mod 2 ^ LENGTH(64) = - sint v" using assms by (intro mod_pos_pos_trivial) auto
  then have "uint (word_of_int (- sint v) :: u64) = - sint v" by (subst uint_word_of_int)
  then have "uint (- v) = - sint v" by simp
  then show ?thesis by (simp flip: nat_uint_eq)
qed

text \<open>
  Printing a 64-bit number, signed or not, decimal or hexadecimal, into any array of at least 21
  bytes leaves the numeral at its start and returns its length; the smallest negative number and
  zero included, and the loops end.
\<close>

theorem mg_lld_correct:
  assumes "21 \<le> length mem"
  shows "\<exists>rest. mg_lld mem v sg hex = Some (length (num_text v sg hex), num_text v sg hex @ rest) \<and>
    length (num_text v sg hex @ rest) = length mem \<and> length (num_text v sg hex) \<le> 21"
proof -
  let ?b = "if hex then 16 else 10 :: nat"
  let ?neg = "sg \<and> sint v < 0"
  obtain pre post w where pp: "pre = (if ?neg then [45 :: u8] else [])" "post = drop (length pre) mem" "w = (if ?neg then - v else v)"
    by blast
  let ?d = "digits_rev ?b (unat w)"
  have "unat w < ?b ^ 20" by (rule less_le_trans [OF unsigned_less]) simp
  then have dl: "length ?d \<le> 20" by (rule digits_rev_length)
  have w: "unat w = (if ?neg then nat (- sint v) else unat v)"
    using unat_neg_sint [of v] pp(3) by simp
  have "mem \<noteq> []" using assms by auto
  then have m: "(if ?neg then do { b \<leftarrow> wr mem 0 45; Some (1, - v, b) } else Some (0, v, mem)) = Some (length pre, w, pre @ post)"
    using pp by (cases mem) auto
  have pl: "length pre \<le> 1" "length post = length mem - length pre" using pp by auto
  have dig: "lld_digits hex w (length pre) 0 (pre @ post) = Some (length ?d, pre @ ?d @ drop (length ?d) post)"
    using lld_digits_spec [of pre "length pre" 0 hex w post] dl pl assms by simp
  have rv: "lld_reverse (length ?d div 2) 0 (length pre) (length ?d) (pre @ ?d @ drop (length ?d) post) =
      Some (pre @ rev ?d @ drop (length ?d) post)"
    using lld_reverse_spec [of pre "length pre" "[]" 0 "[]" "length ?d div 2" ?d "length ?d" "drop (length ?d) post"] by simp
  show ?thesis
  proof (cases "v = 0")
    case True
    then have "?d = []" "pre = []" "w = 0" using pp by (simp_all add: digits_rev.simps)
    moreover obtain x r where "post = x # r" using \<open>mem \<noteq> []\<close> pp(2) \<open>pre = []\<close> by (cases mem) auto
    ultimately show ?thesis
      using m dig rv True pl assms by (simp add: mg_lld_def num_text_def num_of_def)
  next
    case False
    then have "w \<noteq> 0" using pp by auto
    then have t: "num_text v sg hex = pre @ rev ?d"
      using w pp by (auto simp: num_text_def num_of_def unat_eq_0)
    show ?thesis unfolding t
      using m dig rv False pl dl assms by (intro exI [of _ "drop (length ?d) post"]) (simp add: mg_lld_def add.commute)
  qed
qed

theorem mg_lld_correct_witness:
  "\<exists>rest. mg_lld (replicate 40 0) (- 42) True False = Some (3, bs ''-42'' @ rest)"
proof -
  have "num_text (- 42) True False = bs ''-42''"
    by (simp add: num_text_def num_of_def digits_rev.simps hex_digits_def)
  then show ?thesis using mg_lld_correct [of "replicate 40 0" "- 42" True False] by auto
qed

lemma lld_text:
  "\<exists>k tmp. mg_lld (replicate 40 0) v sg hex = Some (k, tmp) \<and> take k tmp = num_text v sg hex \<and>
     k = length (num_text v sg hex) \<and> k \<le> length tmp"
  using mg_lld_correct [of "replicate 40 0" v sg hex] by fastforce

section \<open>Where the characters go\<close>

definition pfn_iobuf_private :: "(nat \<Rightarrow> bool) \<Rightarrow> bool \<Rightarrow> u8 \<Rightarrow> mg_iobuf \<Rightarrow> mg_iobuf option" where
  "pfn_iobuf_private alloc expand ch io = do {
     (ok, io) \<leftarrow>
       (if expand \<and> len io + 2 > size io then mg_iobuf_resize alloc io (len io + 2) else Some (True, io));
     if len io + 2 \<le> size io then do {
       b \<leftarrow> buf io;
       b \<leftarrow> wr b (len io) ch;
       b \<leftarrow> wr b (len io + 1) 0;
       Some (io\<lparr>buf := Some b, len := len io + 1\<rparr>) }
     else if len io < size io then do {
       b \<leftarrow> buf io;
       b \<leftarrow> wr b (len io) 0;
       Some (io\<lparr>buf := Some b, len := len io + 1\<rparr>) }
     else Some io }"

fun put_all :: "(u8 \<Rightarrow> 's \<Rightarrow> 's option) \<Rightarrow> bytes \<Rightarrow> 's \<Rightarrow> 's option" where
  "put_all put [] s = Some s"
| "put_all put (c # cs) s = do { s \<leftarrow> put c s; put_all put cs s }"

text \<open>\<open>mg_vsnprintf\<close> into an array: what it returns and the array.\<close>

definition mg_vsnprintf :: "bytes \<Rightarrow> bytes \<Rightarrow> fmt_arg list \<Rightarrow> (nat \<times> bytes) option" where
  "mg_vsnprintf mem fmt args = do {
     (out, n) \<leftarrow> mg_vxprintf fmt args;
     io \<leftarrow> put_all (pfn_iobuf_private (\<lambda>_. False) False) out
            \<lparr>buf = Some mem, size = length mem, len = 0, align = 0\<rparr>;
     m \<leftarrow> buf io;
     m \<leftarrow> (if n < length mem then wr m n 0 else Some m);
     Some (n, m) }"

definition good_printer :: "fmt_arg \<Rightarrow> bool" where
  "good_printer a \<longleftrightarrow> (case a of Printer t n \<Rightarrow> n = length t | _ \<Rightarrow> True)"

lemma int_arg_args: "int_arg s l args = Some (v, args') \<Longrightarrow> set args' \<subseteq> set args"
  by (auto simp: int_arg_def split: list.splits fmt_arg.splits if_splits)

lemma fmt_int_count: "fmt_int sp c args = Some (t, k, args') \<Longrightarrow> k = length t \<and> set args' \<subseteq> set args"
  using int_arg_args by (fastforce simp: fmt_int_def Let_def split: bind_splits)

lemma fmt_str_count: "fmt_str sp args = Some (t, k, args') \<Longrightarrow> k = length t \<and> set args' \<subseteq> set args"
  by (auto simp: fmt_str_def Let_def split: bind_splits list.splits fmt_arg.splits)

lemma fmt_conv_count:
  "fmt_conv sp c args = Some (t, k, args') \<Longrightarrow> \<forall>a \<in> set args. good_printer a \<Longrightarrow>
   k = length t \<and> set args' \<subseteq> set args"
  unfolding fmt_conv_def good_printer_def
  by (auto dest!: fmt_int_count fmt_str_count split: list.splits fmt_arg.splits if_splits)

lemma fmt_head_args: "fmt_head s args = Some (sp, r, args') \<Longrightarrow> set args' \<subseteq> set args"
  by (auto simp: fmt_head_def fmt_prec_def Let_def split: bind_splits prod.splits bool.splits list.splits fmt_arg.splits)

lemma printf_count:
  "mg_vxprintf fmt args = Some (out, n) \<Longrightarrow> \<forall>a \<in> set args. good_printer a \<Longrightarrow> n = length out"
proof (induction fmt args arbitrary: out n rule: mg_vxprintf.induct)
  case (2 ch fmt args)
  show ?case
  proof (cases "ch = 37")
    case True
    with 2(3) obtain sp c s args1 t k args2 out' n' where
      h: "fmt_head fmt args = Some (sp, c # s, args1)" "fmt_conv sp c args1 = Some (t, k, args2)"
        "mg_vxprintf s args2 = Some (out', n')" "out = t @ out'" "n = k + n'"
      by (auto simp: mg_vxprintf.simps(2) split: option.splits prod.splits list.splits bind_splits)
    have a: "\<forall>a \<in> set args1. good_printer a" using 2(4) fmt_head_args [OF h(1)] by auto
    then show ?thesis
      using 2(1) [OF True h(1) refl refl refl h(2) refl refl h(3)] fmt_conv_count [OF h(2) a] h by auto
  next
    case False
    with 2(3) obtain out' n' where "mg_vxprintf fmt args = Some (out', n')" "out = ch # out'" "n = n' + 1"
      by (auto simp: mg_vxprintf.simps(2) split: bind_splits)
    then show ?thesis using 2(2) [OF False] 2(4) by simp
  qed
qed simp

lemma put_static:
  "length out + 1 \<le> length mem \<Longrightarrow>
   put_all (pfn_iobuf_private alloc False) out \<lparr>buf = Some (pre @ mem), size = length (pre @ mem), len = length pre, align = a\<rparr> =
   Some \<lparr>buf = Some (pre @ (if out = [] then mem else out @ 0 # drop (length out + 1) mem)),
         size = length (pre @ mem), len = length pre + length out, align = a\<rparr>"
proof (induction out arbitrary: pre mem)
  case (Cons c out)
  then obtain x y m where m: "mem = x # y # m" by (cases mem; cases "tl mem") auto
  have "pfn_iobuf_private alloc False c \<lparr>buf = Some (pre @ mem), size = length (pre @ mem), len = length pre, align = a\<rparr> =
      Some \<lparr>buf = Some ((pre @ [c]) @ 0 # m), size = length ((pre @ [c]) @ 0 # m), len = length (pre @ [c]), align = a\<rparr>"
    by (simp add: pfn_iobuf_private_def m list_update_append)
  then show ?case
    using Cons.IH [of "0 # m" "pre @ [c]"] Cons.prems m by (auto simp: drop_Cons')
qed simp

lemma put_full:
  "size io \<le> len io \<Longrightarrow> put_all (pfn_iobuf_private alloc False) out io = Some io"
  by (induction out) (simp_all add: pfn_iobuf_private_def)

lemma put_all_append:
  "put_all f (xs @ ys) s = do { s \<leftarrow> put_all f xs s; put_all f ys s }"
  by (induction xs arbitrary: s) (auto split: bind_splits)

lemma put_truncated:
  assumes "mem \<noteq> []" "length mem \<le> length out"
  shows "\<exists>io. put_all (pfn_iobuf_private alloc False) out \<lparr>buf = Some mem, size = length mem, len = 0, align = 0\<rparr> = Some io \<and>
     buf io = Some (take (length mem - 1) out @ [0])"
proof -
  let ?k = "length mem - 1"
  have "?k < length out" using assms by (cases mem) auto
  then obtain c r where r: "drop ?k out = c # r" using Cons_nth_drop_Suc [of ?k out] by metis
  have o: "out = take ?k out @ c # r" unfolding r [symmetric] by (rule append_take_drop_id [symmetric])
  have l: "length (take ?k out) = ?k" using assms by simp
  have "mem = butlast mem @ [last mem]" using assms by simp
  then have d: "drop ?k mem = [last mem]" by (metis append_eq_conv_conj length_butlast)
  let ?m = "if take ?k out = [] then mem else take ?k out @ 0 # drop (?k + 1) mem"
  have lm: "length ?m = length mem" using assms l by auto
  have "put_all (pfn_iobuf_private alloc False) (take ?k out) \<lparr>buf = Some mem, size = length mem, len = 0, align = 0\<rparr> =
      Some \<lparr>buf = Some ?m, size = length mem, len = ?k, align = 0\<rparr>"
    using put_static [of "take ?k out" mem alloc "[]" 0] assms l by simp
  moreover have "?m[?k := 0] = take ?k out @ [0]"
  proof (cases "take ?k out = []")
    case True
    then have "?k = 0" using l by (metis list.size(3))
    then show ?thesis using assms(1) True by (cases mem) simp_all
  next
    case False
    have "drop (?k + 1) mem = []" by simp
    then show ?thesis using False l list_update_length [of "take ?k out" 0 "[]" 0] by simp
  qed
  then have "pfn_iobuf_private alloc False c \<lparr>buf = Some ?m, size = length mem, len = ?k, align = 0\<rparr> =
      Some \<lparr>buf = Some (take ?k out @ [0]), size = length mem, len = length mem, align = 0\<rparr>"
    using assms lm by (simp add: pfn_iobuf_private_def)
  ultimately show ?thesis
    by (subst o) (simp add: put_all_append put_full)
qed

lemma vsnprintf_text:
  assumes "mg_vxprintf fmt args = Some (out, n)" "\<forall>a \<in> set args. good_printer a"
  shows "n = length out \<and> (\<exists>mem'. mg_vsnprintf mem fmt args = Some (length out, mem') \<and> length mem' = length mem \<and>
    (mem \<noteq> [] \<longrightarrow> (let k = min (length out) (length mem - 1) in mem' = take k out @ 0 # drop (k + 1) mem)))"
proof -
  have n: "n = length out" by (rule printf_count [OF assms])
  consider (fits) "length out < length mem" | (cut) "mem \<noteq> []" "length mem \<le> length out" | (empty) "mem = []"
    by fastforce
  then show ?thesis
  proof cases
    case fits
    then obtain x m where m: "mem = x # m" by (cases mem) auto
    have p: "put_all (pfn_iobuf_private (\<lambda>_. False) False) out \<lparr>buf = Some mem, size = length mem, len = 0, align = 0\<rparr> =
        Some \<lparr>buf = Some (if out = [] then mem else out @ 0 # drop (length out + 1) mem), size = length mem, len = length out, align = 0\<rparr>"
      using put_static [of out mem _ "[]"] fits by simp
    have w: "wr (if out = [] then mem else out @ 0 # drop (length out + 1) mem) (length out) 0 =
        Some (out @ 0 # drop (length out + 1) mem)"
      using fits m by (auto simp: list_update_append)
    have "mg_vsnprintf mem fmt args = Some (length out, out @ 0 # drop (length out + 1) mem)"
      using fits assms(1) n unfolding mg_vsnprintf_def by (simp add: p w)
    moreover have "min (length out) (length mem - 1) = length out" using fits by simp
    ultimately show ?thesis using n fits by (simp add: Let_def)
  next
    case cut
    then obtain io where "put_all (pfn_iobuf_private (\<lambda>_. False) False) out \<lparr>buf = Some mem, size = length mem, len = 0, align = 0\<rparr> = Some io"
        "buf io = Some (take (length mem - 1) out @ [0])" using put_truncated by blast
    then have "mg_vsnprintf mem fmt args = Some (length out, take (length mem - 1) out @ [0])"
      using cut n assms(1) by (simp add: mg_vsnprintf_def)
    moreover have "min (length out) (length mem - 1) = length mem - 1" "0 < length mem" using cut by auto
    ultimately show ?thesis using n cut by (simp add: Let_def)
  next
    case empty
    then show ?thesis using n assms(1) put_full [of "\<lparr>buf = Some [], size = 0, len = 0, align = 0\<rparr>"]
      by (simp add: mg_vsnprintf_def)
  qed
qed

text \<open>
  C31.  \<open>mg_vsnprintf\<close> into an array of any size: it returns the length of the full text, writes its
  longest prefix that leaves room for the terminating zero, and touches nothing outside the array;
  an array of size zero is left alone.
\<close>

theorem mg_vsnprintf_correct:
  assumes "mg_vxprintf fmt args = Some (out, n)" "\<forall>a \<in> set args. good_printer a"
  shows "n = length out \<and> (\<exists>mem'. mg_vsnprintf mem fmt args = Some (length out, mem') \<and> length mem' = length mem \<and>
    (mem \<noteq> [] \<longrightarrow> (let k = min (length out) (length mem - 1) in mem' = take k out @ 0 # drop (k + 1) mem)))"
  by (rule vsnprintf_text [OF assms])

theorem mg_vsnprintf_correct_witness:
  "\<exists>mem'. mg_vsnprintf (replicate 4 1) (bs ''abc%c'') [Int32 100] = Some (4, mem') \<and> mem' = bs ''abc'' @ [0]"
proof -
  have p: "mg_vxprintf (bs ''abc%c'') [Int32 100] = Some (bs ''abcd'', 4)"
    by (simp add: mg_vxprintf.simps(2) fmt_head_def fmt_flag_def fmt_prec_def fmt_number_def is_digit_def
        fmt_conv_def digits_val_def)
  show ?thesis
    using mg_vsnprintf_correct [OF p, of "replicate 4 1"] by (auto simp: good_printer_def eval_nat_numeral)
qed

text \<open>Printing into a growing buffer appends to its contents.\<close>

lemma resize_size: "mg_iobuf_resize alloc io n = Some (ok, io') \<Longrightarrow> \<forall>n. alloc n \<Longrightarrow> size io' = roundup n (align io)"
  by (auto simp: mg_iobuf_resize_def Let_def split: if_splits bind_splits)

lemma put_iobuf:
  assumes "iobuf_wf io" "\<forall>n. alloc n"
  shows "\<exists>io'. pfn_iobuf_private alloc True c io = Some io' \<and> iobuf_wf io' \<and> content io' = content io @ [c] \<and> align io' = align io"
proof -
  let ?r = "if len io + 2 > size io then mg_iobuf_resize alloc io (len io + 2) else Some (True, io)"
  obtain ok io1 where r: "?r = Some (ok, io1)" "iobuf_wf io1" "content io1 = content io" "len io1 = len io" "align io1 = align io"
      "len io + 2 \<le> size io1"
  proof (cases "len io + 2 > size io")
    case True
    obtain ok io1 where "mg_iobuf_resize alloc io (len io + 2) = Some (ok, io1)" "iobuf_wf io1" "content io1 = content io"
        "len io1 = len io" "align io1 = align io" using resize_ok [OF assms(1), of "len io + 2" alloc] by auto
    then show ?thesis using True resize_size [of alloc io "len io + 2" ok io1] assms(2) roundup_ge [of "len io + 2" "align io"]
      by (intro that [of ok io1]) auto
  qed (use assms that in auto)
  then obtain b where b: "buf io1 = Some b" "length b = size io1" by (auto simp: iobuf_wf_def split: option.splits)
  let ?b = "b[len io := c, len io + 1 := 0]"
  have "pfn_iobuf_private alloc True c io = Some (io1\<lparr>buf := Some ?b, len := len io + 1\<rparr>)"
    using r b by (simp add: pfn_iobuf_private_def)
  moreover have "take (len io + 1) ?b = take (len io) b @ [c]"
    using b r(6) by (simp add: take_Suc_update)
  ultimately show ?thesis using r b by (auto simp: iobuf_wf_def content_def)
qed

lemma put_iobuf_all:
  assumes "iobuf_wf io" "\<forall>n. alloc n"
  shows "\<exists>io'. put_all (pfn_iobuf_private alloc True) out io = Some io' \<and> iobuf_wf io' \<and> content io' = content io @ out"
  using assms(1)
proof (induction out arbitrary: io)
  case (Cons c out)
  obtain io1 where 1: "pfn_iobuf_private alloc True c io = Some io1" "iobuf_wf io1" "content io1 = content io @ [c]"
    using put_iobuf [OF Cons.prems assms(2), of c] by blast
  then show ?case using Cons.IH [OF 1(2)] by auto
qed simp

section \<open>What the conversions print\<close>

lemma scpy_prefix: "0 \<notin> set s \<Longrightarrow> scpy (s @ m) (length s) = Some s"
  by (induction s) auto

lemma scpy_all [simp]: "0 \<notin> set s \<Longrightarrow> scpy s (length s) = Some s"
  using scpy_prefix [of s "[]"] by simp

lemma hex_digits_nonzero: "i < 16 \<Longrightarrow> hex_digits ! i \<noteq> 0"
  unfolding nat_less_16 insert_iff empty_iff by (elim disjE FalseE) (simp_all add: hex_digits_def)

lemma digits_rev_nonzero: "b \<le> 16 \<Longrightarrow> 0 \<notin> set (digits_rev b v)"
proof (induction b v rule: digits_rev.induct)
  case (1 b v)
  then show ?case
  proof (cases "v = 0 \<or> b < 2")
    case False
    then have "v mod b < 16" using 1(2) by (intro less_le_trans [of "v mod b" b 16]) auto
    then show ?thesis using 1 False hex_digits_nonzero by (simp add: digits_rev.simps [of b v])
  qed (simp add: digits_rev.simps)
qed

lemma num_text_nonzero: "0 \<notin> set (num_text v sg hex)"
  using digits_rev_nonzero [of 16] digits_rev_nonzero [of 10] by (auto simp: num_text_def num_of_def Let_def)

definition print_then :: "bytes \<Rightarrow> (bytes \<times> nat) option \<Rightarrow> (bytes \<times> nat) option" where
  "print_then t r = map_option (\<lambda>(out, n). (t @ out, length t + n)) r"

lemma print_then_Some [simp]: "print_then t (Some (out, n)) = Some (t @ out, length t + n)"
  by (simp add: print_then_def)

lemma print_then_then [simp]: "print_then s (print_then t r) = print_then (s @ t) r"
  by (cases r) (auto simp: print_then_def)

lemma vx_nil [simp]: "mg_vxprintf [] args = Some ([], 0)"
  by simp

lemma vx_char [simp]: "ch \<noteq> 37 \<Longrightarrow> mg_vxprintf (ch # fmt) args = print_then [ch] (mg_vxprintf fmt args)"
  by (cases "mg_vxprintf fmt args") (auto simp: mg_vxprintf.simps(2) print_then_def)

lemma vx_conv:
  assumes "fmt_head s args = Some (sp, c # r, argsx)" "fmt_conv sp c argsx = Some (t, length t, argsy)"
  shows "mg_vxprintf (37 # s) args = print_then t (mg_vxprintf r argsy)"
  using assms by (cases "mg_vxprintf r argsy") (auto simp: mg_vxprintf.simps(2) print_then_def)

lemmas fmt_head_simps = fmt_head_def fmt_flag_def fmt_prec_def fmt_number_def is_digit_def digits_val_def Let_def

lemma fmt_int_text:
  assumes "int_arg (c = 100) (f_long sp) args = Some (v, args')" "\<not> f_alt sp" "c \<noteq> 112"
  shows "fmt_int sp c args =
    (let t = num_text v (c = 100) (c = 120 \<or> c = 88);
         out = padding (\<not> f_zero sp \<and> \<not> f_minus sp) 32 (length t) (f_width sp) @ padding (f_zero sp) 48 (length t) (f_width sp) @
               t @ padding (\<not> f_zero sp \<and> f_minus sp) 32 (length t) (f_width sp)
     in Some (out, length out, args'))"
proof -
  let ?t = "num_text v (c = 100) (c = 120 \<or> c = 88)"
  obtain rest where "mg_lld (replicate 40 0) v (c = 100) (c = 120 \<or> c = 88) = Some (length ?t, ?t @ rest)"
    using mg_lld_correct [of "replicate 40 0" v "c = 100" "c = 120 \<or> c = 88"] by auto
  moreover have "scpy (?t @ rest) (length ?t) = Some ?t" by (rule scpy_prefix [OF num_text_nonzero])
  ultimately show ?thesis using assms by (simp add: fmt_int_def Let_def)
qed

lemma padding_0 [simp]: "padding b ch k 0 = []"
  by (simp add: padding_def)

lemma vx_d [simp]:
  "mg_vxprintf (37 # 100 # r) (Int32 v # args) = print_then (num_text (scast v) True False) (mg_vxprintf r args)"
  by (rule vx_conv [where c = 100 and r = r and argsy = args and argsx = "Int32 v # args" and sp = "\<lparr>f_alt = False, f_minus = False, f_zero = False, f_width = 0, f_prec = no_prec, f_long = 0\<rparr>"])
    (simp_all add: fmt_head_simps fmt_conv_def fmt_int_text int_arg_def)

lemma vx_lu [simp]:
  "mg_vxprintf (37 # 108 # 117 # r) (Int64 v # args) = print_then (dec_of (unat v)) (mg_vxprintf r args)"
  by (rule vx_conv [where c = 117 and r = r and argsy = args and argsx = "Int64 v # args" and sp = "\<lparr>f_alt = False, f_minus = False, f_zero = False, f_width = 0, f_prec = no_prec, f_long = 1\<rparr>"])
    (simp_all add: fmt_head_simps fmt_conv_def fmt_int_text int_arg_def num_text_def num_of_dec)

lemma vx_s [simp]:
  assumes "0 \<notin> set s"
  shows "mg_vxprintf (37 # 115 # r) (Str (Some (s @ 0 # m)) # args) = print_then s (mg_vxprintf r args)"
proof -
  have "cstr (s @ 0 # m) = s" using assms by (simp add: cstr_def takeWhile_append)
  then show ?thesis
    using assms by (intro vx_conv [where c = 115 and t = s and r = r and argsy = args and argsx = "Str (Some (s @ 0 # m)) # args" and
          sp = "\<lparr>f_alt = False, f_minus = False, f_zero = False, f_width = 0, f_prec = no_prec, f_long = 0\<rparr>"])
      (simp_all add: fmt_head_simps fmt_conv_def fmt_str_def scpy_prefix)
qed

lemma vx_prec_s [simp]:
  assumes "0 \<notin> set s" "length s < 2 ^ 31"
  shows "mg_vxprintf (37 # 46 # 42 # 115 # r) (Int32 (word_of_nat (length s)) # Str (Some s) # args) =
    print_then s (mg_vxprintf r args)"
proof -
  have "unat (scast (word_of_nat (length s) :: u32) :: u64) = length s"
    using assms(2) by (simp add: signed_of_nat signed_take_bit_int_eq_self unat_of_nat take_bit_nat_eq_self)
  then show ?thesis
    using assms by (intro vx_conv [where c = 115 and t = s and r = r and argsy = args and argsx = "Str (Some s) # args" and
          sp = "\<lparr>f_alt = False, f_minus = False, f_zero = False, f_width = 0, f_prec = length s, f_long = 0\<rparr>"])
      (simp_all add: fmt_head_simps fmt_conv_def fmt_str_def no_prec_def)
qed

section \<open>Addresses and escaped strings\<close>

definition print_ip4 :: "bytes \<Rightarrow> (bytes \<times> nat) option" where
  "print_ip4 p = mg_vxprintf (bs ''%d.%d.%d.%d'') (map (\<lambda>b. Int32 (ucast b)) (take 4 p))"

definition print_ip6 :: "u16 list \<Rightarrow> (bytes \<times> nat) option" where
  "print_ip6 p = mg_vxprintf (bs ''[%x:%x:%x:%x:%x:%x:%x:%x]'') (map (\<lambda>h. Int32 (ucast (mg_ntohs h))) (take 8 p))"

definition mg_print_mac :: "bytes \<Rightarrow> (bytes \<times> nat) option" where
  "mg_print_mac p = mg_vxprintf (bs ''%02x:%02x:%02x:%02x:%02x:%02x'') (map (\<lambda>b. Int32 (ucast b)) (take 6 p))"

text \<open>\<open>\\b\\f\\n\\r\\t\\\\\"\<close> and the letters they are written with.\<close>

definition esc1 :: bytes where "esc1 = [8, 12, 10, 13, 9, 92, 34]"
definition esc2 :: bytes where "esc2 = [98, 102, 110, 114, 116, 92, 34]"

fun esc_find :: "u8 \<Rightarrow> bytes \<Rightarrow> bytes \<Rightarrow> u8" where
  "esc_find c (p # ps) (q # qs) = (if p = c then q else esc_find c ps qs)"
| "esc_find c _ _ = 0"

definition mg_esc :: "u8 \<Rightarrow> bool \<Rightarrow> u8" where
  "mg_esc c esc = (if esc then esc_find c esc1 esc2 else esc_find c esc2 esc1)"

definition mg_escape :: "u8 \<Rightarrow> u8" where "mg_escape c = mg_esc c True"

text \<open>\<open>qcpy\<close> on memory of which \<open>k\<close> bytes may be read: what is put out and the count.\<close>

fun qcpy :: "bytes \<Rightarrow> nat \<Rightarrow> (bytes \<times> nat) option" where
  "qcpy m 0 = Some ([], 0)"
| "qcpy [] (Suc k) = None"
| "qcpy (b # m) (Suc k) =
     (if b = 0 then Some ([], 0)
      else let c = mg_escape b in
        map_option (\<lambda>(t, n). if c \<noteq> 0 then (92 # c # t, n + 2) else (b # t, n + 1)) (qcpy m k))"

definition mg_print_esc :: "nat \<Rightarrow> bytes option \<Rightarrow> (bytes \<times> nat) option" where
  "mg_print_esc n p =
     (if n = 0 then (case p of None \<Rightarrow> Some ([], 0) | Some m \<Rightarrow> if 0 \<in> set m then qcpy m (length (cstr m)) else None)
      else (case p of None \<Rightarrow> None | Some m \<Rightarrow> qcpy m n))"

definition mg_print_hex :: "bytes \<Rightarrow> bytes \<times> nat" where
  "mg_print_hex p =
     (concat (map (\<lambda>b. [hex_digits ! unat (drop_bit 4 b AND 0x0f), hex_digits ! unat (b AND 0x0f)]) p), 2 * length p)"

lemma qcpy_count: "qcpy m k = Some (t, n) \<Longrightarrow> n = length t"
  by (induction m k arbitrary: t n rule: qcpy.induct) (auto simp: Let_def split: if_splits)

end
