(* ===== verification/Mg_Addr.thy ===== *)
theory Mg_Addr
  imports Mg_Fmt Mg_Str Mg_Util
begin

text \<open>
  Network addresses (\<open>src/mongoose.c\<close>, \<open>net.c\<close>): \<open>mg_aton\<close> and the parsers of the address forms.  The sixteen
  bytes of an address that a parser does not write keep their values.
\<close>

section \<open>The parsers\<close>

record mg_addr =
  ad_ip :: bytes
  ad_port :: u16
  ad_is_ip6 :: bool

definition mg_atonl :: "bytes \<Rightarrow> mg_addr \<Rightarrow> (bool \<times> mg_addr) option" where
  "mg_atonl str addr = do {
     r \<leftarrow> mg_vcasecmp str (bs ''localhost'' @ [0]);
     if r \<noteq> 0 then Some (False, addr)
     else do {
       ip \<leftarrow> blit (ad_ip addr) 0 [0x7f, 0, 0, 1];
       Some (True, addr\<lparr>ad_ip := ip, ad_is_ip6 := False\<rparr>) } }"

definition mg_atone :: "bytes \<Rightarrow> mg_addr \<Rightarrow> bool \<times> mg_addr" where
  "mg_atone str addr =
     (if length str > 0 then (False, addr)
      else (True, addr\<lparr>ad_ip := replicate (length (ad_ip addr)) 0, ad_is_ip6 := False\<rparr>))"

text \<open>
  The loop of \<open>mg_aton4\<close> behind the character \<open>prev\<close>; the inner \<open>None\<close> is \<open>return false\<close>.
\<close>

fun aton4_loop :: "u8 option \<Rightarrow> bytes \<Rightarrow> bytes \<Rightarrow> nat \<Rightarrow> bytes option option" where
  "aton4_loop prev [] data num_dots =
     (if num_dots \<noteq> 3 then Some None
      else case prev of None \<Rightarrow> None | Some p \<Rightarrow> Some (if p = 46 then None else Some data))"
| "aton4_loop prev (c # str) data num_dots =
     (if is_digit c then do {
        d \<leftarrow> rd data num_dots;
        let octet = unat d * 10 + digit_val c;
        if octet > 255 then Some None
        else do {
          data \<leftarrow> wr data num_dots (word_of_nat octet);
          aton4_loop (Some c) str data num_dots } }
      else if c = 46 then
        if num_dots \<ge> 3 \<or> prev = None \<or> prev = Some 46 then Some None
        else aton4_loop (Some c) str data (num_dots + 1)
      else Some None)"

definition mg_aton4 :: "bytes \<Rightarrow> mg_addr \<Rightarrow> (bool \<times> mg_addr) option" where
  "mg_aton4 str addr = do {
     r \<leftarrow> aton4_loop None str [0, 0, 0, 0] 0;
     case r of
       None \<Rightarrow> Some (False, addr)
     | Some data \<Rightarrow> do {
         ip \<leftarrow> blit (ad_ip addr) 0 data;
         Some (True, addr\<lparr>ad_ip := ip, ad_is_ip6 := False\<rparr>) } }"

definition mg_v4mapped :: "bytes \<Rightarrow> mg_addr \<Rightarrow> (bool \<times> mg_addr) option" where
  "mg_v4mapped str addr =
     (if length str < 14 then Some (False, addr)
      else if str ! 0 \<noteq> 58 \<or> str ! 1 \<noteq> 58 \<or> str ! 6 \<noteq> 58 then Some (False, addr)
      else if \<exists>i \<in> {2..<6}. str ! i \<noteq> 102 \<and> str ! i \<noteq> 70 then Some (False, addr)
      else do {
        (ok, addr) \<leftarrow> mg_aton4 (drop 7 str) addr;
        if \<not> ok then Some (False, addr)
        else do {
          ipv4 \<leftarrow> Some (take 4 (ad_ip addr));
          let ip = replicate (length (ad_ip addr)) 0;
          ip \<leftarrow> blit ip 10 [255, 255];
          ip \<leftarrow> blit ip 12 ipv4;
          Some (True, addr\<lparr>ad_ip := ip, ad_is_ip6 := True\<rparr>) } })"

definition is_hex :: "u8 \<Rightarrow> bool" where
  "is_hex c \<longleftrightarrow> is_digit c \<or> 97 \<le> c \<and> c \<le> 102 \<or> 65 \<le> c \<and> c \<le> 70"

text \<open>
  The loop of \<open>mg_aton6\<close>: \<open>j\<close> is where the group began, \<open>n\<close> the byte it goes to, \<open>dc\<close> that of the double colon
  (42 is none).
\<close>

function aton6_loop :: "bytes \<Rightarrow> nat \<Rightarrow> nat \<Rightarrow> nat \<Rightarrow> nat \<Rightarrow> bytes \<Rightarrow> (bytes \<times> (nat \<times> nat) option) option" where
  "aton6_loop str i j n dc ip =
     (if i < length str then
        if is_hex (str ! i) then
          if i > j + 3 then Some (ip, None)
          else do {
            v \<leftarrow> mg_unhexn str j (i - j + 1);
            ip \<leftarrow> wr ip n (ucast (drop_bit 8 v AND 255));
            ip \<leftarrow> wr ip (n + 1) (ucast (v AND 255));
            aton6_loop str (i + 1) j n dc ip }
        else if str ! i = 58 then
          let j = i + 1; double = (i > 0 \<and> str ! (i - 1) = 58);
              dc = (if double then n else dc)
          in if double \<and> i > 1 \<and> str ! (i - 2) = 58 then Some (ip, None)
             else let n = (if \<not> double \<and> i > 0 then n + 2 else n) in
               if n > 14 then Some (ip, None)
               else do {
                 ip \<leftarrow> wr ip n 0;
                 ip \<leftarrow> wr ip (n + 1) 0;
                 aton6_loop str (i + 1) j n dc ip }
        else Some (ip, None)
      else Some (ip, Some (n, dc)))"
  by pat_completeness auto
termination by (relation "measure (\<lambda>(str, i, j, n, dc, ip). length str - i)") auto

declare aton6_loop.simps [simp del]

definition mg_aton6 :: "bytes \<Rightarrow> mg_addr \<Rightarrow> (bool \<times> mg_addr) option" where
  "mg_aton6 str addr = do {
     let str = (if length str > 2 \<and> str ! 0 = 91 then take (length str - 2) (tl str) else str);
     (mapped, addr) \<leftarrow> mg_v4mapped str addr;
     if mapped then Some (True, addr)
     else do {
       (ip, r) \<leftarrow> aton6_loop str 0 0 0 42 (ad_ip addr);
       let addr = addr\<lparr>ad_ip := ip\<rparr>;
       case r of
         None \<Rightarrow> Some (False, addr)
       | Some (n, dc) \<Rightarrow>
           if n < 14 \<and> dc = 42 then Some (False, addr)
           else do {
             ip \<leftarrow> (if n < 14 then
                      if dc \<le> n + 2 then do {
                        ip' \<leftarrow> blit ip (dc + (14 - n)) (span ip dc (n - dc + 2));
                        blit ip' dc (replicate (14 - n) 0) }
                      else None
                    else Some ip);
             Some (True, addr\<lparr>ad_ip := ip, ad_is_ip6 := True\<rparr>) } } }"

definition mg_aton :: "bytes \<Rightarrow> mg_addr \<Rightarrow> (bool \<times> mg_addr) option" where
  "mg_aton str addr = do {
     let (ok, addr) = mg_atone str addr;
     if ok then Some (True, addr)
     else do {
       (ok, addr) \<leftarrow> mg_atonl str addr;
       if ok then Some (True, addr)
       else do {
         (ok, addr) \<leftarrow> mg_aton4 str addr;
         if ok then Some (True, addr) else mg_aton6 str addr } } }"

section \<open>The printers\<close>

text \<open>The sixteen bytes read as \<open>uint16_t\<close> on a little-endian machine.\<close>

definition native16 :: "u8 \<Rightarrow> u8 \<Rightarrow> u16" where
  "native16 a b = ucast a OR push_bit 8 (ucast b)"

definition ip6_words :: "bytes \<Rightarrow> u16 list" where
  "ip6_words ip = map (\<lambda>i. native16 (ip ! (2 * i)) (ip ! (2 * i + 1))) [0..<8]"

definition mg_print_ip :: "mg_addr \<Rightarrow> (bytes \<times> nat) option" where
  "mg_print_ip addr = (if ad_is_ip6 addr then print_ip6 (ip6_words (ad_ip addr)) else print_ip4 (ad_ip addr))"

definition mg_print_ip_port :: "mg_addr \<Rightarrow> (bytes \<times> nat) option" where
  "mg_print_ip_port a = do {
     (t, n) \<leftarrow> mg_print_ip a;
     mg_vxprintf (bs ''%M:%hu'') [Printer t n, Int32 (ucast (mg_ntohs (ad_port a)))] }"

end
