(* ===== verification/Mg_Addr_Texts.thy ===== *)
theory Mg_Addr_Texts
  imports Mg_Addr
begin

text \<open>
  The texts of network addresses: dotted quads, groups of hexadecimal digits between colons, and the double
  colon; what the parsers and printers of \<open>Mg_Addr\<close> do with them, and that no text leads a parser outside an address.
\<close>

section \<open>Dotted quads\<close>

text \<open>The parts between dots, and what an octet is written as.\<close>

fun dot_parts :: "bytes \<Rightarrow> bytes list" where
  "dot_parts [] = [[]]"
| "dot_parts (c # s) = (if c = 46 then [] # dot_parts s else (c # hd (dot_parts s)) # tl (dot_parts s))"

definition octet_text :: "bytes \<Rightarrow> bool" where
  "octet_text p \<longleftrightarrow> p \<noteq> [] \<and> (\<forall>c \<in> set p. is_digit c) \<and> digits_val p \<le> 255"

definition octet :: "bytes \<Rightarrow> u8" where
  "octet p = word_of_nat (digits_val p)"

lemma dot_parts_not_Nil [simp]: "dot_parts s \<noteq> []"
  by (cases s) auto

lemma digits_val_append: "digits_val p \<le> digits_val (p @ q)"
proof (induction q rule: rev_induct)
  case (snoc c q)
  then show ?case using digits_val_snoc [of "p @ q" c] by simp
qed simp

lemma octet_text_more: "255 < digits_val p \<Longrightarrow> \<not> octet_text (p @ q)"
  using digits_val_append [of p q] by (auto simp: octet_text_def)

text \<open>The state of the loop: the octets before, the digits read of the one at hand, and zeros.\<close>

definition quad_data :: "bytes list \<Rightarrow> bytes \<Rightarrow> bytes" where
  "quad_data ps cur = map octet ps @ octet cur # replicate (3 - length ps) 0"

lemma quad_data_digit:
  assumes "length ps \<le> 3"
  shows "rd (quad_data ps cur) (length ps) = Some (octet cur)"
    "wr (quad_data ps cur) (length ps) (octet cur') = Some (quad_data ps cur')"
  by (simp_all add: quad_data_def nth_append list_update_append)

lemma quad_data_dot: "length ps < 3 \<Longrightarrow> quad_data ps cur = quad_data (ps @ [cur]) []"
  by (simp add: quad_data_def octet_def digits_val_def flip: replicate_Suc)

definition quad_of :: "bytes list \<Rightarrow> bytes option" where
  "quad_of ps = (if length ps = 4 \<and> (\<forall>p \<in> set ps. octet_text p) then Some (map octet ps) else None)"

lemma aton4_loop_spec:
  assumes "length ps \<le> 3" "\<forall>p \<in> set ps. octet_text p" "\<forall>c \<in> set cur. is_digit c" "digits_val cur \<le> 255"
    "prev = None \<Longrightarrow> ps = [] \<and> cur = []" "cur = [] \<longleftrightarrow> prev = None \<or> prev = Some 46"
  shows "aton4_loop prev str (quad_data ps cur) (length ps) =
    Some (quad_of (ps @ (cur @ hd (dot_parts str)) # tl (dot_parts str)))"
  using assms
proof (induction str arbitrary: prev ps cur)
  case Nil
  then show ?case by (auto simp: quad_of_def quad_data_def octet_text_def)
next
  case (Cons c str)
  obtain q qs where parts: "dot_parts str = q # qs" by (cases "dot_parts str") simp_all
  consider (digit) "is_digit c" | (dot) "c = 46" "\<not> is_digit c" | (other) "c \<noteq> 46" "\<not> is_digit c" by blast
  then show ?case
  proof cases
    case digit
    then have c: "c \<noteq> 46" by (auto simp: is_digit_def)
    have v: "unat (octet cur) * 10 + digit_val c = digits_val (cur @ [c])"
      using Cons.prems(4) by (simp add: octet_def unat_of_nat take_bit_nat_eq_self)
    show ?thesis
    proof (cases "digits_val (cur @ [c]) > 255")
      case True
      then show ?thesis
        using digit c v octet_text_more [OF True, of "hd (dot_parts str)"] Cons.prems(1)
        by (auto simp: quad_data_digit quad_of_def Let_def)
    next
      case False
      have "word_of_nat (digits_val (cur @ [c])) = octet (cur @ [c])" by (simp add: octet_def)
      then show ?thesis
        using digit c v False Cons.prems Cons.IH [of ps "cur @ [c]" "Some c"]
        by (simp add: quad_data_digit Let_def del: digits_val_snoc)
    qed
  next
    case dot
    show ?thesis
    proof (cases "length ps \<ge> 3 \<or> cur = []")
      case True
      have "quad_of (ps @ cur # dot_parts str) = None"
        using True parts by (auto simp: quad_of_def octet_text_def)
      then show ?thesis using True dot Cons.prems(6) by auto
    next
      case False
      then have "octet_text cur" using Cons.prems by (auto simp: octet_text_def)
      then show ?thesis
        using dot False Cons.prems Cons.IH [of "ps @ [cur]" "[]" "Some 46"]
        by (auto simp: quad_data_dot digits_val_def)
    qed
  next
    case other
    then show ?thesis by (auto simp: quad_of_def octet_text_def)
  qed
qed

lemma mg_aton4_quad:
  assumes "4 \<le> length (ad_ip addr)"
  shows "mg_aton4 str addr = Some (case quad_of (dot_parts str) of
     None \<Rightarrow> (False, addr)
   | Some q \<Rightarrow> (True, addr\<lparr>ad_ip := q @ drop 4 (ad_ip addr), ad_is_ip6 := False\<rparr>))"
proof -
  have "aton4_loop None str [0, 0, 0, 0] 0 = Some (quad_of (dot_parts str))"
    using aton4_loop_spec [of "[]" "[]" None str] dot_parts_not_Nil [of str]
    by (simp add: quad_data_def octet_def digits_val_def numeral_3_eq_3 del: dot_parts_not_Nil)
  then show ?thesis
    using assms by (auto simp: mg_aton4_def blit_def quad_of_def split: option.splits)
qed

section \<open>Hexadecimal groups\<close>

definition hex_val :: "bytes \<Rightarrow> u64" where
  "hex_val g = foldl (\<lambda>v c. push_bit 4 v OR ucast (mg_unhex_nimble c)) 0 g"

lemma unhexn_loop_value:
  "i + n \<le> length s \<Longrightarrow>
   unhexn_loop s i n v = Some (foldl (\<lambda>v c. push_bit 4 v OR ucast (mg_unhex_nimble c)) v (span s i n))"
proof (induction n arbitrary: i v)
  case (Suc n)
  then have "span s i (Suc n) = s ! i # span s (i + 1) n"
    by (simp add: span_def flip: Cons_nth_drop_Suc)
  then show ?case using Suc by simp
qed (simp add: span_def)

lemma mg_unhexn_value: "mg_unhexn (p @ g @ r) (length p) (length g) = Some (hex_val g)"
  by (simp add: mg_unhexn_def unhexn_loop_value hex_val_def span_def)

lemma hex_digit_is_hex: "n < 16 \<Longrightarrow> is_hex (hex_digits ! n) \<and> mg_unhex_nimble (hex_digits ! n) = word_of_nat n"
  unfolding nat_less_16 insert_iff empty_iff
  by (elim disjE FalseE) (simp_all add: hex_digits_def mg_unhex_nimble_def is_hex_def is_digit_def)

lemma nibble_add:
  assumes "b < 16"
  shows "push_bit 4 (word_of_nat a :: u64) OR word_of_nat b = word_of_nat (16 * a + b)"
proof -
  have "take_bit 4 (word_of_nat b :: u64) = word_of_nat b"
    using assms by (simp add: take_bit_of_nat take_bit_nat_eq_self)
  then have "\<not> bit (word_of_nat b :: u64) n" if "4 \<le> n" for n
    using that by (metis bit_take_bit_iff leD)
  then have "push_bit 4 (word_of_nat a :: u64) OR word_of_nat b = push_bit 4 (word_of_nat a) + word_of_nat b"
    by (intro disjunctive_add [symmetric]) (auto simp: bit_push_bit_iff)
  then show ?thesis by (simp add: push_bit_eq_mult)
qed

lemma hex_val_digits: "hex_val (rev (digits_rev 16 v)) = word_of_nat v"
proof (induction v rule: less_induct)
  case (less v)
  show ?case
  proof (cases "v = 0")
    case False
    let ?d = "hex_digits ! (v mod 16)"
    have d: "ucast (mg_unhex_nimble ?d) = (word_of_nat (v mod 16) :: u64)"
      using hex_digit_is_hex [of "v mod 16"] by (simp add: unsigned_of_nat take_bit_nat_eq_self)
    have "rev (digits_rev 16 v) = rev (digits_rev 16 (v div 16)) @ [?d]"
      using False by (simp add: digits_rev.simps [of 16 v])
    then show ?thesis
      using less.IH [of "v div 16"] False d nibble_add [of "v mod 16" "v div 16"] by (simp add: hex_val_def)
  qed (simp add: hex_val_def digits_rev.simps)
qed

definition hex_group :: "bytes \<Rightarrow> bool" where
  "hex_group g \<longleftrightarrow> g \<noteq> [] \<and> length g \<le> 4 \<and> (\<forall>c \<in> set g. is_hex c)"

lemma digits_rev_hex: "\<forall>c \<in> set (digits_rev 16 v). is_hex c"
proof (induction v rule: less_induct)
  case (less v)
  then show ?case using hex_digit_is_hex [of "v mod 16"] less.IH [of "v div 16"] by (cases "v = 0") (simp_all add: digits_rev.simps [of 16 v] digits_rev.simps [of 16 0])
qed

lemma num_of_hex:
  assumes "v < 65536"
  shows "hex_group (num_of 16 v)" "hex_val (num_of 16 v) = word_of_nat v"
proof -
  have "digits_rev 16 v \<noteq> []" if "v \<noteq> 0" using that by (simp add: digits_rev.simps [of 16 v])
  then show "hex_group (num_of 16 v)"
    using digits_rev_length [of v 16 4] digits_rev_hex [of v] assms
    by (auto simp: hex_group_def num_of_def is_hex_def is_digit_def)
  show "hex_val (num_of 16 v) = word_of_nat v"
    using hex_val_digits [of v] by (simp add: num_of_def hex_val_def mg_unhex_nimble_def)
qed

section \<open>Groups in the scanner\<close>

definition group_hi :: "bytes \<Rightarrow> u8" where "group_hi g = ucast (drop_bit 8 (hex_val g) AND 255)"
definition group_lo :: "bytes \<Rightarrow> u8" where "group_lo g = ucast (hex_val g AND 255)"

lemma aton6_digit:
  assumes "i < length str" "is_hex (str ! i)" "i \<le> j + 3" "j \<le> i" "n + 1 < length ip"
  shows "aton6_loop str i j n dc ip =
    aton6_loop str (i + 1) j n dc (ip[n := group_hi (span str j (i - j + 1)), n + 1 := group_lo (span str j (i - j + 1))])"
proof -
  have "mg_unhexn str j (i - j + 1) = Some (hex_val (span str j (i - j + 1)))"
    using assms(1,4) by (simp add: mg_unhexn_def unhexn_loop_value hex_val_def del: unhexn_loop.simps)
  then show ?thesis using assms by (subst aton6_loop.simps) (simp add: group_hi_def group_lo_def)
qed

lemma aton6_group:
  assumes "hex_group g" "span str j (length g) = g" "j + length g \<le> length str" "n + 1 < length ip"
  shows "aton6_loop str j j n dc ip = aton6_loop str (j + length g) j n dc (ip[n := group_hi g, n + 1 := group_lo g])"
proof -
  have digit: "is_hex (str ! (j + k))" if "k < length g" for k
  proof -
    have "span str j (length g) ! k = str ! (j + k)" using that assms(3) by (simp add: span_def)
    then have "str ! (j + k) = g ! k" by (simp add: assms(2))
    then show ?thesis using that assms(1) by (simp add: hex_group_def)
  qed
  have "0 < k \<Longrightarrow> k \<le> length g \<Longrightarrow> aton6_loop str j j n dc ip =
      aton6_loop str (j + k) j n dc (ip[n := group_hi (take k g), n + 1 := group_lo (take k g)])" for k
  proof (induction k)
    case (Suc k)
    have sp: "span str j (k + 1) = take (Suc k) g"
      using Suc.prems by (subst assms(2) [symmetric]) (simp add: span_def min_def)
    have "aton6_loop str (j + k) j n dc ip' = aton6_loop str (j + Suc k) j n dc
        (ip'[n := group_hi (take (Suc k) g), n + 1 := group_lo (take (Suc k) g)])" if "length ip' = length ip" for ip'
      using aton6_digit [of "j + k" str j n ip' dc] digit [of k] Suc.prems assms that sp
      by (simp add: hex_group_def)
    from this [of ip] this [of "ip[n := group_hi (take k g), n + 1 := group_lo (take k g)]"] show ?case
      using Suc by (cases "k = 0") (simp_all add: list_update_swap)
  qed simp
  from this [of "length g"] show ?thesis using assms(1) by (simp add: hex_group_def)
qed

section \<open>Texts of addresses\<close>

fun colon_text :: "bytes list \<Rightarrow> bytes" where
  "colon_text [] = []"
| "colon_text [g] = g"
| "colon_text (g # h # gs) = g @ 58 # colon_text (h # gs)"

definition groups_bytes :: "bytes list \<Rightarrow> bytes" where
  "groups_bytes gs = concat (map (\<lambda>g. [group_hi g, group_lo g]) gs)"

lemma groups_bytes_simps [simp]:
  "groups_bytes [] = []"
  "groups_bytes (g # gs) = group_hi g # group_lo g # groups_bytes gs"
  by (simp_all add: groups_bytes_def)

lemma length_groups_bytes [simp]: "length (groups_bytes gs) = 2 * length gs"
  by (induction gs) simp_all

lemma two_updates [simp]:
  "(q @ a # b # r)[length q := x, length q + 1 := y] = q @ x # y # r"
  "(q @ a # b # r)[Suc (length q) := y] = q @ a # y # r"
  by (simp_all add: list_update_append)

lemma colon_not_hex [simp]: "\<not> is_hex 58"
  by (simp add: is_hex_def is_digit_def)

lemma not_colon: "is_hex c \<Longrightarrow> c \<noteq> 58"
  by (auto simp: is_hex_def is_digit_def)

text \<open>
  The address is split at the bytes of the group at hand, \<open>ip\<close> before and \<open>a\<close>, \<open>b\<close> at it.
\<close>

lemma aton6_group_in:
  assumes "hex_group g"
  shows "aton6_loop (p @ g @ r) (length p) (length p) (length ip) dc (ip @ a # b # post) =
    aton6_loop (p @ g @ r) (length p + length g) (length p) (length ip) dc (ip @ group_hi g # group_lo g # post)"
  using aton6_group [of g "p @ g @ r" "length p" "length ip" "ip @ a # b # post" dc] assms
  by (simp add: span_def)

text \<open>A colon behind a group, and the second one of a double colon.\<close>

lemma aton6_colon:
  assumes "hex_group g" "length ip \<le> 12"
  shows "aton6_loop (p @ g @ 58 # r) (length p + length g) j (length ip) dc (ip @ x # y # a # b # post) =
    aton6_loop ((p @ g @ [58]) @ r) (length (p @ g @ [58])) (length (p @ g @ [58])) (length (ip @ [x, y])) dc
      ((ip @ [x, y]) @ 0 # 0 # post)"
proof -
  let ?s = "p @ g @ 58 # r" and ?i = "length p + length g"
  have g: "g \<noteq> []" "g ! (length g - 1) \<noteq> 58" using assms(1) not_colon by (auto simp: hex_group_def)
  then have "?s ! (?i - 1) \<noteq> 58" by (cases g rule: rev_cases) (auto simp: nth_append)
  moreover have "?s ! ?i = 58" by (simp add: nth_append)
  moreover have "(ip @ x # y # a # b # post)[length ip + 2 := 0, length ip + 2 + 1 := 0] = ip @ x # y # 0 # 0 # post"
    using two_updates(1) [of "ip @ [x, y]" a b post 0 0] by simp
  ultimately show ?thesis
    using assms(2) g(1) by (subst aton6_loop.simps) (simp add: Let_def)
qed

lemma aton6_colon2:
  assumes "q = [] \<or> last q \<noteq> 58" "length ip \<le> 14"
  shows "aton6_loop ((q @ [58]) @ 58 # r) (length q + 1) j (length ip) dc (ip @ a # b # post) =
    aton6_loop ((q @ [58, 58]) @ r) (length (q @ [58, 58])) (length (q @ [58, 58])) (length ip) (length ip) (ip @ 0 # 0 # post)"
proof -
  let ?s = "(q @ [58]) @ 58 # r"
  have "?s ! (length q - 1) \<noteq> 58" if "q \<noteq> []"
    using that assms(1) by (auto simp: nth_append last_conv_nth)
  moreover have "?s ! length q = 58" "?s ! (length q + 1) = 58"
    by (auto simp: nth_append)
  ultimately show ?thesis
    using assms(2) by (subst aton6_loop.simps) (auto simp: Let_def)
qed

lemma aton6_groups:
  assumes "gs \<noteq> []" "\<forall>g \<in> set gs. hex_group g" "length mid = 2 * length gs" "length ip + length mid \<le> 16"
  shows "\<exists>j. aton6_loop (p @ colon_text gs @ r) (length p) (length p) (length ip) dc (ip @ mid @ post) =
    aton6_loop (p @ colon_text gs @ r) (length p + length (colon_text gs)) j (length ip + 2 * (length gs - 1)) dc
      (ip @ groups_bytes gs @ post)"
  using assms
proof (induction gs arbitrary: p ip mid rule: colon_text.induct)
  case (2 g)
  then obtain a b where "mid = [a, b]" by (auto simp: length_Suc_conv numeral_2_eq_2)
  then show ?case using aton6_group_in [of g p r ip dc a b post] 2 by auto
next
  case (3 g h gs)
  then obtain a b c d mid' where mid: "mid = a # b # c # d # mid'" "length mid' = 2 * length gs"
    by (auto simp: length_Suc_conv)
  let ?p = "p @ g @ [58]" and ?ip = "ip @ [group_hi g, group_lo g]"
  have t: "p @ colon_text (g # h # gs) @ r = p @ g @ 58 # colon_text (h # gs) @ r" by simp
  have "aton6_loop (p @ colon_text (g # h # gs) @ r) (length p) (length p) (length ip) dc (ip @ mid @ post) =
      aton6_loop (?p @ colon_text (h # gs) @ r) (length ?p) (length ?p) (length ?ip) dc (?ip @ (0 # 0 # mid') @ post)"
    unfolding t mid using aton6_group_in [of g p "58 # colon_text (h # gs) @ r" ip dc a b "c # d # mid' @ post"]
      aton6_colon [of g ip p "colon_text (h # gs) @ r" "length p" dc _ _ c d "mid' @ post"] 3(3,5) mid by simp
  moreover obtain j where "aton6_loop (?p @ colon_text (h # gs) @ r) (length ?p) (length ?p) (length ?ip) dc (?ip @ (0 # 0 # mid') @ post) =
      aton6_loop (?p @ colon_text (h # gs) @ r) (length ?p + length (colon_text (h # gs))) j
        (length ?ip + 2 * (length (h # gs) - 1)) dc (?ip @ groups_bytes (h # gs) @ post)"
    using 3(1) [of "0 # 0 # mid'" ?ip ?p] 3(3,5) mid by auto
  ultimately show ?case by (intro exI [of _ j]) (simp add: add_ac)
qed simp

section \<open>The parsers on the texts\<close>

lemma dot_parts_no_dot: "46 \<notin> set s \<Longrightarrow> dot_parts s = [s]"
  by (induction s) auto

lemma mg_aton4_no_dot: "46 \<notin> set s \<Longrightarrow> 4 \<le> length (ad_ip addr) \<Longrightarrow> mg_aton4 s addr = Some (False, addr)"
  by (simp add: mg_aton4_quad dot_parts_no_dot quad_of_def)

lemma mg_v4mapped_no_dot:
  "46 \<notin> set s \<Longrightarrow> 4 \<le> length (ad_ip addr) \<Longrightarrow> mg_v4mapped s addr = Some (False, addr)"
proof -
  assume a: "46 \<notin> set s" "4 \<le> length (ad_ip addr)"
  then have "46 \<notin> set (drop 7 s)" using in_set_dropD by metis
  then show ?thesis using mg_aton4_no_dot a(2) by (simp add: mg_v4mapped_def)
qed

lemma mg_atonl_other:
  assumes "c \<in> set s" "mg_lower c \<notin> mg_lower ` set (bs ''localhost'')" "length s < 2 ^ 31"
  shows "mg_atonl s addr = Some (False, addr)"
proof -
  have z: "0 \<notin> set (bs ''localhost'')" "length (bs ''localhost'') < 2 ^ 31"
    by simp_all
  have "map mg_lower s \<noteq> map mg_lower (bs ''localhost'')" using assms(1,2) by (metis imageI list.set_map)
  then show ?thesis
    using vcasecmp_eq [OF z(1) assms(3) z(2)] by (auto simp: mg_atonl_def)
qed

lemma aton6_loop_end: "aton6_loop s (length s) j n dc ip = Some (ip, Some (n, dc))"
  by (subst aton6_loop.simps) simp

lemma mg_aton6_brackets:
  assumes "t \<noteq> []" "hd t \<noteq> 91"
  shows "mg_aton6 (91 # t @ [93]) addr = mg_aton6 t addr"
  using assms by (cases t) (simp_all add: mg_aton6_def)

lemma colon_text_append:
  assumes "gs \<noteq> []"
  shows "\<exists>p. colon_text gs = p @ last gs \<and> (p = [] \<longleftrightarrow> length gs = 1)"
  using assms by (induction gs rule: colon_text.induct) auto

lemma colon_text_set: "set (colon_text gs) \<subseteq> insert 58 (\<Union> (set ` set gs))"
  by (induction gs rule: colon_text.induct) auto

lemma colon_text_chars: "\<forall>g \<in> set gs. hex_group g \<Longrightarrow> c \<in> set (colon_text gs) \<Longrightarrow> c = 58 \<or> is_hex c"
  using colon_text_set [of gs] by (auto simp: hex_group_def)

lemma length_colon_text: "\<forall>g \<in> set gs. hex_group g \<Longrightarrow> length (colon_text gs) \<le> 5 * length gs"
  by (induction gs rule: colon_text.induct) (auto simp: hex_group_def)

lemma hd_colon_text:
  assumes "gs \<noteq> []" "\<forall>g \<in> set gs. hex_group g"
  shows "colon_text gs \<noteq> []" "is_hex (hd (colon_text gs))"
  using assms by (cases gs rule: colon_text.cases; auto simp: hex_group_def)+

lemma last_colon_text:
  assumes "gs \<noteq> []" "\<forall>g \<in> set gs. hex_group g"
  shows "is_hex (last (colon_text gs))"
proof -
  obtain p where "colon_text gs = p @ last gs" using colon_text_append [OF assms(1)] by blast
  moreover have "hex_group (last gs)" using assms by simp
  ultimately show ?thesis by (simp add: hex_group_def)
qed

lemma not_hex [simp]: "\<not> is_hex 46" "\<not> is_hex 91"
  by (simp_all add: is_hex_def is_digit_def)

text \<open>The bytes behind the double colon move to the end, zeros before them.\<close>

definition shift_groups :: "nat \<Rightarrow> nat \<Rightarrow> bytes \<Rightarrow> bytes option" where
  "shift_groups dc n ip = do {
     ip' \<leftarrow> blit ip (dc + (14 - n)) (span ip dc (n - dc + 2));
     blit ip' dc (replicate (14 - n) 0) }"

lemma shift_groups_spec:
  assumes "length (x @ y @ z) = 16" "length x + length y = n + 2" "n < 14" "length x \<le> n"
  shows "shift_groups (length x) n (x @ y @ z) = Some (x @ replicate (14 - n) 0 @ y)"
proof -
  let ?w = "take (14 - n) (y @ z)" and ?ip = "x @ y @ z"
  have l: "length z = 14 - n" "length ?w = 14 - n" "length x + (14 - n) + length y = 16" using assms by simp_all
  have "span ?ip (length x) (n - length x + 2) = y" using assms by (simp add: span_def)
  moreover have "take (length x + (14 - n)) ?ip = x @ ?w" by simp
  moreover have "drop (length x + (14 - n) + length y) ?ip = []" using l(3) assms(1) by simp
  ultimately have "shift_groups (length x) n ?ip = blit (x @ ?w @ y) (length x) (replicate (14 - n) 0)"
    using l(3) assms(1) by (simp add: shift_groups_def blit_def del: take_append drop_append length_append)
  moreover have "length w = 14 - n \<Longrightarrow> blit (x @ w @ y) (length x) (replicate (14 - n) 0) =
      Some (x @ replicate (14 - n) 0 @ y)" for w
    by (simp add: blit_def)
  ultimately show ?thesis using l(2) by (simp del: length_take take_append)
qed

lemma mg_aton6_plain:
  assumes "46 \<notin> set s" "s = [] \<or> hd s \<noteq> 91" "length (ad_ip addr) = 16"
    "aton6_loop s 0 0 0 42 (ad_ip addr) = Some (ip, Some (n, dc))" "n < 14 \<Longrightarrow> dc \<le> n"
    "n < 14 \<Longrightarrow> shift_groups dc n ip = Some ip'" "14 \<le> n \<Longrightarrow> ip' = ip"
  shows "mg_aton6 s addr = Some (True, addr\<lparr>ad_ip := ip', ad_is_ip6 := True\<rparr>)"
proof -
  have "\<not> (length s > 2 \<and> s ! 0 = 91)" using assms(2) by (cases s) auto
  then show ?thesis
    using assms(5-) mg_v4mapped_no_dot [OF assms(1), of addr] assms(3,4)
    by (cases "n < 14") (auto simp: mg_aton6_def shift_groups_def)
qed

lemma mg_aton6_full:
  assumes "length gs = 8" "\<forall>g \<in> set gs. hex_group g" "length (ad_ip addr) = 16"
  shows "mg_aton6 (colon_text gs) addr = Some (True, addr\<lparr>ad_ip := groups_bytes gs, ad_is_ip6 := True\<rparr>)"
proof -
  have ne: "gs \<noteq> []" using assms(1) by auto
  have "aton6_loop (colon_text gs) 0 0 0 42 (ad_ip addr) = Some (groups_bytes gs, Some (14, 42))"
    using aton6_groups [of gs "ad_ip addr" "[]" "[]" "[]" 42 "[]"] ne assms
    by (auto simp: aton6_loop_end)
  then show ?thesis
    using assms ne hd_colon_text [OF ne assms(2)] colon_text_chars [OF assms(2), of 46]
    by (intro mg_aton6_plain [where ip = "groups_bytes gs" and n = 14 and dc = 42]) auto
qed

text \<open>The scanner on a text with a double colon: the bytes that were read and where the gap is.\<close>

lemma aton6_double_head:
  assumes "\<forall>g \<in> set xs. hex_group g" "length xs \<le> 7" "length ip = 16"
  shows "\<exists>j. aton6_loop (colon_text xs @ [58, 58] @ r) 0 0 0 dc ip =
    aton6_loop ((colon_text xs @ [58, 58]) @ r) (length (colon_text xs @ [58, 58])) (length (colon_text xs @ [58, 58]))
      (2 * length xs) (2 * length xs) (groups_bytes xs @ 0 # 0 # drop (2 * length xs + 2) ip)"
proof (cases "xs = []")
  case True
  obtain a b ip' where ip: "ip = [] @ a # b # ip'" using assms(3) by (auto simp: length_Suc_conv eval_nat_numeral)
  have "aton6_loop ([] @ [58, 58] @ r) 0 0 0 dc ip = aton6_loop (([] @ [58]) @ 58 # r) 1 1 0 dc ([] @ 0 # 0 # ip')"
    by (subst aton6_loop.simps) (simp add: ip)
  then show ?thesis using True aton6_colon2 [of "[]" "[]" r 1 dc 0 0 ip'] ip by simp
next
  case False
  then obtain zs g where xs: "xs = zs @ [g]" by (cases xs rule: rev_cases) auto
  obtain p where p: "colon_text xs = p @ g" using colon_text_append [OF False] xs by auto
  have "2 \<le> length (drop (2 * length xs) ip)" using assms(2,3) by simp
  then obtain a b post where post: "drop (2 * length xs) ip = a # b # post"
    by (metis Suc_le_length_iff numeral_2_eq_2)
  then have ip: "take (2 * length xs) ip @ a # b # post = ip" using append_take_drop_id [of "2 * length xs" ip] by simp
  let ?q = "colon_text xs" and ?z = "groups_bytes zs"
  have gb: "groups_bytes xs = ?z @ [group_hi g, group_lo g]" by (simp add: xs groups_bytes_def)
  have l: "length ?z = 2 * length zs" "length zs \<le> 6" "hex_group g" using assms xs by simp_all
  have lx: "length xs = length zs + 1" by (simp add: xs)
  obtain j where "aton6_loop (?q @ [58, 58] @ r) 0 0 0 dc ip =
      aton6_loop (?q @ [58, 58] @ r) (length ?q) j (2 * (length xs - 1)) dc (groups_bytes xs @ a # b # post)"
    using aton6_groups [of xs "take (2 * length xs) ip" "[]" "[]" "[58, 58] @ r" dc "a # b # post"] False assms ip by auto
  moreover have "aton6_loop (p @ g @ 58 # 58 # r) (length p + length g) j (length ?z) dc
        (?z @ group_hi g # group_lo g # a # b # post) =
      aton6_loop ((p @ g @ [58]) @ 58 # r) (length (p @ g @ [58])) (length (p @ g @ [58])) (length (groups_bytes xs)) dc
        (groups_bytes xs @ 0 # 0 # post)"
    using aton6_colon [of g ?z p "58 # r" j dc] l by (simp add: gb)
  moreover have "aton6_loop ((?q @ [58]) @ 58 # r) (length ?q + 1) j' (length (groups_bytes xs)) dc (groups_bytes xs @ 0 # 0 # post) =
      aton6_loop ((?q @ [58, 58]) @ r) (length (?q @ [58, 58])) (length (?q @ [58, 58])) (length (groups_bytes xs))
        (length (groups_bytes xs)) (groups_bytes xs @ 0 # 0 # post)" for j'
    using last_colon_text [OF False assms(1)] assms(2) not_colon by (intro aton6_colon2) auto
  moreover have "drop (2 * length xs + 2) ip = post"
    using arg_cong [OF post, of "drop 2"] by (simp add: add.commute)
  ultimately show ?thesis using l(1) lx by (auto simp: p gb)
qed

lemma double_text:
  assumes "\<forall>g \<in> set xs. hex_group g" "\<forall>g \<in> set ys. hex_group g"
  shows "46 \<notin> set (colon_text xs @ [58, 58] @ colon_text ys)"
    "colon_text xs @ [58, 58] @ colon_text ys = [] \<or> hd (colon_text xs @ [58, 58] @ colon_text ys) \<noteq> 91"
proof -
  have "colon_text xs = [] \<or> hd (colon_text xs) \<noteq> 91"
    using hd_colon_text(2) [of xs] assms(1) not_hex(2) by (cases "xs = []") (force simp del: not_hex)+
  then show "46 \<notin> set (colon_text xs @ [58, 58] @ colon_text ys)"
    "colon_text xs @ [58, 58] @ colon_text ys = [] \<or> hd (colon_text xs @ [58, 58] @ colon_text ys) \<noteq> 91"
    using colon_text_chars [OF assms(1), of 46] colon_text_chars [OF assms(2), of 46] by (auto simp: hd_append)
qed

lemma mg_aton6_double_last:
  assumes xy: "\<forall>g \<in> set (xs @ ys). hex_group g" and l: "length xs + length ys \<le> 7" and a: "length (ad_ip addr) = 16"
    and last: "ys = []"
  shows "mg_aton6 (colon_text xs @ [58, 58] @ colon_text ys) addr = Some (True, addr
    \<lparr>ad_ip := groups_bytes xs @ replicate (16 - 2 * (length xs + length ys)) 0 @ groups_bytes ys, ad_is_ip6 := True\<rparr>)"
proof -
  let ?q = "colon_text xs @ [58, 58]" and ?ip = "groups_bytes xs @ 0 # 0 # drop (2 * length xs + 2) (ad_ip addr)"
  let ?s = "colon_text xs @ [58, 58] @ colon_text ys"
  have gx: "\<forall>g \<in> set xs. hex_group g" and gy: "\<forall>g \<in> set ys. hex_group g" using xy by auto
  obtain j where head: "aton6_loop ?s 0 0 0 42 (ad_ip addr) =
      aton6_loop (?q @ colon_text ys) (length ?q) (length ?q) (2 * length xs) (2 * length xs) ?ip"
    using aton6_double_head [OF gx _ a, of "colon_text ys" 42] l by auto
  have s: "46 \<notin> set ?s" "?s = [] \<or> hd ?s \<noteq> 91" by (rule double_text [OF gx gy])+
  have end_: "aton6_loop ?s 0 0 0 42 (ad_ip addr) = Some (?ip, Some (2 * length xs, 2 * length xs))"
    using head last aton6_loop_end [of ?q] by simp
  have k: "16 - 2 * (length xs + length ys) = 14 - 2 * length xs + 2" using l last by simp
  have z: "replicate (14 - 2 * length xs + 2) (0 :: u8) = replicate (14 - 2 * length xs) 0 @ [0, 0]"
    by (simp only: replicate_add) (simp add: numeral_2_eq_2)
  show ?thesis
  proof (rule mg_aton6_plain [OF s a end_])
    show "shift_groups (2 * length xs) (2 * length xs) ?ip = Some (groups_bytes xs @
        replicate (16 - 2 * (length xs + length ys)) 0 @ groups_bytes ys)" if "2 * length xs < 14"
      using shift_groups_spec [of "groups_bytes xs" "[0, 0]" "drop (2 * length xs + 2) (ad_ip addr)" "2 * length xs"]
        that a l last unfolding k z by simp
    show "groups_bytes xs @ replicate (16 - 2 * (length xs + length ys)) 0 @ groups_bytes ys = ?ip" if "14 \<le> 2 * length xs"
      using that last l a unfolding k z by simp
  qed simp_all
qed

lemma mg_aton6_double_inside:
  assumes xy: "\<forall>g \<in> set (xs @ ys). hex_group g" and l: "length xs + length ys \<le> 7" and a: "length (ad_ip addr) = 16"
    and inside: "ys \<noteq> []"
  shows "mg_aton6 (colon_text xs @ [58, 58] @ colon_text ys) addr = Some (True, addr
    \<lparr>ad_ip := groups_bytes xs @ replicate (16 - 2 * (length xs + length ys)) 0 @ groups_bytes ys, ad_is_ip6 := True\<rparr>)"
proof -
  let ?q = "colon_text xs @ [58, 58]" and ?ip = "groups_bytes xs @ 0 # 0 # drop (2 * length xs + 2) (ad_ip addr)"
  let ?s = "colon_text xs @ [58, 58] @ colon_text ys"
  have gx: "\<forall>g \<in> set xs. hex_group g" and gy: "\<forall>g \<in> set ys. hex_group g" using xy by auto
  obtain j where head: "aton6_loop ?s 0 0 0 42 (ad_ip addr) =
      aton6_loop (?q @ colon_text ys) (length ?q) (length ?q) (2 * length xs) (2 * length xs) ?ip"
    using aton6_double_head [OF gx _ a, of "colon_text ys" 42] l by auto
  have s: "46 \<notin> set ?s" "?s = [] \<or> hd ?s \<noteq> 91" by (rule double_text [OF gx gy])+
  let ?n = "2 * (length xs + length ys) - 2"
  let ?d = "drop (2 * length xs + 2) (ad_ip addr)"
  let ?mid = "0 # 0 # take (2 * length ys - 2) ?d" and ?post = "drop (2 * length ys - 2) ?d"
  have ip: "?ip = groups_bytes xs @ ?mid @ ?post" by (simp only: append_Cons append_take_drop_id)
  have ly: "0 < length ys" "2 * length xs + 2 * (length ys - 1) = ?n" using inside by (cases ys; simp)+
  have "length ?mid = 2 * length ys" using l a ly(1) by (cases ys) simp_all
  then obtain j where "aton6_loop (?q @ colon_text ys) (length ?q) (length ?q) (2 * length xs) (2 * length xs) ?ip =
      aton6_loop (?q @ colon_text ys) (length ?q + length (colon_text ys)) j ?n (2 * length xs)
        (groups_bytes xs @ groups_bytes ys @ ?post)"
    unfolding ip using aton6_groups [OF inside gy, of ?mid "groups_bytes xs" ?q "[]" "2 * length xs" ?post] l ly
    by (simp only: ly(2) length_groups_bytes append_Nil2 length_append) auto
  then have end_: "aton6_loop ?s 0 0 0 42 (ad_ip addr) =
      Some (groups_bytes xs @ groups_bytes ys @ ?post, Some (?n, 2 * length xs))"
    using head aton6_loop_end [of "?q @ colon_text ys"] by simp
  show ?thesis
  proof (rule mg_aton6_plain [OF s a end_])
    show "shift_groups (2 * length xs) ?n (groups_bytes xs @ groups_bytes ys @ ?post) = Some (groups_bytes xs @
        replicate (16 - 2 * (length xs + length ys)) 0 @ groups_bytes ys)" if "?n < 14"
    proof -
      have n2: "length (groups_bytes xs) + length (groups_bytes ys) = ?n + 2" using inside by (cases ys) simp_all
      have r: "14 - ?n = 16 - 2 * (length xs + length ys)" using inside by (cases ys) simp_all
      have p: "length (groups_bytes xs @ groups_bytes ys @ ?post) = 16" using a l inside by (cases ys) simp_all
      have "length (groups_bytes xs) \<le> ?n" using inside by (cases ys) simp_all
      then show ?thesis using shift_groups_spec [OF p n2 that] unfolding r by simp
    qed
    show "2 * length xs \<le> ?n" using inside by (cases ys) simp_all
  qed (use l in auto)
qed

lemma mg_aton6_double:
  assumes "\<forall>g \<in> set (xs @ ys). hex_group g" "length xs + length ys \<le> 7" "length (ad_ip addr) = 16"
  shows "mg_aton6 (colon_text xs @ [58, 58] @ colon_text ys) addr = Some (True, addr
    \<lparr>ad_ip := groups_bytes xs @ replicate (16 - 2 * (length xs + length ys)) 0 @ groups_bytes ys, ad_is_ip6 := True\<rparr>)"
  using mg_aton6_double_last [OF assms] mg_aton6_double_inside [OF assms] by (cases "ys = []") simp_all

section \<open>Printing and parsing\<close>

lemma mg_atone_nonempty: "s \<noteq> [] \<Longrightarrow> mg_atone s addr = (False, addr)"
  by (simp add: mg_atone_def)

lemma mg_aton_ip6:
  assumes "46 \<notin> set s" "58 \<in> set s" "length s < 2 ^ 31" "length (ad_ip addr) = 16"
  shows "mg_aton s addr = mg_aton6 s addr"
proof -
  have "mg_lower 58 \<notin> mg_lower ` set (bs ''localhost'')" by (simp add: mg_lower_def)
  moreover have "s \<noteq> []" using assms(2) by auto
  ultimately show ?thesis
    using mg_atonl_other [OF assms(2) _ assms(3)] mg_aton4_no_dot [OF assms(1)] assms(4)
    by (simp add: mg_aton_def mg_atone_nonempty)
qed

lemma take_bit_u32 [simp]: "take_bit 64 (unat (v :: u32)) = unat v"
  using unsigned_less [of v, where ?'a = nat] by (simp add: take_bit_nat_eq_self)

lemma unat_u16_u32 [simp]: "unat (ucast (h :: u16) :: u32) = unat h"
  using unsigned_less [of h, where ?'a = nat] by (simp add: unsigned_ucast_eq take_bit_nat_eq_self)

lemma vx_x [simp]:
  "mg_vxprintf (37 # 120 # r) (Int32 v # args) = print_then (num_of 16 (unat v)) (mg_vxprintf r args)"
  by (rule vx_conv [where c = 120 and r = r and argsy = args and argsx = "Int32 v # args" and sp = "\<lparr>f_alt = False, f_minus = False, f_zero = False, f_width = 0, f_prec = no_prec, f_long = 0\<rparr>"])
    (simp_all add: fmt_head_simps fmt_conv_def fmt_int_text int_arg_def num_text_def unsigned_ucast_eq)

lemma unat_byte_less: "unat (b :: u8) < 256"
  using unsigned_less [of b, where ?'a = nat] by simp

lemma unat_byte_le: "unat (b :: u8) \<le> 255"
  by (rule less_Suc_eq_le [THEN iffD1]) (use unat_byte_less [of b] in presburger)

lemma take_bit_byte [simp]: "take_bit 64 (unat (b :: u8)) = unat b"
  by (rule take_bit_nat_eq_self) (rule le_less_trans [OF unat_byte_le], simp)

lemma num_text_byte [simp]: "num_text (scast (ucast (b :: u8) :: u32)) True False = dec_of (unat b)"
proof -
  have w: "scast (ucast b :: u32) = (ucast b :: u64)"
  proof (rule bit_word_eqI)
    fix n
    have "bit b (min 31 n) \<longleftrightarrow> bit b n" by (cases "n \<le> 31") (auto dest: bit_imp_le_length)
    then show "bit (scast (ucast b :: u32) :: u64) n = bit (ucast b :: u64) n" if "n < LENGTH(64)"
      using that by (auto simp: bit_simps)
  qed
  have "\<not> bit (uint b) 63" by (auto simp: bit_uint_iff)
  then have "\<not> sint (ucast b :: u64) < 0"
    using unsigned_less [of b, where ?'a = int] by (simp add: sint_uint unsigned_ucast_eq take_bit_int_eq_self)
  moreover have "unat (ucast b :: u64) = unat b"
    by (simp add: unsigned_ucast_eq)
  ultimately show ?thesis by (simp add: num_text_def w num_of_dec)
qed

lemma dot_parts_append: "46 \<notin> set x \<Longrightarrow> dot_parts (x @ 46 # s) = x # dot_parts s"
  by (induction x) auto

lemma dec_of_no_dot: "46 \<notin> set (dec_of n)"
  using dec_of_props [of n] by (auto simp: is_digit_def)

lemma print_ip4_text:
  assumes "4 \<le> length p"
  shows "\<exists>t. print_ip4 p = Some (t, length t) \<and> dot_parts t = map (\<lambda>b. dec_of (unat b)) (take 4 p) \<and>
    length t \<le> 15"
proof -
  obtain a b c d q where p: "p = a # b # c # d # q"
    using assms by (auto simp: Suc_le_length_iff eval_nat_numeral)
  let ?t = "dec_of (unat a) @ 46 # dec_of (unat b) @ 46 # dec_of (unat c) @ 46 # dec_of (unat d)"
  have "length (dec_of (unat x)) \<le> 3" for x :: u8
    using digits_rev_length [of "unat x" 10 3] unat_byte_less [of x] less_trans [of "unat x" 256 1000] by (simp add: num_of_def split: if_splits flip: num_of_dec)
  from this [of a] this [of b] this [of c] this [of d] have "length ?t \<le> 15" by simp
  moreover have "print_ip4 p = Some (?t, length ?t)" by (simp add: print_ip4_def p)
  moreover have "dot_parts ?t = map (\<lambda>b. dec_of (unat b)) (take 4 p)"
    by (simp add: p dot_parts_append dot_parts_no_dot dec_of_no_dot)
  ultimately show ?thesis by blast
qed

lemma print_ip6_text:
  assumes "length hs = 8"
  shows "\<exists>t. print_ip6 hs = Some (91 # t @ [93], length t + 2) \<and> t = colon_text (map (\<lambda>h. num_of 16 (unat (mg_ntohs h))) hs)"
proof -
  obtain a b c d e f g h where "hs = [a, b, c, d, e, f, g, h]" 
    using assms by (auto simp: length_Suc_conv eval_nat_numeral)
  then show ?thesis by (simp add: print_ip6_def)
qed

lemma octet_dec: "octet (dec_of (unat b)) = b" "octet_text (dec_of (unat b))"
  using dec_of_props [of "unat b"] unat_byte_le [of b] by (auto simp: octet_def octet_text_def)

lemma aton_print_ip4:
  assumes "print_ip4 (ad_ip a) = Some (t, n)" "4 \<le> length (ad_ip a)" "4 \<le> length (ad_ip addr)"
  shows "n = length t \<and> mg_aton t addr =
    Some (True, addr\<lparr>ad_ip := take 4 (ad_ip a) @ drop 4 (ad_ip addr), ad_is_ip6 := False\<rparr>)"
proof -
  have t: "n = length t" "dot_parts t = map (\<lambda>b. dec_of (unat b)) (take 4 (ad_ip a))" "length t \<le> 15"
    using print_ip4_text [OF assms(2)] assms(1) by auto
  have parts: "length (dot_parts t) = 4" using t(2) assms(2) by simp
  then have ne: "t \<noteq> []" by auto
  have "46 \<in> set t" using parts dot_parts_no_dot [of t] by (cases "46 \<in> set t") auto
  then have "mg_atonl t addr = Some (False, addr)"
    using t(3) by (intro mg_atonl_other) (auto simp: mg_lower_def)
  moreover have "quad_of (dot_parts t) = Some (take 4 (ad_ip a))"
    using assms(2) t(2) by (simp add: quad_of_def octet_dec o_def)
  ultimately show ?thesis using ne t(1) assms(3) by (simp add: mg_aton_def mg_atone_nonempty mg_aton4_quad)
qed

lemma group_halves:
  assumes "hex_val g = word_of_nat (unat h)"
  shows "group_hi g = ucast (drop_bit 8 (h :: u16))" "group_lo g = ucast h"
proof -
  have m: "x AND 255 = take_bit 8 x" for x :: u64 by (simp add: take_bit_eq_mask mask_eq_exp_minus_1)
  show "group_hi g = ucast (drop_bit 8 h)" "group_lo g = ucast h"
    using assms unfolding group_hi_def group_lo_def m by (auto intro!: bit_word_eqI simp: bit_simps)
qed

lemma ip6_words_bytes:
  assumes "length ip = 16"
  shows "concat (map (\<lambda>h. [ucast (drop_bit 8 (mg_ntohs h)), ucast (mg_ntohs h)]) (ip6_words ip)) = ip"
proof -
  have h: "ucast (drop_bit 8 (mg_ntohs (native16 a b))) = a" "ucast (mg_ntohs (native16 a b)) = b" for a b :: u8
    by (rule bit_word_eqI; auto simp: native16_def bit_simps bit_ntohs dest: bit_imp_le_length)+
  obtain b0 b1 b2 b3 b4 b5 b6 b7 b8 b9 b10 b11 b12 b13 b14 b15 where
    "ip = [b0, b1, b2, b3, b4, b5, b6, b7, b8, b9, b10, b11, b12, b13, b14, b15]"
    using assms by (auto simp: length_Suc_conv eval_nat_numeral)
  then show ?thesis by (simp add: ip6_words_def upt_rec h)
qed

lemma print_ip6_parse:
  assumes "print_ip6 (ip6_words (ad_ip a)) = Some (t, n)" "length (ad_ip a) = 16" "length (ad_ip addr) = 16"
  shows "n = length t \<and> mg_aton t addr = Some (True, addr\<lparr>ad_ip := ad_ip a, ad_is_ip6 := True\<rparr>)"
proof -
  let ?ws = "ip6_words (ad_ip a)"
  let ?gs = "map (\<lambda>h. num_of 16 (unat (mg_ntohs h))) ?ws"
  have w: "length ?ws = 8" by (simp add: ip6_words_def)
  have t: "t = 91 # colon_text ?gs @ [93]" "n = length t" using print_ip6_text [OF w] assms(1) by auto
  have h: "unat (mg_ntohs h) < 65536" for h using unsigned_less [of "mg_ntohs h", where ?'a = nat] by simp
  have gs: "\<forall>g \<in> set ?gs. hex_group g" "length ?gs = 8" "?gs \<noteq> []" using num_of_hex(1) [OF h] w by auto
  have "hd (colon_text ?gs) \<noteq> 91" using hd_colon_text [OF gs(3,1)] by auto
  moreover have "groups_bytes ?gs = ad_ip a"
    using ip6_words_bytes [OF assms(2)] group_halves [OF num_of_hex(2) [OF h]] by (simp add: groups_bytes_def o_def)
  ultimately have "mg_aton6 t addr = Some (True, addr\<lparr>ad_ip := ad_ip a, ad_is_ip6 := True\<rparr>)"
    using t(1) mg_aton6_brackets [OF hd_colon_text(1) [OF gs(3,1)]] mg_aton6_full [OF gs(2,1) assms(3)] by simp
  moreover have "46 \<notin> set t" "length t < 2 ^ 31"
    using t(1) colon_text_chars [OF gs(1), of 46] length_colon_text [OF gs(1)] w by auto
  moreover have "58 \<in> set t"
    using w t(1) by (cases ?gs rule: colon_text.cases) auto
  ultimately show ?thesis using mg_aton_ip6 t(2) assms(3) by simp
qed

section \<open>The properties\<close>

text \<open>
  C10.  \<open>mg_aton4\<close> takes exactly the dotted quads: four parts, each a non-empty run of decimal digits whose
  value is at most 255, and stores their values as the first four bytes; on any other text it returns
  false and leaves the address as it was.
\<close>

theorem mg_aton4_dotted:
  assumes "4 \<le> length (ad_ip addr)"
  shows "mg_aton4 str addr = Some (
    if length (dot_parts str) = 4 \<and> (\<forall>p \<in> set (dot_parts str). octet_text p)
    then (True, addr\<lparr>ad_ip := map octet (dot_parts str) @ drop 4 (ad_ip addr), ad_is_ip6 := False\<rparr>)
    else (False, addr))"
  using mg_aton4_quad [OF assms] by (simp add: quad_of_def)

theorem mg_aton4_dotted_witness:
  "mg_aton4 (bs ''10.0.255.7'') \<lparr>ad_ip = replicate 16 9, ad_port = 0, ad_is_ip6 = True\<rparr> =
     Some (True, \<lparr>ad_ip = [10, 0, 255, 7] @ replicate 12 9, ad_port = 0, ad_is_ip6 = False\<rparr>)"
  using mg_aton4_dotted [of "\<lparr>ad_ip = replicate 16 9, ad_port = 0, ad_is_ip6 = True\<rparr>" "bs ''10.0.255.7''"]
  by (simp add: octet_text_def octet_def digits_val_def is_digit_def digit_val_def)

lemma print_ip_parse:
  assumes "length (ad_ip a) = 16" "length (ad_ip addr) = 16"
  shows "\<exists>t. mg_print_ip a = Some (t, length t) \<and> mg_aton t addr = Some (True, addr
    \<lparr>ad_ip := (if ad_is_ip6 a then ad_ip a else take 4 (ad_ip a) @ drop 4 (ad_ip addr)), ad_is_ip6 := ad_is_ip6 a\<rparr>)"
proof (cases "ad_is_ip6 a")
  case True
  obtain t where "print_ip6 (ip6_words (ad_ip a)) = Some (t, length t)"
    using print_ip6_text [of "ip6_words (ad_ip a)"] by (auto simp: ip6_words_def)
  then show ?thesis using True print_ip6_parse [OF _ assms] by (simp add: mg_print_ip_def)
next
  case False
  obtain t where "print_ip4 (ad_ip a) = Some (t, length t)" using print_ip4_text [of "ad_ip a"] assms(1) by auto
  then show ?thesis using False aton_print_ip4 [of a t "length t" addr] assms by (simp add: mg_print_ip_def)
qed

text \<open>
  C9.  An address printed by \<open>mg_print_ip\<close>, in either family, is read back by \<open>mg_aton\<close> as the same address and
  family: all sixteen bytes of an IPv6 address, the first four of an IPv4 address.  The count that the printer
  returns is the length of the text.
\<close>

theorem mg_addr_roundtrip:
  assumes "length (ad_ip a) = 16" "length (ad_ip addr) = 16"
  shows "\<exists>t. mg_print_ip a = Some (t, length t) \<and> mg_aton t addr = Some (True, addr
    \<lparr>ad_ip := (if ad_is_ip6 a then ad_ip a else take 4 (ad_ip a) @ drop 4 (ad_ip addr)), ad_is_ip6 := ad_is_ip6 a\<rparr>)"
  by (rule print_ip_parse [OF assms])

theorem mg_addr_roundtrip_witness:
  "\<exists>t. mg_print_ip \<lparr>ad_ip = [0x20, 1, 0xd, 0xb8] @ replicate 11 0 @ [1], ad_port = 0, ad_is_ip6 = True\<rparr> = Some (t, length t) \<and>
     mg_aton t \<lparr>ad_ip = replicate 16 0, ad_port = 7, ad_is_ip6 = False\<rparr> =
       Some (True, \<lparr>ad_ip = [0x20, 1, 0xd, 0xb8] @ replicate 11 0 @ [1], ad_port = 7, ad_is_ip6 = True\<rparr>)"
  using mg_addr_roundtrip [of "\<lparr>ad_ip = [0x20, 1, 0xd, 0xb8] @ replicate 11 0 @ [1], ad_port = 0, ad_is_ip6 = True\<rparr>"
      "\<lparr>ad_ip = replicate 16 0, ad_port = 7, ad_is_ip6 = False\<rparr>"] by simp

text \<open>
  C11.  A double colon stands for the groups of zeros that are left out: with at most seven groups around it,
  each of one to four hexadecimal digits, \<open>mg_aton\<close> puts those before it at the front, those after it at
  the end, and zeros between; in brackets as well as without them.
\<close>

theorem mg_aton_double_colon:
  assumes "\<forall>g \<in> set (xs @ ys). hex_group g" "length xs + length ys \<le> 7" "length (ad_ip addr) = 16"
  shows "let t = colon_text xs @ bs ''::'' @ colon_text ys;
             r = Some (True, addr\<lparr>ad_ip := groups_bytes xs @ replicate (16 - 2 * (length xs + length ys)) 0 @ groups_bytes ys,
                                  ad_is_ip6 := True\<rparr>)
         in mg_aton t addr = r \<and> mg_aton (bs ''['' @ t @ bs '']'') addr = r"
proof -
  let ?t = "colon_text xs @ [58, 58] @ colon_text ys"
  have g: "\<forall>g \<in> set xs. hex_group g" "\<forall>g \<in> set ys. hex_group g" using assms(1) by auto
  have n: "46 \<notin> set ?t" "?t \<noteq> []" using colon_text_chars [OF g(1), of 46] colon_text_chars [OF g(2), of 46] by auto
  have h: "hd ?t \<noteq> 91" using hd_colon_text [of xs] g(1) by (cases "xs = []") auto
  have l: "length ?t < 2 ^ 31 - 2" using length_colon_text [OF g(1)] length_colon_text [OF g(2)] assms(2) by simp
  have "mg_aton ?t addr = mg_aton6 ?t addr" "mg_aton (91 # ?t @ [93]) addr = mg_aton6 (91 # ?t @ [93]) addr"
    using n(1) l assms(3) by (auto intro!: mg_aton_ip6)
  then show ?thesis
    using mg_aton6_double [OF assms] mg_aton6_brackets [OF n(2) h] by (simp add: Let_def)
qed

theorem mg_aton_double_colon_witness:
  "mg_aton (bs ''fe80::1:2'') \<lparr>ad_ip = replicate 16 7, ad_port = 0, ad_is_ip6 = False\<rparr> =
     Some (True, \<lparr>ad_ip = [0xfe, 0x80] @ replicate 10 0 @ [0, 1, 0, 2], ad_port = 0, ad_is_ip6 = True\<rparr>)"
  using mg_aton_double_colon [of "[bs ''fe80'']" "[bs ''1'', bs ''2'']" "\<lparr>ad_ip = replicate 16 7, ad_port = 0, ad_is_ip6 = False\<rparr>"]
  by (simp add: Let_def hex_group_def is_hex_def is_digit_def group_hi_def group_lo_def hex_val_def mg_unhex_nimble_def)

text \<open>Whatever the text is, the parsers stay inside the address.\<close>

lemma aton6_loop_safe:
  assumes "length ip = 16" "n \<le> 14" "dc = 42 \<or> dc \<le> n" "j \<le> i"
  shows "\<exists>ip' r. aton6_loop str i j n dc ip = Some (ip', r) \<and> length ip' = 16 \<and>
    (case r of None \<Rightarrow> True | Some (n', dc') \<Rightarrow> n' \<le> 14 \<and> (dc' = 42 \<or> dc' \<le> n'))"
  using assms
proof (induction str i j n dc ip rule: aton6_loop.induct)
  case (1 str i j n dc ip)
  have u: "mg_unhexn str j (i - j + 1) \<noteq> None" if "i < length str"
    using that 1(6) unhexn_loop_value [of j "i - j + 1" str 0] by (auto simp: mg_unhexn_def simp del: unhexn_loop.simps)
  show ?case
    using 1(3-) u 1(1,2)
    by (subst aton6_loop.simps) (auto simp: Let_def)
qed

lemma mg_aton4_safe:
  assumes "length (ad_ip addr) = 16"
  obtains ok ip where "mg_aton4 str addr = Some (ok, addr\<lparr>ad_ip := ip, ad_is_ip6 := (\<not> ok \<and> ad_is_ip6 addr)\<rparr>)" "length ip = 16"
proof (cases "quad_of (dot_parts str)")
  case None
  then show ?thesis using assms that [of False "ad_ip addr"] by (simp add: mg_aton4_quad)
next
  case (Some q)
  then have "length q = 4" by (auto simp: quad_of_def split: if_splits)
  then show ?thesis using Some assms that [of True "q @ drop 4 (ad_ip addr)"] by (simp add: mg_aton4_quad)
qed

definition aton_ok :: "mg_addr \<Rightarrow> (bool \<times> mg_addr) option \<Rightarrow> bool" where
  "aton_ok addr r \<longleftrightarrow> (\<exists>ok addr'. r = Some (ok, addr') \<and> length (ad_ip addr') = 16 \<and> ad_port addr' = ad_port addr \<and>
     (\<not> ok \<longrightarrow> ad_is_ip6 addr' = ad_is_ip6 addr))"

lemma mg_v4mapped_safe:
  assumes "length (ad_ip addr) = 16"
  shows "mg_v4mapped str addr = Some (False, addr) \<or>
    (\<exists>ip. length ip = 16 \<and> mg_v4mapped str addr = Some (True, addr\<lparr>ad_ip := ip, ad_is_ip6 := True\<rparr>))"
proof (cases "quad_of (dot_parts (drop 7 str))")
  case None
  then show ?thesis using assms by (simp add: mg_v4mapped_def mg_aton4_quad)
next
  case (Some q)
  then have "length q = 4" by (auto simp: quad_of_def split: if_splits)
  then show ?thesis
    using Some assms by (auto simp: mg_v4mapped_def mg_aton4_quad blit_def intro!: exI [of _ "replicate 10 0 @ 255 # 255 # q"])
qed

lemma mg_aton6_safe:
  assumes "length (ad_ip addr) = 16"
  shows "aton_ok addr (mg_aton6 str addr)"
proof -
  let ?s = "if length str > 2 \<and> str ! 0 = 91 then take (length str - 2) (tl str) else str"
  obtain ip r where l: "aton6_loop ?s 0 0 0 42 (ad_ip addr) = Some (ip, r)" "length ip = 16"
      "case r of None \<Rightarrow> True | Some (n, dc) \<Rightarrow> n \<le> 14 \<and> (dc = 42 \<or> dc \<le> n)"
    using aton6_loop_safe [of "ad_ip addr" 0 42 0 0 ?s] assms by auto
  show ?thesis
    using mg_v4mapped_safe [OF assms, of ?s]
  proof
    assume m: "mg_v4mapped ?s addr = Some (False, addr)"
    show ?thesis
    proof (cases r)
      case None
      then show ?thesis using m l unfolding mg_aton6_def Let_def by (simp add: aton_ok_def ex_bool_eq)
    next
      case (Some x)
      then obtain n dc where r: "r = Some (n, dc)" by (cases x) auto
      show ?thesis using m l r unfolding mg_aton6_def Let_def
        by (auto simp: aton_ok_def blit_def span_def)
    qed
  next
    assume "\<exists>ip. length ip = 16 \<and> mg_v4mapped ?s addr = Some (True, addr\<lparr>ad_ip := ip, ad_is_ip6 := True\<rparr>)"
    then show ?thesis unfolding mg_aton6_def Let_def by (auto simp: aton_ok_def)
  qed
qed

lemma mg_aton_ok:
  assumes "length (ad_ip addr) = 16" "length str < 2 ^ 31"
  shows "aton_ok addr (mg_aton str addr)"
proof -
  have z: "0 \<notin> set (bs ''localhost'')" "length (bs ''localhost'') < 2 ^ 31" by simp_all
  obtain r where r: "mg_vcasecmp str (bs ''localhost'' @ [0]) = Some r" using vcasecmp_eq [OF z(1) assms(2) z(2)] by auto
  obtain ok ip where a4: "mg_aton4 str addr = Some (ok, addr\<lparr>ad_ip := ip, ad_is_ip6 := (\<not> ok \<and> ad_is_ip6 addr)\<rparr>)" "length ip = 16"
    using mg_aton4_safe [OF assms(1)] by metis
  have "aton_ok addr (mg_aton6 str (addr\<lparr>ad_ip := ip\<rparr>))"
    using mg_aton6_safe [of "addr\<lparr>ad_ip := ip\<rparr>" str] a4(2) by (simp add: aton_ok_def)
  then show ?thesis
    using r a4 assms(1) by (cases ok) (auto simp: mg_aton_def mg_atone_def mg_atonl_def aton_ok_def blit_def)
qed

text \<open>
  Whatever the text, \<open>mg_aton\<close> returns and stays inside the text and the sixteen bytes of the address, leaves
  the port alone, and changes the family only when it returns true.
\<close>

theorem mg_aton_safe:
  assumes "length (ad_ip addr) = 16" "length str < 2 ^ 31"
  shows "\<exists>ok addr'. mg_aton str addr = Some (ok, addr') \<and> length (ad_ip addr') = 16 \<and> ad_port addr' = ad_port addr \<and>
    (\<not> ok \<longrightarrow> ad_is_ip6 addr' = ad_is_ip6 addr)"
  using mg_aton_ok [OF assms] by (simp add: aton_ok_def)

theorem mg_aton_safe_witness:
  "\<exists>ok addr'. mg_aton (bs ''1:::2.3'') \<lparr>ad_ip = replicate 16 0, ad_port = 5, ad_is_ip6 = False\<rparr> = Some (ok, addr') \<and>
     length (ad_ip addr') = 16 \<and> ad_port addr' = 5 \<and> (\<not> ok \<longrightarrow> \<not> ad_is_ip6 addr')"
  using mg_aton_safe [of "\<lparr>ad_ip = replicate 16 0, ad_port = 5, ad_is_ip6 = False\<rparr>" "bs ''1:::2.3''"] by simp

text \<open>
  Texts that are no addresses but are taken as ones: two double colons, a single colon at the front, and one
  at the end.
\<close>

definition zero_addr :: mg_addr where
  "zero_addr = \<lparr>ad_ip = replicate 16 0, ad_port = 0, ad_is_ip6 = False\<rparr>"

lemma mg_aton_two_gaps:
  "mg_aton (bs ''1::2::3'') zero_addr =
     Some (True, zero_addr\<lparr>ad_ip := [0, 1, 0, 2, 0, 0, 0, 0, 0, 0, 0, 0, 0, 0, 0, 3], ad_is_ip6 := True\<rparr>)"
  by code_simp

lemma mg_aton_outer_colons:
  "mg_aton (bs '':1:2:3:4:5:6:7:8'') zero_addr =
     Some (True, zero_addr\<lparr>ad_ip := [0, 1, 0, 2, 0, 3, 0, 4, 0, 5, 0, 6, 0, 7, 0, 8], ad_is_ip6 := True\<rparr>)"
  "mg_aton (bs ''1:2:3:4:5:6:7:'') zero_addr =
     Some (True, zero_addr\<lparr>ad_ip := [0, 1, 0, 2, 0, 3, 0, 4, 0, 5, 0, 6, 0, 7, 0, 0], ad_is_ip6 := True\<rparr>)"
  by code_simp+

text \<open>The texts are a codec of the addresses that have no port and, in IPv4, no bytes behind the fourth.\<close>

definition addr_text :: "mg_addr \<Rightarrow> bytes" where
  "addr_text a = (case mg_print_ip a of None \<Rightarrow> [] | Some (t, n) \<Rightarrow> t)"

definition text_addr :: "bytes \<Rightarrow> mg_addr option" where
  "text_addr t = (case mg_aton t zero_addr of Some (True, a) \<Rightarrow> Some a | _ \<Rightarrow> None)"

definition plain_addr :: "mg_addr \<Rightarrow> bool" where
  "plain_addr a \<longleftrightarrow> length (ad_ip a) = 16 \<and> ad_port a = 0 \<and> (\<not> ad_is_ip6 a \<longrightarrow> drop 4 (ad_ip a) = replicate 12 0)"

lemma text_addr_text:
  assumes "plain_addr a"
  shows "text_addr (addr_text a) = Some a"
proof -
  have l: "length (ad_ip a) = 16" "length (ad_ip zero_addr) = 16" using assms by (simp_all add: plain_addr_def zero_addr_def)
  obtain t where "mg_print_ip a = Some (t, length t)" "mg_aton t zero_addr = Some (True, zero_addr
      \<lparr>ad_ip := (if ad_is_ip6 a then ad_ip a else take 4 (ad_ip a) @ drop 4 (ad_ip zero_addr)), ad_is_ip6 := ad_is_ip6 a\<rparr>)"
    using print_ip_parse [OF l] by blast
  moreover have "take 4 (ad_ip a) @ replicate 12 0 = ad_ip a" if "\<not> ad_is_ip6 a"
    using assms that append_take_drop_id [of 4 "ad_ip a"] by (simp add: plain_addr_def)
  ultimately show ?thesis
    using assms by (cases a) (auto simp: addr_text_def text_addr_def plain_addr_def zero_addr_def)
qed

interpretation ip_text: codec addr_text text_addr plain_addr
  by unfold_locales (rule text_addr_text)

end
