(* ===== verification/Mg_Base64.thy ===== *)
theory Mg_Base64
  imports Prelude
begin

text \<open>
  Base64 (\<open>src/base64.c\<close> in \<open>src/mongoose.c\<close>, and \<open>bcpy\<close> of \<open>src/printf.c\<close>): the incremental
  encoder \<open>mg_base64_update\<close>/\<open>mg_base64_final\<close> that keeps its pending bits in the output
  buffer, the one-shot encoder and the decoder.  Buffers are checked arrays, so the theorems
  also say how large the caller's buffer must be.  The indices are of type \<open>int\<close>: \<open>nat31\<close> makes an
  increment that overflows undefined, and \<open>n\<close>, the length of the input, is an \<open>int\<close> too.
\<close>

section \<open>The code\<close>

definition mg_b64idx :: "int \<Rightarrow> int" where
  "mg_b64idx c =
     (if c < 26 then c + 65 else if c < 52 then c - 26 + 97 else if c < 62 then c - 52 + 48
      else if c = 62 then 43 else 47)"

definition mg_b64rev :: "int \<Rightarrow> int" where
  "mg_b64rev c =
     (if c \<ge> 65 \<and> c \<le> 90 then c - 65
      else if c \<ge> 97 \<and> c \<le> 122 then c + 26 - 97
      else if c \<ge> 48 \<and> c \<le> 57 then c + 52 - 48
      else if c = 43 then 62 else if c = 47 then 63 else if c = 61 then 64 else -1)"

text \<open>\<open>to\<close> is an array of (signed) \<open>char\<close>; \<open>n\<close> counts the characters written so far.\<close>

definition mg_base64_update :: "u8 \<Rightarrow> bytes \<Rightarrow> nat \<Rightarrow> (bytes \<times> nat) option" where
  "mg_base64_update c to n =
     (let rem = (n mod 4) mod 3 in
      if rem = 0 then do {
        to \<leftarrow> wr to n (word_of_int (mg_b64idx (uint (drop_bit 2 c))));
        n \<leftarrow> nat31 (n + 1);
        to \<leftarrow> wr to n (push_bit 4 (c AND 3));
        Some (to, n) }
      else if rem = 1 then do {
        x \<leftarrow> rd to n;
        to \<leftarrow> wr to n (word_of_int (mg_b64idx (sint x OR uint (drop_bit 4 c))));
        n \<leftarrow> nat31 (n + 1);
        to \<leftarrow> wr to n (push_bit 2 (c AND 15));
        Some (to, n) }
      else do {
        x \<leftarrow> rd to n;
        to \<leftarrow> wr to n (word_of_int (mg_b64idx (sint x OR uint (drop_bit 6 c))));
        n \<leftarrow> nat31 (n + 1);
        to \<leftarrow> wr to n (word_of_int (mg_b64idx (uint (c AND 63))));
        n \<leftarrow> nat31 (n + 1);
        Some (to, n) })"

function b64_pad :: "bytes \<Rightarrow> nat \<Rightarrow> (bytes \<times> nat) option" where
  "b64_pad to n =
     (if n mod 4 \<noteq> 0 then do { to \<leftarrow> wr to n 61; n \<leftarrow> nat31 (n + 1); b64_pad to n } else Some (to, n))"
  by pat_completeness auto
termination
proof (relation "measure (\<lambda>(to, n). (4 - n mod 4) mod 4)", goal_cases)
  case (2 to n to' n')
  have "n mod 4 < 4" by simp
  with 2 have "n mod 4 = 1 \<or> n mod 4 = 2 \<or> n mod 4 = 3" by arith
  with 2 show ?case by (auto simp: mod_Suc nat31_def split: if_splits)
qed simp

declare b64_pad.simps [simp del]

definition mg_base64_final :: "bytes \<Rightarrow> nat \<Rightarrow> (bytes \<times> nat) option" where
  "mg_base64_final to n = do {
     (to, n') \<leftarrow> (if n mod 4 \<noteq> 0 then mg_base64_update 0 to n else Some (to, n));
     let n'' = (if n mod 4 = 2 then n' - 1 else n');
     (to, m) \<leftarrow> b64_pad to n'';
     to \<leftarrow> wr to m 0;
     Some (to, m) }"

fun b64_update_all :: "bytes \<Rightarrow> bytes \<Rightarrow> nat \<Rightarrow> (bytes \<times> nat) option" where
  "b64_update_all [] to n = Some (to, n)"
| "b64_update_all (c # cs) to n = do {
     (to, n) \<leftarrow> mg_base64_update c to n;
     b64_update_all cs to n }"

definition mg_base64_encode :: "bytes \<Rightarrow> bytes \<Rightarrow> (bytes \<times> nat) option" where
  "mg_base64_encode p to = do {
     _ \<leftarrow> nat31 (length p);
     (to, len) \<leftarrow> b64_update_all p to 0;
     mg_base64_final to len }"

text \<open>
  The decoder loop takes four characters while at least four are left.  A bad character ends
  it with the result 0 and no terminating zero, as the early \<open>return 0\<close> does.
\<close>

fun b64_decode_loop :: "bytes \<Rightarrow> bytes \<Rightarrow> nat \<Rightarrow> (bytes \<times> nat) option" where
  "b64_decode_loop (s0 # s1 # s2 # s3 # src) dst len =
     (let a = mg_b64rev (sint s0); b = mg_b64rev (sint s1);
          c = mg_b64rev (sint s2); d = mg_b64rev (sint s3)
      in if a = 64 \<or> a < 0 \<or> b = 64 \<or> b < 0 \<or> c < 0 \<or> d < 0 then Some (dst, 0)
      else do {
        dst \<leftarrow> wr dst len (word_of_int (push_bit 2 a OR drop_bit 4 b));
        len \<leftarrow> nat31 (len + 1);
        if s2 \<noteq> 61 then do {
          dst \<leftarrow> wr dst len (word_of_int (push_bit 4 b OR drop_bit 2 c));
          len \<leftarrow> nat31 (len + 1);
          if s3 \<noteq> 61 then do {
            dst \<leftarrow> wr dst len (word_of_int (push_bit 6 c OR d));
            len \<leftarrow> nat31 (len + 1);
            b64_decode_loop src dst len }
          else b64_decode_loop src dst len }
        else b64_decode_loop src dst len })"
| "b64_decode_loop src dst len = do { dst \<leftarrow> wr dst len 0; Some (dst, len) }"

definition mg_base64_decode :: "bytes \<Rightarrow> bytes \<Rightarrow> (bytes \<times> nat) option" where
  "mg_base64_decode src dst = do { _ \<leftarrow> nat31 (length src); b64_decode_loop src dst 0 }"


text \<open>
  The base64 printer of \<open>mg_print_base64\<close>: it encodes three bytes at a time from the table
  \<open>t\<close> and returns how many characters it sent to the output function.
\<close>

definition bcpy_table :: bytes where
  "bcpy_table = bs ''ABCDEFGHIJKLMNOPQRSTUVWXYZabcdefghijklmnopqrstuvwxyz0123456789+/''"

function bcpy :: "bytes \<Rightarrow> bytes \<times> nat" where
  "bcpy buf =
     (if buf = [] then ([], 0)
      else
        let c1 = buf ! 0;
            c2 = (if 1 < length buf then buf ! 1 else 0);
            c3 = (if 2 < length buf then buf ! 2 else 0);
            t = (\<lambda>x :: u8. bcpy_table ! unat x);
            tmp = [t (drop_bit 2 c1), t (push_bit 4 (c1 AND 3) OR drop_bit 4 c2),
                   if 1 < length buf then t (push_bit 2 (c2 AND 15) OR drop_bit 6 c3) else 61,
                   if 2 < length buf then t (c3 AND 63) else 61];
            sent = takeWhile (\<lambda>c. c \<noteq> 0) tmp;
            (rest, n) = bcpy (drop 3 buf)
        in (sent @ rest, length sent + n))"
  by pat_completeness auto
termination
  by (relation "measure length") auto

declare bcpy.simps [simp del]

section \<open>The reference encoding\<close>

definition b64_char :: "u8 \<Rightarrow> u8" where
  "b64_char s = word_of_int (mg_b64idx (uint s))"

definition sext1 :: "u8 \<Rightarrow> u8" where "sext1 a = drop_bit 2 a"
definition sext2 :: "u8 \<Rightarrow> u8 \<Rightarrow> u8" where "sext2 a b = push_bit 4 (a AND 3) OR drop_bit 4 b"
definition sext3 :: "u8 \<Rightarrow> u8 \<Rightarrow> u8" where "sext3 b c = push_bit 2 (b AND 15) OR drop_bit 6 c"
definition sext4 :: "u8 \<Rightarrow> u8" where "sext4 c = c AND 63"

fun b64_spec :: "bytes \<Rightarrow> bytes" where
  "b64_spec [] = []"
| "b64_spec [a] = [b64_char (sext1 a), b64_char (sext2 a 0), 61, 61]"
| "b64_spec [a, b] = [b64_char (sext1 a), b64_char (sext2 a b), b64_char (sext3 b 0), 61]"
| "b64_spec (a # b # c # r) =
     [b64_char (sext1 a), b64_char (sext2 a b), b64_char (sext3 b c), b64_char (sext4 c)] @ b64_spec r"

lemma length_b64_spec: "length (b64_spec p) = 4 * ((length p + 2) div 3)"
proof (induction p rule: b64_spec.induct)
  case (4 a b c r)
  have "length (a # b # c # r) + 2 = 3 + (length r + 2)" by simp
  then have "(length (a # b # c # r) + 2) div 3 = 1 + (length r + 2) div 3"
    by (metis div_add_self1 zero_neq_numeral add.commute)
  with 4 show ?case by simp
qed simp_all

lemma length_b64_spec_mod [simp]: "length (b64_spec p) mod 4 = 0"
  by (simp add: length_b64_spec)

subsection \<open>Sextets\<close>

lemma sext_high_bits [simp]:
  "\<not> bit (sext1 a) 6" "\<not> bit (sext1 a) 7" "\<not> bit (sext2 a b) 6" "\<not> bit (sext2 a b) 7"
  "\<not> bit (sext3 b c) 6" "\<not> bit (sext3 b c) 7" "\<not> bit (sext4 c) 6" "\<not> bit (sext4 c) 7"
  by (simp_all add: sext1_def sext2_def sext3_def sext4_def bit_simps byte_bits)

lemma less_64_if_bits: "\<not> bit (s :: u8) 6 \<Longrightarrow> \<not> bit s 7 \<Longrightarrow> uint s < 64"
proof -
  assume "\<not> bit s 6" "\<not> bit s 7"
  then have "s = take_bit 6 s"
    by (intro byte_eqI) (simp_all add: bit_simps)
  then have "uint s = take_bit 6 (uint s)"
    by (metis unsigned_take_bit_eq)
  moreover have "take_bit 6 (uint s) < 2 ^ 6" by (rule take_bit_int_less_exp)
  ultimately show ?thesis by simp
qed

lemma sint_uint_small: "\<not> bit (s :: u8) 7 \<Longrightarrow> sint s = uint s"
proof -
  assume b: "\<not> bit s 7"
  then have "s = take_bit 7 s"
    by (intro byte_eqI) (simp_all add: bit_simps)
  then have "uint s = take_bit 7 (uint s)"
    by (metis unsigned_take_bit_eq)
  with b show ?thesis
    by (simp add: sint_uint bit_uint_iff signed_take_bit_eq_if_positive)
qed

lemma sext_less_64 [simp]:
  "uint (sext1 a) < 64" "uint (sext2 a b) < 64" "uint (sext3 b c) < 64" "uint (sext4 c) < 64"
  by (simp_all add: less_64_if_bits)

lemma b64rev_char: "uint s < 64 \<Longrightarrow> mg_b64rev (sint (b64_char s)) = uint s"
proof -
  assume s: "uint s < 64"
  have nn: "0 \<le> uint s" by simp
  have idx: "0 \<le> mg_b64idx (uint s)" "mg_b64idx (uint s) < 128"
    using s nn by (auto simp: mg_b64idx_def)
  then have "sint (b64_char s) = mg_b64idx (uint s)"
    by (simp add: b64_char_def signed_of_int signed_take_bit_int_eq_self)
  then show ?thesis
    using s nn by (auto simp: mg_b64idx_def mg_b64rev_def)
qed

lemma b64_char_not_pad: "uint s < 64 \<Longrightarrow> b64_char s \<noteq> 61"
proof
  assume s: "uint s < 64" and e: "b64_char s = 61"
  from s have "mg_b64rev (sint (b64_char s)) = uint s" by (rule b64rev_char)
  with e s show False by (simp add: mg_b64rev_def)
qed

lemma pending_idx:
  "word_of_int (mg_b64idx (sint (push_bit 4 (a AND 3)) OR uint (drop_bit 4 b))) = b64_char (sext2 a b)"
  "word_of_int (mg_b64idx (sint (push_bit 2 (b AND 15)) OR uint (drop_bit 6 c))) = b64_char (sext3 b c)"
  "word_of_int (mg_b64idx (uint (drop_bit 2 a))) = b64_char (sext1 a)"
  "word_of_int (mg_b64idx (uint (c AND 63))) = b64_char (sext4 c)"
  unfolding b64_char_def sext1_def sext2_def sext3_def sext4_def
  by (subst sint_uint_small, simp add: bit_simps byte_bits, simp add: uint_or)+ simp_all

lemma sext_decode:
  "word_of_int (push_bit 2 (uint (sext1 a)) OR drop_bit 4 (uint (sext2 a b))) = a"
  "word_of_int (push_bit 4 (uint (sext2 a b)) OR drop_bit 2 (uint (sext3 b c))) = b"
  "word_of_int (push_bit 6 (uint (sext3 b c)) OR uint (sext4 c)) = c"
  unfolding sext1_def sext2_def sext3_def sext4_def
  by (rule byte_eqI; simp add: bit_simps byte_bits)+

subsection \<open>Encoding\<close>

lemmas pending_simps = pending_idx [simplified] pending_idx

lemma Suc_nums: "n + 3 = Suc (Suc (Suc n))" "3 + n = Suc (Suc (Suc n))"
  "n + 4 = Suc (Suc (Suc (Suc n)))" "4 + n = Suc (Suc (Suc (Suc n)))"
  by simp_all

lemma take_4:
  "n + 4 \<le> length xs \<Longrightarrow> take (4 + n) xs = take n xs @ [xs ! n, xs ! (n+1), xs ! (n+2), xs ! (n+3)]"
  by (simp add: take_Suc_conv_app_nth numeral_eq_Suc)

lemma updates_at:
  "n + 2 < 2 ^ 31 \<Longrightarrow> n + 1 < length to \<Longrightarrow> n mod 4 = 0 \<Longrightarrow> mg_base64_update c to n =
     Some (to[n := b64_char (sext1 c), n + 1 := push_bit 4 (c AND 3)], n + 1)"
  "n + 2 < 2 ^ 31 \<Longrightarrow> n + 1 < length to \<Longrightarrow> n mod 4 = 1 \<Longrightarrow> to ! n = push_bit 4 (a AND 3) \<Longrightarrow> mg_base64_update c to n =
     Some (to[n := b64_char (sext2 a c), n + 1 := push_bit 2 (c AND 15)], n + 1)"
  "n + 2 < 2 ^ 31 \<Longrightarrow> n + 1 < length to \<Longrightarrow> n mod 4 = 2 \<Longrightarrow> to ! n = push_bit 2 (a AND 15) \<Longrightarrow> mg_base64_update c to n =
     Some (to[n := b64_char (sext3 a c), n + 1 := b64_char (sext4 c)], n + 2)"
  by (simp_all add: mg_base64_update_def pending_simps Let_def nat31_def)

lemma encode_group:
  assumes n: "n mod 4 = 0" and sz: "n + 4 \<le> length to" and m31: "n + 4 < 2 ^ 31"
  shows "\<exists>to'. b64_update_all [a, b, c] to n = Some (to', 4 + n) \<and> length to' = length to \<and>
           take (4 + n) to' = take n to @ [b64_char (sext1 a), b64_char (sext2 a b),
                                           b64_char (sext3 b c), b64_char (sext4 c)]"
proof -
  have m: "(n + 1) mod 4 = 1" "(n + 2) mod 4 = 2" using n by presburger+
  define to1 where "to1 = to[n := b64_char (sext1 a), n + 1 := push_bit 4 (a AND 3)]"
  define to2 where "to2 = to1[n + 1 := b64_char (sext2 a b), n + 2 := push_bit 2 (b AND 15)]"
  define to3 where "to3 = to2[n + 2 := b64_char (sext3 b c), n + 3 := b64_char (sext4 c)]"
  have "mg_base64_update a to n = Some (to1, n + 1)"
    using n sz m31 by (simp add: updates_at to1_def)
  moreover have "mg_base64_update b to1 (n + 1) = Some (to2, n + 2)"
    using m sz m31 updates_at(2) [of "n + 1" to1 a b] by (simp add: to1_def to2_def)
  moreover have "mg_base64_update c to2 (n + 2) = Some (to3, 4 + n)"
    using m sz m31 updates_at(3) [of "n + 2" to2 b c] by (simp add: to1_def to2_def to3_def Suc_nums)
  ultimately have "b64_update_all [a, b, c] to n = Some (to3, 4 + n)" by simp
  moreover have "length to3 = length to" by (simp add: to1_def to2_def to3_def)
  moreover have "take (4 + n) to3 = take n to @ [b64_char (sext1 a), b64_char (sext2 a b),
                                           b64_char (sext3 b c), b64_char (sext4 c)]"
    using sz by (simp add: to1_def to2_def to3_def Suc_nums take_Suc_conv_app_nth)
  ultimately show ?thesis by blast
qed

lemma b64_update_all_append:
  "b64_update_all (xs @ ys) to n =
     do { (to, n) \<leftarrow> b64_update_all xs to n; b64_update_all ys to n }"
  by (induction xs arbitrary: to n) (auto simp: bind_eq_Some_conv split: Option.bind_splits)

lemma b64_pad_0: "n mod 4 = 0 \<Longrightarrow> b64_pad to n = Some (to, n)"
  by (simp add: b64_pad.simps [of to n])

lemma b64_pad_Suc:
  "n mod 4 \<noteq> 0 \<Longrightarrow> n < length to \<Longrightarrow> n + 1 < 2 ^ 31 \<Longrightarrow> b64_pad to n = b64_pad (to[n := 61]) (n + 1)"
  by (simp add: b64_pad.simps [of to n] nat31_def)

lemma final_0: "n mod 4 = 0 \<Longrightarrow> n < length to \<Longrightarrow> mg_base64_final to n = Some (to[n := 0], n)"
  by (simp add: mg_base64_final_def b64_pad_0)

lemma b64_pad_1: "n mod 4 = 3 \<Longrightarrow> n < length to \<Longrightarrow> n + 1 < 2 ^ 31 \<Longrightarrow> b64_pad to n = Some (to[n := 61], n + 1)"
  using b64_pad_Suc [of n to] b64_pad_0 [of "n + 1" "to[n := 61]"] by (simp add: mod_Suc)

lemma b64_pad_2: "n mod 4 = 2 \<Longrightarrow> n + 1 < length to \<Longrightarrow> n + 2 < 2 ^ 31 \<Longrightarrow>
    b64_pad to n = Some (to[n := 61, n + 1 := 61], n + 2)"
  using b64_pad_Suc [of n to] b64_pad_1 [of "n + 1" "to[n := 61]"] by (simp add: mod_Suc)

lemma final_1:
  assumes "n mod 4 = 1" "n + 3 < length to" "n + 3 < 2 ^ 31" "to ! n = push_bit 4 (a AND 3)"
  shows "mg_base64_final to n =
    Some (to[n := b64_char (sext2 a 0), n + 1 := 61, n + 2 := 61, n + 3 := 0], n + 3)"
proof -
  have m: "(n + 1) mod 4 = 2" using assms(1) by presburger
  have u: "mg_base64_update 0 to n = Some (to[n := b64_char (sext2 a 0), n + 1 := 0], n + 1)"
    using updates_at(2) [of n to a 0] assms by simp
  have p: "b64_pad (to[n := b64_char (sext2 a 0), n + 1 := 0]) (n + 1) =
      Some (to[n := b64_char (sext2 a 0), n + 1 := 61, n + 2 := 61], n + 3)"
    using assms(2,3) b64_pad_2 [OF m, of "to[n := b64_char (sext2 a 0), n + 1 := 0]"]
    by (simp add: Suc_nums)
  show ?thesis
    using assms(1,2) by (simp add: mg_base64_final_def u p [simplified])
qed

lemma final_2:
  assumes "n mod 4 = 2" "n + 2 < length to" "n + 2 < 2 ^ 31" "to ! n = push_bit 2 (a AND 15)"
  shows "mg_base64_final to n =
    Some (to[n := b64_char (sext3 a 0), n + 1 := 61, n + 2 := 0], n + 2)"
proof -
  have m: "(n + 1) mod 4 = 3" using assms(1) by presburger
  have u: "mg_base64_update 0 to n =
      Some (to[n := b64_char (sext3 a 0), n + 1 := b64_char (sext4 0)], n + 2)"
    using updates_at(3) [of n to a 0] assms by simp
  have p: "b64_pad (to[n := b64_char (sext3 a 0), n + 1 := b64_char (sext4 0)]) (n + 1) =
      Some (to[n := b64_char (sext3 a 0), n + 1 := 61], n + 2)"
    using assms(2,3) b64_pad_1 [OF m, of "to[n := b64_char (sext3 a 0), n + 1 := b64_char (sext4 0)]"]
    by simp
  show ?thesis
    using assms(1,2) by (simp add: mg_base64_final_def u p [simplified])
qed

definition encoded_at :: "bytes \<Rightarrow> bytes \<Rightarrow> nat \<Rightarrow> bytes \<Rightarrow> bool" where
  "encoded_at out to n to' \<longleftrightarrow>
     length to' = length to \<and> take (n + length out) to' = take n to @ out \<and> to' ! (n + length out) = 0"

lemma encode_at:
  assumes "n mod 4 = 0" and "n + length (b64_spec p) < length to" and "n + length (b64_spec p) < 2 ^ 31"
  shows "\<exists>to'. (do { (to, len) \<leftarrow> b64_update_all p to n; mg_base64_final to len }) =
                 Some (to', n + length (b64_spec p)) \<and> encoded_at (b64_spec p) to n to'"
  using assms
proof (induction p arbitrary: to n rule: b64_spec.induct)
  case 1
  then show ?case by (simp add: final_0 encoded_at_def)
next
  case (2 a)
  then have m: "(n + 1) mod 4 = 1" by presburger
  define to1 where "to1 = to[n := b64_char (sext1 a), n + 1 := push_bit 4 (a AND 3)]"
  have "mg_base64_update a to n = Some (to1, n + 1)"
    using 2 by (simp add: updates_at to1_def)
  with 2 m final_1 [of "n + 1" to1 a] show ?case
    by (simp add: to1_def encoded_at_def Suc_nums take_Suc_conv_app_nth)
next
  case (3 a b)
  then have m: "(n + 1) mod 4 = 1" "(n + 2) mod 4 = 2" by presburger+
  define to1 where "to1 = to[n := b64_char (sext1 a), n + 1 := push_bit 4 (a AND 3)]"
  define to2 where "to2 = to1[n + 1 := b64_char (sext2 a b), n + 2 := push_bit 2 (b AND 15)]"
  have "mg_base64_update a to n = Some (to1, n + 1)"
    using 3 by (simp add: updates_at to1_def)
  moreover have "mg_base64_update b to1 (n + 1) = Some (to2, n + 2)"
    using m 3 updates_at(2) [of "n + 1" to1 a b] by (simp add: to1_def to2_def)
  ultimately show ?case
    using 3 m final_2 [of "n + 2" to2 b] by (simp add: to1_def to2_def encoded_at_def Suc_nums take_Suc_conv_app_nth)
next
  case (4 a b c r)
  then obtain to1 where to1: "b64_update_all [a, b, c] to n = Some (to1, 4 + n)"
      "length to1 = length to"
      "take (4 + n) to1 = take n to @ [b64_char (sext1 a), b64_char (sext2 a b),
                                       b64_char (sext3 b c), b64_char (sext4 c)]"
    using encode_group [of n to a b c] by auto
  from 4 to1(2) have "(4 + n) mod 4 = 0" "4 + n + length (b64_spec r) < length to1"
    "4 + n + length (b64_spec r) < 2 ^ 31" by auto
  from "4.IH" [OF this] obtain to2 where to2:
      "(do { (to, len) \<leftarrow> b64_update_all r to1 (4 + n); mg_base64_final to len }) =
         Some (to2, 4 + n + length (b64_spec r))"
      "encoded_at (b64_spec r) to1 (4 + n) to2" by blast
  have split: "b64_update_all (a # b # c # r) to n = b64_update_all r to1 (4 + n)"
    using b64_update_all_append [of "[a, b, c]" r to n]
    by (simp only: to1(1) append_Cons append_Nil Option.bind_lunit prod.case)
  have idx: "n + length (b64_spec (a # b # c # r)) = 4 + n + length (b64_spec r)" by simp
  have "encoded_at (b64_spec (a # b # c # r)) to n to2"
    using to2(2) to1(2,3) unfolding encoded_at_def idx by simp
  with to2(1) split idx show ?case by auto
qed

lemma length_le_b64: "length p \<le> length (b64_spec p)"
  by (simp add: length_b64_spec)

lemma mg_base64_encode_spec:
  assumes "length (b64_spec p) < length to" "length (b64_spec p) < 2 ^ 31"
  shows "\<exists>to'. mg_base64_encode p to = Some (to', length (b64_spec p)) \<and> length to' = length to \<and>
           take (length (b64_spec p)) to' = b64_spec p \<and> to' ! length (b64_spec p) = 0"
  using encode_at [of 0 p to] assms length_le_b64 [of p] by (auto simp: mg_base64_encode_def encoded_at_def nat31_def)

subsection \<open>Decoding\<close>

lemma sext_not_64 [simp]:
  "uint (sext1 a) \<noteq> 64" "uint (sext2 a b) \<noteq> 64" "uint (sext3 b c) \<noteq> 64" "uint (sext4 c) \<noteq> 64"
  using sext_less_64 by (metis less_irrefl)+

lemma decode_at:
  assumes "len + length p < length dst" "len + length p < 2 ^ 31"
  shows "\<exists>dst'. b64_decode_loop (b64_spec p) dst len = Some (dst', len + length p) \<and>
           encoded_at p dst len dst'"
  using assms
proof (induction p arbitrary: dst len rule: b64_spec.induct)
  case 1
  then show ?case by (simp add: encoded_at_def)
next
  case (2 a)
  have "mg_b64rev (sint (61 :: u8)) = 64" by (simp add: mg_b64rev_def)
  with 2 show ?case
    by (simp add: b64rev_char b64_char_not_pad sext_decode encoded_at_def take_Suc_conv_app_nth Let_def nat31_def)
next
  case (3 a b)
  have "mg_b64rev (sint (61 :: u8)) = 64" by (simp add: mg_b64rev_def)
  with 3 show ?case
    by (simp add: b64rev_char b64_char_not_pad sext_decode encoded_at_def take_Suc_conv_app_nth Let_def nat31_def)
next
  case (4 a b c r)
  define d where "d = dst[len := a, len + 1 := b, len + 2 := c]"
  from 4 have "(len + 3) + length r < length d" "(len + 3) + length r < 2 ^ 31" by (simp_all add: d_def)
  from "4.IH" [OF this] obtain d' where d':
      "b64_decode_loop (b64_spec r) d (len + 3) = Some (d', len + 3 + length r)"
      "encoded_at r d (len + 3) d'" by blast
  have "b64_decode_loop (b64_spec (a # b # c # r)) dst len = b64_decode_loop (b64_spec r) d (len + 3)"
    using "4.prems" by (simp add: b64rev_char b64_char_not_pad sext_decode d_def Let_def nat31_def Suc_nums)
  moreover have "encoded_at (a # b # c # r) dst len d'"
    using d'(2) "4.prems" by (simp add: encoded_at_def d_def Suc_nums take_Suc_conv_app_nth)
  ultimately show ?case using d'(1) by (simp add: Suc_nums)
qed

lemma b64_decode_loop_short:
  "length src < 4 \<Longrightarrow> b64_decode_loop src dst len = do { dst \<leftarrow> wr dst len 0; Some (dst, len) }"
  by (cases "(src, dst, len)" rule: b64_decode_loop.cases) auto

lemma decode_loop_safe:
  "len + 3 * (length src div 4) < length dst \<Longrightarrow> len + 3 * (length src div 4) < 2 ^ 31 \<Longrightarrow>
   \<exists>dst' n. b64_decode_loop src dst len = Some (dst', n) \<and> length dst' = length dst \<and>
           n \<le> len + 3 * (length src div 4)"
proof (induction "length src" arbitrary: src dst len rule: less_induct)
  case less
  show ?case
  proof (cases "length src < 4")
    case True
    then show ?thesis using less.prems by (simp add: b64_decode_loop_short)
  next
    case False
    then obtain s0 s1 s2 s3 r where src: "src = s0 # s1 # s2 # s3 # r"
      by (auto simp: not_less numeral_eq_Suc Suc_le_length_iff)
    have l: "length src div 4 = 1 + length r div 4" by (simp add: src)
    have IH: "\<exists>dst' n. b64_decode_loop r d k = Some (dst', n) \<and> length dst' = length dst \<and>
        n \<le> len + 3 * (length src div 4)" if "k \<le> len + 3" "length d = length dst" for d k
    proof -
      have "length r < length src" "k + 3 * (length r div 4) < length d" "k + 3 * (length r div 4) < 2 ^ 31"
        using that less.prems l by (simp add: src, linarith, linarith)
      from less.hyps [OF this] that show ?thesis by (fastforce simp: l)
    qed
    have *: "len + 2 < length dst" "len + 3 < 2 ^ 31" using less.prems l by simp_all
    show ?thesis
      using * IH [of "len + 1"] IH [of "len + 2"] IH [of "Suc (Suc (Suc len))"]
      unfolding src b64_decode_loop.simps(1) by (auto simp: Let_def nat31_def)
  qed
qed

lemma decode_overflow_tail:
  assumes "length r < 4"
  shows "length dst \<le> len + 3 * k \<Longrightarrow> b64_decode_loop (replicate (4 * k) 65 @ r) dst len = None"
proof (induction k arbitrary: dst len)
  case 0
  then show ?case using assms by (simp add: b64_decode_loop_short wr_def)
next
  case (Suc k)
  have r: "replicate (4 * Suc k) (65 :: u8) @ r = 65 # 65 # 65 # 65 # replicate (4 * k) 65 @ r"
    by (simp add: numeral_eq_Suc)
  have "mg_b64rev (sint (65 :: u8)) = 0" by (simp add: mg_b64rev_def)
  with Suc show ?case
    unfolding r by (auto simp: wr_def nat31_def Let_def split: Option.bind_splits)
qed

section \<open>The printer\<close>

lemma upt_64: "[0..<64] = [0, Suc 0] @ [2..<(64::nat)]"
  using upt_add_eq_append [of 0 2 62]
  by (simp only: upt_rec [of 0] upt_rec [of "Suc 0"] upt_rec [of 2]) (simp add: numeral_2_eq_2)

lemma b64_char_nat:
  "n < 64 \<Longrightarrow> b64_char (word_of_nat n) =
     (if n < 26 then word_of_nat (n + 65) else if n < 52 then word_of_nat (n + 71)
      else if n < 62 then word_of_int (int n - 4) else if n = 62 then 43 else 47)"
  by (auto simp: b64_char_def mg_b64idx_def uint_nat unat_of_nat)

lemma bcpy_table_tail: "drop 2 bcpy_table = map (\<lambda>n. b64_char (word_of_nat n)) [2..<64]"
proof -
  have "map (\<lambda>n. b64_char (word_of_nat n)) [2..<64] =
      map (\<lambda>n. if n < 26 then word_of_nat (n + 65) else if n < 52 then word_of_nat (n + 71)
        else if n < 62 then word_of_int (int n - 4) else if n = 62 then 43 else 47) [2..<64]"
    by (rule map_cong [OF refl], rule b64_char_nat) (simp only: set_upt atLeastLessThan_iff)
  also have "\<dots> = drop 2 bcpy_table"
    unfolding upt_rec_numeral by (simp add: bcpy_table_def)
  finally show ?thesis by simp
qed

lemma bcpy_table_eq: "bcpy_table = map (\<lambda>n. b64_char (word_of_nat n)) [0..<64]"
proof -
  have t: "take 2 bcpy_table = map (\<lambda>n. b64_char (word_of_nat n)) [0, Suc 0]"
    using b64_char_nat [of 0] b64_char_nat [of 1]
    by (simp add: bcpy_table_def take_Cons numeral_2_eq_2)
  have "bcpy_table = take 2 bcpy_table @ drop 2 bcpy_table"
    by (rule append_take_drop_id [symmetric])
  also have "\<dots> = map (\<lambda>n. b64_char (word_of_nat n)) [0..<64]"
    unfolding upt_64 map_append t bcpy_table_tail ..
  finally show ?thesis .
qed

lemma bcpy_table_char: "uint s < 64 \<Longrightarrow> bcpy_table ! unat s = b64_char s"
proof -
  assume "uint s < 64"
  then have "unat s < 64" using of_nat_less_iff [of "unat s" 64, where ?'a = int] by simp
  then have "map (\<lambda>n. b64_char (word_of_nat n)) [0..<64] ! unat s = b64_char s"
    by (subst nth_map) (simp_all only: length_upt nth_upt, simp_all)
  then show ?thesis unfolding bcpy_table_eq .
qed

lemma b64_char_not_0: "uint s < 64 \<Longrightarrow> b64_char s \<noteq> 0"
proof
  assume s: "uint s < 64" and e: "b64_char s = 0"
  from s have "mg_b64rev (sint (b64_char s)) = uint s" by (rule b64rev_char)
  moreover have "0 \<le> uint s" by simp
  ultimately show False using e by (simp add: mg_b64rev_def)
qed

lemma table_lookups:
  "bcpy_table ! unat (drop_bit 2 a) = b64_char (sext1 a)"
  "bcpy_table ! unat (push_bit 4 (a AND 3) OR drop_bit 4 b) = b64_char (sext2 a b)"
  "bcpy_table ! unat (push_bit 4 (a AND 3)) = b64_char (sext2 a 0)"
  "bcpy_table ! unat (push_bit 2 (b AND 15) OR drop_bit 6 c) = b64_char (sext3 b c)"
  "bcpy_table ! unat (push_bit 2 (b AND 15)) = b64_char (sext3 b 0)"
  "bcpy_table ! unat (c AND 63) = b64_char (sext4 c)"
  using bcpy_table_char [OF sext_less_64(1), of a] bcpy_table_char [OF sext_less_64(2), of a b]
    bcpy_table_char [OF sext_less_64(2), of a 0] bcpy_table_char [OF sext_less_64(3), of b c]
    bcpy_table_char [OF sext_less_64(3), of b 0] bcpy_table_char [OF sext_less_64(4), of c]
  by (simp_all add: sext1_def [of a] sext2_def [of a] sext3_def [of b] sext4_def [of c])

lemmas table_simps = table_lookups [simplified] table_lookups b64_char_not_0

lemma bcpy_spec: "bcpy p = (b64_spec p, length (b64_spec p))"
proof (induction p rule: b64_spec.induct)
  case 1
  then show ?case by (simp add: bcpy.simps)
next
  case (2 a)
  then show ?case
    by (subst bcpy.simps) (simp add: bcpy.simps [of "[]"] table_simps)
next
  case (3 a b)
  then show ?case
    by (subst bcpy.simps) (simp add: bcpy.simps [of "[]"] table_simps)
next
  case (4 a b c r)
  then show ?case
    by (subst bcpy.simps) (simp add: table_simps)
qed

section \<open>Properties\<close>

text \<open>A caller's view: a buffer of exactly the size the routine needs.\<close>

definition b64_encode_bytes :: "bytes \<Rightarrow> bytes" where
  "b64_encode_bytes p =
     (case mg_base64_encode p (replicate (4 * ((length p + 2) div 3) + 1) 0) of
        Some (to, n) \<Rightarrow> take n to | None \<Rightarrow> [])"

definition b64_decode_bytes :: "bytes \<Rightarrow> bytes option" where
  "b64_decode_bytes src = do {
     (dst, n) \<leftarrow> mg_base64_decode src (replicate (3 * (length src div 4) + 1) 0);
     Some (take n dst) }"

lemma b64_encode_bytes_spec: "length (b64_spec p) < 2 ^ 31 \<Longrightarrow> b64_encode_bytes p = b64_spec p"
  using mg_base64_encode_spec [of p "replicate (4 * ((length p + 2) div 3) + 1) 0"]
  by (auto simp: b64_encode_bytes_def length_b64_spec)

lemma b64_decode_spec:
  assumes "length p < length dst" "length (b64_spec p) < 2 ^ 31"
  shows "\<exists>dst'. mg_base64_decode (b64_spec p) dst = Some (dst', length p) \<and> take (length p) dst' = p"
  using decode_at [of 0 p dst] assms length_le_b64 [of p] by (auto simp: mg_base64_decode_def encoded_at_def nat31_def)

interpretation b64: codec b64_encode_bytes b64_decode_bytes "\<lambda>p. length (b64_spec p) < 2 ^ 31"
proof
  fix p :: bytes assume n: "length (b64_spec p) < 2 ^ 31"
  have "length p < length (replicate (3 * (length (b64_spec p) div 4) + 1) (0 :: u8))"
    by (simp add: length_b64_spec)
  from b64_decode_spec [OF this n] show "b64_decode_bytes (b64_encode_bytes p) = Some p"
    using n by (auto simp: b64_decode_bytes_def b64_encode_bytes_spec)
qed

text \<open>
  C34.  Base64 round trip with memory safety.  When the encoded length 4 * ceil(n / 3) fits the type
  \<open>int\<close>, \<open>mg_base64_encode\<close> writes inside any buffer of more than that many bytes, no index
  overflows, it returns exactly that length and terminates the text with a zero, and
  \<open>mg_base64_decode\<close> of the text it wrote gives back the input in any buffer of more than \<open>n\<close> bytes.
\<close>

theorem base64_roundtrip:
  assumes "4 * ((length p + 2) div 3) < 2 ^ 31" and "4 * ((length p + 2) div 3) < length to"
    and "length p < length dst"
  shows "\<exists>to' dst'. mg_base64_encode p to = Some (to', 4 * ((length p + 2) div 3)) \<and>
           length to' = length to \<and> to' ! (4 * ((length p + 2) div 3)) = 0 \<and>
           mg_base64_decode (take (4 * ((length p + 2) div 3)) to') dst = Some (dst', length p) \<and>
           take (length p) dst' = p"
  using mg_base64_encode_spec [of p to] b64_decode_spec [of p dst] assms
  by (auto simp: length_b64_spec)

theorem base64_roundtrip_witness:
  "\<exists>to' dst'. mg_base64_encode [77, 97] (replicate 5 0) = Some (to', 4) \<and>
     mg_base64_decode (take 4 to') (replicate 3 0) = Some (dst', 2) \<and> take 2 dst' = [77, 97]"
  using base64_roundtrip [of "[77, 97]" "replicate 5 0" "replicate 3 0"] by (auto simp flip: numeral_2_eq_2)

text \<open>
  The exact buffer requirement of \<open>mg_base64_decode\<close>: a destination is large enough for
  every text of \<open>n\<close> characters (\<open>n\<close> an \<open>int\<close>), valid or not, if and only if it has more than 3 * (n / 4) bytes.
  (So decoding an HTTP header of arbitrary length into a fixed \<open>buf[256]\<close> is out of bounds.)
\<close>

theorem base64_decode_buffer:
  assumes "n < 2 ^ 31"
  shows "(\<forall>src. length src = n \<longrightarrow> mg_base64_decode src dst \<noteq> None) \<longleftrightarrow> 3 * (n div 4) < length dst"
proof
  assume *: "\<forall>src. length src = n \<longrightarrow> mg_base64_decode src dst \<noteq> None"
  show "3 * (n div 4) < length dst"
  proof (rule ccontr)
    assume "\<not> 3 * (n div 4) < length dst"
    then have "mg_base64_decode (replicate (4 * (n div 4)) 65 @ replicate (n mod 4) 0) dst = None"
      by (cases "nat31 (length (replicate (4 * (n div 4)) (65 :: u8) @ replicate (n mod 4) 0))")
        (simp_all add: mg_base64_decode_def decode_overflow_tail)
    moreover have "length (replicate (4 * (n div 4)) (65 :: u8) @ replicate (n mod 4) 0) = n" by simp
    ultimately show False using * by blast
  qed
next
  assume "3 * (n div 4) < length dst"
  then show "\<forall>src. length src = n \<longrightarrow> mg_base64_decode src dst \<noteq> None"
    using decode_loop_safe [of 0 _ dst] assms by (force simp: mg_base64_decode_def nat31_def)
qed

theorem base64_decode_buffer_witness:
  "mg_base64_decode (replicate 8 65) (replicate 7 0) \<noteq> None \<and>
   \<not> (\<forall>src. length src = 344 \<longrightarrow> mg_base64_decode src (replicate 256 0) \<noteq> None)"
  using base64_decode_buffer [of 8 "replicate 7 0"] base64_decode_buffer [of 344 "replicate 256 0"] by auto

text \<open>
  The printer behind the \<open>%M\<close> format of base64 sends exactly the characters that the
  incremental encoder stores: the two independently written encoders agree on every input.
\<close>

theorem base64_printer_eq_encoder:
  assumes "4 * ((length p + 2) div 3) < 2 ^ 31"
  shows "bcpy p = (b64_encode_bytes p, length (b64_encode_bytes p))"
  using assms by (simp add: bcpy_spec b64_encode_bytes_spec length_b64_spec)

end
