(* ===== verification/Mg_Url.thy ===== *)
theory Mg_Url
  imports Prelude
begin

text \<open>
  \<open>src/url.c\<close>: splitting a URL into scheme, user, password, host, port and path.  A URL is the
  bytes of a zero-terminated string, without the zero; the parser records offsets, with 0 for
  "not seen", and the accessors subtract them as \<open>size_t\<close>, that is modulo 2 ^ 64.
\<close>

section \<open>The code\<close>

record url =
  user :: nat
  pass :: nat
  host :: nat
  port :: nat
  uri :: nat

definition url_step :: "bytes \<Rightarrow> url \<Rightarrow> nat \<Rightarrow> url" where
  "url_step s u i =
     (let c = s ! i in
      if c = 47 \<and> i > 0 \<and> host u = 0 \<and> s ! (i - 1) = 47 then u\<lparr>host := i + 1, port := 0\<rparr>
      else if c = 93 then u\<lparr>port := 0\<rparr>
      else if c = 58 \<and> port u = 0 \<and> uri u = 0 then u\<lparr>port := i + 1\<rparr>
      else if c = 64 \<and> user u = 0 \<and> pass u = 0 \<and> uri u = 0 then
        u\<lparr>user := host u, pass := port u, host := i + 1, port := 0\<rparr>
      else if c = 47 \<and> host u \<noteq> 0 \<and> uri u = 0 then u\<lparr>uri := i\<rparr>
      else u)"

text \<open>\<open>u.end\<close> is the length of the string.\<close>

definition urlparse :: "bytes \<Rightarrow> url" where
  "urlparse s = foldl (url_step s) \<lparr>user = 0, pass = 0, host = 0, port = 0, uri = 0\<rparr> [0..<length s]"

definition size_sub :: "nat \<Rightarrow> nat \<Rightarrow> nat" where
  "size_sub a b = unat (of_nat a - of_nat b :: u64)"

text \<open>A \<open>struct mg_str\<close> into the URL: offset and length.\<close>

definition mg_url_host :: "bytes \<Rightarrow> nat \<times> nat" where
  "mg_url_host s =
     (let u = urlparse s;
          n = (if port u \<noteq> 0 then size_sub (port u) (host u + 1)
               else if uri u \<noteq> 0 then size_sub (uri u) (host u)
               else size_sub (length s) (host u))
      in (host u, n))"

definition mg_url_uri :: "bytes \<Rightarrow> bytes" where
  "mg_url_uri s = (let u = urlparse s in if uri u \<noteq> 0 then drop (uri u) s else bs ''/'')"

text \<open>\<open>atoi\<close> on digits after blanks and a sign; a value outside \<open>int\<close> is undefined (\<open>None\<close>).\<close>

definition atoi :: "bytes \<Rightarrow> int option" where
  "atoi s =
     (let s = dropWhile (\<lambda>c. c = 32 \<or> 9 \<le> c \<and> c \<le> 13) s;
          (neg, s) = (case s of c # t \<Rightarrow> if c = 45 then (True, t) else if c = 43 then (False, t) else (False, s)
                      | [] \<Rightarrow> (False, s));
          v = int (digits_val (takeWhile is_digit s))
      in int32 (if neg then - v else v))"

definition has_prefix :: "string \<Rightarrow> bytes \<Rightarrow> bool" where
  "has_prefix p s \<longleftrightarrow> take (length p) s = bs p"

definition mg_url_is_ssl :: "bytes \<Rightarrow> bool" where
  "mg_url_is_ssl s \<longleftrightarrow> has_prefix ''wss:'' s \<or> has_prefix ''https:'' s \<or> has_prefix ''mqtts:'' s \<or>
     has_prefix ''ssl:'' s \<or> has_prefix ''tls:'' s"

definition mg_url_port :: "bytes \<Rightarrow> u16 option" where
  "mg_url_port s =
     (let u = urlparse s;
          p = (0 :: u16);
          p = (if has_prefix ''http:'' s \<or> has_prefix ''ws:'' s then 80 else p);
          p = (if has_prefix ''wss:'' s \<or> has_prefix ''https:'' s then 443 else p);
          p = (if has_prefix ''mqtt:'' s then 1883 else p);
          p = (if has_prefix ''mqtts:'' s then 8883 else p)
      in if port u \<noteq> 0 then map_option word_of_int (atoi (drop (port u) s)) else Some p)"

text \<open>\<open>None\<close> stands for the empty literal.\<close>

definition mg_url_user :: "bytes \<Rightarrow> (nat \<times> nat) option" where
  "mg_url_user s =
     (let u = urlparse s in
      if user u \<noteq> 0 \<and> (pass u \<noteq> 0 \<or> host u \<noteq> 0) then
        Some (user u, if pass u \<noteq> 0 then size_sub (pass u) (user u + 1) else size_sub (host u) (user u + 1))
      else None)"

definition mg_url_pass :: "bytes \<Rightarrow> (nat \<times> nat) option" where
  "mg_url_pass s =
     (let u = urlparse s in
      if pass u \<noteq> 0 \<and> host u \<noteq> 0 then Some (pass u, size_sub (host u) (pass u + 1)) else None)"

section \<open>URLs by their parts\<close>

record url_parts =
  p_scheme :: bytes
  p_login :: "(bytes \<times> bytes) option"
  p_host :: bytes
  p_port :: "nat option"
  p_path :: bytes

definition login_bytes :: "(bytes \<times> bytes) option \<Rightarrow> bytes" where
  "login_bytes l = (case l of None \<Rightarrow> [] | Some (us, pw) \<Rightarrow> us @ 58 # pw @ [64])"

definition port_bytes :: "nat option \<Rightarrow> bytes" where
  "port_bytes p = (case p of None \<Rightarrow> [] | Some n \<Rightarrow> 58 # dec_of n)"

definition url_bytes :: "url_parts \<Rightarrow> bytes" where
  "url_bytes p = p_scheme p @ [58, 47, 47] @ login_bytes (p_login p) @ p_host p @
     port_bytes (p_port p) @ p_path p"

definition plain :: "bytes \<Rightarrow> bool" where
  "plain s \<longleftrightarrow> (\<forall>c \<in> set s. c \<noteq> 47 \<and> c \<noteq> 58 \<and> c \<noteq> 64 \<and> c \<noteq> 93)"

definition parts_ok :: "url_parts \<Rightarrow> bool" where
  "parts_ok p \<longleftrightarrow> plain (p_scheme p) \<and> plain (p_host p) \<and>
     (case p_login p of None \<Rightarrow> True | Some (us, pw) \<Rightarrow> plain us \<and> plain pw) \<and>
     (p_path p = [] \<or> hd (p_path p) = 47) \<and> 93 \<notin> set (p_path p) \<and> length (url_bytes p) < 2 ^ 64"

text \<open>The parser run from an offset, so that a URL can be consumed part by part.\<close>

definition parse_from :: "bytes \<Rightarrow> bytes \<Rightarrow> url \<Rightarrow> url" where
  "parse_from pre rest u = foldl (url_step (pre @ rest)) u [length pre..<length pre + length rest]"

lemma parse_from_nil [simp]: "parse_from pre [] u = u"
  by (simp add: parse_from_def)

definition url_char :: "bytes \<Rightarrow> u8 \<Rightarrow> url \<Rightarrow> url" where
  "url_char pre c u =
     (if c = 47 \<and> pre \<noteq> [] \<and> host u = 0 \<and> last pre = 47 then u\<lparr>host := length pre + 1, port := 0\<rparr>
      else if c = 93 then u\<lparr>port := 0\<rparr>
      else if c = 58 \<and> port u = 0 \<and> uri u = 0 then u\<lparr>port := length pre + 1\<rparr>
      else if c = 64 \<and> user u = 0 \<and> pass u = 0 \<and> uri u = 0 then
        u\<lparr>user := host u, pass := port u, host := length pre + 1, port := 0\<rparr>
      else if c = 47 \<and> host u \<noteq> 0 \<and> uri u = 0 then u\<lparr>uri := length pre\<rparr>
      else u)"

lemma url_step_at: "url_step (pre @ c # r) u (length pre) = url_char pre c u"
  by (cases "pre = []") (simp_all add: url_step_def url_char_def nth_append last_conv_nth)

lemma parse_from_Cons: "parse_from pre (c # r) u = parse_from (pre @ [c]) r (url_char pre c u)"
proof -
  have "[length pre..<length pre + length (c # r)] =
      length pre # [length (pre @ [c])..<length (pre @ [c]) + length r]"
    by (subst upt_conv_Cons) simp_all
  then show ?thesis
    by (simp only: parse_from_def foldl.simps url_step_at append_assoc append_Cons append_Nil)
qed

lemma parse_plain: "plain x \<Longrightarrow> parse_from pre (x @ r) u = parse_from (pre @ x) r u"
proof (induction x arbitrary: pre)
  case (Cons c x)
  then have c: "c \<noteq> 47" "c \<noteq> 58" "c \<noteq> 64" "c \<noteq> 93" "plain x" by (auto simp: plain_def)
  then show ?case using Cons.IH [of "pre @ [c]"] by (simp add: parse_from_Cons url_char_def)
qed simp

lemma parse_path:
  "93 \<notin> set x \<Longrightarrow> host u \<noteq> 0 \<Longrightarrow> uri u \<noteq> 0 \<Longrightarrow> parse_from pre x u = u"
proof (induction x arbitrary: pre)
  case (Cons c x)
  then show ?case by (simp add: parse_from_Cons url_char_def)
qed simp

lemma plain_dec: "plain (dec_of n)"
  using dec_of_props [of n] by (auto simp: plain_def is_digit_def)

lemma parse_authority:
  assumes "plain h" "host u \<noteq> 0" "port u = 0" "uri u = 0" "path = [] \<or> hd path = 47" "93 \<notin> set path" "pre \<noteq> []"
  shows "parse_from pre (h @ port_bytes p @ path) u =
     u\<lparr>port := (case p of None \<Rightarrow> 0 | Some n \<Rightarrow> length (pre @ h) + 1),
       uri := (if path = [] then 0 else length (pre @ h @ port_bytes p))\<rparr>"
proof -
  have tail: "parse_from q path v = (if path = [] then v else v\<lparr>uri := length q\<rparr>)"
    if "host v \<noteq> 0" "uri v = 0" "q \<noteq> []" for q v
  proof (cases path)
    case (Cons c r)
    then have "c = 47" "93 \<notin> set r" using assms(5,6) by auto
    with that Cons show ?thesis by (simp add: parse_from_Cons url_char_def parse_path)
  qed simp
  show ?thesis
  proof (cases p)
    case None
    then show ?thesis using assms tail [of u "pre @ h"] by (simp add: parse_plain port_bytes_def)
  next
    case (Some n)
    have "parse_from pre (h @ port_bytes p @ path) u =
        parse_from (pre @ h @ 58 # dec_of n) path (u\<lparr>port := length (pre @ h) + 1\<rparr>)"
      using assms Some by (simp add: parse_plain [OF assms(1)] port_bytes_def parse_from_Cons url_char_def
          parse_plain [OF plain_dec])
    then show ?thesis
      using tail [of "u\<lparr>port := length (pre @ h) + 1\<rparr>" "pre @ h @ 58 # dec_of n"] assms Some
      by (simp add: port_bytes_def)
  qed
qed

lemma urlparse_parts:
  assumes "parts_ok p"
  shows "urlparse (url_bytes p) =
    (let sc = length (p_scheme p) + 3;
         h = sc + length (login_bytes (p_login p));
         pt = h + length (p_host p)
     in \<lparr>user = (case p_login p of None \<Rightarrow> 0 | Some _ \<Rightarrow> sc),
         pass = (case p_login p of None \<Rightarrow> 0 | Some (us, pw) \<Rightarrow> sc + length us + 1),
         host = h, port = (case p_port p of None \<Rightarrow> 0 | Some n \<Rightarrow> pt + 1),
         uri = (if p_path p = [] then 0 else pt + length (port_bytes (p_port p)))\<rparr>)"
proof -
  let ?s = "p_scheme p" and ?sc = "length (p_scheme p) + 3"
  let ?rest = "p_host p @ port_bytes (p_port p) @ p_path p"
  have a: "plain ?s" "plain (p_host p)" "p_path p = [] \<or> hd (p_path p) = 47" "93 \<notin> set (p_path p)"
    using assms by (auto simp: parts_ok_def)
  have "urlparse (url_bytes p) = parse_from [] (url_bytes p) \<lparr>user = 0, pass = 0, host = 0, port = 0, uri = 0\<rparr>"
    by (simp add: urlparse_def parse_from_def)
  also have "\<dots> = parse_from (?s @ [58, 47, 47]) (login_bytes (p_login p) @ ?rest)
      \<lparr>user = 0, pass = 0, host = ?sc, port = 0, uri = 0\<rparr>"
    by (simp add: url_bytes_def parse_plain [OF a(1)] parse_from_Cons url_char_def numeral_3_eq_3)
  finally have 1: "urlparse (url_bytes p) = parse_from (?s @ [58, 47, 47]) (login_bytes (p_login p) @ ?rest)
      \<lparr>user = 0, pass = 0, host = ?sc, port = 0, uri = 0\<rparr>" .
  show ?thesis
  proof (cases "p_login p")
    case None
    then show ?thesis unfolding 1
      by (cases "p_port p") (simp_all add: login_bytes_def parse_authority [OF a(2) _ _ _ a(3,4)] Let_def)
  next
    case (Some l)
    obtain us pw where l: "l = (us, pw)" by (cases l)
    have "plain us" "plain pw" using assms Some l by (auto simp: parts_ok_def)
    then show ?thesis unfolding 1
      by (cases "p_port p") (simp_all add: login_bytes_def Some l parse_plain parse_from_Cons url_char_def
          parse_authority [OF a(2) _ _ _ a(3,4)] Let_def)
  qed
qed

lemma size_sub_exact: "b \<le> a \<Longrightarrow> a < 2 ^ 64 \<Longrightarrow> size_sub a b = a - b"
  by (simp add: size_sub_def unat_sub_if' unat_of_nat take_bit_nat_eq_self)

lemma atoi_dec: "r = [] \<or> \<not> is_digit (hd r) \<Longrightarrow> n < 2 ^ 31 \<Longrightarrow> atoi (dec_of n @ r) = Some (int n)"
proof -
  assume n: "n < 2 ^ 31" and r: "r = [] \<or> \<not> is_digit (hd r)"
  obtain c t where ct: "dec_of n = c # t" using dec_of_props [of n] by (cases "dec_of n") auto
  with dec_of_props [of n] have "is_digit c" by simp
  then have c: "c \<noteq> 32" "\<not> (9 \<le> c \<and> c \<le> 13)" "c \<noteq> 45" "c \<noteq> 43"
    by (auto simp: is_digit_def word_le_nat_alt)
  have "takeWhile is_digit (dec_of n @ r) = dec_of n"
    using r takeWhile_digits(1) [of "hd r" n "tl r"] takeWhile_digits(2) [of n] by (cases r) auto
  then have "takeWhile is_digit (c # t @ r) = dec_of n" by (simp add: ct)
  then show ?thesis using c n dec_of_props [of n] by (auto simp: atoi_def ct Let_def)
qed

lemma url_login_read:
  assumes "parts_ok p"
  shows "map_option (\<lambda>(o', n). span (url_bytes p) o' n) (mg_url_user (url_bytes p)) = map_option fst (p_login p) \<and>
    map_option (\<lambda>(o', n). span (url_bytes p) o' n) (mg_url_pass (url_bytes p)) = map_option snd (p_login p)"
proof (cases "p_login p")
  note u = urlparse_parts [OF assms, unfolded Let_def]
  case None
  then show ?thesis by (simp add: mg_url_user_def mg_url_pass_def u Let_def)
next
  note u = urlparse_parts [OF assms, unfolded Let_def]
  case (Some l)
  let ?s = "url_bytes p"
  obtain us pw where l: "l = (us, pw)" by (cases l)
  let ?b = "p_scheme p @ [58, 47, 47]" and ?r = "p_host p @ port_bytes (p_port p) @ p_path p"
  have 1: "?s = ?b @ us @ (58 # pw @ 64 # ?r)" "?s = (?b @ us @ [58]) @ pw @ (64 # ?r)"
    by (simp_all add: url_bytes_def Some l login_bytes_def)
  have "span ?s (length ?b) (length us) = us" "span ?s (length (?b @ us @ [58])) (length pw) = pw"
    using span_mid [of ?b us] span_mid [of "?b @ us @ [58]" pw] 1 by metis+
  moreover have "length ?s < 2 ^ 64" "length ?s = length ?b + length us + 1 + length pw + 1 + length ?r"
    using assms 1(1) by (simp_all add: parts_ok_def)
  then have "mg_url_user ?s = Some (length ?b, length us)" "mg_url_pass ?s = Some (length (?b @ us @ [58]), length pw)"
    using Some l by (simp_all add: mg_url_user_def mg_url_pass_def u Let_def size_sub_exact login_bytes_def)
  ultimately show ?thesis using Some l by simp
qed

text \<open>
  C35.  Taking a URL apart inverts putting it together: for every URL
  \<open>scheme://[user:password@]host[:port][path]\<close> whose parts are free of the delimiters (and whose
  path has no \<open>]\<close>), the accessors return the host, the path (\<open>/\<close> when it is empty), the login
  and, for a port number that fits the type \<open>int\<close>, this number modulo 2 ^ 16, with no length
  underflow.  (Beyond \<open>int\<close> the result of \<open>atoi\<close> is undefined, and so is that of \<open>mg_url_port\<close>.)
\<close>

theorem url_roundtrip:
  assumes "parts_ok p"
  shows "(let (o', n) = mg_url_host (url_bytes p) in span (url_bytes p) o' n = p_host p) \<and>
    mg_url_uri (url_bytes p) = (if p_path p = [] then bs ''/'' else p_path p) \<and>
    map_option (\<lambda>(o', n). span (url_bytes p) o' n) (mg_url_user (url_bytes p)) = map_option fst (p_login p) \<and>
    map_option (\<lambda>(o', n). span (url_bytes p) o' n) (mg_url_pass (url_bytes p)) = map_option snd (p_login p) \<and>
    (\<forall>k. p_port p = Some k \<and> k < 2 ^ 31 \<longrightarrow> mg_url_port (url_bytes p) = Some (word_of_nat k))"
proof (intro conjI allI impI)
  note u = urlparse_parts [OF assms, unfolded Let_def]
  let ?s = "url_bytes p"
  let ?a = "p_scheme p @ [58, 47, 47] @ login_bytes (p_login p)"
  have len: "length ?s < 2 ^ 64" using assms by (simp add: parts_ok_def)
  have s: "?s = ?a @ p_host p @ port_bytes (p_port p) @ p_path p" by (simp add: url_bytes_def)
  have ls: "length ?s = length ?a + length (p_host p) + length (port_bytes (p_port p)) + length (p_path p)"
    by (simp add: s)
  have pb: "p_port p = None \<Longrightarrow> port_bytes (p_port p) = []"
    "p_port p \<noteq> None \<Longrightarrow> 0 < length (port_bytes (p_port p))" by (auto simp: port_bytes_def)
  have "p_port p \<noteq> None \<Longrightarrow> length ?a + length (p_host p) + 1 < 2 ^ 64"
    using pb(2) len ls by linarith
  then have "mg_url_host ?s = (length ?a, length (p_host p))"
    using len ls pb(1) by (cases "p_port p") (auto simp: mg_url_host_def u Let_def size_sub_exact)
  moreover have "span ?s (length ?a) (length (p_host p)) = p_host p"
    unfolding s by (rule span_mid)
  ultimately show "let (o', n) = mg_url_host ?s in span ?s o' n = p_host p"
    by (simp only: prod.case Let_def)
  have "drop (length ?a + length (p_host p) + length (port_bytes (p_port p))) ?s = p_path p"
    by (simp add: s numeral_3_eq_3)
  then show "mg_url_uri ?s = (if p_path p = [] then bs ''/'' else p_path p)"
    by (auto simp: mg_url_uri_def u Let_def numeral_3_eq_3)
  show "map_option (\<lambda>(o', n). span ?s o' n) (mg_url_user ?s) = map_option fst (p_login p)"
    "map_option (\<lambda>(o', n). span ?s o' n) (mg_url_pass ?s) = map_option snd (p_login p)"
    using url_login_read [OF assms] by auto
  fix k assume "p_port p = Some k \<and> k < 2 ^ 31"
  then have k: "p_port p = Some k" "k < 2 ^ 31" by simp_all
  have "p_path p = [] \<or> \<not> is_digit (hd (p_path p))"
    using assms by (auto simp: parts_ok_def is_digit_def)
  moreover have "?s = (?a @ p_host p @ [58]) @ dec_of k @ p_path p"
    by (simp add: s k(1) port_bytes_def)
  then have "drop (length (?a @ p_host p @ [58])) ?s = dec_of k @ p_path p"
    by (metis append_eq_conv_conj)
  ultimately have "atoi (drop (length (?a @ p_host p @ [58])) ?s) = Some (int k)"
    using atoi_dec k(2) by simp
  then show "mg_url_port ?s = Some (word_of_nat k)"
    by (simp add: mg_url_port_def u Let_def k(1) numeral_3_eq_3 add.assoc)
qed

definition sample_url :: url_parts where
  "sample_url = \<lparr>p_scheme = bs ''rtsp'', p_login = Some (bs ''admin'', bs ''pw''), p_host = bs ''cam'',
     p_port = Some 554, p_path = bs ''/ch1''\<rparr>"

theorem url_roundtrip_witness:
  "url_bytes sample_url = bs ''rtsp://admin:pw@cam:554/ch1'' \<and>
   mg_url_port (bs ''rtsp://admin:pw@cam:554/ch1'') = Some 554 \<and>
   mg_url_uri (bs ''rtsp://admin:pw@cam:554/ch1'') = bs ''/ch1''"
proof -
  have d: "dec_of 554 = bs ''554''" by (simp add: dec_of.simps digit_char_def)
  have b: "url_bytes sample_url = bs ''rtsp://admin:pw@cam:554/ch1''"
    by (simp add: url_bytes_def sample_url_def login_bytes_def port_bytes_def d)
  then have "parts_ok sample_url" by (simp add: parts_ok_def sample_url_def plain_def)
  from url_roundtrip [OF this] show ?thesis unfolding b [symmetric]
    by (simp add: sample_url_def)
qed

text \<open>A closing bracket anywhere, also in the path, makes the parser forget the port.\<close>

lemma url_bracket_in_path: "mg_url_host (bs ''http://h:80/a]'') = (7, 4)"
  by code_simp

end
