(* ===== verification/Mg_Dns.thy ===== *)
theory Mg_Dns
  imports Mg_Addr_Texts Mg_Url
begin

text \<open>
  Name resolution (\<open>src/mongoose.c\<close>, \<open>dns.c\<close>): the parser of replies, the packet of a query, and the list of
  requests under way.  A packet is a list of exactly the bytes received.  A connection is what the resolver
  reads and writes of it; opening the connection to a server, connecting to a resolved address and the random
  part of the outside world are left to the caller as events in a log.
\<close>

section \<open>Replies\<close>

record mg_dns_rr =
  rr_nlen :: u16
  rr_atype :: u16
  rr_aclass :: u16
  rr_alen :: u16

record mg_dns_message =
  dm_txnid :: u16
  dm_resolved :: bool
  dm_addr :: mg_addr
  dm_name :: bytes

definition no_rr :: mg_dns_rr where
  "no_rr = \<lparr>rr_nlen = 0, rr_atype = 0, rr_aclass = 0, rr_alen = 0\<rparr>"

definition no_message :: mg_dns_message where
  "no_message = \<lparr>dm_txnid = 0, dm_resolved = False,
     dm_addr = \<lparr>ad_ip = replicate 16 0, ad_port = 0, ad_is_ip6 = False\<rparr>, dm_name = replicate 256 0\<rparr>"

text \<open>\<open>sizeof(struct mg_dns_header)\<close>, and two bytes as a number in network order.\<close>

definition dns_header_size :: nat where "dns_header_size = 12"

definition net16 :: "bytes \<Rightarrow> nat \<Rightarrow> u16 option" where
  "net16 b i = do { x \<leftarrow> rd b i; y \<leftarrow> rd b (i + 1); Some (push_bit 8 (ucast x) OR ucast y) }"

text \<open>One label, copied behind the name so far: the characters, the position and the dot between.\<close>

definition dns_copy_label :: "bytes \<Rightarrow> nat \<Rightarrow> nat \<Rightarrow> bytes \<Rightarrow> nat \<Rightarrow> nat \<Rightarrow> (bytes \<times> nat) option" where
  "dns_copy_label s p n to tolen j = do {
     (to, j) \<leftarrow> (if j > 0 then do { to \<leftarrow> (if j < tolen then wr to j 46 else Some to); Some (to, j + 1) }
                else Some (to, j));
     to \<leftarrow> (if j + n < tolen then do { l \<leftarrow> slice s p n; blit to j l } else Some to);
     let j = j + n;
     to \<leftarrow> (if j < tolen then wr to j 0 else Some to);
     Some (to, j) }"

definition dns_name_end :: "nat \<Rightarrow> bytes \<Rightarrow> nat \<Rightarrow> (nat \<times> bytes) option" where
  "dns_name_end i to tolen = do {
     to \<leftarrow> (if tolen > 0 then wr to (tolen - 1) 0 else Some to);
     Some (i, to) }"

text \<open>
  The loop of \<open>mg_dns_parse_name_depth\<close> from \<open>i\<close> on.  A pointer continues in a call of the function itself at the next
  depth, which begins with the test of the depth; the first byte of \<open>to\<close> is only cleared at depth 0.
\<close>

function dns_name_loop :: "bytes \<Rightarrow> nat \<Rightarrow> nat \<Rightarrow> bytes \<Rightarrow> nat \<Rightarrow> nat \<Rightarrow> nat \<Rightarrow> (nat \<times> bytes) option" where
  "dns_name_loop s ofs i to tolen j depth =
     (if ofs + i + 1 < length s then
        let n = s ! (ofs + i) in
        if n = 0 then dns_name_end (i + 1) to tolen
        else if n AND 0xc0 \<noteq> 0 then
          let ptr = unat (push_bit 8 (ucast (n AND 0x3f)) OR ucast (s ! (ofs + i + 1)) :: u16) in
          if ptr + 1 < length s \<and> (s ! ptr) AND 0xc0 = 0 then do {
            (r, to) \<leftarrow> (if depth + 1 > 5 then Some (0, to) else dns_name_loop s ptr 0 to tolen j (depth + 1));
            if r = 0 then Some (0, to) else dns_name_end (i + 2) to tolen }
          else dns_name_end (i + 2) to tolen
        else if ofs + i + unat n + 1 \<ge> length s then Some (0, to)
        else do {
          (to, j) \<leftarrow> dns_copy_label s (ofs + i + 1) (unat n) to tolen j;
          dns_name_loop s ofs (i + unat n + 1) to tolen j depth }
      else dns_name_end i to tolen)"
  by pat_completeness auto
termination by (relation "measures [\<lambda>(s, ofs, i, to, tolen, j, d). 6 - d, \<lambda>(s, ofs, i, to, tolen, j, d). length s - (ofs + i)]") auto

declare dns_name_loop.simps [simp del]

definition mg_dns_parse_name_depth :: "bytes \<Rightarrow> nat \<Rightarrow> bytes \<Rightarrow> nat \<Rightarrow> nat \<Rightarrow> nat \<Rightarrow> (nat \<times> bytes) option" where
  "mg_dns_parse_name_depth s ofs to tolen j depth = do {
     to \<leftarrow> (if tolen > 0 \<and> depth = 0 then wr to 0 0 else Some to);
     if depth > 5 then Some (0, to) else dns_name_loop s ofs 0 to tolen j depth }"

definition mg_dns_parse_name :: "bytes \<Rightarrow> nat \<Rightarrow> bytes \<Rightarrow> nat \<Rightarrow> (nat \<times> bytes) option" where
  "mg_dns_parse_name s ofs dst dstlen = mg_dns_parse_name_depth s ofs dst dstlen 0 0"

definition mg_dns_parse_rr :: "bytes \<Rightarrow> nat \<Rightarrow> bool \<Rightarrow> (nat \<times> mg_dns_rr) option" where
  "mg_dns_parse_rr pkt ofs is_question =
     (if length pkt < dns_header_size then Some (0, no_rr)
      else if length pkt > 512 then Some (0, no_rr)
      else if ofs \<ge> length pkt then Some (0, no_rr)
      else do {
        (n, _) \<leftarrow> mg_dns_parse_name pkt ofs [] 0;
        let rr = no_rr\<lparr>rr_nlen := word_of_nat n\<rparr>;
        if rr_nlen rr = 0 then Some (0, rr)
        else do {
          let s = ofs + unat (rr_nlen rr) + 4;
          if s > length pkt then Some (0, rr)
          else do {
            t \<leftarrow> net16 pkt (s - 4);
            c \<leftarrow> net16 pkt (s - 2);
            let rr = rr\<lparr>rr_atype := t, rr_aclass := c\<rparr>;
            if is_question then Some (unat (rr_nlen rr) + 4, rr)
            else do {
              let s = s + 6;
              if s > length pkt then Some (0, rr)
              else do {
                a \<leftarrow> net16 pkt (s - 2);
                let rr = rr\<lparr>rr_alen := a\<rparr>;
                if s + unat a > length pkt then Some (0, rr)
                else Some (unat (rr_nlen rr) + unat a + 10, rr) } } } } })"

text \<open>The loops over questions and answers, \<open>k\<close> records to go; \<open>None\<close> inside is \<open>return false\<close>.\<close>

fun dns_questions :: "bytes \<Rightarrow> nat \<Rightarrow> nat \<Rightarrow> nat option option" where
  "dns_questions pkt 0 ofs = Some (Some ofs)"
| "dns_questions pkt (Suc k) ofs = do {
     (n, rr) \<leftarrow> mg_dns_parse_rr pkt ofs True;
     if n = 0 then Some None else dns_questions pkt k (ofs + n) }"

fun dns_answers :: "bytes \<Rightarrow> nat \<Rightarrow> nat \<Rightarrow> mg_dns_message \<Rightarrow> (bool \<times> mg_dns_message) option" where
  "dns_answers pkt 0 ofs dm = Some (True, dm)"
| "dns_answers pkt (Suc k) ofs dm = do {
     (n, rr) \<leftarrow> mg_dns_parse_rr pkt ofs False;
     if n = 0 then Some (False, dm)
     else do {
       (_, name) \<leftarrow> mg_dns_parse_name pkt ofs (dm_name dm) 256;
       let dm = dm\<lparr>dm_name := name\<rparr>;
       let ofs = ofs + n;
       if rr_alen rr = 4 \<and> rr_atype rr = 1 \<and> rr_aclass rr = 1 then do {
         a \<leftarrow> slice pkt (ofs - 4) 4;
         ip \<leftarrow> blit (ad_ip (dm_addr dm)) 0 a;
         Some (True, dm\<lparr>dm_addr := (dm_addr dm)\<lparr>ad_is_ip6 := False, ad_ip := ip\<rparr>, dm_resolved := True\<rparr>) }
       else if rr_alen rr = 16 \<and> rr_atype rr = 28 \<and> rr_aclass rr = 1 then do {
         a \<leftarrow> slice pkt (ofs - 16) 16;
         ip \<leftarrow> blit (ad_ip (dm_addr dm)) 0 a;
         Some (True, dm\<lparr>dm_addr := (dm_addr dm)\<lparr>ad_is_ip6 := True, ad_ip := ip\<rparr>, dm_resolved := True\<rparr>) }
       else dns_answers pkt k ofs dm } }"

definition mg_dns_parse :: "bytes \<Rightarrow> (bool \<times> mg_dns_message) option" where
  "mg_dns_parse pkt =
     (if length pkt < dns_header_size then Some (False, no_message)
      else do {
        nq \<leftarrow> net16 pkt 4;
        if nq > 1 then Some (False, no_message)
        else do {
          na \<leftarrow> net16 pkt 6;
          if na > 10 then Some (False, no_message)
          else do {
            id \<leftarrow> net16 pkt 0;
            let dm = no_message\<lparr>dm_txnid := id\<rparr>;
            q \<leftarrow> dns_questions pkt (unat nq) dns_header_size;
            case q of None \<Rightarrow> Some (False, dm) | Some ofs \<Rightarrow> dns_answers pkt (unat na) ofs dm } } })"

section \<open>Queries\<close>

text \<open>
  The loop of \<open>mg_dns_send\<close> over the name, the first \<open>l\<close> bytes of the memory \<open>m\<close>: \<open>name->ptr[i]\<close> is read before
  \<open>i\<close> is compared with the length.
\<close>

function dns_labels :: "bytes \<Rightarrow> nat \<Rightarrow> nat \<Rightarrow> nat \<Rightarrow> bytes \<Rightarrow> (nat \<times> bytes) option" where
  "dns_labels m l i n data =
     (if i < 256 - 5 then do {
        c \<leftarrow> rd m i;
        (n, data) \<leftarrow>
          (if c = 46 \<or> i \<ge> l then do {
             data \<leftarrow> wr data n (word_of_nat (i - n));
             label \<leftarrow> slice m n (i - n);
             data \<leftarrow> blit data (n + 1) label;
             Some (i + 1, data) }
           else Some (n, data));
        if i \<ge> l then Some (n, data) else dns_labels m l (i + 1) n data }
      else Some (n, data))"
  by pat_completeness auto
termination by (relation "measure (\<lambda>(m, l, i, n, data). 256 - i)") auto

declare dns_labels.simps [simp del]

text \<open>The bytes handed to \<open>mg_send\<close>.\<close>

definition mg_dns_send :: "bytes \<Rightarrow> nat \<Rightarrow> u16 \<Rightarrow> bool \<Rightarrow> bytes option" where
  "mg_dns_send m l txnid ipv6 = do {
     let header = be16 txnid @ [1, 0] @ [0, 1] @ replicate 6 0;
     (n, data) \<leftarrow> dns_labels m l 0 0 (replicate 256 0);
     data \<leftarrow> blit data n [0, 0, 1, 0, 1];
     let n = n + 5;
     data \<leftarrow> (if ipv6 then wr data (n - 3) 0x1c else Some data);
     Some (header @ take n data) }"

end
