(* ===== verification/Mg_Dns_Packets.thy ===== *)
theory Mg_Dns_Packets
  imports Mg_Dns
begin

text \<open>
  What the parser and the writer of name-service packets do: no packet leads the parser out of its buffers, and the
  answer to a query that was sent is read back with its name and address.
\<close>

section \<open>Safety of the parser\<close>

text \<open>What the loop returns does not depend on the buffer for the name.\<close>

function name_length :: "bytes \<Rightarrow> nat \<Rightarrow> nat \<Rightarrow> nat \<Rightarrow> nat" where
  "name_length s ofs i depth =
     (if ofs + i + 1 < length s then
        let n = s ! (ofs + i) in
        if n = 0 then i + 1
        else if n AND 0xc0 \<noteq> 0 then
          let ptr = unat (push_bit 8 (ucast (n AND 0x3f)) OR ucast (s ! (ofs + i + 1)) :: u16) in
          if ptr + 1 < length s \<and> (s ! ptr) AND 0xc0 = 0 \<and>
             (if depth + 1 > 5 then True else name_length s ptr 0 (depth + 1) = 0) then 0
          else i + 2
        else if ofs + i + unat n + 1 \<ge> length s then 0
        else name_length s ofs (i + unat n + 1) depth
      else i)"
  by pat_completeness auto
termination by (relation "measures [\<lambda>(s, ofs, i, d). 6 - d, \<lambda>(s, ofs, i, d). length s - (ofs + i)]") auto

declare name_length.simps [simp del]

definition name_ok :: "nat \<Rightarrow> (nat \<times> bytes) option \<Rightarrow> nat \<Rightarrow> bool" where
  "name_ok r q tolen \<longleftrightarrow> (\<exists>to. q = Some (r, to) \<and> length to = tolen \<and> (0 < r \<and> 0 < tolen \<longrightarrow> to ! (tolen - 1) = 0))"

lemma name_ok_end: "length to = tolen \<Longrightarrow> name_ok i (dns_name_end i to tolen) tolen"
  by (cases "tolen = 0") (auto simp: dns_name_end_def name_ok_def)

lemma dns_copy_label_safe:
  assumes "length to = tolen" "p + n \<le> length s"
  shows "\<exists>to' j'. dns_copy_label s p n to tolen j = Some (to', j') \<and> length to' = tolen"
  using assms by (auto simp: dns_copy_label_def slice_def blit_def span_def)

lemma dns_name_loop_ok:
  "length to = tolen \<Longrightarrow> name_ok (name_length s ofs i depth) (dns_name_loop s ofs i to tolen j depth) tolen"
proof (induction s ofs i to tolen j depth rule: dns_name_loop.induct)
  case (1 s ofs i to tolen j depth)
  let ?n = "s ! (ofs + i)" and ?m = "s ! (ofs + i + 1)"
  let ?ptr = "unat (push_bit 8 (ucast (?n AND 0x3f)) OR ucast ?m :: u16)"
  note unfold = name_length.simps [of s ofs i depth] dns_name_loop.simps [of s ofs i to tolen j depth]
  consider (past) "\<not> ofs + i + 1 < length s" | (zero) "ofs + i + 1 < length s" "?n = 0"
    | (pointer) "ofs + i + 1 < length s" "?n \<noteq> 0" "?n AND 0xc0 \<noteq> 0"
    | (label) "ofs + i + 1 < length s" "?n \<noteq> 0" "?n AND 0xc0 = 0" by blast
  then show ?case
  proof cases
    case pointer
    show ?thesis
    proof (cases "?ptr + 1 < length s \<and> (s ! ?ptr) AND 0xc0 = 0 \<and> \<not> depth + 1 > 5")
      case True
      have "name_ok (name_length s ?ptr 0 (depth + 1)) (dns_name_loop s ?ptr 0 to tolen j (depth + 1)) tolen"
        using 1(1) pointer True 1(3) by (auto simp: Let_def)
      then obtain to' where "dns_name_loop s ?ptr 0 to tolen j (depth + 1) = Some (name_length s ?ptr 0 (depth + 1), to')"
          "length to' = tolen" by (auto simp: name_ok_def)
      then show ?thesis
        using pointer True name_ok_end [of to' tolen "i + 2"] unfolding unfold by (auto simp: Let_def name_ok_def)
    next
      case False
      then show ?thesis
        using pointer 1(3) name_ok_end [of to tolen "i + 2"] unfolding unfold by (auto simp: Let_def name_ok_def)
    qed
  next
    case label
    show ?thesis
    proof (cases "ofs + i + unat ?n + 1 \<ge> length s")
      case True
      then show ?thesis using label 1(3) unfolding unfold by (simp add: Let_def name_ok_def)
    next
      case False
      then obtain to' j' where c: "dns_copy_label s (ofs + i + 1) (unat ?n) to tolen j = Some (to', j')" "length to' = tolen"
        using dns_copy_label_safe [OF 1(3), of "ofs + i + 1" "unat ?n" s j] by auto
      then have "name_ok (name_length s ofs (i + unat ?n + 1) depth) (dns_name_loop s ofs (i + unat ?n + 1) to' tolen j' depth) tolen"
        using 1(2) label False by (auto simp: Let_def)
      then show ?thesis using label False c unfolding unfold by (simp add: Let_def)
    qed
  qed (use 1(3) name_ok_end in \<open>auto simp: unfold Let_def\<close>)
qed

lemma mg_dns_parse_name_ok:
  assumes "length to = tolen"
  shows "name_ok (name_length s ofs 0 0) (mg_dns_parse_name s ofs to tolen) tolen"
  using dns_name_loop_ok [of to tolen s ofs 0 0 0] dns_name_loop_ok [of "to[0 := 0]" tolen s ofs 0 0 0] assms
  by (cases "tolen = 0") (simp_all add: mg_dns_parse_name_def mg_dns_parse_name_depth_def)

lemma net16_safe: "i + 1 < length s \<Longrightarrow> \<exists>v. net16 s i = Some v"
  by (simp add: net16_def)

definition rr_ok :: "bytes \<Rightarrow> nat \<Rightarrow> (nat \<times> mg_dns_rr) option \<Rightarrow> bool" where
  "rr_ok pkt ofs q \<longleftrightarrow> (\<exists>n rr. q = Some (n, rr) \<and> (0 < n \<longrightarrow> ofs + n \<le> length pkt \<and> unat (rr_alen rr) \<le> n \<and>
     name_length pkt ofs 0 0 \<noteq> 0))"

lemma mg_dns_parse_rr_ok: "rr_ok pkt ofs (mg_dns_parse_rr pkt ofs q)"
proof -
  obtain t where n: "mg_dns_parse_name pkt ofs [] 0 = Some (name_length pkt ofs 0 0, t)"
    using mg_dns_parse_name_ok [of "[]" 0 pkt ofs] by (auto simp: name_ok_def)
  let ?l = "word_of_nat (name_length pkt ofs 0 0) :: u16"
  let ?s = "ofs + unat ?l + 4"
  have "\<exists>v. net16 pkt (?s - 4) = Some v" "\<exists>v. net16 pkt (?s - 2) = Some v" if "?s \<le> length pkt"
    using that by (auto intro!: net16_safe)
  moreover have "\<exists>v. net16 pkt (?s + 6 - 2) = Some v" if "?s + 6 \<le> length pkt"
    using that by (intro net16_safe) simp
  moreover have "?l \<noteq> 0 \<Longrightarrow> name_length pkt ofs 0 0 \<noteq> 0" by (cases "name_length pkt ofs 0 0 = 0") simp_all
  ultimately show ?thesis
    using n by (auto simp: mg_dns_parse_rr_def rr_ok_def no_rr_def Let_def)
qed

lemma dns_questions_ok: "\<exists>r. dns_questions pkt k ofs = Some r"
proof (induction k arbitrary: ofs)
  case (Suc k)
  obtain n rr where "mg_dns_parse_rr pkt ofs True = Some (n, rr)"
    using mg_dns_parse_rr_ok [of pkt ofs True] by (auto simp: rr_ok_def)
  then show ?case using Suc by auto
qed simp

definition message_ok :: "mg_dns_message \<Rightarrow> bool" where
  "message_ok dm \<longleftrightarrow> length (dm_name dm) = 256 \<and> dm_name dm ! 255 = 0 \<and> length (ad_ip (dm_addr dm)) = 16"

lemma dns_answers_ok:
  assumes "message_ok dm" "\<not> dm_resolved dm"
  shows "\<exists>ok dm'. dns_answers pkt k ofs dm = Some (ok, dm') \<and> message_ok dm' \<and> (dm_resolved dm' \<longrightarrow> ok)"
  using assms
proof (induction k arbitrary: ofs dm)
  case (Suc k)
  obtain n rr where r: "mg_dns_parse_rr pkt ofs False = Some (n, rr)"
      "0 < n \<Longrightarrow> ofs + n \<le> length pkt" "0 < n \<Longrightarrow> unat (rr_alen rr) \<le> n" "0 < n \<Longrightarrow> name_length pkt ofs 0 0 \<noteq> 0"
    using mg_dns_parse_rr_ok [of pkt ofs False] by (auto simp: rr_ok_def)
  show ?case
  proof (cases "n = 0")
    case True
    then show ?thesis using r(1) Suc.prems by (simp add: ex_bool_eq)
  next
    case False
    obtain name where nm: "mg_dns_parse_name pkt ofs (dm_name dm) 256 = Some (name_length pkt ofs 0 0, name)"
        "length name = 256" "name ! 255 = 0"
      using mg_dns_parse_name_ok [of "dm_name dm" 256 pkt ofs] Suc.prems(1) r(4) False
      by (auto simp: name_ok_def message_ok_def)
    let ?dm = "dm\<lparr>dm_name := name\<rparr>"
    have ok: "message_ok ?dm" "\<not> dm_resolved ?dm" using nm Suc.prems by (simp_all add: message_ok_def)
    have "\<exists>ip. blit (ad_ip (dm_addr dm)) 0 (span pkt (ofs + n - k') k') = Some ip \<and> length ip = 16"
      if "k' \<le> 16" for k' using that Suc.prems by (auto simp: message_ok_def blit_def span_def)
    from this [of 4] this [of 16] obtain ip4 ip16 where
        "blit (ad_ip (dm_addr dm)) 0 (span pkt (ofs + n - 4) 4) = Some ip4" "length ip4 = 16"
        "blit (ad_ip (dm_addr dm)) 0 (span pkt (ofs + n - 16) 16) = Some ip16" "length ip16 = 16" by auto
    moreover have "slice pkt (ofs + n - k') k' = Some (span pkt (ofs + n - k') k')" if "k' \<le> n" for k'
      using that r(2) False by (simp add: slice_def)
    ultimately show ?thesis
      using r(1,3) nm False Suc.IH [OF ok, of "ofs + n"] ok by (auto simp: Let_def message_ok_def)
  qed
qed (simp add: ex_bool_eq)

lemma mg_dns_parse_ok:
  "\<exists>ok dm. mg_dns_parse pkt = Some (ok, dm) \<and> message_ok dm \<and> (dm_resolved dm \<longrightarrow> ok)"
proof -
  have ok: "message_ok no_message" "\<not> dm_resolved no_message" by (simp_all add: message_ok_def no_message_def)
  have ok': "message_ok (no_message\<lparr>dm_txnid := v\<rparr>)" "\<not> dm_resolved (no_message\<lparr>dm_txnid := v\<rparr>)" for v
    by (simp_all add: message_ok_def no_message_def)
  show ?thesis
  proof (cases "length pkt < 12")
    case False
    then obtain a b c where n: "net16 pkt 4 = Some a" "net16 pkt 6 = Some b" "net16 pkt 0 = Some c"
      using net16_safe [of 4 pkt] net16_safe [of 6 pkt] net16_safe [of 0 pkt] by auto
    obtain q where "dns_questions pkt (unat a) 12 = Some q" using dns_questions_ok by blast
    then show ?thesis
      using n False ok ok' dns_answers_ok [OF ok', of pkt "unat b"] by (cases q) (auto simp: mg_dns_parse_def dns_header_size_def)
  qed (use ok in \<open>simp add: mg_dns_parse_def dns_header_size_def ex_bool_eq\<close>)
qed

text \<open>
  C13.  On every packet the parser of replies ends, reads only inside it, and writes only inside the name and the address:
  the name of the message is terminated, and an address is reported only when the result is true.  Pointers of names that
  go in circles are among the packets.
\<close>

theorem mg_dns_parse_safe:
  "\<exists>ok dm. mg_dns_parse pkt = Some (ok, dm) \<and> length (dm_name dm) = 256 \<and> 0 \<in> set (dm_name dm) \<and>
     length (ad_ip (dm_addr dm)) = 16 \<and> \<not> (dm_resolved dm \<and> \<not> ok)"
proof -
  obtain ok dm where "mg_dns_parse pkt = Some (ok, dm)" "message_ok dm" "dm_resolved dm \<longrightarrow> ok"
    using mg_dns_parse_ok [of pkt] by auto
  moreover have "length (dm_name dm) = 256 \<Longrightarrow> dm_name dm ! 255 = 0 \<Longrightarrow> 0 \<in> set (dm_name dm)"
    using nth_mem [of 255 "dm_name dm"] by simp
  ultimately show ?thesis by (auto simp: message_ok_def)
qed

section \<open>Names on the wire\<close>

definition labels_wire :: "bytes list \<Rightarrow> bytes" where
  "labels_wire ls = concat (map (\<lambda>l. word_of_nat (length l) # l) ls)"

definition dots :: "bytes list \<Rightarrow> bytes" where
  "dots ls = concat (map ((#) 46) ls)"

lemma labels_wire_simps [simp]:
  "labels_wire [] = []" "labels_wire (l # ls) = word_of_nat (length l) # l @ labels_wire ls"
  by (simp_all add: labels_wire_def)

lemma dots_simps [simp]: "dots [] = []" "dots (l # ls) = 46 # l @ dots ls"
  by (simp_all add: dots_def)

lemma dots_dot_parts: "hd (dot_parts s) @ dots (tl (dot_parts s)) = s"
proof (induction s)
  case (Cons c s)
  then show ?case by (cases "dot_parts s") auto
qed simp

lemma length_labels_wire: "length (labels_wire ls) = length (dots ls)"
  by (induction ls) auto

lemma length_wire_name: "length (labels_wire (dot_parts s)) = length s + 1"
proof -
  have "length (hd (dot_parts s) @ dots (tl (dot_parts s))) = length s" by (simp only: dots_dot_parts)
  then show ?thesis by (cases "dot_parts s") (simp_all add: length_labels_wire)
qed

lemma dns_labels_round:
  assumes "m = pre @ cur @ c # r" "c = 46 \<or> l \<le> length pre + length cur" "length pre + length cur < 251"
    "length w = length pre" "length (w @ tail) = 256"
  shows "dns_labels m l (length pre + length cur) (length pre) (w @ tail) =
    (let data = w @ word_of_nat (length cur) # cur @ drop (length cur + 1) tail; n = length pre + length cur + 1
     in if l \<le> length pre + length cur then Some (n, data) else dns_labels m l n n data)"
proof -
  obtain t ts where t: "tail = t # ts" using assms(3-5) by (cases tail) auto
  have "slice m (length pre) (length cur) = Some cur" by (simp add: slice_def span_def assms(1))
  moreover have "rd m (length pre + length cur) = Some c" by (simp add: rd_def assms(1) nth_append)
  moreover have "blit (w @ word_of_nat (length cur) # ts) (length pre + 1) cur =
      Some (w @ word_of_nat (length cur) # cur @ drop (length cur) ts)"
    using assms(3-5) by (simp add: blit_def t)
  ultimately show ?thesis
    using assms(2-5) by (subst dns_labels.simps) (auto simp: t Let_def list_update_append)
qed

lemma dns_labels_spec:
  assumes "m = pre @ cur @ x @ y # r" "l = length pre + length cur + length x" "l \<le> 250"
    "length w = length pre" "length (w @ tail) = 256"
  shows "dns_labels m l (length pre + length cur) (length pre) (w @ tail) =
    Some (l + 1, w @ labels_wire ((cur @ hd (dot_parts x)) # tl (dot_parts x)) @ drop (length cur + length x + 1) tail)"
  using assms
proof (induction x arbitrary: pre cur w tail)
  case Nil
  then show ?case using dns_labels_round [of m pre cur y r l w tail] by (simp add: Let_def)
next
  case (Cons c x)
  show ?case
  proof (cases "c = 46")
    case True
    let ?w = "w @ word_of_nat (length cur) # cur" and ?tail = "drop (length cur + 1) tail"
    have "dns_labels m l (length pre + length cur) (length pre) (w @ tail) =
        dns_labels m l (length (pre @ cur @ [c])) (length (pre @ cur @ [c])) (?w @ ?tail)"
      using Cons.prems dns_labels_round [of m pre cur c "x @ y # r" l w tail] True by (simp add: Let_def)
    moreover have "length (?w @ ?tail) = 256" using Cons.prems by simp
    ultimately show ?thesis
      using Cons.IH [of "pre @ cur @ [c]" "[]" ?w ?tail] Cons.prems True dot_parts_not_Nil [of x]
      by (cases "dot_parts x") (simp_all add: add_ac)
  next
    case False
    have "rd m (length pre + length cur) = Some c" using Cons.prems(1) by (simp add: rd_def nth_append)
    then have "dns_labels m l (length pre + length cur) (length pre) (w @ tail) =
        dns_labels m l (length pre + length (cur @ [c])) (length pre) (w @ tail)"
      using Cons.prems(2,3) False by (subst dns_labels.simps) simp
    then show ?thesis
      using Cons.IH [of pre "cur @ [c]" w tail] Cons.prems False by simp
  qed
qed

definition dns_query :: "bytes \<Rightarrow> u16 \<Rightarrow> bool \<Rightarrow> bytes" where
  "dns_query name txnid six =
     be16 txnid @ [1, 0, 0, 1, 0, 0, 0, 0, 0, 0] @ labels_wire (dot_parts name) @ [0, 0, if six then 28 else 1, 0, 1]"

lemma mg_dns_send_query:
  assumes "length name \<le> 250"
  shows "mg_dns_send (name @ y # r) (length name) txnid six = Some (dns_query name txnid six)"
proof -
  let ?w = "labels_wire (dot_parts name)" and ?z = "replicate (255 - length name) (0 :: u8)"
  have l: "length ?w = length name + 1" by (rule length_wire_name)
  have "dns_labels (name @ y # r) (length name) 0 0 (replicate 256 0) = Some (length name + 1, ?w @ ?z)"
    using dns_labels_spec [of "name @ y # r" "[]" "[]" name y r "length name" "[]" "replicate 256 0"] assms
      dot_parts_not_Nil [of name] by (cases "dot_parts name") simp_all
  moreover have "blit (?w @ ?z) (length name + 1) [0, 0, 1, 0, 1] = Some (?w @ [0, 0, 1, 0, 1] @ drop 5 ?z)"
    using assms l by (simp add: blit_def)
  moreover have "wr (?w @ [0, 0, 1, 0, 1] @ drop 5 ?z) (length name + 3) 28 = Some (?w @ [0, 0, 28, 0, 1] @ drop 5 ?z)"
    using l by (simp add: wr_def list_update_append eval_nat_numeral)
  ultimately show ?thesis
    using l by (simp add: mg_dns_send_def dns_query_def Let_def eval_nat_numeral)
qed

section \<open>Reading names back\<close>

definition dns_label :: "bytes \<Rightarrow> bool" where
  "dns_label l \<longleftrightarrow> 0 < length l \<and> length l \<le> 63"

lemma label_byte:
  assumes "dns_label l"
  shows "(word_of_nat (length l) :: u8) \<noteq> 0" "(word_of_nat (length l) :: u8) AND 0xc0 = 0"
    "unat (word_of_nat (length l) :: u8) = length l"
proof -
  have u: "unat (word_of_nat (length l) :: u8) = length l"
    using assms by (simp add: dns_label_def unat_of_nat take_bit_nat_eq_self)
  show "unat (word_of_nat (length l) :: u8) = length l" by (rule u)
  show "(word_of_nat (length l) :: u8) \<noteq> 0" using u assms by (auto simp: dns_label_def)
  have "take_bit 6 (word_of_nat (length l) :: u8) = word_of_nat (length l)"
    using assms by (simp add: dns_label_def take_bit_of_nat take_bit_nat_eq_self)
  then have "(word_of_nat (length l) :: u8) AND 0xc0 = take_bit 6 (word_of_nat (length l)) AND 0xc0" by simp
  also have "\<dots> = word_of_nat (length l) AND (mask 6 AND 0xc0)" by (simp add: take_bit_eq_mask and.assoc)
  also have "mask 6 AND (0xc0 :: u8) = 0" by (simp add: mask_eq_exp_minus_1)
  finally show "(word_of_nat (length l) :: u8) AND 0xc0 = 0" by simp
qed

lemma dns_copy_label_spec:
  assumes "s = pre @ l @ post" "length (t @ z) = 256" "length t + length l + 1 \<le> 255"
  shows "\<exists>z'. dns_copy_label s (length pre) (length l) (t @ z) 256 (length t) =
    (let q = (if t = [] then l else 46 # l) in Some (t @ q @ 0 # z', length t + length q))"
proof -
  have s: "slice s (length pre) (length l) = Some l" by (simp add: slice_def span_def assms(1))
  obtain a z1 where z: "z = a # z1" using assms(2,3) by (cases z) auto
  show ?thesis
  proof (cases "t = []")
    case True
    have "blit z 0 l = Some (l @ drop (length l) z)" using assms(2,3) True by (simp add: blit_def)
    moreover obtain b z2 where "drop (length l) z = b # z2"
      using assms(2,3) True by (cases "drop (length l) z") auto
    ultimately show ?thesis using True s assms(2,3) by (auto simp: dns_copy_label_def Let_def list_update_append)
  next
    case False
    have "blit (t @ 46 # z1) (length t + 1) l = Some (t @ 46 # l @ drop (length l) z1)"
      using assms(2,3) False z by (simp add: blit_def)
    moreover obtain b z2 where "drop (length l) z1 = b # z2"
      using assms(2,3) z by (cases "drop (length l) z1") auto
    ultimately show ?thesis using False s assms(2,3) z by (auto simp: dns_copy_label_def Let_def list_update_append)
  qed
qed

lemma dns_name_end_text: "length (t @ 0 # z) = 256 \<Longrightarrow> \<exists>z'. dns_name_end i (t @ 0 # z) 256 = Some (i, t @ 0 # z') \<and> length (t @ 0 # z') = 256"
  by (auto simp: dns_name_end_def list_update_append split: nat.split)

lemma dns_name_labels:
  assumes "s = pre @ labels_wire ls @ 0 # x # post" "ofs + i = length pre" "\<forall>l \<in> set ls. dns_label l"
    "length (t @ 0 # z) = 256" "length t + length (dots ls) \<le> 254"
  shows "\<exists>z'. dns_name_loop s ofs i (t @ 0 # z) 256 (length t) d =
    Some (i + length (labels_wire ls) + 1, t @ (if t = [] then tl (dots ls) else dots ls) @ 0 # z') \<and>
    length (t @ (if t = [] then tl (dots ls) else dots ls) @ 0 # z') = 256"
  using assms
proof (induction ls arbitrary: pre i t z)
  case Nil
  have "s ! (ofs + i) = 0" "ofs + i + 1 < length s" using Nil(1,2) by (simp_all add: nth_append)
  then show ?case
    using dns_name_end_text [OF Nil(4), of "i + 1"] by (subst dns_name_loop.simps) auto
next
  case (Cons l ls)
  let ?n = "word_of_nat (length l) :: u8" and ?post = "labels_wire ls @ 0 # x # post"
  let ?q = "if t = [] then l else 46 # l"
  have s: "s = (pre @ [?n]) @ l @ ?post" using Cons.prems(1) by simp
  have n: "s ! (ofs + i) = ?n" unfolding s Cons.prems(2) by (simp add: nth_append)
  note lb = label_byte [of l] and l = Cons.prems(3)
  have len: "ofs + i + length l + 1 < length s" using Cons.prems(2) by (simp add: s)
  obtain z1 where c: "dns_copy_label s (length (pre @ [?n])) (length l) (t @ 0 # z) 256 (length t) =
      Some (t @ ?q @ 0 # z1, length t + length ?q)"
    using dns_copy_label_spec [OF s Cons.prems(4)] Cons.prems(5) by (auto simp: Let_def split: if_splits)
  have l1: "length (t @ ?q @ 0 # z1) = 256"
    using c dns_copy_label_safe [of "t @ 0 # z" 256 "length (pre @ [?n])" "length l" s "length t"] Cons.prems(4) len s by auto
  have "dns_name_loop s ofs i (t @ 0 # z) 256 (length t) d =
      dns_name_loop s ofs (i + length l + 1) ((t @ ?q) @ 0 # z1) 256 (length (t @ ?q)) d"
    using n lb l len c Cons.prems(2) by (subst dns_name_loop.simps) (auto simp: Let_def)
  moreover have "s = (pre @ ?n # l) @ ?post" by (simp add: s)
  moreover have "l \<noteq> []" using l by (auto simp: dns_label_def)
  ultimately show ?case
    using Cons.IH [of "pre @ ?n # l" "i + length l + 1" "t @ ?q" z1] Cons.prems l1 by auto
qed

section \<open>A query and its answer\<close>

definition host_name :: "bytes \<Rightarrow> bool" where
  "host_name name \<longleftrightarrow> length name \<le> 250 \<and> 0 \<notin> set name \<and> (\<forall>l \<in> set (dot_parts name). dns_label l)"

text \<open>
  What a server answers: the identifier and the question of the query, and one record that refers to the name in the
  question.  The flags, the other counts, the time to live and what follows do not matter.
\<close>

definition dns_reply :: "bytes \<Rightarrow> bytes \<Rightarrow> bytes \<Rightarrow> bytes \<Rightarrow> bytes \<Rightarrow> bytes \<Rightarrow> bytes" where
  "dns_reply query flags counts ttl ip rest =
     take 2 query @ flags @ [0, 1, 0, 1] @ counts @ drop 12 query @
     [0xc0, 0x0c] @ [0, if length ip = 16 then 28 else 1] @ [0, 1] @ ttl @ [0, word_of_nat (length ip)] @ ip @ rest"

lemma net16_at: "pkt = pre @ a # b # post \<Longrightarrow> i = length pre \<Longrightarrow> net16 pkt i = Some (push_bit 8 (ucast a) OR ucast b)"
  by (simp add: net16_def rd_def nth_append)

lemma mg_dns_parse_rr_spec:
  assumes "name_length pkt ofs 0 0 = n" "0 < n" "n < 65536" "12 \<le> length pkt" "length pkt \<le> 512" "ofs + n + 4 \<le> length pkt"
    "net16 pkt (ofs + n) = Some t" "net16 pkt (ofs + n + 2) = Some c"
  shows "\<exists>rr. mg_dns_parse_rr pkt ofs True = Some (n + 4, rr)"
    and "net16 pkt (ofs + n + 8) = Some a \<Longrightarrow> ofs + n + 10 + unat a \<le> length pkt \<Longrightarrow>
      \<exists>rr. mg_dns_parse_rr pkt ofs False = Some (n + unat a + 10, rr) \<and> rr_atype rr = t \<and> rr_aclass rr = c \<and> rr_alen rr = a"
proof -
  have u: "unat (word_of_nat n :: u16) = n" using assms(3) by (simp add: unat_of_nat take_bit_nat_eq_self)
  then have z: "(word_of_nat n :: u16) \<noteq> 0" using assms(2) by auto
  obtain to where nm: "mg_dns_parse_name pkt ofs [] 0 = Some (n, to)"
    using mg_dns_parse_name_ok [of "[]" 0 pkt ofs] assms(1) by (auto simp: name_ok_def)
  show "\<exists>rr. mg_dns_parse_rr pkt ofs True = Some (n + 4, rr)"
    using assms(4-) u z nm by (simp add: mg_dns_parse_rr_def dns_header_size_def no_rr_def Let_def)
  show "\<exists>rr. mg_dns_parse_rr pkt ofs False = Some (n + unat a + 10, rr) \<and> rr_atype rr = t \<and> rr_aclass rr = c \<and> rr_alen rr = a"
    if "net16 pkt (ofs + n + 8) = Some a" "ofs + n + 10 + unat a \<le> length pkt"
    using that assms(4-) u z nm by (simp add: mg_dns_parse_rr_def dns_header_size_def no_rr_def Let_def add_ac)
qed

text \<open>The name in the question and the pointer to it.\<close>

lemma name_in_question:
  assumes "s = pre @ labels_wire (dot_parts name) @ 0 # x # post" "length pre = 12" "host_name name" "length (0 # z) = 256"
  shows "\<exists>z'. dns_name_loop s 12 0 (0 # z) 256 0 d = Some (length name + 2, name @ 0 # z') \<and> length (name @ 0 # z') = 256"
proof -
  have l: "\<forall>l \<in> set (dot_parts name). dns_label l" "length name \<le> 250" using assms(3) by (auto simp: host_name_def)
  have t: "tl (dots (dot_parts name)) = name" using dots_dot_parts [of name] by (cases "dot_parts name") auto
  have "length (dots (dot_parts name)) \<le> 254" using l(2) length_wire_name [of name] by (simp add: length_labels_wire)
  then show ?thesis
    using dns_name_labels [OF assms(1) _ l(1), of 12 0 "[]" z d] assms(2,4) t by (auto simp: length_wire_name)
qed

lemma name_length_question:
  assumes "s = pre @ labels_wire (dot_parts name) @ 0 # x # post" "length pre = 12" "host_name name"
  shows "name_length s 12 0 d = length name + 2"
proof -
  obtain z' where "dns_name_loop s 12 0 (0 # replicate 255 0) 256 0 d = Some (length name + 2, name @ 0 # z')"
    using name_in_question [OF assms, of "replicate 255 0" d] by auto
  then show ?thesis
    using dns_name_loop_ok [of "0 # replicate 255 0" 256 s 12 0 d 0] by (auto simp: name_ok_def)
qed

lemma name_by_pointer:
  assumes "s = pre @ labels_wire (dot_parts name) @ 0 # x # post" "length pre = 12" "host_name name"
    "ofs + 1 < length s" "s ! ofs = 0xc0" "s ! (ofs + 1) = 0x0c" "length to = 256"
  shows "name_length s ofs 0 0 = 2" "\<exists>z'. mg_dns_parse_name s ofs to 256 = Some (2, name @ 0 # z')"
proof -
  obtain l ls where ls: "dot_parts name = l # ls" by (cases "dot_parts name") auto
  have "dns_label l" using assms(3) ls by (simp add: host_name_def)
  then have p: "(s ! 12) AND 0xc0 = 0" using label_byte(2) [of l] by (simp add: assms(1,2) ls nth_append)
  have p': "12 + 1 < length s" using assms(1,2) by simp
  obtain z where z: "to[0 := 0] = 0 # z" "length (0 # z) = 256" using assms(7) by (cases to) auto
  obtain z' where r: "dns_name_loop s 12 0 (0 # z) 256 0 1 = Some (length name + 2, name @ 0 # z')" "length (name @ 0 # z') = 256"
    using name_in_question [OF assms(1-3) z(2), of 1] by auto
  show "name_length s ofs 0 0 = 2"
    using assms(4-6) p p' name_length_question [OF assms(1-3), of 1] by (subst name_length.simps) (simp add: Let_def)
  have "dns_name_loop s ofs 0 (0 # z) 256 0 0 = dns_name_end 2 (name @ 0 # z') 256"
    using assms(4-6) p p' r(1) by (subst dns_name_loop.simps) (simp add: Let_def flip: numeral_2_eq_2)
  then show "\<exists>z'. mg_dns_parse_name s ofs to 256 = Some (2, name @ 0 # z')"
    using dns_name_end_text [OF r(2), of 2] assms(7) z(1)
    by (auto simp: mg_dns_parse_name_def mg_dns_parse_name_depth_def)
qed

lemma net16_be16: "pkt = pre @ be16 v @ post \<Longrightarrow> i = length pre \<Longrightarrow> net16 pkt i = Some v"
  using unbe16_be16 [of v] net16_at [of pkt pre "ucast (drop_bit 8 v)" "ucast v" post i] by (simp add: be16_def unbe16_def)

lemma dns_question_read:
  assumes "pkt = pre @ labels_wire (dot_parts name) @ 0 # [a, b, c, d] @ post" "length pre = 12" "host_name name"
    "length pkt \<le> 512"
  shows "dns_questions pkt 1 12 = Some (Some (length name + 18))"
proof -
  have n: "name_length pkt 12 0 0 = length name + 2" using name_length_question [of pkt pre name a "[b, c, d] @ post"] assms(1-3) by simp
  have l: "length name + 18 \<le> length pkt" using assms(1,2) by (simp add: length_wire_name)
  obtain t0 c0 where "net16 pkt (12 + (length name + 2)) = Some t0" "net16 pkt (12 + (length name + 2) + 2) = Some c0"
    using net16_safe [of "12 + (length name + 2)" pkt] net16_safe [of "12 + (length name + 2) + 2" pkt] l by auto
  then obtain rr where "mg_dns_parse_rr pkt 12 True = Some (length name + 2 + 4, rr)"
    using mg_dns_parse_rr_spec(1) [OF n _ _ _ assms(4)] l assms(3,4) by auto
  then show ?thesis by simp
qed

lemma dns_answer_read:
  assumes p: "pkt = pre @ labels_wire (dot_parts name) @ 0 # x # post" "length pre = 12" "host_name name" "length pkt \<le> 512"
    and r: "pkt = front @ [0xc0, 0x0c] @ [0, ty] @ [0, 1] @ ttl @ [0, word_of_nat (length ip)] @ ip @ rest" "length front = ofs" "length ttl = 4"
    and ty: "length ip = 4 \<and> ty = 1 \<or> length ip = 16 \<and> ty = 28"
    and dm: "length (dm_name dm) = 256" "ad_ip (dm_addr dm) = replicate 16 0"
  shows "\<exists>z. dns_answers pkt 1 ofs dm = Some (True, dm\<lparr>dm_name := name @ 0 # z, dm_resolved := True,
    dm_addr := (dm_addr dm)\<lparr>ad_ip := ip @ replicate (16 - length ip) 0, ad_is_ip6 := (length ip = 16)\<rparr>\<rparr>)"
proof -
  have len: "ofs + 12 + length ip \<le> length pkt" using r by simp
  have at: "pkt ! ofs = 0xc0" "pkt ! (ofs + 1) = 0x0c" unfolding r(1) using r(2) by (simp_all add: nth_append)
  have n2: "name_length pkt ofs 0 0 = 2" "\<exists>z'. mg_dns_parse_name pkt ofs (dm_name dm) 256 = Some (2, name @ 0 # z')"
    using name_by_pointer [OF p(1-3) _ at dm(1)] len by auto
  then obtain z where nm: "mg_dns_parse_name pkt ofs (dm_name dm) 256 = Some (2, name @ 0 # z)" by blast
  have t: "net16 pkt (ofs + 2) = Some (ucast ty)"
    using net16_at [of pkt "front @ [0xc0, 0x0c]" 0 ty _ "ofs + 2"] r by simp
  have c: "net16 pkt (ofs + 2 + 2) = Some 1"
    using net16_at [of pkt "front @ [0xc0, 0x0c, 0, ty]" 0 1 _ "ofs + 2 + 2"] r by simp
  have a: "net16 pkt (ofs + 2 + 8) = Some (word_of_nat (length ip))"
    using net16_at [of pkt "front @ [0xc0, 0x0c, 0, ty, 0, 1] @ ttl" 0 "word_of_nat (length ip)" _ "ofs + 2 + 8"] r ty by auto
  have u: "unat (word_of_nat (length ip) :: u16) = length ip" using ty by auto
  obtain rr where rr: "mg_dns_parse_rr pkt ofs False = Some (2 + length ip + 10, rr)"
      "rr_atype rr = ucast ty" "rr_aclass rr = 1" "rr_alen rr = word_of_nat (length ip)"
    using mg_dns_parse_rr_spec(2) [OF n2(1) _ _ _ p(4) _ t c a] u len by auto
  have sl: "slice pkt (12 + ofs) (length ip) = Some ip"
    unfolding r(1) using r(2,3) by (simp add: slice_def span_def)
  have bl: "blit (replicate 16 0) 0 ip = Some (ip @ replicate (16 - length ip) 0)" using ty by (auto simp: blit_def)
  show ?thesis
    using rr nm sl bl ty dm(2) by (cases dm; cases "dm_addr dm") (auto simp: Let_def intro!: exI [of _ z])
qed

lemma mg_dns_parse_reply:
  assumes h: "host_name name" and f: "length flags = 2" "length counts = 4" "length ttl = 4"
    and ip: "length ip = 4 \<or> length ip = 16"
    and p: "pkt = dns_reply (dns_query name txnid six) flags counts ttl ip rest" and l: "length pkt \<le> 512"
  shows "\<exists>z. mg_dns_parse pkt = Some (True,
    \<lparr>dm_txnid = txnid, dm_resolved = True,
     dm_addr = \<lparr>ad_ip = ip @ replicate (16 - length ip) 0, ad_port = 0, ad_is_ip6 = (length ip = 16)\<rparr>,
     dm_name = name @ 0 # z\<rparr>)"
proof -
  define q where "q = (if six then 28 else 1 :: u8)"
  define t where "t = (if length ip = 16 then 28 else 1 :: u8)"
  define a where "a = [0xc0, 0x0c] @ [0, t] @ [0, 1] @ ttl @ [0, word_of_nat (length ip)] @ ip @ rest"
  let ?w = "labels_wire (dot_parts name)"
  define h' where "h' = be16 txnid @ flags @ [0, 1, 0, 1] @ counts"
  have lh: "length h' = 12" using f by (simp add: h'_def be16_def)
  have p': "pkt = h' @ ?w @ 0 # [0, q, 0, 1] @ a"
    by (simp add: p dns_reply_def dns_query_def be16_def h'_def a_def q_def t_def)
  then have p2: "pkt = (h' @ ?w @ 0 # [0, q, 0, 1]) @ [0xc0, 0x0c] @ [0, t] @ [0, 1] @ ttl @ [0, word_of_nat (length ip)] @ ip @ rest"
    by (simp add: a_def)
  have lf: "length (h' @ ?w @ 0 # [0, q, 0, 1]) = length name + 18" using lh by (simp add: length_wire_name)
  obtain r where hd: "pkt = be16 txnid @ flags @ 0 # 1 # 0 # 1 # r" using p' by (simp add: h'_def)
  have n0: "net16 pkt 0 = Some txnid" by (rule net16_be16 [of _ "[]"]) (simp_all add: hd)
  have lb: "length (be16 txnid) = 2" by (simp add: be16_def)
  have "net16 pkt 4 = Some (push_bit 8 (ucast (0 :: u8)) OR ucast (1 :: u8))"
    by (rule net16_at [of _ "be16 txnid @ flags" _ _ "0 # 1 # r"]) (simp_all add: hd f lb)
  then have n4: "net16 pkt 4 = Some 1" by simp
  have "net16 pkt 6 = Some (push_bit 8 (ucast (0 :: u8)) OR ucast (1 :: u8))"
    by (rule net16_at [of _ "be16 txnid @ flags @ [0, 1]" _ _ r]) (simp_all add: hd f lb)
  then have n6: "net16 pkt 6 = Some 1" by simp
  have qs: "dns_questions pkt 1 12 = Some (Some (length name + 18))"
    by (rule dns_question_read [OF p' lh h l])
  have t: "length ip = 4 \<and> t = 1 \<or> length ip = 16 \<and> t = 28" using ip by (auto simp: t_def)
  have p3: "pkt = h' @ ?w @ 0 # 0 # [q, 0, 1] @ a" using p' by simp
  have m: "length (dm_name (no_message\<lparr>dm_txnid := txnid\<rparr>)) = 256"
      "ad_ip (dm_addr (no_message\<lparr>dm_txnid := txnid\<rparr>)) = replicate 16 0" by (simp_all add: no_message_def)
  obtain z where "dns_answers pkt 1 (length name + 18) (no_message\<lparr>dm_txnid := txnid\<rparr>) =
      Some (True, no_message\<lparr>dm_txnid := txnid, dm_name := name @ 0 # z, dm_resolved := True,
        dm_addr := (dm_addr (no_message\<lparr>dm_txnid := txnid\<rparr>))
          \<lparr>ad_ip := ip @ replicate (16 - length ip) 0, ad_is_ip6 := (length ip = 16)\<rparr>\<rparr>)"
    using dns_answer_read [OF p3 lh h l p2 lf f(3) t m] by blast
  moreover have "12 \<le> length pkt" using p' lh by simp
  ultimately show ?thesis
    using n0 n4 n6 qs unfolding mg_dns_parse_def dns_header_size_def by (simp add: no_message_def)
qed

end
