(* ===== verification/Mg_Hash.thy ===== *)
theory Mg_Hash
  imports Prelude
begin

text \<open>
  What the two digest components share: the splitting of a message into blocks of 64 bytes, the
  absorption of blocks by a compression function, and the contract of a digest that takes its
  message in pieces.
\<close>

section \<open>Blocks\<close>

function absorb :: "('s \<Rightarrow> bytes \<Rightarrow> 's) \<Rightarrow> 's \<Rightarrow> bytes \<Rightarrow> 's" where
  "absorb f s m = (if length m < 64 then s else absorb f (f s (take 64 m)) (drop 64 m))"
  by pat_completeness auto
termination by (relation "measure (\<lambda>(f, s, m). length m)") auto

declare absorb.simps [simp del]

definition partial_block :: "bytes \<Rightarrow> bytes" where
  "partial_block m = drop (64 * (length m div 64)) m"

lemma length_partial [simp]: "length (partial_block m) = length m mod 64"
  by (simp add: partial_block_def minus_mult_div_eq_mod)

lemma partial_less: "length (partial_block m) < 64"
  by simp

lemma absorb_short [simp]: "length m < 64 \<Longrightarrow> absorb f s m = s" "length m < 64 \<Longrightarrow> partial_block m = m"
  by (simp_all add: absorb.simps partial_block_def)

lemma absorb_block:
  "length b = 64 \<Longrightarrow> absorb f s (b @ m) = absorb f (f s b) m"
  "length b = 64 \<Longrightarrow> partial_block (b @ m) = partial_block m"
  by (simp_all add: absorb.simps [of f s "b @ m"] partial_block_def diff_mult_distrib2 div_add_self1 [of 64 "length m"])

lemma absorb_append:
  "absorb f s (m @ d) = absorb f (absorb f s m) (partial_block m @ d) \<and>
   partial_block (m @ d) = partial_block (partial_block m @ d)"
proof (induction f s m rule: absorb.induct)
  case (1 f s m)
  show ?case
  proof (cases "length m < 64")
    case False
    then obtain b r where m: "m = b @ r" "length b = 64"
      using that [of "take 64 m" "drop 64 m"] by simp
    then show ?thesis using 1 [OF False] by (simp add: absorb_block)
  qed simp
qed

lemma absorb_aligned:
  assumes "length m mod 64 = 0"
  shows "absorb f s (m @ d) = absorb f (absorb f s m) d" "partial_block (m @ d) = partial_block d"
    "partial_block m = []"
proof -
  show p: "partial_block m = []" using assms by (metis length_partial length_0_conv)
  show "absorb f s (m @ d) = absorb f (absorb f s m) d" "partial_block (m @ d) = partial_block d"
    using absorb_append [of f s m d] p by simp_all
qed

text \<open>A piece that stays in the last block, and one that fills it.\<close>

lemma absorb_stay:
  assumes "length m mod 64 + length d < 64"
  shows "absorb f s (m @ d) = absorb f s m" "partial_block (m @ d) = partial_block m @ d"
    "length (m @ d) mod 64 = length m mod 64 + length d"
proof -
  have l: "length (partial_block m @ d) < 64" using assms by simp
  then show "absorb f s (m @ d) = absorb f s m" "partial_block (m @ d) = partial_block m @ d"
    using absorb_append [of f s m d] by simp_all
  show "length (m @ d) mod 64 = length m mod 64 + length d"
    using assms mod_add_left_eq [of "length m" 64 "length d", symmetric] by simp
qed

lemma absorb_fill:
  assumes "k = 64 - length m mod 64" "k \<le> length d" "b = partial_block m @ take k d"
  shows "length b = 64" "absorb f s (m @ d) = absorb f (f (absorb f s m) b) (drop k d)"
    "partial_block (m @ d) = partial_block (drop k d)"
proof -
  show l: "length b = 64" using assms by simp
  have "partial_block m @ d = b @ drop k d" by (simp add: assms(3))
  then show "absorb f s (m @ d) = absorb f (f (absorb f s m) b) (drop k d)"
    "partial_block (m @ d) = partial_block (drop k d)"
    using absorb_append [of f s m d] absorb_block [OF l] by simp_all
qed

section \<open>Bit counts\<close>

text \<open>The number of message bits after \<open>n\<close> bytes, low word first.\<close>

definition bit_count :: "nat \<Rightarrow> u32 \<times> u32" where
  "bit_count n = (of_nat (8 * n), of_nat (8 * n div 2 ^ 32))"

lemma div_carry:
  fixes x y M :: nat
  assumes "0 < M"
  shows "(x + y) div M = x div M + y div M + (if (x + y) mod M < x mod M then 1 else 0)"
proof -
  have e: "(x + y) div M = x div M + y div M + (x mod M + y mod M) div M" by (rule div_add1_eq)
  have m: "(x + y) mod M = (x mod M + y mod M) mod M" by (rule mod_add_eq [symmetric])
  have l: "x mod M < M" "y mod M < M" using assms by simp_all
  show ?thesis
  proof (cases "x mod M + y mod M < M")
    case False
    then have "(x mod M + y mod M) div M = Suc 0" 
      using l by (intro div_nat_eqI) (simp only: mult_Suc_right mult_0_right, linarith)+
    moreover have "x mod M + y mod M - M < M" using l by linarith
    then have "(x mod M + y mod M) mod M = x mod M + y mod M - M" using False by (simp add: le_mod_geq)
    ultimately show ?thesis using e m l False by simp
  qed (simp add: e m)
qed

lemma unat_u32: "unat (of_nat n :: u32) = n mod 2 ^ 32"
  by (simp add: unat_of_nat take_bit_eq_mod)

lemma bit_count_add:
  fixes hi :: u32
  assumes "bit_count n = (lo, hi)" "lo' = lo + push_bit 3 (of_nat len)"
  shows "bit_count (n + len) = (lo', (if lo' < lo then hi + 1 else hi) + of_nat (len div 2 ^ 29))"
proof -
  have lo: "lo = of_nat (8 * n)" and hi: "hi = of_nat (8 * n div 2 ^ 32)" using assms(1) by (simp_all add: bit_count_def)
  have lo': "lo' = of_nat (8 * n + 8 * len)" using assms(2) by (simp add: lo push_bit_eq_mult)
  then have "lo' < lo \<longleftrightarrow> (8 * n + 8 * len) mod 2 ^ 32 < 8 * n mod 2 ^ 32"
    unfolding lo word_less_nat_alt unat_u32 lo' by simp
  moreover have "8 * len div 2 ^ 32 = len div 2 ^ 29" by (simp add: div_mult2_eq [of _ 8 "2 ^ 29", simplified])
  ultimately have "(8 * n + 8 * len) div 2 ^ 32 = 8 * n div 2 ^ 32 + len div 2 ^ 29 + (if lo' < lo then 1 else 0)"
    using div_carry [of "2 ^ 32" "8 * n" "8 * len"] by simp
  then show ?thesis
    unfolding bit_count_def hi lo' add_mult_distrib2 by simp
qed

lemma bit_count_index: "bit_count n = (lo, hi) \<Longrightarrow> unat (drop_bit 3 lo AND 63) = n mod 64"
proof -
  assume "bit_count n = (lo, hi)"
  then have "unat lo = 8 * n mod 2 ^ 32" by (auto simp: bit_count_def unat_u32 simp del: of_nat_mult)
  moreover have "drop_bit 3 lo AND 63 = take_bit 6 (drop_bit 3 lo)"
    by (simp add: take_bit_eq_mask mask_eq_exp_minus_1)
  ultimately have "unat (drop_bit 3 lo AND 63) = 8 * n mod 2 ^ 32 div 8 mod 64"
    by (simp add: unsigned_take_bit_eq unsigned_drop_bit_eq take_bit_eq_mod [where 'a = nat]
        drop_bit_eq_div [where 'a = nat] del: of_nat_mult)
  also have "8 * n mod 2 ^ 32 div 8 = n mod 2 ^ 29"
    using mod_mult_mult1 [of 8 n "2 ^ 29"] by simp
  also have "n mod 2 ^ 29 mod 64 = n mod 64" by (rule mod_mod_cancel) (simp add: dvd_eq_mod_eq_0)
  finally show ?thesis .
qed

lemma rotate_or:
  assumes "0 < s" "s < 32"
  shows "push_bit s v OR drop_bit (32 - s) v = word_rotl s (v :: u32)"
proof (rule bit_word_eqI)
  fix n assume "n < LENGTH(32)"
  then show "bit (push_bit s v OR drop_bit (32 - s) v) n = bit (word_rotl s v) n"
    using assms by (cases "n < s") (auto simp: bit_simps mod_if add.commute [of n 32] dest: bit_imp_le_length)
qed

section \<open>Digests of messages in pieces\<close>

locale digest =
  fixes start :: "'c \<Rightarrow> bool"
    and update :: "'c \<Rightarrow> bytes \<Rightarrow> 'c option"
    and final :: "'c \<Rightarrow> bytes option"
    and rep :: "'c \<Rightarrow> bytes \<Rightarrow> bool"
    and hash :: "bytes \<Rightarrow> bytes"
    and piece :: "bytes \<Rightarrow> bool"
  assumes rep_start: "start c \<Longrightarrow> rep c []"
    and rep_update: "rep c m \<Longrightarrow> piece d \<Longrightarrow> \<exists>c'. update c d = Some c' \<and> rep c' (m @ d)"
    and final_rep: "rep c m \<Longrightarrow> final c = Some (hash m)"
begin

fun updates :: "'c \<Rightarrow> bytes list \<Rightarrow> 'c option" where
  "updates c [] = Some c"
| "updates c (d # ds) = do { c \<leftarrow> update c d; updates c ds }"

lemma updates_rep:
  "rep c m \<Longrightarrow> \<forall>d \<in> set ds. piece d \<Longrightarrow> \<exists>c'. updates c ds = Some c' \<and> rep c' (m @ concat ds)"
proof (induction ds arbitrary: c m)
  case (Cons d ds)
  then obtain c1 where "update c d = Some c1" "rep c1 (m @ d)" using rep_update by fastforce
  with Cons.IH [of c1 "m @ d"] Cons.prems(2) show ?case by simp
qed auto

lemma digest_pieces:
  assumes "start c" "\<forall>d \<in> set ds. piece d"
  shows "(do { c \<leftarrow> updates c ds; final c }) = Some (hash (concat ds))"
  using updates_rep [OF rep_start [OF assms(1)] assms(2)] final_rep by fastforce

end

end
