(* ===== verification/Mg_Http_Codec.thy ===== *)
theory Mg_Http_Codec
  imports Mg_Str Mg_Base64
begin

text \<open>
  The value-level parsers of \<open>src/http.c\<close>: decimal sizes, percent-encoding, form variables,
  header parameters and credentials.
\<close>

section \<open>The code\<close>

text \<open>\<open>None\<close> is the result \<open>false\<close>; \<open>size_t\<close> and \<open>uint64_t\<close> have 64 bits.\<close>

fun to_size_loop :: "bytes \<Rightarrow> u64 \<Rightarrow> u64 option" where
  "to_size_loop [] result = Some result"
| "to_size_loop (c # s) result =
     (if 48 \<le> sint c \<and> sint c \<le> 57 then
        (if result > 1844674407370955160 then None
         else to_size_loop s (result * 10 + word_of_int (sint c - 48)))
      else Some result)"

definition mg_to_size_t :: "bytes \<Rightarrow> u64 option" where
  "mg_to_size_t str =
     (let s = dropWhile (\<lambda>c. c = 32 \<or> c = 9) str
      in if s \<noteq> [] \<and> hd s = 45 then None else to_size_loop s 0)"

definition isx :: "u8 \<Rightarrow> bool" where
  "isx ch = (let c = sint ch in (48 \<le> c \<and> c \<le> 57) \<or> (97 \<le> c \<and> c \<le> 102) \<or> (65 \<le> c \<and> c \<le> 70))"

text \<open>
  The loop of \<open>mg_url_decode\<close>; \<open>Inl\<close> is the early \<open>return -1\<close>, \<open>Inr\<close> the position where
  the loop ends.  The outer option is memory safety.
\<close>

function (sequential) url_decode_loop ::
  "bytes \<Rightarrow> bytes \<Rightarrow> bool \<Rightarrow> nat \<Rightarrow> nat \<Rightarrow> (bytes \<times> (unit + nat \<times> nat)) option" where
  "url_decode_loop src dst form i j =
     (if i < length src \<and> j + 1 < length dst then
        (if src ! i = 37 then
           (if i + 2 < length src \<and> isx (src ! (i + 1)) \<and> isx (src ! (i + 2)) then do {
              v \<leftarrow> mg_unhexn src (i + 1) 2;
              dst \<leftarrow> wr dst j (ucast v);
              url_decode_loop src dst form (i + 3) (j + 1) }
            else Some (dst, Inl ()))
         else do {
           dst \<leftarrow> wr dst j (if form \<and> src ! i = 43 then 32 else src ! i);
           url_decode_loop src dst form (i + 1) (j + 1) })
      else Some (dst, Inr (i, j)))"
  by pat_completeness auto
termination
  by (relation "measure (\<lambda>(src, dst, form, i, j). length src - i)") auto

declare url_decode_loop.simps [simp del]

definition mg_url_decode :: "bytes \<Rightarrow> bytes \<Rightarrow> bool \<Rightarrow> (bytes \<times> int) option" where
  "mg_url_decode src dst form = do {
     (dst, r) \<leftarrow> url_decode_loop src dst form 0 0;
     case r of
       Inl _ \<Rightarrow> Some (dst, -1)
     | Inr (i, j) \<Rightarrow> do {
         dst' \<leftarrow> (if j < length dst then wr dst j 0 else Some dst);
         Some (dst', if i \<ge> length src \<and> j < length dst then int_cast j else -1) } }"

definition mg_is_url_safe :: "u8 \<Rightarrow> bool" where
  "mg_is_url_safe c \<longleftrightarrow> (48 \<le> c \<and> c \<le> 57) \<or> (97 \<le> c \<and> c \<le> 122) \<or> (65 \<le> c \<and> c \<le> 90) \<or>
     c = 46 \<or> c = 95 \<or> c = 45 \<or> c = 126"

text \<open>\<open>Inl\<close> is the early \<open>return 0\<close>.\<close>

fun url_encode_loop :: "bytes \<Rightarrow> bytes \<Rightarrow> nat \<Rightarrow> (bytes \<times> (unit + nat)) option" where
  "url_encode_loop [] buf n = Some (buf, Inr n)"
| "url_encode_loop (c # s) buf n =
     (if n + 4 \<ge> length buf then Some (buf, Inl ())
      else if mg_is_url_safe c then do { buf \<leftarrow> wr buf n c; url_encode_loop s buf (n + 1) }
      else do {
        buf \<leftarrow> wr buf n 37;
        buf \<leftarrow> hex_loop [c] buf (n + 1);
        url_encode_loop s buf (n + 3) })"

definition mg_url_encode :: "bytes \<Rightarrow> bytes \<Rightarrow> (bytes \<times> nat) option" where
  "mg_url_encode s buf = do {
     (buf, r) \<leftarrow> url_encode_loop s buf 0;
     case r of
       Inl _ \<Rightarrow> Some (buf, 0)
     | Inr n \<Rightarrow> do {
         buf \<leftarrow> (if length buf > 0 \<and> n < length buf - 1 then wr buf n 0 else Some buf);
         buf \<leftarrow> (if length buf > 0 then wr buf (length buf - 1) 0 else Some buf);
         Some (buf, n) } }"

text \<open>
  \<open>mg_http_var\<close> compares \<open>name\<close> and \<open>k\<close> only when they have the same length; the outer option
  is memory safety, the inner one the null result.
\<close>

function mg_http_var :: "bytes \<Rightarrow> bytes \<Rightarrow> bytes option option" where
  "mg_http_var buf name =
     (let (ok, k, v, buf') = mg_split buf 38 in
      if \<not> ok then Some None
      else if length name = length k then do {
        r \<leftarrow> mg_ncasecmp name k (length k);
        if r = 0 then Some (Some v) else mg_http_var buf' name }
      else mg_http_var buf' name)"
  by pat_completeness auto
termination
  by (relation "measure (\<lambda>(buf, name). length buf)")
     (auto simp: mg_split_def mg_nce_def Let_def split: if_splits)

declare mg_http_var.simps [simp del]

text \<open>A source, name or destination that is a null pointer is \<open>None\<close>.\<close>

definition mg_http_get_var :: "bytes option \<Rightarrow> bytes option \<Rightarrow> bytes option \<Rightarrow> (bytes option \<times> int) option" where
  "mg_http_get_var buf name dst =
     (case dst of
        None \<Rightarrow> Some (None, -2)
      | Some d \<Rightarrow>
          if length d = 0 then Some (dst, -2)
          else if buf = None \<or> name = None \<or> the buf = [] then do { d \<leftarrow> wr d 0 0; Some (Some d, -1) }
          else do {
            v \<leftarrow> mg_http_var (the buf) (the name);
            case v of
              None \<Rightarrow> Some (dst, -4)
            | Some v \<Rightarrow> do {
                (d, len) \<leftarrow> mg_url_decode v d True;
                Some (Some d, if len < 0 then -3 else len) } })"

definition stripquotes :: "bytes \<Rightarrow> bytes" where
  "stripquotes s =
     (if length s > 1 \<and> s ! 0 = 34 \<and> s ! (length s - 1) = 34 then span s 1 (length s - 2) else s)"

text \<open>The inner \<open>while\<close>: how far a value extends from offset \<open>b\<close>, quoted or not.\<close>

fun value_end :: "bytes \<Rightarrow> nat \<Rightarrow> bool \<Rightarrow> nat \<Rightarrow> nat \<Rightarrow> nat" where
  "value_end s b q p 0 = p"
| "value_end s b q p (Suc k) =
     (if p < length s \<and> (if q then p = b \<or> s ! p \<noteq> 34 else s ! p \<noteq> 59 \<and> s ! p \<noteq> 32 \<and> s ! p \<noteq> 44)
      then value_end s b q (p + 1) k else p)"

fun header_var_loop :: "nat \<Rightarrow> bytes \<Rightarrow> bytes \<Rightarrow> nat \<Rightarrow> bytes option" where
  "header_var_loop 0 s v i = None"
| "header_var_loop (Suc fuel) s v i =
     (if length v > 0 \<and> i + length v + 2 < length s then
        (if s ! (i + length v) = 61 \<and> span s i (length v) = v then
           let b = i + length v + 1;
               q = b < length s \<and> s ! b = 34;
               p = value_end s b q b (length s - b)
           in Some (stripquotes (span s b (p - b + (if q then 1 else 0))))
         else header_var_loop fuel s v (i + 1))
      else None)"

definition mg_http_get_header_var :: "bytes \<Rightarrow> bytes \<Rightarrow> bytes option" where
  "mg_http_get_header_var s v = header_var_loop (length s + 1) s v 0"

section \<open>Decimal sizes\<close>

text \<open>What a run of digits is worth, stopping where the code gives up.\<close>

lemma digit_sint_conv: "(48 \<le> sint c \<and> sint c \<le> 57) = is_digit c"
proof
  assume "48 \<le> sint c \<and> sint c \<le> 57"
  moreover have "48 \<le> i \<and> i \<le> 57 \<Longrightarrow> i = 48 \<or> i = 49 \<or> i = 50 \<or> i = 51 \<or> i = 52 \<or>
      i = 53 \<or> i = 54 \<or> i = 55 \<or> i = 56 \<or> i = 57" for i :: int by presburger
  ultimately have "sint c = 48 \<or> sint c = 49 \<or> sint c = 50 \<or> sint c = 51 \<or> sint c = 52 \<or>
      sint c = 53 \<or> sint c = 54 \<or> sint c = 55 \<or> sint c = 56 \<or> sint c = 57" by blast
  moreover have "c = word_of_int (sint c)" by simp
  ultimately have "c \<in> {48, 49, 50, 51, 52, 53, 54, 55, 56, 57}"
    by (elim disjE) (simp_all only: insert_iff, simp_all)
  then show "is_digit c" by (auto simp: is_digit_def)
qed (use digit_sint in auto)

lemma to_size_digits:
  assumes "\<forall>c \<in> set ds. is_digit c" "r = [] \<or> \<not> is_digit (hd r)"
    "foldl (\<lambda>a c. 10 * a + digit_val c) (unat v) ds div 10 \<le> 1844674407370955160 \<or> ds = []"
  shows "to_size_loop (ds @ r) v = Some (word_of_nat (foldl (\<lambda>a c. 10 * a + digit_val c) (unat v) ds))"
  using assms
proof (induction ds arbitrary: v)
  case Nil
  then show ?case by (cases r) (auto simp: digit_sint_conv)
next
  case (Cons c ds)
  let ?f = "foldl (\<lambda>a c. 10 * a + digit_val c)"
  have mono: "a \<le> ?f a xs" for a xs
  proof (induction xs arbitrary: a)
    case (Cons x xs)
    from this [of "10 * a + digit_val x"] show ?case by simp
  qed simp
  have c: "is_digit c" using Cons.prems by simp
  then have dv: "digit_val c \<le> 9" by (auto simp: digit_val_def is_digit_def word_le_nat_alt)
  have "10 * unat v + digit_val c \<le> ?f (unat v) (c # ds)" using mono by simp
  then have le: "unat v \<le> 1844674407370955160" using Cons.prems(3) by simp
  then have nv: "\<not> v > 1844674407370955160" by (simp add: word_less_nat_alt)
  let ?v = "v * 10 + word_of_int (sint c - 48)"
  have "?v = word_of_nat (10 * unat v + digit_val c)"
    using digit_sint [OF c] by (simp add: mult.commute)
  moreover have "10 * unat v + digit_val c < 2 ^ LENGTH(64)" using le dv by simp
  ultimately have uv: "unat ?v = 10 * unat v + digit_val c"
    by (simp only: unat_small)
  have 1: "to_size_loop ((c # ds) @ r) v = to_size_loop (ds @ r) ?v"
    using c nv digit_sint_conv [of c] by simp
  have "?f (unat ?v) ds div 10 \<le> 1844674407370955160 \<or> ds = []"
    unfolding uv using Cons.prems(3) by simp
  then have "to_size_loop (ds @ r) ?v = Some (word_of_nat (?f (unat ?v) ds))"
    using Cons.prems(1,2) by (intro Cons.IH) auto
  then show ?case unfolding 1 uv by simp
qed

lemma to_size_overflow:
  assumes "\<forall>c \<in> set ds. is_digit c" "ds \<noteq> []"
    "foldl (\<lambda>a c. 10 * a + digit_val c) (unat v) ds div 10 > 1844674407370955160"
  shows "to_size_loop (ds @ r) v = None"
  using assms
proof (induction ds arbitrary: v)
  case (Cons c ds)
  let ?f = "foldl (\<lambda>a c. 10 * a + digit_val c)"
  have c: "is_digit c" using Cons.prems by simp
  then have dv: "digit_val c \<le> 9" by (auto simp: digit_val_def is_digit_def word_le_nat_alt)
  let ?v = "v * 10 + word_of_int (sint c - 48)"
  show ?case
  proof (cases "v > 1844674407370955160")
    case True
    then show ?thesis using c digit_sint_conv [of c] by simp
  next
    case False
    then have le: "unat v \<le> 1844674407370955160" by (simp add: word_le_nat_alt not_less)
    have "?v = word_of_nat (10 * unat v + digit_val c)"
      using digit_sint [OF c] by (simp add: mult.commute)
    moreover have "10 * unat v + digit_val c < 2 ^ LENGTH(64)" using le dv by simp
    ultimately have uv: "unat ?v = 10 * unat v + digit_val c"
      by (simp only: unat_small)
    have "ds \<noteq> []" using Cons.prems(3) le dv by (cases ds) auto
    moreover have "?f (unat ?v) ds div 10 > 1844674407370955160"
      unfolding uv using Cons.prems(3) by simp
    ultimately have "to_size_loop (ds @ r) ?v = None"
      using Cons.prems(1) by (intro Cons.IH) auto
    then show ?thesis using c False digit_sint_conv [of c] by simp
  qed
qed simp

lemma mg_to_size_t_value:
  assumes "r = [] \<or> \<not> is_digit (hd r)"
  shows "mg_to_size_t (replicate k 32 @ dec_of n @ r) =
      (if n div 10 \<le> 1844674407370955160 then Some (word_of_nat n) else None)"
    "mg_to_size_t (replicate k 32 @ 45 # dec_of n) = None"
proof -
  obtain c t where ct: "dec_of n = c # t" using dec_of_props [of n] by (cases "dec_of n") auto
  then have "is_digit c" using dec_of_props [of n] by simp
  then have c: "c \<noteq> 32" "c \<noteq> 9" "c \<noteq> 45" by (auto simp: is_digit_def)
  have dw: "dropWhile (\<lambda>c. c = 32 \<or> c = 9) (replicate k 32 @ s) = dropWhile (\<lambda>c. c = 32 \<or> c = 9) s" for s :: bytes
    by (induction k) auto
  have v: "foldl (\<lambda>a c. 10 * a + digit_val c) (unat (0 :: u64)) (dec_of n) = n"
    using dec_of_props [of n] by (simp add: digits_val_def)
  have 1: "mg_to_size_t (replicate k 32 @ dec_of n @ r) = to_size_loop (dec_of n @ r) 0"
    using c by (simp add: mg_to_size_t_def dw ct)
  show "mg_to_size_t (replicate k 32 @ 45 # dec_of n) = None"
    by (simp add: mg_to_size_t_def dw)
  show "mg_to_size_t (replicate k 32 @ dec_of n @ r) =
      (if n div 10 \<le> 1844674407370955160 then Some (word_of_nat n) else None)"
    unfolding 1 using to_size_digits [of "dec_of n" r 0] to_size_overflow [of "dec_of n" 0 r] assms v dec_of_props [of n]
    by auto
qed

lemma size_bound: "n div 10 \<le> 1844674407370955160 \<Longrightarrow> n \<le> (18446744073709551609 :: nat)"
  using div_mult_mod_eq [of n 10] mod_less_divisor [of 10 n] by linarith

text \<open>
  C39.  Content-Length and Range numbers are read exactly or refused: after blanks, the decimal
  text of \<open>n\<close> yields \<open>n\<close> when n div 10 is at most (2 ^ 64 - 10) div 10, without wrap-around,
  and \<open>false\<close> otherwise; a leading minus sign is refused.
\<close>

theorem mg_to_size_t_correct:
  assumes "r = [] \<or> \<not> is_digit (hd r)"
  shows "mg_to_size_t (replicate k 32 @ dec_of n @ r) =
      (if n div 10 \<le> 1844674407370955160 then Some (word_of_nat n) else None) \<and>
    (n div 10 \<le> 1844674407370955160 \<longrightarrow> unat (word_of_nat n :: u64) = n) \<and>
    mg_to_size_t (replicate k 32 @ 45 # dec_of n) = None"
  using mg_to_size_t_value [OF assms, of k n] size_bound [of n] by (auto intro!: unat_small)

theorem mg_to_size_t_correct_witness:
  "mg_to_size_t (replicate 1 32 @ dec_of 1024 @ bs '';'') = Some 1024"
  using mg_to_size_t_correct [of "bs '';''" 1 1024] by (simp add: is_digit_def)

section \<open>Percent-encoding\<close>

lemma is_url_safe_not_special: "mg_is_url_safe c \<Longrightarrow> c \<noteq> 37 \<and> c \<noteq> 43"
  by (auto simp: mg_is_url_safe_def)

fun pct_spec :: "bytes \<Rightarrow> bytes" where
  "pct_spec [] = []"
| "pct_spec (c # s) =
     (if mg_is_url_safe c then c # pct_spec s
      else 37 # hex_char (drop_bit 4 c) # hex_char (c AND 15) # pct_spec s)"

lemma length_pct_spec: "length s \<le> length (pct_spec s) \<and> length (pct_spec s) \<le> 3 * length s"
  by (induction s) auto

lemma hex_char_isx: "n < 16 \<Longrightarrow> isx (hex_char (word_of_nat n))"
  unfolding nat_less_16 insert_iff empty_iff
  by (elim disjE FalseE) (simp_all add: hex_char_def hex_digits_def isx_def)

lemma hex_nibble_isx: "isx (hex_char (drop_bit 4 c))" "isx (hex_char (c AND 15))"
  using hex_char_isx [OF nibble_less(1), of c] hex_char_isx [OF nibble_less(2), of c] by simp_all

lemma url_encode_loop_spec:
  assumes "n + 3 * length s + 1 < length buf"
  shows "\<exists>buf'. url_encode_loop s buf n = Some (buf', Inr (n + length (pct_spec s))) \<and>
     length buf' = length buf \<and> take (n + length (pct_spec s)) buf' = take n buf @ pct_spec s"
  using assms
proof (induction s arbitrary: buf n)
  case (Cons c s)
  have room: "\<not> n + 4 \<ge> length buf" using Cons.prems by simp
  show ?case
  proof (cases "mg_is_url_safe c")
    case True
    have "n + 1 + 3 * length s + 1 < length (buf[n := c])" using Cons.prems by simp
    from Cons.IH [OF this] obtain b where b: "url_encode_loop s (buf[n := c]) (n + 1) =
          Some (b, Inr (n + 1 + length (pct_spec s)))" "length b = length buf"
        "take (n + 1 + length (pct_spec s)) b = take (n + 1) (buf[n := c]) @ pct_spec s" by auto
    then show ?thesis using True room by (simp add: take_Suc_conv_app_nth)
  next
    case False
    define d where "d = take (n + 1) (buf[n := 37]) @ hex_spec [c] @ 0 # drop (n + 4) (buf[n := 37])"
    have e: "Suc (Suc (Suc (Suc n))) = n + 4" by simp
    have h: "hex_loop [c] (buf[n := 37]) (n + 1) = Some d"
      using hex_loop_spec [of "n + 1" "[c]" "buf[n := 37]"] room by (simp add: d_def e del: hex_loop.simps)
    have ld: "length d = length buf" using room by (simp add: d_def)
    have td: "take (n + 3) d = take n buf @ 37 # hex_spec [c]"
      using room by (simp add: d_def take_Suc_conv_app_nth numeral_3_eq_3)
    have "n + 3 + 3 * length s + 1 < length d" using Cons.prems ld by simp
    from Cons.IH [OF this] obtain b where b: "url_encode_loop s d (n + 3) =
          Some (b, Inr (n + 3 + length (pct_spec s)))" "length b = length buf"
        "take (n + 3 + length (pct_spec s)) b = take (n + 3) d @ pct_spec s" using ld by auto
    then show ?thesis using False room h td by (simp add: numeral_3_eq_3)
  qed
qed simp

text \<open>Decoding the encoded text from any offset.\<close>

lemma url_decode_loop_spec:
  assumes "drop i src = pct_spec s" "i \<le> length src" "j + length s < length dst"
  shows "\<exists>dst'. url_decode_loop src dst form i j = Some (dst', Inr (length src, j + length s)) \<and>
     length dst' = length dst \<and> take (j + length s) dst' = take j dst @ s"
  using assms
proof (induction s arbitrary: i j dst)
  case Nil
  then show ?case by (subst url_decode_loop.simps) simp
next
  case (Cons c s)
  have i: "i < length src" "j + 1 < length dst" using Cons.prems by (auto simp: not_le [symmetric] split: if_splits)
  show ?case
  proof (cases "mg_is_url_safe c")
    case True
    then have d: "drop i src = c # pct_spec s" using Cons.prems(1) by simp
    then have n: "src ! i = c" "drop (i + 1) src = pct_spec s"
      using i by (metis hd_drop_conv_nth list.sel(1), metis drop_Suc list.sel(3) tl_drop Suc_eq_plus1)
    from Cons.IH [OF n(2), of "j + 1" "dst[j := c]"] i Cons.prems(3) obtain b where
      "url_decode_loop src (dst[j := c]) form (i + 1) (j + 1) = Some (b, Inr (length src, j + 1 + length s))"
      "length b = length dst" "take (j + 1 + length s) b = take (j + 1) (dst[j := c]) @ s" by auto
    then show ?thesis using i n(1) is_url_safe_not_special [OF True]
      by (subst url_decode_loop.simps) (simp add: take_Suc_conv_app_nth)
  next
    case False
    then have d: "drop i src = 37 # hex_char (drop_bit 4 c) # hex_char (c AND 15) # pct_spec s"
      using Cons.prems(1) by simp
    then have len: "i + 2 < length src"
    proof -
      have "length (drop i src) \<ge> 3" unfolding d by simp
      then show ?thesis by simp
    qed
    have nth: "src ! (i + k) = (drop i src) ! k" if "i + k < length src" for k
      using that by simp
    have n: "src ! i = 37" "src ! (i + 1) = hex_char (drop_bit 4 c)" "src ! (i + 2) = hex_char (c AND 15)"
      using nth [of 0] nth [of 1] nth [of 2] len unfolding d by simp_all
    have dr: "drop (i + 3) src = pct_spec s"
      using arg_cong [OF d, of "drop 3"] by (simp add: numeral_3_eq_3)
    obtain v where v: "mg_unhexn src (i + 1) 2 = Some v" "ucast v = c"
      using unhexn_pair [of "i + 1" src c] n len by auto
    from Cons.IH [OF dr, of "j + 1" "dst[j := c]"] len Cons.prems(3) obtain b where
      "url_decode_loop src (dst[j := c]) form (i + 3) (j + 1) = Some (b, Inr (length src, j + 1 + length s))"
      "length b = length dst" "take (j + 1 + length s) b = take (j + 1) (dst[j := c]) @ s" by auto
    then show ?thesis using i n len v hex_nibble_isx [of c]
      by (subst url_decode_loop.simps) (simp add: take_Suc_conv_app_nth)
  qed
qed

lemma url_decode_loop_safe:
  "\<exists>dst' r. url_decode_loop src dst form i j = Some (dst', r) \<and> length dst' = length dst \<and>
     (case r of Inl _ \<Rightarrow> True | Inr (i', j') \<Rightarrow> j' \<le> max j (length dst))"
proof (induction src dst form i j rule: url_decode_loop.induct)
  case (1 src dst form i j)
  show ?case
  proof (cases "i < length src \<and> j + 1 < length dst")
    case False
    then show ?thesis by (subst url_decode_loop.simps) auto
  next
    case run: True
    show ?thesis
    proof (cases "src ! i = 37")
      case pct: True
      show ?thesis
      proof (cases "i + 2 < length src \<and> isx (src ! (i + 1)) \<and> isx (src ! (i + 2))")
        case True
        then obtain v where v: "mg_unhexn src (i + 1) 2 = Some v"
          by (simp add: mg_unhexn_def numeral_2_eq_2)
        from 1(1) [OF run pct True v, of "dst[j := ucast v]"] run
        show ?thesis using v pct True by (subst url_decode_loop.simps) (auto simp: max_def split: sum.splits if_splits)
      next
        case False
        then show ?thesis using run pct by (subst url_decode_loop.simps) auto
      qed
    next
      case False
      from 1(2) [OF run False] run show ?thesis using False
        by (subst url_decode_loop.simps) (auto simp: max_def split: sum.splits if_splits)
    qed
  qed
qed

lemma url_encode_spec:
  assumes "3 * length s + 1 < length buf"
  shows "\<exists>buf'. mg_url_encode s buf = Some (buf', length (pct_spec s)) \<and> length buf' = length buf \<and>
     take (length (pct_spec s)) buf' = pct_spec s"
proof -
  obtain b where b: "url_encode_loop s buf 0 = Some (b, Inr (length (pct_spec s)))"
      "length b = length buf" "take (length (pct_spec s)) b = pct_spec s"
    using url_encode_loop_spec [of 0 s buf] assms by auto
  have "length (pct_spec s) < length buf - 1" using length_pct_spec [of s] assms by linarith
  moreover have "buf \<noteq> []" "b \<noteq> []" using assms b(2) by auto
  ultimately show ?thesis using b by (simp add: mg_url_encode_def)
qed

lemma url_decode_spec:
  assumes "length s < length dst" "length s < 2 ^ 31"
  shows "\<exists>dst'. mg_url_decode (pct_spec s) dst form = Some (dst', int (length s)) \<and>
     length dst' = length dst \<and> take (length s) dst' = s \<and> dst' ! length s = 0"
proof -
  obtain d where "url_decode_loop (pct_spec s) dst form 0 0 = Some (d, Inr (length (pct_spec s), length s))"
      "length d = length dst" "take (length s) d = s"
    using url_decode_loop_spec [of 0 "pct_spec s" s 0 dst form] assms by auto
  with assms show ?thesis by (simp add: mg_url_decode_def)
qed

definition url_encode_bytes :: "bytes \<Rightarrow> bytes" where
  "url_encode_bytes s =
     (case mg_url_encode s (replicate (3 * length s + 2) 0) of Some (b, n) \<Rightarrow> take n b | None \<Rightarrow> [])"

definition url_decode_bytes :: "bytes \<Rightarrow> bytes option" where
  "url_decode_bytes s = do {
     (d, n) \<leftarrow> mg_url_decode s (replicate (length s + 1) 0) False;
     if n < 0 then None else Some (take (nat n) d) }"

lemma url_encode_bytes_spec: "url_encode_bytes s = pct_spec s"
  using url_encode_spec [of s "replicate (3 * length s + 2) 0"] by (auto simp: url_encode_bytes_def)

interpretation urlenc: codec url_encode_bytes url_decode_bytes "\<lambda>s. length s < 2 ^ 31"
proof
  fix s :: bytes
  assume n: "length s < 2 ^ 31"
  have "length s < length (replicate (length (pct_spec s) + 1) (0 :: u8))"
    using length_pct_spec [of s] by simp
  from url_decode_spec [OF this n, of False]
  show "url_decode_bytes (url_encode_bytes s) = Some s"
    by (auto simp: url_decode_bytes_def url_encode_bytes_spec)
qed

text \<open>
  Percent-encoding round trip: with a buffer of more than 3n + 1 bytes \<open>mg_url_encode\<close> stays
  inside it, and decoding its output, as a form value or not, returns the original n bytes,
  zero-terminated, in any destination of more than n bytes; the length is returned as an \<open>int\<close>,
  so n is below 2 ^ 31.
\<close>

theorem url_encode_decode:
  assumes "3 * length s + 1 < length buf" "length s < length dst" "length s < 2 ^ 31"
  shows "\<exists>buf' n dst'. mg_url_encode s buf = Some (buf', n) \<and> length buf' = length buf \<and>
     mg_url_decode (take n buf') dst form = Some (dst', int (length s)) \<and>
     take (length s) dst' = s \<and> dst' ! length s = 0"
  using url_encode_spec [OF assms(1)] url_decode_spec [OF assms(2,3), of form] by metis

theorem url_encode_decode_witness:
  "\<exists>buf' n dst'. mg_url_encode (bs ''a b&c'') (replicate 20 0) = Some (buf', n) \<and>
     mg_url_decode (take n buf') (replicate 6 1) True = Some (dst', 5) \<and> take 5 dst' = bs ''a b&c''"
  using url_encode_decode [of "bs ''a b&c''" "replicate 20 0" "replicate 6 1" True] by (auto simp: small_Sucs)

text \<open>
  Decoding any bytes, well-formed or not, never reads outside the source nor writes outside
  the destination, however long both are; with a destination of at most 2 ^ 31 bytes the result is -1
  or the length of a zero-terminated string inside it.  (In a longer one the length may not fit in
  the \<open>int\<close> returned, and \<open>(int) j\<close> keeps its low 32 bits.)
\<close>

theorem url_decode_safe:
  "\<exists>dst' n. mg_url_decode src dst form = Some (dst', n) \<and> length dst' = length dst \<and>
     (length dst \<le> 2 ^ 31 \<longrightarrow> n = -1 \<or> 0 \<le> n \<and> nat n < length dst \<and> dst' ! nat n = 0)"
proof -
  obtain d r where d: "url_decode_loop src dst form 0 0 = Some (d, r)" "length d = length dst"
    using url_decode_loop_safe [of src dst form 0 0] by auto
  then show ?thesis
    by (cases r) (auto simp: mg_url_decode_def split: prod.splits)
qed

section \<open>Forms\<close>

lemma ncasecmp_exact:
  "0 \<notin> set t \<Longrightarrow> n \<le> length s \<Longrightarrow> n \<le> length t \<Longrightarrow>
     \<exists>r. mg_ncasecmp s t n = Some r \<and> (r = 0 \<longleftrightarrow> map mg_lower (take n s) = map mg_lower (take n t))"
proof (induction n arbitrary: s t)
  case (Suc n)
  then obtain a s' b t' where st: "s = a # s'" "t = b # t'"
    by (metis Suc_le_length_iff)
  have "mg_lower a = mg_lower b \<Longrightarrow> a \<noteq> 0"
    using Suc.prems(1) st mg_lower_0_iff [of a] mg_lower_0_iff [of b] by auto
  with st Suc.prems Suc.IH [of t' s'] show ?case by (auto simp: Let_def)
qed simp

definition same_name :: "bytes \<Rightarrow> bytes \<times> bytes \<Rightarrow> bool" where
  "same_name name kv \<longleftrightarrow> map mg_lower (fst kv) = map mg_lower name"

lemma http_var_step:
  assumes "mg_split s 38 = (True, k, v, s')" "0 \<notin> set k"
  shows "mg_http_var s name = (if same_name name (k, v) then Some (Some v) else mg_http_var s' name)"
proof (cases "length name = length k")
  case True
  then obtain r where "mg_ncasecmp name k (length k) = Some r" "r = 0 \<longleftrightarrow> same_name name (k, v)"
    using ncasecmp_exact [OF assms(2), of "length k" name] by (auto simp: same_name_def)
  then show ?thesis using True by (subst mg_http_var.simps) (simp add: assms)
next
  case False
  then have "\<not> same_name name (k, v)" by (auto simp: same_name_def dest: map_eq_imp_length_eq)
  then show ?thesis using False by (subst mg_http_var.simps) (simp add: assms)
qed

lemma http_var_nil: "mg_http_var [] name = Some None"
  by (subst mg_http_var.simps) (simp add: mg_split_def)

lemma http_var_join:
  assumes "\<forall>(k, v) \<in> set kvs. 61 \<notin> set k \<and> 38 \<notin> set k \<and> 0 \<notin> set k \<and> 38 \<notin> set v"
  shows "mg_http_var (join 38 (map kv_pair kvs)) name = Some (map_option snd (find (same_name name) kvs))"
  using assms
proof (induction kvs rule: induct_list012)
  case 1
  then show ?case by (simp add: http_var_nil)
next
  case (2 kv)
  then have "mg_split (kv_pair kv @ []) 38 = (True, fst kv, snd kv, [])"
    using mg_split_pair [of "fst kv" 38 "snd kv" "[]"] by (auto split: prod.splits)
  from http_var_step [OF this, of name] 2 show ?case
    by (auto simp: http_var_nil split: prod.splits)
next
  case (3 kv kw kvs)
  let ?r = "join 38 (map kv_pair (kw # kvs))"
  have "mg_split (kv_pair kv @ 38 # ?r) 38 = (True, fst kv, snd kv, ?r)"
    using mg_split_pair [of "fst kv" 38 "snd kv" "38 # ?r"] 3(3) by (auto split: prod.splits)
  from http_var_step [OF this, of name] 3 show ?case by (auto split: prod.splits)
qed

lemma pct_spec_clean: "38 \<notin> set (pct_spec s)"
proof (induction s)
  case (Cons c s)
  have h: "hex_char (word_of_nat n) \<noteq> 38" if "n < 16" for n
    using that unfolding nat_less_16 insert_iff empty_iff
    by (elim disjE FalseE) (simp_all add: hex_char_def hex_digits_def)
  have "hex_char (drop_bit 4 c) \<noteq> 38" "hex_char (c AND 15) \<noteq> 38"
    using h [OF nibble_less(1), of c] h [OF nibble_less(2), of c] by simp_all
  with Cons show ?case by (auto simp: mg_is_url_safe_def)
qed simp

text \<open>
  C37.  Reading a submitted form: when the values of a form are percent-encoded and joined with
  \<open>&\<close>, \<open>mg_http_get_var\<close> returns exactly the original bytes of the first variable whose name
  agrees up to case, and -4 when there is none.  The values are shorter than the destination and
  than 2 ^ 31, the range of the \<open>int\<close> in which their length is returned.
\<close>

theorem http_form_lookup:
  assumes "kvs \<noteq> []" "\<forall>(k, v) \<in> set kvs. 61 \<notin> set k \<and> 38 \<notin> set k \<and> 0 \<notin> set k"
    "\<forall>(k, v) \<in> set kvs. length v < length dst \<and> length v < 2 ^ 31"
  shows "\<exists>dst'. mg_http_get_var (Some (join 38 (map (\<lambda>(k, v). kv_pair (k, url_encode_bytes v)) kvs))) (Some name) (Some dst) =
      Some (Some dst', case find (same_name name) kvs of None \<Rightarrow> -4 | Some (k, v) \<Rightarrow> int (length v)) \<and>
      (case find (same_name name) kvs of None \<Rightarrow> dst' = dst | Some (k, v) \<Rightarrow> take (length v) dst' = v)"
proof -
  let ?e = "map (\<lambda>(k, v). (k, pct_spec v)) kvs"
  have m: "map (\<lambda>(k, v). kv_pair (k, url_encode_bytes v)) kvs = map kv_pair ?e"
    by (simp add: url_encode_bytes_spec split_def)
  have "mg_http_var (join 38 (map kv_pair ?e)) name = Some (map_option snd (find (same_name name) ?e))"
    using assms(2) pct_spec_clean by (intro http_var_join) auto
  moreover have "find (same_name name) ?e = map_option (\<lambda>(k, v). (k, pct_spec v)) (find (same_name name) kvs)"
    by (induction kvs) (auto simp: same_name_def)
  moreover have "join 38 (map kv_pair ?e) \<noteq> []"
    using assms(1) by (cases kvs rule: remdups_adj.cases) (auto simp: kv_pair_def)
  moreover have "dst \<noteq> []" using assms(1,3) by (cases kvs) auto
  moreover have "(k, v) \<in> set kvs" if "find (same_name name) kvs = Some (k, v)" for k v
    using that by (auto simp: find_Some_iff)
  ultimately show ?thesis
    unfolding m using assms(3) url_decode_spec [of _ dst True]
    by (cases "find (same_name name) kvs") (fastforce simp: mg_http_get_var_def)+
qed

theorem http_form_lookup_witness:
  "\<exists>dst'. mg_http_get_var (Some (join 38 (map (\<lambda>(k, v). kv_pair (k, url_encode_bytes v))
      [(bs ''ip'', bs ''10.0.0.1''), (bs ''Name'', bs ''cam 1'')]))) (Some (bs ''name'')) (Some (replicate 20 0)) =
      Some (Some dst', 5) \<and> take 5 dst' = bs ''cam 1''"
  using http_form_lookup [of "[(bs ''ip'', bs ''10.0.0.1''), (bs ''Name'', bs ''cam 1'')]" "replicate 20 0" "bs ''name''"]
  by (auto simp: same_name_def mg_lower_def small_Sucs)

end
