(* ===== verification/Mg_Http_Parse.thy ===== *)
theory Mg_Http_Parse
  imports Mg_Http_Codec
begin

text \<open>
  The HTTP message parser of \<open>src/http.c\<close>: finding the end of the head, the request line, the
  headers, and the lengths of body and message.  A \<open>struct mg_str\<close> into the head is its bytes;
  the body starts right behind the head, so only lengths are kept for it.  \<open>size_t\<close> lengths are
  64-bit words, with \<open>(size_t) ~0\<close> for "until the connection closes".  The length of the head is an
  \<open>int\<close>, cut to 32 bits by the code's cast; the outermost \<open>None\<close> of a result is its overflow.
\<close>

section \<open>The code\<close>

definition isok :: "u8 \<Rightarrow> bool" where
  "isok c \<longleftrightarrow> c = 10 \<or> c = 13 \<or> c \<ge> 32"

function reqlen_loop :: "bytes \<Rightarrow> nat \<Rightarrow> int option" where
  "reqlen_loop buf i =
     (if i < length buf then
        if \<not> isok (buf ! i) then Some (-1)
        else if (i > 0 \<and> buf ! i = 10 \<and> buf ! (i - 1) = 10) \<or>
                (i > 3 \<and> buf ! i = 10 \<and> buf ! (i - 1) = 13 \<and> buf ! (i - 2) = 10) then int32 (int_cast i + 1)
        else reqlen_loop buf (i + 1)
      else Some 0)"
  by pat_completeness auto
termination by (relation "measure (\<lambda>(buf, i). length buf - i)") auto

declare reqlen_loop.simps [simp del]

definition mg_http_get_request_len :: "bytes \<Rightarrow> int option" where
  "mg_http_get_request_len buf = reqlen_loop buf 0"

text \<open>\<open>strchr(d, c) != NULL\<close>, which also holds for the terminating zero of \<open>d\<close>.\<close>

definition strchr :: "bytes \<Rightarrow> u8 \<Rightarrow> bool" where
  "strchr d c \<longleftrightarrow> c = 0 \<or> c \<in> set d"

text \<open>
  \<open>skip\<close> on the bytes from \<open>s\<close> to \<open>e\<close>: the token before a delimiter or line feed, and the bytes
  after the delimiters that follow it.
\<close>

definition skip :: "bytes \<Rightarrow> bytes \<Rightarrow> bytes \<times> bytes" where
  "skip d s =
     (takeWhile (\<lambda>c. c \<noteq> 10 \<and> \<not> strchr d c) s,
      dropWhile (strchr d) (dropWhile (\<lambda>c. c \<noteq> 10 \<and> \<not> strchr d c) s))"

record http_message =
  req_method :: bytes
  uri :: bytes
  query :: bytes
  proto :: bytes
  headers :: "(bytes \<times> bytes) list"
  head_len :: nat
  body_len :: u64
  message_len :: u64

definition MG_MAX_HTTP_HEADERS :: nat where "MG_MAX_HTTP_HEADERS = 30"

fun get_header_loop :: "(bytes \<times> bytes) list \<Rightarrow> bytes \<Rightarrow> bytes option" where
  "get_header_loop [] name = None"
| "get_header_loop ((k, v) # hs) name =
     (if length k = 0 then None
      else if length name = length k \<and> mg_ncasecmp k name (length name) = Some 0 then Some v
      else get_header_loop hs name)"

definition mg_http_get_header :: "http_message \<Rightarrow> bytes \<Rightarrow> bytes option" where
  "mg_http_get_header hm name = get_header_loop (headers hm) name"

definition trim_end :: "bytes \<Rightarrow> bytes" where
  "trim_end v = rev (dropWhile (\<lambda>c. c = 32) (rev v))"

text \<open>
  The header loop, for the slots \<open>i .. max_headers - 1\<close>: \<open>None\<close> is the result \<open>false\<close>, and a
  line without a delimiter leaves its slot empty.
\<close>

fun parse_headers_loop :: "bytes \<Rightarrow> nat \<Rightarrow> nat \<Rightarrow> (bytes \<times> bytes) list \<Rightarrow> (bytes \<times> bytes) list option" where
  "parse_headers_loop s i 0 h = Some h"
| "parse_headers_loop s i (Suc left) h =
     (let (tmp, after) = skip [13, 10] s;
          line = take (length s - length after) s
      in if length tmp = 0 then Some h
         else let (k, line1) = skip [58, 32, 13, 10] line;
                  (v, line2) = skip [13, 10] line1;
                  s' = line2 @ after
              in if length k = length tmp then parse_headers_loop s' (i + 1) left h
                 else if length k = 0 then None
                 else parse_headers_loop s' (i + 1) left (h[i := (k, trim_end v)]))"

definition mg_http_parse_headers :: "bytes \<Rightarrow> nat \<Rightarrow> (bytes \<times> bytes) list option" where
  "mg_http_parse_headers s max_headers =
     parse_headers_loop s 0 max_headers (replicate max_headers ([], []))"

definition SIZE_MAX :: u64 where "SIZE_MAX = - 1"

text \<open>The \<open>Content-Length\<close> step (\<open>None\<close> is the \<open>return -1\<close>) and the two rules after it.\<close>

definition http_set_length :: "http_message \<Rightarrow> http_message option" where
  "http_set_length hm =
     (case mg_http_get_header hm (bs ''Content-Length'') of
        None \<Rightarrow> Some hm
      | Some cl \<Rightarrow>
          (case mg_to_size_t cl of
             None \<Rightarrow> None
           | Some b \<Rightarrow> Some (hm\<lparr>body_len := b, message_len := of_nat (head_len hm) + b\<rparr>)))"

definition http_body_rules :: "bytes \<Rightarrow> http_message \<Rightarrow> http_message" where
  "http_body_rules s hm =
     (let is_response = (mg_ncasecmp s (bs ''HTTP/'' @ [0]) 5 = Some 0);
          hm = (if body_len hm = SIZE_MAX \<and> \<not> is_response \<and>
                   mg_vcasecmp (req_method hm) (bs ''PUT'' @ [0]) \<noteq> Some 0 \<and>
                   mg_vcasecmp (req_method hm) (bs ''POST'' @ [0]) \<noteq> Some 0
                then hm\<lparr>body_len := 0, message_len := of_nat (head_len hm)\<rparr> else hm)
      in (if body_len hm = SIZE_MAX \<and> is_response \<and> mg_vcasecmp (uri hm) (bs ''204'' @ [0]) = Some 0
          then hm\<lparr>body_len := 0, message_len := of_nat (head_len hm)\<rparr> else hm))"

text \<open>The result is the \<open>int\<close> the code returns and, when it is positive, the message.\<close>

definition mg_http_parse :: "bytes \<Rightarrow> (int \<times> http_message option) option" where
  "mg_http_parse s = do {
     req_len \<leftarrow> mg_http_get_request_len s;
     Some (if req_len \<le> 0 then (req_len, None)
      else
        let n = nat req_len;
            (meth, r1) = skip [32] (take n s);
            (u, r2) = skip [32] r1;
            (prot, r3) = skip [13, 10] r2
        in if length meth = 0 \<or> length u = 0 then (-1, None)
        else
          let q = (if 63 \<in> set u then tl (dropWhile (\<lambda>c. c \<noteq> 63) u) else []);
              u = (if 63 \<in> set u then takeWhile (\<lambda>c. c \<noteq> 63) u else u)
          in case mg_http_parse_headers r3 MG_MAX_HTTP_HEADERS of
               None \<Rightarrow> (-1, None)
             | Some hs \<Rightarrow>
                 (case http_set_length
                         \<lparr>req_method = meth, uri = u, query = q, proto = prot, headers = hs, head_len = n,
                          body_len = SIZE_MAX, message_len = SIZE_MAX\<rparr> of
                    None \<Rightarrow> (-1, None)
                  | Some hm \<Rightarrow> (req_len, Some (http_body_rules s hm)))) }"

section \<open>The end of the head\<close>

definition CRLF :: bytes where "CRLF = [13, 10]"

text \<open>Text that may stand in a line.\<close>

definition visible :: "bytes \<Rightarrow> bool" where
  "visible s \<longleftrightarrow> (\<forall>c \<in> set s. 32 \<le> c)"

lemma visible_nth: "visible s \<Longrightarrow> i < length s \<Longrightarrow> s ! i \<noteq> 10 \<and> s ! i \<noteq> 13 \<and> s ! i \<noteq> 0 \<and> isok (s ! i)"
proof -
  assume "visible s" "i < length s"
  then have "32 \<le> s ! i" by (simp add: visible_def)
  then show ?thesis by (auto simp: isok_def)
qed

lemma reqlen_text:
  assumes "visible w"
  shows "reqlen_loop (pre @ w @ r) (length pre) = reqlen_loop (pre @ w @ r) (length pre + length w)"
  using assms
proof (induction w arbitrary: pre)
  case (Cons c w)
  then have c: "c \<noteq> 10" "isok c" "visible w" by (auto simp: visible_def isok_def)
  have "reqlen_loop (pre @ (c # w) @ r) (length pre) = reqlen_loop (pre @ (c # w) @ r) (length pre + 1)"
    using c by (subst reqlen_loop.simps) simp
  also have "\<dots> = reqlen_loop (pre @ (c # w) @ r) (length pre + length (c # w))"
    using Cons.IH [OF c(3), of "pre @ [c]"] by simp
  finally show ?case .
qed simp

lemma reqlen_line:
  assumes "visible w" "w \<noteq> []"
  shows "reqlen_loop (pre @ w @ CRLF @ r) (length pre) =
     reqlen_loop (pre @ w @ CRLF @ r) (length (pre @ w @ CRLF))"
proof -
  let ?b = "pre @ w @ CRLF @ r" and ?n = "length pre + length w"
  have "reqlen_loop ?b (length pre) = reqlen_loop ?b ?n" by (rule reqlen_text [OF assms(1)])
  also have "\<dots> = reqlen_loop ?b (?n + 1)"
    by (subst reqlen_loop.simps) (simp add: CRLF_def nth_append isok_def)
  also have "\<dots> = reqlen_loop ?b (?n + 2)"
  proof -
    have "?b ! (?n + 1) = 10" "?b ! ?n = 13" by (simp_all add: CRLF_def nth_append)
    moreover have "?b ! (?n - 1) \<noteq> 10"
      using assms visible_nth [OF assms(1), of "length w - 1"] by (cases w rule: rev_cases) (auto simp: nth_append)
    ultimately show ?thesis by (subst reqlen_loop.simps) (simp add: CRLF_def isok_def)
  qed
  finally show ?thesis by (simp add: CRLF_def)
qed

lemma reqlen_lines:
  assumes "\<forall>w \<in> set ws. visible w \<and> w \<noteq> []"
  shows "reqlen_loop (pre @ concat (map (\<lambda>w. w @ CRLF) ws) @ r) (length pre) =
     reqlen_loop (pre @ concat (map (\<lambda>w. w @ CRLF) ws) @ r) (length (pre @ concat (map (\<lambda>w. w @ CRLF) ws)))"
  using assms
proof (induction ws arbitrary: pre)
  case (Cons w ws)
  from reqlen_line [of w pre "concat (map (\<lambda>w. w @ CRLF) ws) @ r"] Cons.IH [of "pre @ w @ CRLF"] Cons.prems
  show ?case by simp
qed simp

lemma request_len_head:
  assumes "\<forall>w \<in> set ws. visible w \<and> w \<noteq> []" "length ws > 0" "\<exists>w \<in> set ws. length w > 1"
    "length (concat (map (\<lambda>w. w @ CRLF) ws)) + 2 < 2 ^ 31"
  shows "mg_http_get_request_len (concat (map (\<lambda>w. w @ CRLF) ws) @ CRLF @ body) =
     Some (int (length (concat (map (\<lambda>w. w @ CRLF) ws)) + 2))"
proof -
  let ?h = "concat (map (\<lambda>w. w @ CRLF) ws)" and ?b = "concat (map (\<lambda>w. w @ CRLF) ws) @ CRLF @ body"
  let ?n = "length ?h"
  obtain ws' w where ws: "ws = ws' @ [w]" using assms(2) by (cases ws rule: rev_cases) auto
  define x where "x = concat (map (\<lambda>w. w @ CRLF) ws') @ w @ [13]"
  have h: "?h = x @ [10]" by (simp add: ws x_def CRLF_def)
  have n2: "?n > 2"
  proof -
    obtain v where "v \<in> set ws" "length v > 1" using assms(3) by blast
    then have "length v + 2 \<le> ?n"
      using member_le_sum_list [of "length v + 2" "map (\<lambda>w. length (w @ CRLF)) ws"]
      by (auto simp: length_concat CRLF_def comp_def)
    with \<open>length v > 1\<close> show ?thesis by simp
  qed
  have "mg_http_get_request_len ?b = reqlen_loop ?b ?n"
    using reqlen_lines [OF assms(1), of "[]" "CRLF @ body"] by (simp add: mg_http_get_request_len_def)
  also have "\<dots> = reqlen_loop ?b (?n + 1)"
    by (subst reqlen_loop.simps) (simp add: CRLF_def nth_append isok_def)
  also have "\<dots> = Some (int ?n + 2)"
  proof -
    have "?b ! (?n - 1) = 10" unfolding h by (simp add: nth_append)
    moreover have "?b ! ?n = 13" "?b ! (?n + 1) = 10" by (simp_all add: CRLF_def nth_append)
    moreover have "int_cast (?n + 1) = int (?n + 1)" using assms(4) by (intro int_cast_small) simp
    moreover have "int32 (int (?n + 1) + 1) = Some (int (?n + 1) + 1)" using assms(4) by (intro int32_Some) auto
    ultimately show ?thesis using n2 by (subst reqlen_loop.simps) (simp add: CRLF_def isok_def)
  qed
  finally show ?thesis by simp
qed

section \<open>Requests by their parts\<close>

record request =
  r_method :: bytes
  r_uri :: bytes
  r_proto :: bytes
  r_headers :: "(bytes \<times> bytes) list"

definition header_line :: "bytes \<times> bytes \<Rightarrow> bytes" where
  "header_line h = fst h @ [58, 32] @ snd h"

definition request_lines :: "request \<Rightarrow> bytes list" where
  "request_lines r = (r_method r @ [32] @ r_uri r @ [32] @ r_proto r) # map header_line (r_headers r)"

definition request_head :: "request \<Rightarrow> bytes" where
  "request_head r = concat (map (\<lambda>w. w @ CRLF) (request_lines r)) @ CRLF"

definition header_ok :: "bytes \<times> bytes \<Rightarrow> bool" where
  "header_ok h \<longleftrightarrow> fst h \<noteq> [] \<and> visible (fst h) \<and> 58 \<notin> set (fst h) \<and> 32 \<notin> set (fst h) \<and> visible (snd h) \<and>
     (snd h \<noteq> [] \<longrightarrow> hd (snd h) \<noteq> 58 \<and> hd (snd h) \<noteq> 32)"

text \<open>A header as the parser keeps it: spaces behind the value are cut off.\<close>

definition kept_header :: "bytes \<times> bytes \<Rightarrow> bytes \<times> bytes" where
  "kept_header h = (fst h, trim_end (snd h))"

definition request_ok :: "request \<Rightarrow> bool" where
  "request_ok r \<longleftrightarrow> r_method r \<noteq> [] \<and> visible (r_method r) \<and> 32 \<notin> set (r_method r) \<and>
     r_uri r \<noteq> [] \<and> visible (r_uri r) \<and> 32 \<notin> set (r_uri r) \<and>
     r_proto r \<noteq> [] \<and> visible (r_proto r) \<and> hd (r_proto r) \<noteq> 32 \<and>
     (\<forall>h \<in> set (r_headers r). header_ok h) \<and> length (r_headers r) \<le> MG_MAX_HTTP_HEADERS"

lemma skip_token:
  assumes "\<forall>c \<in> set w. c \<noteq> 10 \<and> \<not> strchr d c" "\<forall>c \<in> set sep. strchr d c" "r = [] \<or> \<not> strchr d (hd r)"
    "sep \<noteq> [] \<or> r = []"
  shows "skip d (w @ sep @ r) = (w, r)"
proof -
  have 1: "takeWhile (\<lambda>c. c \<noteq> 10 \<and> \<not> strchr d c) (w @ sep @ r) = w"
    using assms by (cases sep) (auto simp: takeWhile_append)
  have 2: "dropWhile (\<lambda>c. c \<noteq> 10 \<and> \<not> strchr d c) (w @ sep @ r) = sep @ r"
    using assms by (cases sep) (auto simp: dropWhile_append)
  have 3: "dropWhile (strchr d) (sep @ r) = r"
    using assms(2,3) by (cases r) (auto simp: dropWhile_append)
  show ?thesis by (simp add: skip_def 1 2 3)
qed

lemma visible_no: "visible w \<Longrightarrow> c \<in> set w \<Longrightarrow> c \<noteq> 10 \<and> c \<noteq> 13 \<and> c \<noteq> 0"
  by (auto simp: visible_def)

lemma trim_end_id: "v = [] \<or> last v \<noteq> 32 \<Longrightarrow> trim_end v = v"
  by (cases v rule: rev_cases) (auto simp: trim_end_def)

definition after_line :: "(bytes \<times> bytes) list \<Rightarrow> bytes" where
  "after_line hs = (if hs = [] then [] else concat (map (\<lambda>h. header_line h @ CRLF) hs) @ CRLF)"

lemma after_line_hd: "\<forall>h \<in> set hs. header_ok h \<Longrightarrow> after_line hs = [] \<or> \<not> strchr [13, 10] (hd (after_line hs))"
proof (cases hs)
  case (Cons h t)
  assume "\<forall>h \<in> set hs. header_ok h"
  then have "fst h \<noteq> []" "visible (fst h)" using Cons by (auto simp: header_ok_def)
  then have "\<not> strchr [13, 10] (hd (fst h))" using visible_no [of "fst h" "hd (fst h)"] by (simp add: strchr_def)
  then show ?thesis using Cons \<open>fst h \<noteq> []\<close> by (simp add: after_line_def header_line_def)
qed (simp add: after_line_def)

text \<open>One header line: the line itself, then its name and its value.\<close>

lemma header_line_read:
  assumes "header_ok (k, v)" "crs = (if hs = [] then CRLF @ CRLF else CRLF)" "\<forall>h \<in> set hs. header_ok h"
  shows "skip [13, 10] (after_line ((k, v) # hs)) = (k @ [58, 32] @ v, after_line hs)"
    "take (length (after_line ((k, v) # hs)) - length (after_line hs)) (after_line ((k, v) # hs)) = k @ [58, 32] @ v @ crs"
proof -
  have h: "k \<noteq> []" "visible k" "58 \<notin> set k" "32 \<notin> set k" "visible v" using assms(1) by (auto simp: header_ok_def)
  have crs: "\<forall>c \<in> set crs. strchr [13, 10] c" "crs \<noteq> []" by (auto simp: assms(2) CRLF_def strchr_def)
  have s: "after_line ((k, v) # hs) = (k @ [58, 32] @ v) @ crs @ after_line hs"
    by (simp add: after_line_def header_line_def assms(2))
  have vis: "visible (k @ [58, 32] @ v)" using h by (auto simp: visible_def)
  show "skip [13, 10] (after_line ((k, v) # hs)) = (k @ [58, 32] @ v, after_line hs)"
    unfolding s using vis visible_no after_line_hd [of hs] assms(3) crs
    by (intro skip_token) (auto simp: strchr_def)
  show "take (length (after_line ((k, v) # hs)) - length (after_line hs)) (after_line ((k, v) # hs)) = k @ [58, 32] @ v @ crs"
    unfolding s by simp
qed

lemma header_parts_read:
  assumes "header_ok (k, v)" "crs = (if hs = [] then CRLF @ CRLF else CRLF)"
  shows "\<exists>line. skip [58, 32, 13, 10] (k @ [58, 32] @ v @ crs) = (k, line) \<and> skip [13, 10] line = (v, [])"
proof -
  have h: "visible k" "58 \<notin> set k" "32 \<notin> set k" "visible v" "v \<noteq> [] \<Longrightarrow> hd v \<noteq> 58 \<and> hd v \<noteq> 32"
    using assms(1) by (auto simp: header_ok_def)
  have crs: "\<forall>c \<in> set crs. strchr [13, 10] c \<and> strchr [58, 32, 13, 10] c" "crs \<noteq> []"
    by (auto simp: assms(2) CRLF_def strchr_def)
  have kk: "\<forall>c \<in> set k. c \<noteq> 10 \<and> \<not> strchr [58, 32, 13, 10] c" using h visible_no [of k] by (auto simp: strchr_def)
  have sc: "strchr [58, 32, 13, 10] 58" "strchr [58, 32, 13, 10] 32" by (simp_all add: strchr_def)
  have vv: "\<forall>c \<in> set v. c \<noteq> 10 \<and> \<not> strchr [13, 10] c" using visible_no [OF h(4)] by (auto simp: strchr_def)
  show ?thesis
  proof (cases "v = []")
    case True
    have "skip [58, 32, 13, 10] (k @ ([58, 32] @ crs) @ []) = (k, [])"
      by (rule skip_token) (use kk crs sc in auto)
    moreover have "skip [13, 10] [] = ([], [])" by (simp add: skip_def)
    ultimately show ?thesis using True by simp
  next
    case False
    have "hd v \<in> set v" using False by simp
    then have hv: "\<not> strchr [58, 32, 13, 10] (hd (v @ crs))"
      using False h visible_no [of v "hd v"] by (auto simp: strchr_def)
    have "skip [58, 32, 13, 10] (k @ [58, 32] @ (v @ crs)) = (k, v @ crs)"
      by (rule skip_token) (use kk sc hv in auto)
    moreover have "skip [13, 10] (v @ crs @ []) = (v, [])"
      by (rule skip_token) (use crs vv in auto)
    ultimately show ?thesis by simp
  qed
qed

lemma headers_loop:
  assumes "\<forall>h \<in> set hs. header_ok h" "length hs \<le> left" "length a = i"
  shows "parse_headers_loop (after_line hs) i left (a @ replicate left ([], [])) =
     Some (a @ map kept_header hs @ replicate (left - length hs) ([], []))"
  using assms
proof (induction hs arbitrary: i left a)
  case Nil
  then show ?case by (cases left) (simp_all add: after_line_def skip_def Let_def)
next
  case (Cons h hs)
  obtain l where l: "left = Suc l" using Cons.prems by (cases left) auto
  obtain k v where kv: "h = (k, v)" by (cases h)
  have ok: "header_ok (k, v)" "\<forall>h \<in> set hs. header_ok h" using Cons.prems(1) kv by simp_all
  note line = header_line_read [OF ok(1) refl ok(2)]
  obtain line1 where parts: "skip [58, 32, 13, 10] (k @ [58, 32] @ v @ (if hs = [] then CRLF @ CRLF else CRLF)) = (k, line1)"
      "skip [13, 10] line1 = (v, [])"
    using header_parts_read [OF ok(1) refl, of hs] by blast
  have "k \<noteq> []" using ok(1) by (simp add: header_ok_def)
  then have "parse_headers_loop (after_line (h # hs)) i left (a @ replicate left ([], [])) =
      parse_headers_loop (after_line hs) (i + 1) l ((a @ [(k, trim_end v)]) @ replicate l ([], []))"
    using line parts Cons.prems(3) by (simp add: l kv Let_def list_update_append del: if_split)
  also have "\<dots> = Some ((a @ [(k, trim_end v)]) @ map kept_header hs @ replicate (l - length hs) ([], []))"
    using Cons.IH [of l "a @ [(k, trim_end v)]" "i + 1"] Cons.prems l by simp
  finally show ?case by (simp add: kv l kept_header_def)
qed

lemma parse_request_line:
  assumes "request_ok r"
  shows "skip [32] (request_head r) = (r_method r, r_uri r @ [32] @ r_proto r @ CRLF @ concat (map (\<lambda>h. header_line h @ CRLF) (r_headers r)) @ CRLF)"
    "skip [32] (r_uri r @ [32] @ r_proto r @ x) = (r_uri r, r_proto r @ x)"
    "skip [13, 10] (r_proto r @ CRLF @ concat (map (\<lambda>h. header_line h @ CRLF) (r_headers r)) @ CRLF) = (r_proto r, after_line (r_headers r))"
proof -
  have r: "r_method r \<noteq> []" "visible (r_method r)" "32 \<notin> set (r_method r)" "r_uri r \<noteq> []" "visible (r_uri r)"
      "32 \<notin> set (r_uri r)" "r_proto r \<noteq> []" "visible (r_proto r)" "hd (r_proto r) \<noteq> 32"
      "\<forall>h \<in> set (r_headers r). header_ok h"
    using assms by (auto simp: request_ok_def)
  then have hd0: "hd (r_uri r) \<in> set (r_uri r)" "hd (r_proto r) \<in> set (r_proto r)" "hd (r_uri r) \<noteq> 32"
    by (auto, metis hd_in_set)
  have head: "request_head r = r_method r @ [32] @ r_uri r @ [32] @ r_proto r @ CRLF @
      concat (map (\<lambda>h. header_line h @ CRLF) (r_headers r)) @ CRLF"
    by (simp add: request_head_def request_lines_def comp_def)
  show "skip [32] (request_head r) = (r_method r, r_uri r @ [32] @ r_proto r @ CRLF @ concat (map (\<lambda>h. header_line h @ CRLF) (r_headers r)) @ CRLF)"
    unfolding head using r hd0 visible_no
    by (intro skip_token) (auto simp: strchr_def)
  show "skip [32] (r_uri r @ [32] @ r_proto r @ x) = (r_uri r, r_proto r @ x)"
    using r hd0 visible_no by (intro skip_token) (auto simp: strchr_def)
  define crs where "crs = (if r_headers r = [] then CRLF @ CRLF else CRLF)"
  have "r_proto r @ CRLF @ concat (map (\<lambda>h. header_line h @ CRLF) (r_headers r)) @ CRLF = r_proto r @ crs @ after_line (r_headers r)"
    by (simp add: crs_def after_line_def)
  moreover have "skip [13, 10] (r_proto r @ crs @ after_line (r_headers r)) = (r_proto r, after_line (r_headers r))"
    using r after_line_hd [OF r(10)] visible_no [OF r(8)]
    by (intro skip_token) (auto simp: strchr_def crs_def CRLF_def)
  ultimately show "skip [13, 10] (r_proto r @ CRLF @ concat (map (\<lambda>h. header_line h @ CRLF) (r_headers r)) @ CRLF) = (r_proto r, after_line (r_headers r))"
    by simp
qed

lemma request_head_len:
  assumes "request_ok r" "length (request_head r) < 2 ^ 31"
  shows "mg_http_get_request_len (request_head r @ body) = Some (int (length (request_head r)))"
proof -
  have v: "visible (x @ y) \<longleftrightarrow> visible x \<and> visible y" "visible []" "visible (c # x) \<longleftrightarrow> 32 \<le> c \<and> visible x" for x y c
    by (auto simp: visible_def)
  have "\<forall>w \<in> set (request_lines r). visible w \<and> w \<noteq> []"
    using assms by (auto simp: request_lines_def request_ok_def header_ok_def header_line_def v)
  moreover have "length (r_method r @ [32] @ r_uri r @ [32] @ r_proto r) > 1"
    using assms by (auto simp: request_ok_def)
  then have "\<exists>w \<in> set (request_lines r). length w > 1" by (auto simp: request_lines_def)
  ultimately have "mg_http_get_request_len (concat (map (\<lambda>w. w @ CRLF) (request_lines r)) @ CRLF @ body) =
     Some (int (length (concat (map (\<lambda>w. w @ CRLF) (request_lines r))) + 2))"
    using assms(2) by (intro request_len_head) (auto simp: request_lines_def request_head_def CRLF_def)
  then show ?thesis by (simp add: request_head_def CRLF_def)
qed

section \<open>Properties of the parser\<close>

lemma get_header_find:
  assumes "\<forall>h \<in> set hs. fst h \<noteq> []" "0 \<notin> set name"
  shows "get_header_loop (map kept_header hs @ replicate n ([], [])) name = map_option (trim_end \<circ> snd) (find (same_name name) hs)"
  using assms(1)
proof (induction hs)
  case Nil
  then show ?case by (cases n) auto
next
  case (Cons h hs)
  obtain k v where h: "h = (k, v)" by (cases h)
  have "(length name = length k \<and> mg_ncasecmp k name (length name) = Some 0) = same_name name (k, v)"
  proof (cases "length name = length k")
    case True
    then show ?thesis
      using ncasecmp_exact [OF assms(2), of "length name" k] by (auto simp: same_name_def)
  next
    case False
    then show ?thesis by (auto simp: same_name_def dest: map_eq_imp_length_eq)
  qed
  with Cons h show ?case by (auto simp: kept_header_def)
qed

text \<open>The message the parser fills in before it looks at lengths.\<close>

definition parsed :: "request \<Rightarrow> http_message" where
  "parsed r =
     (let u = r_uri r in
      \<lparr>req_method = r_method r, uri = (if 63 \<in> set u then takeWhile (\<lambda>c. c \<noteq> 63) u else u),
       query = (if 63 \<in> set u then tl (dropWhile (\<lambda>c. c \<noteq> 63) u) else []), proto = r_proto r,
       headers = map kept_header (r_headers r) @ replicate (30 - length (r_headers r)) ([], []),
       head_len = length (request_head r), body_len = SIZE_MAX, message_len = SIZE_MAX\<rparr>)"

lemma http_parse_request_raw:
  assumes "request_ok r" "length (request_head r) < 2 ^ 31"
  shows "mg_http_parse (request_head r @ body) =
    Some (case http_set_length (parsed r) of
       None \<Rightarrow> (-1, None)
     | Some hm \<Rightarrow> (int (length (request_head r)), Some (http_body_rules (request_head r @ body) hm)))"
proof -
  have n: "mg_http_get_request_len (request_head r @ body) = Some (int (length (request_head r)))"
    by (rule request_head_len [OF assms])
  have pos: "request_head r \<noteq> []" by (simp add: request_head_def CRLF_def)
  have hs: "mg_http_parse_headers (after_line (r_headers r)) MG_MAX_HTTP_HEADERS =
      Some (map kept_header (r_headers r) @ replicate (30 - length (r_headers r)) ([], []))"
    using headers_loop [of "r_headers r" 30 "[]" 0] assms
    by (simp add: mg_http_parse_headers_def MG_MAX_HTTP_HEADERS_def request_ok_def)
  have ne: "r_method r \<noteq> []" "r_uri r \<noteq> []" using assms by (simp_all add: request_ok_def)
  show ?thesis
    unfolding mg_http_parse_def n parsed_def Let_def
    using pos ne by (simp add: parse_request_line [OF assms(1), simplified] hs)
qed

lemma get_header_parsed:
  assumes "request_ok r" "0 \<notin> set name"
  shows "mg_http_get_header (parsed r) name = map_option (trim_end \<circ> snd) (find (same_name name) (r_headers r))"
  using assms get_header_find [of "r_headers r" name]
  by (auto simp: parsed_def mg_http_get_header_def Let_def request_ok_def header_ok_def)

lemma parsed_simps [simp]:
  "req_method (parsed r) = r_method r" "proto (parsed r) = r_proto r" "head_len (parsed r) = length (request_head r)"
  "body_len (parsed r) = SIZE_MAX" "message_len (parsed r) = SIZE_MAX"
  "headers (parsed r) = map kept_header (r_headers r) @ replicate (30 - length (r_headers r)) ([], [])"
  by (simp_all add: parsed_def Let_def)

lemma parsed_uri: "uri (parsed r) @ (if 63 \<in> set (r_uri r) then 63 # query (parsed r) else []) = r_uri r"
proof (cases "63 \<in> set (r_uri r)")
  case True
  then have "dropWhile (\<lambda>c. c \<noteq> 63) (r_uri r) \<noteq> []" by (auto simp: dropWhile_eq_Nil_conv)
  then have "dropWhile (\<lambda>c. c \<noteq> 63) (r_uri r) = 63 # tl (dropWhile (\<lambda>c. c \<noteq> 63) (r_uri r))"
    using hd_dropWhile [of "\<lambda>c. c \<noteq> 63" "r_uri r"] by (metis list.collapse)
  then show ?thesis using True takeWhile_dropWhile_id [of "\<lambda>c. c \<noteq> 63" "r_uri r"]
    by (simp add: parsed_def Let_def)
qed (simp add: parsed_def Let_def)

lemma body_rules_simps [simp]:
  "req_method (http_body_rules s hm) = req_method hm" "uri (http_body_rules s hm) = uri hm"
  "query (http_body_rules s hm) = query hm" "proto (http_body_rules s hm) = proto hm"
  "headers (http_body_rules s hm) = headers hm" "head_len (http_body_rules s hm) = head_len hm"
  by (simp_all add: http_body_rules_def Let_def)

lemma unat_SIZE_MAX: "unat SIZE_MAX = 18446744073709551615"
  by (simp add: SIZE_MAX_def unsigned_minus_1_eq_mask mask_eq_exp_minus_1)

lemma small_length: "b div 10 \<le> 1844674407370955160 \<Longrightarrow> unat (of_nat b :: u64) = b \<and> (of_nat b :: u64) \<noteq> SIZE_MAX"
proof -
  assume "b div 10 \<le> 1844674407370955160"
  then have le: "b \<le> 18446744073709551609" by (rule size_bound)
  then have b: "unat (of_nat b :: u64) = b" by (intro unat_small) simp
  with le unat_SIZE_MAX show ?thesis by auto
qed

lemma trim_spaces: "w \<noteq> [] \<Longrightarrow> last w \<noteq> 32 \<Longrightarrow> trim_end (w @ replicate j 32) = w"
  by (cases w rule: rev_cases) (auto simp: trim_end_def dropWhile_append)

lemma trim_dec [simp]: "trim_end (dec_of b @ replicate j 32) = dec_of b" "trim_end (dec_of b) = dec_of b"
proof -
  have "is_digit (last (dec_of b))" using dec_of_props [of b] last_in_set [of "dec_of b"] by blast
  then have "last (dec_of b) \<noteq> 32" by (auto simp: is_digit_def)
  then show "trim_end (dec_of b @ replicate j 32) = dec_of b" "trim_end (dec_of b) = dec_of b"
    using dec_of_props [of b] trim_spaces [of "dec_of b" j] trim_end_id [of "dec_of b"] by auto
qed

lemma set_length_padded:
  assumes "request_ok r" "find (same_name (bs ''Content-Length'')) (r_headers r) = Some (k, dec_of b @ replicate j 32)"
    "b div 10 \<le> 1844674407370955160"
  shows "http_set_length (parsed r) = Some ((parsed r)\<lparr>body_len := of_nat b, message_len := of_nat (length (request_head r) + b)\<rparr>)"
proof -
  have "mg_http_get_header (parsed r) (bs ''Content-Length'') = Some (dec_of b)"
    using get_header_parsed [OF assms(1), of "bs ''Content-Length''"] assms(2) by simp
  moreover have "mg_to_size_t (dec_of b) = Some (of_nat b)"
    using mg_to_size_t_value(1) [of "[]" 0 b] assms(3) by simp
  ultimately show ?thesis by (simp add: http_set_length_def)
qed

lemma set_length_dec:
  assumes "request_ok r" "find (same_name (bs ''Content-Length'')) (r_headers r) = Some (k, dec_of b)"
    "b div 10 \<le> 1844674407370955160"
  shows "http_set_length (parsed r) = Some ((parsed r)\<lparr>body_len := of_nat b, message_len := of_nat (length (request_head r) + b)\<rparr>)"
  using set_length_padded [OF assms(1), of k b 0] assms(2,3) by simp

text \<open>
  What a head announces, read off its parts: the number a \<open>Content-Length\<close> value starts with, after
  blanks (\<open>None\<close> when it is negative or too large); \<open>None\<close> for a head that is refused, \<open>Some None\<close> for a
  body that lasts until the connection closes.
\<close>

definition length_value :: "bytes \<Rightarrow> nat option" where
  "length_value v =
     (let w = dropWhile (\<lambda>c. c = 32 \<or> c = 9) v; n = digits_val (takeWhile is_digit w)
      in if take 1 w = [45] \<or> n div 10 > 1844674407370955160 then None else Some n)"

definition announced :: "request \<Rightarrow> nat option option" where
  "announced r =
     (case find (same_name (bs ''Content-Length'')) (r_headers r) of
        Some h \<Rightarrow> map_option Some (length_value (trim_end (snd h)))
      | None \<Rightarrow>
          Some (if map mg_lower (take 5 (r_method r)) = map mg_lower (bs ''HTTP/'')
                then (if takeWhile (\<lambda>c. c \<noteq> 63) (r_uri r) = bs ''204'' then Some 0 else None)
                else if map mg_lower (r_method r) \<in> map mg_lower ` {bs ''PUT'', bs ''POST''} then None else Some 0))"

lemma to_size_length: "mg_to_size_t v = map_option of_nat (length_value v)"
proof -
  define w where "w = dropWhile (\<lambda>c. c = 32 \<or> c = 9) v"
  let ?d = "takeWhile is_digit w" and ?r = "dropWhile is_digit w"
  have d: "\<forall>c \<in> set ?d. is_digit c" "?r = [] \<or> \<not> is_digit (hd ?r)" "?d @ ?r = w"
    using hd_dropWhile [of is_digit w] by (auto dest: set_takeWhileD)
  have sgn': "(w \<noteq> [] \<and> hd w = 45) = (take 1 w = [45])" by (cases w) auto
  have "to_size_loop w 0 = (if digits_val ?d div 10 > 1844674407370955160 then None else Some (of_nat (digits_val ?d)))"
    using to_size_digits [OF d(1,2), of 0] to_size_overflow [OF d(1), of 0 ?r] d(3)
    by (cases "?d = []") (auto simp: digits_val_def)
  then show ?thesis
    by (simp add: mg_to_size_t_def length_value_def Let_def w_def [symmetric] sgn')
qed

lemma length_value_dec: "length_value (dec_of n) = (if n div 10 \<le> 1844674407370955160 then Some n else None)"
proof -
  obtain c t where ct: "dec_of n = c # t" using dec_of_props [of n] by (cases "dec_of n") auto
  then have "is_digit c" using dec_of_props [of n] by simp
  then have c: "c \<noteq> 32" "c \<noteq> 9" "c \<noteq> 45" by (auto simp: is_digit_def)
  have "dropWhile (\<lambda>c. c = 32 \<or> c = 9) (dec_of n) = dec_of n" using c by (simp add: ct)
  moreover have "\<forall>c \<in> set (dec_of n). is_digit c" using dec_of_props [of n] by blast
  then have tw: "takeWhile is_digit (dec_of n) = dec_of n" by (simp only: takeWhile_eq_all_conv)
  moreover have "take 1 (dec_of n) \<noteq> [45]" using c by (simp add: ct)
  ultimately show ?thesis using dec_of_props [of n] by (simp add: length_value_def tw Let_def)
qed



lemma length_value_small: "length_value v = Some n \<Longrightarrow> n div 10 \<le> 1844674407370955160"
  by (auto simp: length_value_def Let_def split: if_splits)

lemma lower_204: "map mg_lower s = map mg_lower (bs ''204'') \<longleftrightarrow> s = bs ''204''"
proof -
  have "mg_lower c = mg_lower d \<longleftrightarrow> c = d" if d: "d \<in> {50, 48, 52}" for c d
  proof
    assume "mg_lower c = mg_lower d"
    then have "sint c = sint d" using d by (auto simp: mg_lower_def Let_def split: if_splits)
    then have "(word_of_int (sint c) :: u8) = word_of_int (sint d)" by (rule arg_cong)
    then show "c = d" by simp
  qed simp
  then have "mg_lower c = mg_lower 50 \<longleftrightarrow> c = 50" "mg_lower c = mg_lower 48 \<longleftrightarrow> c = 48" "mg_lower c = mg_lower 52 \<longleftrightarrow> c = 52" for c
    by blast+
  moreover have "bs ''204'' = [50, 48, 52]" by simp
  ultimately show ?thesis by (auto simp only: list.map map_eq_Cons_conv map_is_Nil_conv list.inject simp_thms) blast
qed

lemma head_is_response:
  assumes "request_ok r"
  shows "mg_ncasecmp (request_head r @ body) (bs ''HTTP/'' @ [0]) 5 = Some 0 \<longleftrightarrow>
     map mg_lower (take 5 (r_method r)) = map mg_lower (bs ''HTTP/'')"
proof -
  let ?t = "bs ''HTTP/''" and ?s = "request_head r @ body"
  have m: "r_method r \<noteq> []" "r_uri r \<noteq> []" "r_proto r \<noteq> []" using assms by (auto simp: request_ok_def)
  obtain x where x: "request_head r = r_method r @ 32 # x" by (simp add: request_head_def request_lines_def)
  have "5 \<le> length (request_head r)"
    using m by (cases "r_method r"; cases "r_uri r"; cases "r_proto r")
      (simp_all add: request_head_def request_lines_def CRLF_def)
  then obtain q where q: "mg_ncasecmp ?s (?t @ [0]) 5 = Some q"
      "q = 0 \<longleftrightarrow> map mg_lower (take 5 ?s) = map mg_lower (take 5 ?t)"
    using ncasecmp_eq [of ?t 5 ?s] by auto
  have "map mg_lower (take 5 ?s) = map mg_lower ?t \<longleftrightarrow> map mg_lower (take 5 (r_method r)) = map mg_lower ?t"
  proof (cases "5 \<le> length (r_method r)")
    case True
    then show ?thesis by (simp add: x)
  next
    case False
    let ?k = "length (r_method r)"
    have "take 5 ?s ! ?k = 32" using False by (simp add: x nth_append)
    moreover have "map mg_lower (take 5 ?s) ! ?k = mg_lower (take 5 ?s ! ?k)" using False by (intro nth_map) (simp add: x)
    ultimately have "map mg_lower (take 5 ?s) ! ?k = 32" by (simp only:) (simp add: mg_lower_def)
    moreover have "map mg_lower ?t ! ?k \<noteq> 32"
      using False m(1) by (cases "?k = 1"; cases "?k = 2"; cases "?k = 3"; cases "?k = 4") (auto simp: mg_lower_def)
    ultimately have "map mg_lower (take 5 ?s) \<noteq> map mg_lower ?t" by metis
    moreover have "map mg_lower (take 5 (r_method r)) \<noteq> map mg_lower ?t"
      using False by (auto dest: map_eq_imp_length_eq)
    ultimately show ?thesis by blast
  qed
  then show ?thesis using q by simp
qed

lemma parsed_path: "uri (parsed r) = takeWhile (\<lambda>c. c \<noteq> 63) (r_uri r)"
  by (auto simp: parsed_def Let_def intro!: takeWhile_eq_all_conv [THEN iffD2, symmetric])

definition announce_len :: "nat option \<Rightarrow> http_message \<Rightarrow> http_message" where
  "announce_len b hm =
     (case b of None \<Rightarrow> hm | Some n \<Rightarrow> hm\<lparr>body_len := of_nat n, message_len := of_nat (head_len hm + n)\<rparr>)"

lemma body_rules_announced:
  assumes "request_ok r" "length (request_head r) < 2 ^ 31"
    "find (same_name (bs ''Content-Length'')) (r_headers r) = None"
  shows "announced r = Some b \<Longrightarrow> http_body_rules (request_head r @ body) (parsed r) = announce_len b (parsed r)"
proof -
  have "length (r_method r) < 2 ^ 31" "length (r_uri r) < 2 ^ 31"
    using assms(2) by (simp_all add: request_head_def request_lines_def)
  moreover have "length (uri (parsed r)) \<le> length (r_uri r)" by (simp add: parsed_path length_takeWhile_le)
  ultimately have v: "mg_vcasecmp (r_method r) (t @ [0]) = Some 0 \<longleftrightarrow> map mg_lower (r_method r) = map mg_lower t"
      "mg_vcasecmp (uri (parsed r)) (bs ''204'' @ [0]) = Some 0 \<longleftrightarrow> uri (parsed r) = bs ''204''"
    if "t \<in> {bs ''PUT'', bs ''POST''}" for t
    using that vcasecmp_eq [of t "r_method r"] vcasecmp_eq [of "bs ''204''" "uri (parsed r)"] lower_204 [of "uri (parsed r)"] by auto
  show "announced r = Some b \<Longrightarrow> ?thesis"
    using assms(3) head_is_response [OF assms(1), of body] v [of "bs ''PUT''"] v [of "bs ''POST''"]
    by (auto simp: announced_def announce_len_def http_body_rules_def parsed_path Let_def SIZE_MAX_def split: if_splits)
qed

lemma http_parse_announced:
  assumes "request_ok r" "length (request_head r) < 2 ^ 31"
  shows "mg_http_parse (request_head r @ body) =
    Some (case announced r of
       None \<Rightarrow> (-1, None)
     | Some b \<Rightarrow> (int (length (request_head r)), Some (announce_len b (parsed r))))"
proof (cases "find (same_name (bs ''Content-Length'')) (r_headers r)")
  case None
  then have "http_set_length (parsed r) = Some (parsed r)"
    using get_header_parsed [OF assms(1), of "bs ''Content-Length''"] by (simp add: http_set_length_def)
  moreover obtain b where "announced r = Some b" using None by (auto simp: announced_def)
  ultimately show ?thesis
    using http_parse_request_raw [OF assms] body_rules_announced [OF assms None, of b body] by simp
next
  case (Some h)
  have g: "mg_http_get_header (parsed r) (bs ''Content-Length'') = Some (trim_end (snd h))"
    using get_header_parsed [OF assms(1), of "bs ''Content-Length''"] Some by simp
  show ?thesis
  proof (cases "length_value (trim_end (snd h))")
    case None
    then show ?thesis using g Some http_parse_request_raw [OF assms]
      by (simp add: http_set_length_def to_size_length announced_def)
  next
    case (Some n)
    then have "(of_nat n :: u64) \<noteq> SIZE_MAX" using small_length [OF length_value_small] by blast
    then show ?thesis
      using g Some \<open>find _ _ = Some h\<close> http_parse_request_raw [OF assms]
      by (simp add: http_set_length_def to_size_length announced_def announce_len_def http_body_rules_def Let_def)
  qed
qed


definition sample_request :: "bytes \<Rightarrow> request" where
  "sample_request n = \<lparr>r_method = bs ''POST'', r_uri = bs ''/live?id=1'', r_proto = bs ''HTTP/1.1'',
     r_headers = [(bs ''Host'', bs ''cam''), (bs ''Content-length'', n)]\<rparr>"


text \<open>The sum is not checked: a huge announced length makes the message shorter than its head.\<close>

lemma http_message_len_wraps:
  assumes "request_ok r" "find (same_name (bs ''Content-Length'')) (r_headers r) = Some (k, dec_of b)"
    "b div 10 \<le> 1844674407370955160" "2 ^ 64 \<le> length (request_head r) + b" "length (request_head r) < 2 ^ 31"
  shows "\<exists>hm. mg_http_parse (request_head r @ body) = Some (int (length (request_head r)), Some hm) \<and>
     unat (body_len hm) = b \<and> unat (message_len hm) < length (request_head r)"
proof -
  note b = small_length [OF assms(3)]
  have "unat (of_nat (length (request_head r) + b) :: u64) < length (request_head r)"
  proof -
    have "request_head r \<noteq> []" by (simp add: request_head_def CRLF_def)
    then have "0 < length (request_head r)" by simp
    moreover have "(length (request_head r) + b) mod 2 ^ 64 = length (request_head r) + b - 2 ^ 64"
      using assms(4,5) size_bound [OF assms(3)] by (subst le_mod_geq) auto
    ultimately show ?thesis
      using assms(4) size_bound [OF assms(3)] by (simp only: unat_of_nat take_bit_eq_mod) simp
  qed
  then show ?thesis
    using http_parse_request_raw [OF assms(1,5), of body] set_length_dec [OF assms(1-3)] b
    by (simp add: http_body_rules_def Let_def)
qed

text \<open>A header line without a colon leaves an empty slot, which ends every later lookup.\<close>

lemma http_colonless_header_hides_rest:
  "map_option (\<lambda>hm. mg_http_get_header hm (bs ''B''))
     (snd (the (mg_http_parse (bs ''GET / H'' @ CRLF @ bs ''A'' @ CRLF @ bs ''B: 5'' @ CRLF @ CRLF)))) = Some None"
  by code_simp

end
