(* ===== verification/Mg_Http.thy ===== *)
theory Mg_Http
  imports Mg_Http_Parse
begin

text \<open>
  The HTTP connection handler of \<open>src/http.c\<close>: multipart bodies, chunked transfer decoding in
  place, and the read loop \<open>http_cb\<close> that turns the receive buffer into events.  The buffer is
  its contents (\<open>mg_iobuf_del\<close> on contents is justified by the buffer theory); the user handler
  is a parameter that may change the connection; every event it is given is also recorded in
  \<open>trace\<close>.
\<close>

section \<open>Multipart bodies\<close>

record http_part =
  part_name :: "bytes option"
  part_filename :: "bytes option"
  part_body :: "bytes"

text \<open>Skipping to the end of a line: both bytes must differ, as the code tests them.\<close>

function skip_line :: "bytes \<Rightarrow> nat \<Rightarrow> nat" where
  "skip_line s b =
     (if b + 2 < length s \<and> s ! b \<noteq> 13 \<and> s ! (b + 1) \<noteq> 10 then skip_line s (b + 1) else b)"
  by pat_completeness auto
termination by (relation "measure (\<lambda>(s, b). length s - b)") auto

declare skip_line.simps [simp del]

lemma skip_line_ge: "b \<le> skip_line s b"
proof (induction s b rule: skip_line.induct)
  case (1 s b)
  then show ?case by (subst skip_line.simps) auto
qed

text \<open>The header loop: \<open>None\<close> is the \<open>return 0\<close>, otherwise the last \<open>h2\<close> and the part.\<close>

function part_headers :: "bytes \<Rightarrow> nat \<Rightarrow> http_part \<Rightarrow> (nat \<times> http_part) option" where
  "part_headers s h1 part =
     (let h2 = skip_line s h1; cd = bs ''Content-Disposition'' in
      if h2 = h1 then Some (h2, part)
      else if h2 + 2 \<ge> length s then None
      else
        let part =
          (if h1 + length cd + 2 < h2 \<and> s ! (h1 + length cd) = 58 \<and>
              mg_ncasecmp (drop h1 s) cd (length cd) = Some 0
           then let v = span s (h1 + length cd + 2) (h2 - (h1 + length cd + 2))
                in part\<lparr>part_name := mg_http_get_header_var v (bs ''name''),
                        part_filename := mg_http_get_header_var v (bs ''filename'')\<rparr>
           else part)
        in part_headers s (h2 + 2) part)"
  by pat_completeness auto
termination
proof (relation "measure (\<lambda>(s, h1, part). length s - h1)", goal_cases)
  case (2 s h1 part h2 cd part')
  then show ?case
    using skip_line_ge [of h1 s] by (simp only: in_measure prod.case)
qed simp

declare part_headers.simps [simp del]

text \<open>Searching the next boundary, the first \<open>k = b - ofs\<close> bytes of the body.\<close>

function find_boundary :: "bytes \<Rightarrow> nat \<Rightarrow> nat \<Rightarrow> nat" where
  "find_boundary s k b2 =
     (if b2 + 2 + k + 2 < length s \<and>
         \<not> (s ! b2 = 13 \<and> s ! (b2 + 1) = 10 \<and> span s (b2 + 2) k = take k s)
      then find_boundary s k (b2 + 1) else b2)"
  by pat_completeness auto
termination by (relation "measure (\<lambda>(s, k, b2). length s - b2)") auto

declare find_boundary.simps [simp del]

definition mg_http_next_multipart :: "bytes \<Rightarrow> nat \<Rightarrow> nat \<times> http_part" where
  "mg_http_next_multipart s ofs =
     (let p0 = \<lparr>part_name = None, part_filename = None, part_body = []\<rparr>;
          b = skip_line s ofs
      in if b \<le> ofs \<or> b + 2 \<ge> length s then (0, p0)
      else case part_headers s (b + 2) p0 of
             None \<Rightarrow> (0, p0)
           | Some (h2, part) \<Rightarrow>
               let b1 = h2 + 2; b2 = find_boundary s (b - ofs) b1
               in if b2 + 2 \<ge> length s then (0, part)
                  else (b2 + 2, part\<lparr>part_body := span s b1 (b2 - b1)\<rparr>))"

section \<open>Connections and events\<close>

datatype http_ev =
    Ev_chunk bytes
  | Ev_msg bytes bytes
  | Ev_error

record hconn =
  recv :: bytes
  pfn_data :: u64
  is_resp :: bool
  is_accepted :: bool
  is_closing :: bool
  trace :: "http_ev list"

text \<open>The offset and length of \<open>hm->chunk\<close> in the buffer, with the message.\<close>

type_synonym chunk_ref = "nat \<times> nat"
type_synonym handler = "http_ev \<Rightarrow> chunk_ref \<Rightarrow> hconn \<Rightarrow> hconn"

definition mg_call :: "handler \<Rightarrow> http_ev \<Rightarrow> chunk_ref \<Rightarrow> hconn \<Rightarrow> hconn" where
  "mg_call h ev ch c = h ev ch (c\<lparr>trace := trace c @ [ev]\<rparr>)"

definition recv_del :: "nat \<Rightarrow> nat \<Rightarrow> hconn \<Rightarrow> hconn" where
  "recv_del ofs n c = c\<lparr>recv := take ofs (recv c) @ drop (ofs + n) (recv c)\<rparr>"

definition MG_DMARK :: u64 where "MG_DMARK = push_bit 63 1"

definition mg_http_delete_chunk :: "chunk_ref \<Rightarrow> hconn \<Rightarrow> hconn" where
  "mg_http_delete_chunk ch c =
     (let c = recv_del (fst ch) (snd ch) c in c\<lparr>pfn_data := pfn_data c OR MG_DMARK\<rparr>)"

section \<open>Chunked transfer decoding\<close>

text \<open>
  \<open>getchunk\<close>: the sums are \<open>size_t\<close> sums and the pointer arithmetic wraps with them.  The outer
  option is memory safety, the inner one the result.
\<close>

definition getchunk :: "bytes \<Rightarrow> (nat \<times> nat) option option" where
  "getchunk s =
     (let i = length (takeWhile (\<lambda>c. c \<noteq> 13 \<and> c \<noteq> 10) s) in do {
        n \<leftarrow> mg_unhexn s 0 i;
        let at = (\<lambda>k. unat (of_nat i + n + k));
        if of_nat (length s) < of_nat i + n + 4 then Some None
        else do {
          c0 \<leftarrow> rd s i;
          c1 \<leftarrow> (if c0 \<noteq> 13 then Some 10 else rd s (i + 1));
          if c0 \<noteq> 13 \<or> c1 \<noteq> 10 then Some None
          else do {
            d0 \<leftarrow> rd s (at 2);
            d1 \<leftarrow> (if d0 \<noteq> 13 then Some 10 else rd s (at 3));
            if d0 \<noteq> 13 \<or> d1 \<noteq> 10 then Some None
            else Some (Some (i + 2, unat n)) } } })"

definition mg_is_chunked :: "http_message \<Rightarrow> bool" where
  "mg_is_chunked hm =
     (case mg_http_get_header hm (bs ''Transfer-Encoding'') of
        None \<Rightarrow> False | Some te \<Rightarrow> mg_vcasecmp te (bs ''chunked'' @ [0]) = Some 0)"

text \<open>
  The loop of \<open>deliver_chunked_chunks\<close>.  \<open>b\<close> is the offset of \<open>buf\<close> in the receive buffer and
  \<open>p\<close> that of the body; \<open>None\<close> is an access outside the buffer, and the fuel bounds the rounds,
  each of which consumes at least four bytes.
\<close>

fun chunk_loop ::
  "nat \<Rightarrow> handler \<Rightarrow> nat \<Rightarrow> nat \<Rightarrow> nat \<Rightarrow> nat \<Rightarrow> nat \<Rightarrow> nat \<Rightarrow> hconn \<Rightarrow> (nat \<times> nat \<times> bool \<times> hconn) option" where
  "chunk_loop 0 h p b len ofs processed del c = Some (processed, del, False, c)"
| "chunk_loop (Suc fuel) h p b len ofs processed del c = do {
     g \<leftarrow> getchunk (span (recv c) (b + ofs) (len - ofs));
     case g of
       None \<Rightarrow> Some (processed, del, False, c)
     | Some (pl, dl) \<Rightarrow>
         let saved = length (recv c) in
         if b + ofs + pl + dl \<le> length (recv c) then do {
           r \<leftarrow> blit (recv c) (p + processed) (span (recv c) (b + ofs + pl) dl);
           let c = mg_call h (Ev_chunk (span r (p + processed) dl)) (p + processed, dl) (c\<lparr>recv := r\<rparr>);
           let ofs = ofs + (pl + dl + 2);
           let del = del + (pl + 2);
           let moved = (length (recv c) \<noteq> saved);
           let processed = (if moved then processed else processed + dl);
           let b = (if moved then b - dl else b);
           if dl = 0 then Some (processed, del, True, c)
           else chunk_loop fuel h p b len ofs processed del c }
         else None }"

definition deliver_chunked_chunks ::
  "handler \<Rightarrow> hconn \<Rightarrow> nat \<Rightarrow> http_message \<Rightarrow> (http_message \<times> bool \<times> hconn) option" where
  "deliver_chunked_chunks h c hlen hm =
     (let len = length (recv c) - hlen;
          processed = unat (pfn_data c AND NOT MG_DMARK);
          (len', b) = (if processed \<le> len then (len - processed, hlen + processed) else (len, hlen))
      in do {
        (processed, del, last, c) \<leftarrow> chunk_loop (length (recv c) + 1) h hlen b len' 0 processed 0 c;
        let c = recv_del (hlen + processed) del c;
        let mark = pfn_data c AND MG_DMARK;
        let c = c\<lparr>pfn_data := of_nat processed OR mark\<rparr>;
        if last then
          let hm = hm\<lparr>body_len := of_nat processed, message_len := of_nat (hlen + processed)\<rparr>;
              c = c\<lparr>pfn_data := 0\<rparr>
          in if mark \<noteq> 0 then Some (hm, True, recv_del 0 hlen c) else Some (hm, False, c)
        else Some (hm, False, c) })"

definition deliver_normal_chunks ::
  "handler \<Rightarrow> hconn \<Rightarrow> nat \<Rightarrow> http_message \<Rightarrow> bool \<times> hconn" where
  "deliver_normal_chunks h c hlen hm =
     (let processed = unat (pfn_data c AND NOT MG_DMARK);
          deleted = pfn_data c AND MG_DMARK;
          blen = unat (body_len hm);
          (ofs, clen) = (hlen, length (recv c) - hlen);
          (ofs, clen) = (if processed \<le> clen \<and> deleted = 0 then (ofs + processed, clen - processed) else (ofs, clen));
          left = (if blen < processed then 0 else blen - processed);
          clen = (if clen > left then left else clen);
          c = (if clen > 0 then mg_call h (Ev_chunk (span (recv c) ofs clen)) (ofs, clen) c else c);
          processed = processed + clen;
          deleted = pfn_data c AND MG_DMARK
      in if processed \<ge> blen then
           let c = (mg_call h (Ev_chunk []) (ofs, 0) c)\<lparr>pfn_data := 0\<rparr>
           in if processed \<noteq> 0 \<and> deleted \<noteq> 0 then (True, recv_del 0 hlen c) else (False, c)
         else (False, c\<lparr>pfn_data := of_nat processed OR deleted\<rparr>))"

text \<open>
  The body of the read loop: \<open>True\<close> in the result means another round (\<open>continue\<close> or the end of
  the body), \<open>False\<close> a \<open>break\<close>.
\<close>

definition http_round :: "handler \<Rightarrow> bool \<Rightarrow> hconn \<Rightarrow> (bool \<times> hconn) option" where
  "http_round h closing c = do {
      (hlen, m) \<leftarrow> mg_http_parse (recv c);
      if hlen < 0 then Some (False, mg_call h Ev_error (0, 0) (c\<lparr>is_closing := True\<rparr>))
      else if is_resp c then Some (False, c)
      else case m of
             None \<Rightarrow> Some (False, c)
           | Some hm \<Rightarrow>
               let n = nat hlen;
                   hm = (if closing then hm\<lparr>message_len := of_nat (length (recv c)),
                                            body_len := of_nat (length (recv c)) - of_nat n\<rparr> else hm)
               in do {
                 (hm, next, c) \<leftarrow>
                   (if mg_is_chunked hm then deliver_chunked_chunks h c n hm
                    else let (next, c) = deliver_normal_chunks h c n hm in Some (hm, next, c));
                 if next then Some (True, c)
                 else if length (recv c) < unat (message_len hm) then Some (False, c)
                 else
                   let c = (if is_accepted c then c\<lparr>is_resp := True\<rparr> else c);
                       c = mg_call h (Ev_msg (take n (recv c)) (span (recv c) n (unat (body_len hm)))) (0, 0) c
                   in Some (True, recv_del 0 (unat (message_len hm)) c) } }"

text \<open>The loop with fuel: the outer option is memory safety, the \<open>bool\<close> says it ended.\<close>

fun http_cb_loop :: "nat \<Rightarrow> handler \<Rightarrow> bool \<Rightarrow> hconn \<Rightarrow> (bool \<times> hconn) option" where
  "http_cb_loop 0 h closing c = Some (False, c)"
| "http_cb_loop (Suc fuel) h closing c =
     (if recv c = [] then Some (True, c)
      else do {
        (again, c) \<leftarrow> http_round h closing c;
        if again then http_cb_loop fuel h closing c else Some (True, c) })"

section \<open>Messages that arrive in pieces\<close>

text \<open>A handler that looks at the events and, as a server does, finishes the response.\<close>

definition replying :: handler where
  "replying ev ch c = (case ev of Ev_msg _ _ \<Rightarrow> c\<lparr>is_resp := False\<rparr> | _ \<Rightarrow> c)"

definition start_conn :: "bool \<Rightarrow> hconn" where
  "start_conn acc = \<lparr>recv = [], pfn_data = 0, is_resp = False, is_accepted = acc, is_closing = False, trace = []\<rparr>"

text \<open>The network delivers a piece: it is appended and the read handler runs.\<close>

definition arrive :: "handler \<Rightarrow> bytes \<Rightarrow> hconn \<Rightarrow> (bool \<times> hconn) option" where
  "arrive h x c = (let c = c\<lparr>recv := recv c @ x\<rparr> in http_cb_loop (length (recv c) + 1) h False c)"

fun arrive_all :: "handler \<Rightarrow> bytes list \<Rightarrow> hconn \<Rightarrow> hconn option" where
  "arrive_all h [] c = Some c"
| "arrive_all h (x # xs) c = do {
     (ended, c) \<leftarrow> arrive h x c;
     if ended then arrive_all h xs c else None }"

text \<open>The head \<open>hdr\<close> announces a body of \<open>b\<close> bytes, whatever follows it.\<close>

definition announces :: "bytes \<Rightarrow> nat \<Rightarrow> bool" where
  "announces hdr b \<longleftrightarrow> hdr \<noteq> [] \<and> length hdr + b < 2 ^ 63 \<and>
     (\<forall>x. \<exists>hm. mg_http_parse (hdr @ x) = Some (int (length hdr), Some hm) \<and> body_len hm = of_nat b \<and>
        message_len hm = of_nat (length hdr + b) \<and> \<not> mg_is_chunked hm)"

lemma bit_DMARK: "bit MG_DMARK n \<longleftrightarrow> n = 63"
  by (simp only: MG_DMARK_def bit_push_bit_iff bit_1_iff) auto

lemma dmark_and: "(of_nat k :: u64) AND MG_DMARK = 0 \<and> of_nat k AND NOT MG_DMARK = (of_nat k :: u64)" if "k < 2 ^ 63"
proof -
  have "\<not> bit (of_nat k :: u64) 63"
  proof
    assume "bit (of_nat k :: u64) 63"
    then have "bit k 63" by (simp add: bit_of_nat_iff)
    then have "odd (k div 2 ^ 63)" by (simp add: bit_iff_odd)
    then show False using that by simp
  qed
  then show ?thesis
    by (auto intro!: bit_word_eqI simp: bit_DMARK bit_and_iff bit_not_iff bit_of_nat_iff)
qed

lemma unat_of_small: "k < 2 ^ 63 \<Longrightarrow> unat (of_nat k :: u64) = k"
  by (rule unat_small) simp

definition waiting :: "bytes \<Rightarrow> bytes \<Rightarrow> bool \<Rightarrow> http_ev list \<Rightarrow> hconn" where
  "waiting hdr got acc tr = \<lparr>recv = hdr @ got, pfn_data = of_nat (length got), is_resp = False,
     is_accepted = acc, is_closing = False, trace = tr\<rparr>"

lemma round_partial:
  assumes "announces hdr b" "length got + length x < b"
  shows "http_round replying False ((waiting hdr got acc tr)\<lparr>recv := hdr @ got @ x\<rparr>) =
     Some (False, waiting hdr (got @ x) acc (tr @ (if x = [] then [] else [Ev_chunk x])))"
proof -
  obtain hm where hm: "mg_http_parse (hdr @ got @ x) = Some (int (length hdr), Some hm)" "body_len hm = of_nat b"
      "message_len hm = of_nat (length hdr + b)" "\<not> mg_is_chunked hm"
    using assms(1) unfolding announces_def by blast
  have l: "length hdr + b < 2 ^ 63" "hdr \<noteq> []" using assms(1) by (auto simp: announces_def)
  then have d: "(of_nat (length got) :: u64) AND MG_DMARK = 0 \<and> of_nat (length got) AND NOT MG_DMARK = (of_nat (length got) :: u64)"
    using assms(2) by (intro dmark_and) simp
  have u: "unat (of_nat (length got) :: u64) = length got" "unat (of_nat b :: u64) = b"
      "unat (of_nat (length hdr + b) :: u64) = length hdr + b"
    by (rule unat_of_small; use l assms(2) in simp)+
  have sp: "span (hdr @ got @ x) (length hdr + length got) (length x) = x" by (simp add: span_def)
  have s: "\<not> b \<le> length got + length x" "\<not> b < length got" "\<not> b - length got < length x" using assms(2) by auto
  show ?thesis
    using l assms(2)
    by (auto simp: http_round_def waiting_def hm d u s sp deliver_normal_chunks_def Let_def mg_call_def replying_def
        simp del: of_nat_add of_nat_diff)
qed

lemma round_complete:
  assumes "announces hdr (length got + length x)"
  shows "http_round replying False ((waiting hdr got acc tr)\<lparr>recv := hdr @ got @ x @ rest\<rparr>) =
     Some (True, (start_conn acc)\<lparr>recv := rest,
       trace := tr @ (if x = [] then [] else [Ev_chunk x]) @ [Ev_chunk [], Ev_msg hdr (got @ x)]\<rparr>)"
proof -
  let ?b = "length got + length x"
  obtain hm where hm: "mg_http_parse (hdr @ got @ x @ rest) = Some (int (length hdr), Some hm)" "body_len hm = of_nat ?b"
      "message_len hm = of_nat (length hdr + ?b)" "\<not> mg_is_chunked hm"
    using assms unfolding announces_def by blast
  have l: "length hdr + ?b < 2 ^ 63" "hdr \<noteq> []" using assms by (auto simp: announces_def)
  then have d: "(of_nat (length got) :: u64) AND MG_DMARK = 0 \<and> of_nat (length got) AND NOT MG_DMARK = (of_nat (length got) :: u64)"
    by (intro dmark_and) simp
  have u: "unat (of_nat (length got) :: u64) = length got" "unat (of_nat ?b :: u64) = ?b"
      "unat (of_nat (length hdr + ?b) :: u64) = length hdr + ?b"
    by (rule unat_of_small; use l in simp)+
  have sp: "span (hdr @ got @ x @ rest) (length hdr + length got) (length x) = x"
    "span (hdr @ got @ x @ rest) (length hdr) (length got + length x) = got @ x"
    "span (hdr @ got @ x) (length hdr + length got) (length x) = x" by (simp_all add: span_def)
  have n: "deliver_normal_chunks replying ((waiting hdr got acc tr)\<lparr>recv := hdr @ got @ x @ rest\<rparr>) (length hdr) hm =
      (False, (start_conn acc)\<lparr>recv := hdr @ got @ x @ rest,
        trace := tr @ (if x = [] then [] else [Ev_chunk x]) @ [Ev_chunk []]\<rparr>)"
    by (cases "x = []") (simp_all add: waiting_def hm d u sp deliver_normal_chunks_def Let_def mg_call_def
        replying_def start_conn_def del: of_nat_add)
  have w: "recv ((waiting hdr got acc tr)\<lparr>recv := hdr @ got @ x @ rest\<rparr>) = hdr @ got @ x @ rest"
      "is_resp ((waiting hdr got acc tr)\<lparr>recv := hdr @ got @ x @ rest\<rparr>) = False" by (simp_all add: waiting_def)
  show ?thesis
    unfolding http_round_def w hm(1)
    using l by (simp add: hm n u sp mg_call_def replying_def start_conn_def recv_del_def del: of_nat_add)
qed

lemma loop_empty: "http_cb_loop (Suc n) h cl c = Some (True, c)" if "recv c = []"
  using that by simp

lemma arrive_partial:
  assumes "announces hdr b" "length got + length x < b"
  shows "arrive replying x (waiting hdr got acc tr) =
     Some (True, waiting hdr (got @ x) acc (tr @ (if x = [] then [] else [Ev_chunk x])))"
proof -
  have "hdr \<noteq> []" using assms(1) by (simp add: announces_def)
  then show ?thesis
    using round_partial [OF assms] by (simp add: arrive_def Let_def waiting_def)
qed

lemma arrive_complete:
  assumes "announces hdr (length got + length x)"
  shows "arrive replying x (waiting hdr got acc tr) =
     Some (True, (start_conn acc)\<lparr>trace := tr @ (if x = [] then [] else [Ev_chunk x]) @ [Ev_chunk [], Ev_msg hdr (got @ x)]\<rparr>)"
proof -
  have "hdr \<noteq> []" using assms(1) by (simp add: announces_def)
  then obtain k where k: "length (hdr @ got @ x) = Suc k" by (cases hdr) auto
  show ?thesis
    using round_complete [OF assms, where acc = acc and tr = tr and rest = "[]"] \<open>hdr \<noteq> []\<close> k
    by (simp add: arrive_def Let_def waiting_def start_conn_def)
qed

lemma arrive_fragments:
  assumes "announces hdr (length got + length (concat xs))" "xs \<noteq> []" "\<forall>x \<in> set xs. x \<noteq> []"
  shows "arrive_all replying xs (waiting hdr got acc tr) =
     Some ((start_conn acc)\<lparr>trace := tr @ map Ev_chunk xs @ [Ev_chunk [], Ev_msg hdr (got @ concat xs)]\<rparr>)"
  using assms
proof (induction xs arbitrary: got tr)
  case (Cons x xs)
  show ?case
  proof (cases "xs = []")
    case True
    then show ?thesis using arrive_complete [of hdr got x acc tr] Cons.prems by simp
  next
    case False
    then have "concat xs \<noteq> []" using Cons.prems(3) by (cases xs) auto
    then have "length got + length x < length got + length (concat (x # xs))" by simp
    from arrive_partial [OF Cons.prems(1) this, of acc tr] Cons.IH [of "got @ x" "tr @ [Ev_chunk x]"] False Cons.prems
    show ?thesis by (simp add: add.assoc)
  qed
qed simp

text \<open>The head of a request with a length announces its body.\<close>

lemma request_announces:
  assumes "request_ok r" "find (same_name (bs ''Content-Length'')) (r_headers r) = Some (k, dec_of b)"
    "find (same_name (bs ''Transfer-Encoding'')) (r_headers r) = None" "length (request_head r) + b < 2 ^ 63"
    "length (request_head r) < 2 ^ 31"
  shows "announces (request_head r) b"
proof -
  have "b < 2 ^ 63" using assms(4) by simp
  then have b: "b div 10 \<le> 1844674407370955160" using div_mult_mod_eq [of b 10] by simp
  note l = set_length_dec [OF assms(1,2) b]
  have "\<exists>hm. mg_http_parse (request_head r @ x) = Some (int (length (request_head r)), Some hm) \<and> body_len hm = of_nat b \<and>
      message_len hm = of_nat (length (request_head r) + b) \<and> \<not> mg_is_chunked hm" for x
  proof -
    let ?hm = "(parsed r)\<lparr>body_len := of_nat b, message_len := of_nat (length (request_head r) + b)\<rparr>"
    have "http_body_rules (request_head r @ x) ?hm = ?hm"
      using small_length [OF b] by (simp add: http_body_rules_def Let_def)
    moreover have "\<not> mg_is_chunked ?hm"
      using get_header_parsed [OF assms(1), of "bs ''Transfer-Encoding''"] assms(3)
      by (simp add: mg_is_chunked_def mg_http_get_header_def)
    ultimately show ?thesis
      using http_parse_request_raw [OF assms(1,5), of x] l by simp
  qed
  moreover have "request_head r \<noteq> []" by (simp add: request_head_def CRLF_def)
  ultimately show ?thesis using assms(4) by (simp add: announces_def)
qed

lemma arrive_head:
  assumes "announces hdr b" "0 < b"
  shows "arrive replying hdr (start_conn acc) = Some (True, waiting hdr [] acc [])"
  using arrive_partial [OF assms(1), of "[]" "[]" acc "[]"] assms(2)
  by (simp add: arrive_def start_conn_def waiting_def Let_def)

text \<open>
  C1.  A request body may arrive in any pieces: for every request with a content length and
  every way of cutting its body into non-empty fragments, each fragment is handed to the user
  once, as it arrives and in order, then an empty chunk and exactly one message event with the
  whole body; the connection is left as new, with nothing buffered.  The length of the head fits in
  the \<open>int\<close> in which the parser returns it.
\<close>

theorem http_fragmented_body:
  assumes "request_ok r" "find (same_name (bs ''Content-Length'')) (r_headers r) = Some (k, dec_of (length (concat frags)))"
    "find (same_name (bs ''Transfer-Encoding'')) (r_headers r) = None"
    "length (request_head r) + length (concat frags) < 2 ^ 63" "frags \<noteq> []" "\<forall>x \<in> set frags. x \<noteq> []"
    "length (request_head r) < 2 ^ 31"
  shows "arrive_all replying (request_head r # frags) (start_conn acc) =
     Some ((start_conn acc)\<lparr>trace := map Ev_chunk frags @ [Ev_chunk [], Ev_msg (request_head r) (concat frags)]\<rparr>)"
proof -
  note a = request_announces [OF assms(1-4,7)]
  have "concat frags \<noteq> []" using assms(5,6) by (cases frags) auto
  then have "0 < length (concat frags)" by simp
  from arrive_head [OF a this, of acc] arrive_fragments [of "request_head r" "[]" frags acc "[]"] a assms(5,6)
  show ?thesis by simp
qed

definition sample_post :: request where
  "sample_post = \<lparr>r_method = bs ''POST'', r_uri = bs ''/login'', r_proto = bs ''HTTP/1.1'',
     r_headers = [(bs ''Content-Length'', dec_of 3)]\<rparr>"

theorem http_fragmented_body_witness:
  "arrive_all replying [request_head sample_post, [1], [2, 3]] (start_conn True) =
     Some ((start_conn True)\<lparr>trace := [Ev_chunk [1], Ev_chunk [2, 3], Ev_chunk [], Ev_msg (request_head sample_post) [1, 2, 3]]\<rparr>)"
proof -
  have d: "dec_of 3 = [51]" by (simp add: dec_of.simps digit_char_def)
  have "request_ok sample_post"
    by (simp add: request_ok_def sample_post_def visible_def header_ok_def MG_MAX_HTTP_HEADERS_def d)
  moreover have "find (same_name (bs ''Content-Length'')) (r_headers sample_post) = Some (bs ''Content-Length'', dec_of 3)"
    "find (same_name (bs ''Transfer-Encoding'')) (r_headers sample_post) = None"
    by (simp_all add: sample_post_def same_name_def)
  moreover have "length (request_head sample_post) + 3 < 2 ^ 63" "length (request_head sample_post) < 2 ^ 31"
    by (simp_all add: request_head_def request_lines_def sample_post_def header_line_def CRLF_def d)
  ultimately show ?thesis
    using http_fragmented_body [of sample_post "bs ''Content-Length''" "[[1], [2, 3]]" True] by (simp add: numeral_3_eq_3)
qed

end
