(* ===== verification/Mg_Http_Reply.thy ===== *)
theory Mg_Http_Reply
  imports Mg_Fmt Mg_Http_Parse
begin

text \<open>
  Writing HTTP (\<open>src/mongoose.c\<close>, \<open>http.c\<close>): status lines, \<open>mg_http_reply\<close> with its
  \<open>Content-Length\<close> that is patched in afterwards, and chunks of unknown and of known length.
  A connection is its send buffer and the flag \<open>is_resp\<close>; printed texts are arguments.  The outer
  option is memory safety.
\<close>

section \<open>Replies\<close>

definition status_codes :: "(int \<times> string) list" where
  "status_codes =
   [(100, ''Continue''), (101, ''Switching Protocols''),
    (102, ''Processing''), (200, ''OK''),
    (201, ''Created''), (202, ''Accepted''),
    (203, ''Non-authoritative Information''), (204, ''No Content''),
    (205, ''Reset Content''), (206, ''Partial Content''),
    (207, ''Multi-Status''), (208, ''Already Reported''),
    (226, ''IM Used''), (300, ''Multiple Choices''),
    (301, ''Moved Permanently''), (302, ''Found''),
    (303, ''See Other''), (304, ''Not Modified''),
    (305, ''Use Proxy''), (307, ''Temporary Redirect''),
    (308, ''Permanent Redirect''), (400, ''Bad Request''),
    (401, ''Unauthorized''), (402, ''Payment Required''),
    (403, ''Forbidden''), (404, ''Not Found''),
    (405, ''Method Not Allowed''), (406, ''Not Acceptable''),
    (407, ''Proxy Authentication Required''), (408, ''Request Timeout''),
    (409, ''Conflict''), (410, ''Gone''),
    (411, ''Length Required''), (412, ''Precondition Failed''),
    (413, ''Payload Too Large''), (414, ''Request-URI Too Long''),
    (415, ''Unsupported Media Type''), (416, ''Requested Range Not Satisfiable''),
    (417, ''Expectation Failed''), (418, ''I'm a teapot''),
    (421, ''Misdirected Request''), (422, ''Unprocessable Entity''),
    (423, ''Locked''), (424, ''Failed Dependency''),
    (426, ''Upgrade Required''), (428, ''Precondition Required''),
    (429, ''Too Many Requests''), (431, ''Request Header Fields Too Large''),
    (444, ''Connection Closed Without Response''), (451, ''Unavailable For Legal Reasons''),
    (499, ''Client Closed Request''), (500, ''Internal Server Error''),
    (501, ''Not Implemented''), (502, ''Bad Gateway''),
    (503, ''Service Unavailable''), (504, ''Gateway Timeout''),
    (505, ''HTTP Version Not Supported''), (506, ''Variant Also Negotiates''),
    (507, ''Insufficient Storage''), (508, ''Loop Detected''),
    (510, ''Not Extended''), (511, ''Network Authentication Required''),
    (599, ''Network Connect Timeout Error'')]"

definition mg_http_status_code_str :: "int \<Rightarrow> bytes" where
  "mg_http_status_code_str code = (case map_of status_codes code of Some t \<Rightarrow> bs t | None \<Rightarrow> [])"

definition mg_printf :: "bytes \<Rightarrow> fmt_arg list \<Rightarrow> bytes \<Rightarrow> bytes option" where
  "mg_printf fmt args send = do { (out, n) \<leftarrow> mg_vxprintf fmt args; Some (send @ out) }"

text \<open>\<open>mg_snprintf\<close> into the \<open>n\<close> bytes at an offset of the buffer: what it returns, and the buffer.\<close>

definition snprintf_at :: "nat \<Rightarrow> nat \<Rightarrow> bytes \<Rightarrow> fmt_arg list \<Rightarrow> bytes \<Rightarrow> (nat \<times> bytes) option" where
  "snprintf_at ofs n fmt args m = do {
     d \<leftarrow> (if ofs + n \<le> length m then Some (span m ofs n) else None);
     (k, d) \<leftarrow> mg_vsnprintf d fmt args;
     m \<leftarrow> blit m ofs d;
     Some (k, m) }"

definition reply_format :: bytes where
  "reply_format = bs ''HTTP/1.1 %d %s'' @ [13, 10] @ bs ''%sContent-Length:            '' @ [13, 10, 13, 10]"

text \<open>What a reply changes of a connection.\<close>

record reply_conn =
  out_send :: bytes
  out_resp :: bool

text \<open>\<open>body\<close> is the text that the format and arguments of the caller print.\<close>

definition mg_http_reply :: "u32 \<Rightarrow> bytes option \<Rightarrow> bytes \<Rightarrow> reply_conn \<Rightarrow> reply_conn option" where
  "mg_http_reply code hdrs body c = do {
     send \<leftarrow> mg_printf reply_format
       [Int32 code, Str (Some (mg_http_status_code_str (sint code) @ [0])),
        Str (Some (case hdrs of None \<Rightarrow> [0] | Some h \<Rightarrow> h @ [0]))] (out_send c);
     let len = length send;
     let send = send @ body;
     send \<leftarrow>
       (if length send > 16 then do {
          (n, send) \<leftarrow> snprintf_at (len - 15) 11 (bs ''%-10lu'') [Int64 (word_of_nat (length send - len))] send;
          wr send (len - 15 + n) 32 }
        else Some send);
     Some (c\<lparr>out_send := send, out_resp := False\<rparr>) }"

section \<open>Chunks\<close>

definition mg_http_vprintf_chunk :: "bytes \<Rightarrow> reply_conn \<Rightarrow> reply_conn option" where
  "mg_http_vprintf_chunk out c = do {
     let len = length (out_send c);
     let send = out_send c @ bs ''        '' @ [13, 10];
     let send = send @ out;
     c \<leftarrow>
       (if length send \<ge> len + 10 then do {
          (n, send) \<leftarrow> snprintf_at len 9 (bs ''%08lx'') [Int64 (word_of_nat (length send - len - 10))] send;
          send \<leftarrow> wr send (len + 8) 13;
          Some (c\<lparr>out_send := send, out_resp := (length send \<noteq> len + 10 \<and> out_resp c)\<rparr>) }
        else Some (c\<lparr>out_send := send\<rparr>));
     Some (c\<lparr>out_send := out_send c @ [13, 10]\<rparr>) }"

definition mg_http_write_chunk :: "bytes \<Rightarrow> reply_conn \<Rightarrow> reply_conn option" where
  "mg_http_write_chunk data c = do {
     send \<leftarrow> mg_printf (bs ''%lx'' @ [13, 10]) [Int64 (word_of_nat (length data))] (out_send c);
     let send = send @ data;
     let send = send @ [13, 10];
     Some (c\<lparr>out_send := send, out_resp := (length data \<noteq> 0 \<and> out_resp c)\<rparr>) }"

definition mg_http_etag :: "u64 \<Rightarrow> u64 \<Rightarrow> bytes \<Rightarrow> bytes option" where
  "mg_http_etag sz mtime mem = do {
     (n, mem) \<leftarrow> mg_vsnprintf mem ([34] @ bs ''%lld.%lld'' @ [34]) [Int64 mtime, Int64 sz];
     Some mem }"

section \<open>What a reply looks like\<close>

definition length_header :: "nat \<Rightarrow> bytes \<times> bytes" where
  "length_header n = (bs ''Content-Length'', dec_of n @ replicate (10 - length (dec_of n)) 32 @ [32])"

definition reply_request :: "int \<Rightarrow> (bytes \<times> bytes) list \<Rightarrow> nat \<Rightarrow> request" where
  "reply_request code hs n =
     \<lparr>r_method = bs ''HTTP/1.1'', r_uri = dec_of (nat code), r_proto = mg_http_status_code_str code,
      r_headers = hs @ [length_header n]\<rparr>"

lemma status_text:
  assumes "(code, t) \<in> set status_codes"
  shows "mg_http_status_code_str code = bs t \<and> bs t \<noteq> [] \<and> visible (bs t) \<and> hd (bs t) \<noteq> 32 \<and> 0 < code"
proof -
  have "distinct (map fst status_codes)" by (simp add: status_codes_def)
  then have "map_of status_codes code = Some t" using assms by simp
  moreover have "list_all (\<lambda>(c, t). bs t \<noteq> [] \<and> list_all (\<lambda>x. 32 \<le> x) (bs t) \<and> hd (bs t) \<noteq> 32 \<and> 0 < c) status_codes"
    by (simp add: status_codes_def)
  ultimately show ?thesis
    using assms by (auto simp: mg_http_status_code_str_def list_all_iff visible_def)
qed

lemma sint_up: "sint (scast (w :: u32) :: u64) = sint w"
  by (simp add: sint_up_scast is_up)

lemma unat_pos_sint:
  fixes v :: u64
  assumes "0 \<le> sint v"
  shows "unat v = nat (sint v)"
proof -
  have "sint v < 2 ^ 63" using sint_less [of v] by simp
  then have "sint v mod 2 ^ LENGTH(64) = sint v" using assms by (intro mod_pos_pos_trivial) auto
  then have "uint (word_of_int (sint v) :: u64) = sint v" by (subst uint_word_of_int)
  then have "uint v = sint v" by simp
  then show ?thesis by (simp flip: nat_uint_eq)
qed

lemma snprintf_at_mid:
  assumes "mg_vsnprintf x fmt args = Some (k, y)" "length x = n" "length y = n" "length p = i"
  shows "snprintf_at i n fmt args (p @ x @ r) = Some (k, p @ y @ r)"
proof -
  have "span (p @ x @ r) i n = x" using span_mid [of p x r] assms(2,4) by simp
  then show ?thesis using assms by (simp add: snprintf_at_def blit_def)
qed

lemma dec_of_length: "n < 10 ^ k \<Longrightarrow> 0 < k \<Longrightarrow> length (dec_of n) \<le> k"
proof (cases "n = 0")
  case False
  assume "n < 10 ^ k"
  then show ?thesis using digits_rev_length [of n 10 k] False by (simp add: num_of_dec [symmetric] num_of_def)
qed (simp add: dec_of.simps)

lemma vx_pad_lu:
  "mg_vxprintf (bs ''%-10lu'') [Int64 v] =
     Some (dec_of (unat v) @ replicate (10 - length (dec_of (unat v))) 32, max 10 (length (dec_of (unat v))))"
proof -
  let ?sp = "\<lparr>f_alt = False, f_minus = True, f_zero = False, f_width = 10, f_prec = no_prec, f_long = 1\<rparr>"
  have n: "digit_val 49 = 1" "digit_val 48 = 0" by (simp_all add: digit_val_def)
  have "mg_vxprintf (37 # bs ''-10lu'') [Int64 v] =
      print_then (dec_of (unat v) @ replicate (10 - length (dec_of (unat v))) 32) (mg_vxprintf [] [])"
    by (rule vx_conv [where c = 117 and r = "[]" and argsy = "[]" and argsx = "[Int64 v]" and sp = ?sp])
      (simp_all add: fmt_head_simps fmt_conv_def fmt_int_text int_arg_def num_text_def num_of_dec padding_def n)
  then show ?thesis by simp
qed


lemma mg_http_reply_text:
  assumes "(sint code, t) \<in> set status_codes" "0 \<notin> set hdrs" "length body < 10 ^ 10"
  shows "mg_http_reply code (Some hdrs) body c = Some (c\<lparr>out_send := out_send c @ bs ''HTTP/1.1 '' @
     dec_of (nat (sint code)) @ [32] @ bs t @ CRLF @ hdrs @ header_line (length_header (length body)) @ CRLF @ CRLF @ body,
     out_resp := False\<rparr>)"
proof -
  define send where "send = out_send c"
  note st = status_text [OF assms(1)]
  let ?head = "bs ''HTTP/1.1 '' @ dec_of (nat (sint code)) @ [32] @ bs t @ CRLF @ hdrs @ bs ''Content-Length:''"
  have z: "0 \<notin> set (bs t)" using st visible_no [of "bs t" 0] by auto
  have n: "num_text (scast code) True False = dec_of (nat (sint code))"
    using st unat_pos_sint [of "scast code"] by (simp add: num_text_def sint_up num_of_dec)
  have 1: "mg_printf reply_format [Int32 code, Str (Some (bs t @ [0])), Str (Some (hdrs @ [0]))] send =
      Some (send @ ?head @ bs ''            '' @ CRLF @ CRLF)"
    using z assms(2) n by (simp add: mg_printf_def reply_format_def CRLF_def)
  let ?n = "length body" and ?d = "dec_of (length body)"
  have d: "length ?d \<le> 10" using dec_of_length [of ?n 10] assms(3) by simp
  have "unat (word_of_nat ?n :: u64) = ?n" using assms(3) by (intro unat_small) simp
  then have "mg_vxprintf (bs ''%-10lu'') [Int64 (word_of_nat ?n)] = Some (?d @ replicate (10 - length ?d) 32, 10)"
    using vx_pad_lu [of "word_of_nat ?n"] d by simp
  then have v: "mg_vsnprintf mem (bs ''%-10lu'') [Int64 (word_of_nat ?n)] = Some (10, ?d @ replicate (10 - length ?d) 32 @ [0])"
    if "length mem = 11" for mem
    using vsnprintf_text [of "bs ''%-10lu''" "[Int64 (word_of_nat ?n)]" "?d @ replicate (10 - length ?d) 32" 10 mem] d that
    by (cases mem) (auto simp: good_printer_def)
  let ?pre = "send @ ?head @ [32]" and ?y = "?d @ replicate (10 - length ?d) 32"
  have m: "send @ ?head @ bs ''            '' @ CRLF @ CRLF = ?pre @ replicate 11 32 @ CRLF @ CRLF"
    by (simp add: eval_nat_numeral)
  have s: "snprintf_at (length ?pre) 11 (bs ''%-10lu'') [Int64 (word_of_nat ?n)] (?pre @ replicate 11 32 @ CRLF @ CRLF @ body) =
      Some (10, ?pre @ (?y @ [0]) @ CRLF @ CRLF @ body)"
    by (rule snprintf_at_mid) (use v d in auto)
  have w: "wr (?pre @ (?y @ [0]) @ CRLF @ CRLF @ body) (length ?pre + 10) 32 = Some (?pre @ (?y @ [32]) @ CRLF @ CRLF @ body)"
    using d by (simp add: list_update_append)
  obtain pre y where py: "pre = ?pre" "y = ?y" by blast
  then have "16 \<le> length pre" by simp
  have "mg_http_reply code (Some hdrs) body c = Some (c\<lparr>out_send := pre @ (y @ [32]) @ CRLF @ CRLF @ body, out_resp := False\<rparr>)"
    using 1 s w st \<open>16 \<le> length pre\<close> unfolding m py [symmetric]
    by (simp add: mg_http_reply_def CRLF_def Let_def send_def)
  then show ?thesis by (simp add: py send_def header_line_def length_header_def)
qed

lemma digit_plain: "is_digit c \<Longrightarrow> 32 \<le> c \<and> c \<noteq> 32 \<and> c \<noteq> 58"
  by (drule is_digit_cases) (elim disjE; simp)

text \<open>The head of a reply is the head of a well-formed message.\<close>

lemma reply_request_ok:
  assumes "(code, t) \<in> set status_codes" "\<forall>h \<in> set hs. header_ok h" "length hs < 30"
  shows "request_ok (reply_request code hs n)"
    "request_head (reply_request code hs n) = bs ''HTTP/1.1 '' @ dec_of (nat code) @ [32] @ bs t @ CRLF @
       concat (map (\<lambda>h. header_line h @ CRLF) hs) @ header_line (length_header n) @ CRLF @ CRLF"
proof -
  note st = status_text [OF assms(1)]
  have v: "visible (dec_of k)" "32 \<notin> set (dec_of k)" "dec_of k \<noteq> []" "hd (dec_of k) \<noteq> 58" "hd (dec_of k) \<noteq> 32" for k
    using dec_of_props [of k] digit_plain [of "hd (dec_of k)"] hd_dec_of [of k "[]"] by (auto simp: visible_def dest: digit_plain)
  have "header_ok (length_header n)"
    using v [of n] by (auto simp: header_ok_def length_header_def visible_def)
  then show "request_ok (reply_request code hs n)"
    using st v [of "nat code"] assms(2,3) by (auto simp: request_ok_def reply_request_def visible_def MG_MAX_HTTP_HEADERS_def)
  show "request_head (reply_request code hs n) = bs ''HTTP/1.1 '' @ dec_of (nat code) @ [32] @ bs t @ CRLF @
       concat (map (\<lambda>h. header_line h @ CRLF) hs) @ header_line (length_header n) @ CRLF @ CRLF"
    using st by (simp add: request_head_def request_lines_def reply_request_def comp_def)
qed

lemma find_append: "find P (xs @ ys) = (case find P xs of None \<Rightarrow> find P ys | Some x \<Rightarrow> Some x)"
  by (induction xs) auto

lemma reply_announced:
  assumes "\<forall>h \<in> set hs. header_ok h \<and> \<not> same_name (bs ''Content-Length'') h" "n < 10 ^ 10"
  shows "announced (reply_request code hs n) = Some (Some n)"
proof -
  have "find (same_name (bs ''Content-Length'')) hs = None" using assms(1) by (simp add: find_None_iff)
  then have "find (same_name (bs ''Content-Length'')) (r_headers (reply_request code hs n)) = Some (length_header n)"
    by (simp add: reply_request_def length_header_def same_name_def find_append)
  moreover have "trim_end (snd (length_header n)) = dec_of n"
    using trim_dec(1) [of n "Suc (10 - length (dec_of n))"]
    by (simp add: length_header_def replicate_append_same del: trim_dec)
  moreover have "n div 10 \<le> 1844674407370955160" using assms(2) by simp
  ultimately show ?thesis by (simp add: announced_def length_value_dec)
qed

lemma status_text_short: "(code, t) \<in> set status_codes \<Longrightarrow> code < 1000 \<and> length t < 100"
  by (auto simp: status_codes_def)

lemma reply_head_small:
  assumes "(code, t) \<in> set status_codes" "\<forall>h \<in> set hs. header_ok h" "length hs < 30" "n < 10 ^ 10"
    "length (concat (map (\<lambda>h. header_line h @ CRLF) hs)) < 2 ^ 30"
  shows "length (request_head (reply_request code hs n)) < 2 ^ 31"
proof -
  have "length (dec_of n) \<le> 10" "length (dec_of (nat code)) \<le> 3" "length (bs t) < 100"
    using dec_of_length [of n 10] dec_of_length [of "nat code" 3] status_text_short [OF assms(1)] assms(4) by auto
  moreover have "length (request_head (reply_request code hs n)) \<le>
      100 + length (dec_of n) + length (dec_of (nat code)) + length (bs t) + length (concat (map (\<lambda>h. header_line h @ CRLF) hs))"
    unfolding reply_request_ok(2) [OF assms(1-3)] by (simp add: header_line_def length_header_def CRLF_def)
  ultimately show ?thesis using assms(5) by simp
qed

text \<open>
  C30.  Replies are read back: for each of the 63 known status codes, any fewer than 30 well-formed
  headers, and a body below 10 ^ 10 bytes, the text that \<open>mg_http_reply\<close> adds to the send buffer
  (with the length patched into its head afterwards) is parsed by \<open>mg_http_parse\<close> as one complete
  message with that status and reason phrase, whose body is exactly the one sent.  The headers it
  reads are those of the caller, in order and with their values, followed by the length; a lookup
  finds the first value with a name.  The connection is no longer waiting for a response.
\<close>

theorem http_reply_parses:
  assumes "(sint code, t) \<in> set status_codes" "\<forall>h \<in> set hs. header_ok h \<and> \<not> same_name (bs ''Content-Length'') h"
    "length hs < 30" "length body < 10 ^ 10" "length (concat (map (\<lambda>h. header_line h @ CRLF) hs)) < 2 ^ 30"
  shows "\<exists>head hm. mg_http_reply code (Some (concat (map (\<lambda>h. header_line h @ CRLF) hs))) body c =
        Some (c\<lparr>out_send := out_send c @ head @ body, out_resp := False\<rparr>) \<and>
     mg_http_parse (head @ body @ rest) = Some (int (length head), Some hm) \<and>
     req_method hm = bs ''HTTP/1.1'' \<and> uri hm = dec_of (nat (sint code)) \<and> proto hm = bs t \<and>
     body_len hm = of_nat (length body) \<and> message_len hm = of_nat (length head + length body) \<and>
     headers hm = map (\<lambda>(k, v). (k, trim_end v)) hs @ (bs ''Content-Length'', dec_of (length body)) # replicate (29 - length hs) ([], []) \<and>
     (\<forall>name. 0 \<notin> set name \<and> \<not> same_name name (bs ''Content-Length'', []) \<longrightarrow>
        mg_http_get_header hm name = map_option (trim_end \<circ> snd) (find (same_name name) hs))"
proof -
  let ?r = "reply_request (sint code) hs (length body)" and ?hd = "concat (map (\<lambda>h. header_line h @ CRLF) hs)"
  note st = status_text [OF assms(1)]
  have hs: "\<forall>h \<in> set hs. header_ok h" using assms(2) by blast
  note r = reply_request_ok [OF assms(1) hs assms(3), of "length body"]
  have small: "length (request_head ?r) < 2 ^ 31" by (rule reply_head_small [OF assms(1) hs assms(3-5)])
  have "0 \<notin> set ?hd"
    using hs by (auto simp: header_line_def CRLF_def header_ok_def dest: visible_no)
  then have 1: "mg_http_reply code (Some ?hd) body c = Some (c\<lparr>out_send := out_send c @ request_head ?r @ body, out_resp := False\<rparr>)"
    using mg_http_reply_text [OF assms(1) _ assms(4), of ?hd c] r(2) by simp
  have b: "announced ?r = Some (Some (length body))" using reply_announced [of hs] assms(2,4) by blast
  let ?hm = "announce_len (Some (length body)) (parsed ?r)"
  have p: "mg_http_parse (request_head ?r @ body @ rest) = Some (int (length (request_head ?r)), Some ?hm)"
    using http_parse_announced [OF r(1) small, of "body @ rest"] b by simp
  have "63 \<notin> set (dec_of k)" for k using dec_of_props [of k] by (auto simp: is_digit_def)
  then have parts: "req_method ?hm = bs ''HTTP/1.1''" "uri ?hm = dec_of (nat (sint code))" "proto ?hm = bs t"
    using st by (simp_all add: parsed_def reply_request_def Let_def announce_len_def)
  have len: "trim_end (snd (length_header (length body))) = dec_of (length body)"
    using trim_dec(1) [of "length body" "Suc (10 - length (dec_of (length body)))"]
    by (simp add: length_header_def replicate_append_same del: trim_dec)
  then have heads: "headers ?hm = map (\<lambda>(k, v). (k, trim_end v)) hs @ (bs ''Content-Length'', dec_of (length body)) # replicate (29 - length hs) ([], [])"
    using assms(3) by (simp add: announce_len_def reply_request_def kept_header_def split_def)
      (simp add: length_header_def)
  have get: "mg_http_get_header ?hm name = map_option (trim_end \<circ> snd) (find (same_name name) hs)"
    if "0 \<notin> set name" "\<not> same_name name (bs ''Content-Length'', [])" for name
    using get_header_parsed [OF r(1) that(1)] that(2)
    by (simp add: mg_http_get_header_def announce_len_def reply_request_def find_append length_header_def same_name_def
      split: option.splits)
  show ?thesis
    using 1 p parts heads get by (intro exI [of _ "request_head ?r"] exI [of _ ?hm]) (simp add: announce_len_def)
qed

theorem http_reply_parses_witness:
  "\<exists>head hm. mg_http_reply 404 (Some (bs ''A: b '' @ [13, 10])) (bs ''no'') \<lparr>out_send = [], out_resp = True\<rparr> =
        Some \<lparr>out_send = head @ bs ''no'', out_resp = False\<rparr> \<and>
     mg_http_parse (head @ bs ''no'') = Some (int (length head), Some hm) \<and>
     uri hm = bs ''404'' \<and> proto hm = bs ''Not Found'' \<and> body_len hm = 2 \<and> mg_http_get_header hm (bs ''a'') = Some (bs ''b'')"
proof -
  have m: "(sint (404 :: u32), ''Not Found'') \<in> set status_codes" by (simp add: status_codes_def)
  have h: "\<forall>h \<in> set [(bs ''A'', bs ''b '')]. header_ok h \<and> \<not> same_name (bs ''Content-Length'') h"
    by (simp add: header_ok_def visible_def same_name_def)
  have d: "dec_of 404 = bs ''404''"
    by (simp add: dec_of.simps digit_char_def)
  have n: "0 \<notin> set (bs ''a'') \<and> \<not> same_name (bs ''a'') (bs ''Content-Length'', [])"
      "map_option (trim_end \<circ> snd) (find (same_name (bs ''a'')) [(bs ''A'', bs ''b '')]) = Some (bs ''b'')"
    by (simp_all add: same_name_def mg_lower_def trim_end_def)
  obtain head hm where *: "mg_http_reply 404 (Some (concat (map (\<lambda>h. header_line h @ CRLF) [(bs ''A'', bs ''b '')]))) (bs ''no'')
        \<lparr>out_send = [], out_resp = True\<rparr> = Some (\<lparr>out_send = [], out_resp = True\<rparr>\<lparr>out_send := [] @ head @ bs ''no'', out_resp := False\<rparr>)"
      "mg_http_parse (head @ bs ''no'' @ []) = Some (int (length head), Some hm)" "uri hm = dec_of (nat (sint (404 :: u32)))"
      "proto hm = bs ''Not Found''" "body_len hm = of_nat (length (bs ''no''))" "mg_http_get_header hm (bs ''a'') = Some (bs ''b'')"
    using http_reply_parses [OF m h, of "bs ''no''" "\<lparr>out_send = [], out_resp = True\<rparr>" "[]"] n
    by (auto simp: header_line_def CRLF_def)
  show ?thesis using * by (intro exI [of _ head] exI [of _ hm]) (simp add: d header_line_def CRLF_def)
qed

end
