(* ===== verification/Mg_Json.thy ===== *)
theory Mg_Json
  imports Mg_Fmt Mg_Base64 Mg_Str
begin

text \<open>
  JSON (\<open>src/mongoose.c\<close>, \<open>json.c\<close>): the search for the value at a path, which scans the text once without
  building a tree, and the accessors on top of it.  Paths are zero-terminated, texts are counted.  Reading
  outside either, and overflow of the array index, is \<open>None\<close>.  Of \<open>mg_atod\<close> the length it scans is modelled,
  not the floating-point value.
\<close>

section \<open>Strings and numbers\<close>

definition escapeseq :: "bool \<Rightarrow> bytes" where
  "escapeseq esc = (if esc then esc1 else esc2)"

definition json_esc :: "u8 \<Rightarrow> bool \<Rightarrow> u8" where
  "json_esc c esc = esc_find c (escapeseq esc) (escapeseq (\<not> esc))"

text \<open>The index of the closing quote; \<open>None\<close> is \<open>MG_JSON_INVALID\<close>.\<close>

fun mg_pass_string :: "bytes \<Rightarrow> nat option" where
  "mg_pass_string [] = None"
| "mg_pass_string [c] = (if c = 34 then Some 0 else None)"
| "mg_pass_string (c # d # s) =
     (if c = 92 \<and> json_esc d True \<noteq> 0 then map_option (\<lambda>n. n + 2) (mg_pass_string s)
      else if c = 0 then None
      else if c = 34 then Some 0
      else map_option Suc (mg_pass_string (d # s)))"

text \<open>How far \<open>mg_atod\<close> gets: the sign, digits, a fraction, an exponent that stops growing at 308.\<close>

fun exp_digits :: "nat \<Rightarrow> bytes \<Rightarrow> bytes" where
  "exp_digits e [] = []"
| "exp_digits e (c # p) = (if is_digit c \<and> e < 308 then exp_digits (10 * e + digit_val c) p else c # p)"

definition skip_if :: "(u8 \<Rightarrow> bool) \<Rightarrow> bytes \<Rightarrow> bytes" where
  "skip_if P p = (case p of [] \<Rightarrow> [] | c # r \<Rightarrow> if P c then r else p)"

definition mg_atod_rest :: "bytes \<Rightarrow> bytes" where
  "mg_atod_rest p =
     (let p = dropWhile is_digit (skip_if (\<lambda>c. c = 45 \<or> c = 43) p);
          p = (case p of c # r \<Rightarrow> if c = 46 then dropWhile is_digit r else p | [] \<Rightarrow> p)
      in case p of
           c # r \<Rightarrow> if c = 101 \<or> c = 69 then exp_digits 0 (skip_if (\<lambda>c. c = 43) (skip_if (\<lambda>c. c = 45) r)) else p
         | [] \<Rightarrow> p)"

definition mg_atod_len :: "bytes \<Rightarrow> nat" where
  "mg_atod_len p = length p - length (mg_atod_rest p)"

section \<open>The scanner\<close>

datatype json_expect = S_VALUE | S_KEY | S_COLON | S_COMMA_OR_EOO

text \<open>The used part of \<open>nesting\<close> is a list, the innermost bracket first; \<open>depth\<close> is its length.\<close>

record json_state =
  expecting :: json_expect
  nesting :: bytes
  js_j :: nat
  js_ed :: nat
  js_pos :: nat
  js_ci :: int
  js_ei :: int

abbreviation depth :: "json_state \<Rightarrow> nat" where
  "depth st \<equiv> length (nesting st)"

definition MG_JSON_MAX_DEPTH :: nat where "MG_JSON_MAX_DEPTH = 30"
definition MG_JSON_TOO_DEEP :: int where "MG_JSON_TOO_DEEP = -1"
definition MG_JSON_INVALID :: int where "MG_JSON_INVALID = -2"
definition MG_JSON_NOT_FOUND :: int where "MG_JSON_NOT_FOUND = -3"

text \<open>A step returns from the function, with the offset and the length of the token, or goes on at an offset.\<close>

type_synonym json_res = "int \<times> nat + nat \<times> json_state"

abbreviation json_fail :: "int \<Rightarrow> json_res option" where
  "json_fail e \<equiv> Some (Inl (e, 0))"

definition mg_checkret :: "bytes \<Rightarrow> nat \<Rightarrow> json_state \<Rightarrow> (nat \<Rightarrow> json_state \<Rightarrow> json_res option) \<Rightarrow> json_res option" where
  "mg_checkret path i st k =
     (if depth st = js_ed st then do {
        c \<leftarrow> rd path (js_pos st);
        if c = 0 \<and> js_ci st = js_ei st then Some (Inl (int (js_j st), i - js_j st + 1)) else k i st }
      else k i st)"

definition mg_eoo :: "bytes \<Rightarrow> nat \<Rightarrow> u8 \<Rightarrow> json_state \<Rightarrow> (nat \<Rightarrow> json_state \<Rightarrow> json_res option) \<Rightarrow> json_res option" where
  "mg_eoo path i c st k =
     (if depth st = js_ed st \<and> js_ci st \<noteq> js_ei st then json_fail MG_JSON_NOT_FOUND
      else case nesting st of
        [] \<Rightarrow> None
      | b # outer \<Rightarrow> if c \<noteq> b + 2 then json_fail MG_JSON_INVALID else mg_checkret path i (st\<lparr>nesting := outer\<rparr>) k)"

text \<open>The index behind a bracket of the path.\<close>

function json_index :: "bytes \<Rightarrow> nat \<Rightarrow> int \<Rightarrow> (nat \<times> int) option" where
  "json_index path pos ei =
     (if pos < length path then
        let c = path ! pos; ei' = ei * 10 + (sint c - 48)
        in if c = 93 \<or> c = 0 then Some (pos, ei)
           else if - (2 ^ 31) \<le> ei * 10 \<and> ei * 10 < 2 ^ 31 \<and> - (2 ^ 31) \<le> ei' \<and> ei' < 2 ^ 31 then json_index path (pos + 1) ei'
           else None
      else None)"
  by pat_completeness auto
termination by (relation "measure (\<lambda>(path, pos, ei). length path - pos)") auto

declare json_index.simps [simp del]

definition json_count :: "json_state \<Rightarrow> json_state" where
  "json_count st = (if depth st = js_ed st \<and> js_ei st \<ge> 0 then st\<lparr>js_ci := js_ci st + 1\<rparr> else st)"

text \<open>The end of a value: it may be the one, otherwise it is counted.\<close>

definition json_value_end :: "bytes \<Rightarrow> nat \<Rightarrow> json_state \<Rightarrow> json_res option" where
  "json_value_end path i st =
     mg_checkret path i st (\<lambda>i st. Some (Inr (i, (json_count st)\<lparr>expecting := S_COMMA_OR_EOO\<rparr>)))"

definition json_literal :: "bytes \<Rightarrow> nat \<Rightarrow> nat option" where
  "json_literal s i =
     (if i + 3 < length s \<and> (take 4 (drop i s) = bs ''true'' \<or> take 4 (drop i s) = bs ''null'') then Some (i + 3)
      else if i + 4 < length s \<and> take 5 (drop i s) = bs ''false'' then Some (i + 4)
      else None)"

definition json_value :: "bytes \<Rightarrow> bytes \<Rightarrow> nat \<Rightarrow> u8 \<Rightarrow> json_state \<Rightarrow> json_res option" where
  "json_value path s i c st =
     (let st = (if depth st = js_ed st then st\<lparr>js_j := i\<rparr> else st) in
      if c = 123 then
        if depth st \<ge> MG_JSON_MAX_DEPTH then json_fail MG_JSON_TOO_DEEP
        else do {
          p \<leftarrow> (if depth st = js_ed st then rd path (js_pos st) else Some 0);
          let st = (if p = 46 \<and> js_ci st = js_ei st then st\<lparr>js_ed := js_ed st + 1, js_pos := js_pos st + 1, js_ci := -1, js_ei := -1\<rparr> else st);
          Some (Inr (i, st\<lparr>nesting := c # nesting st, expecting := S_KEY\<rparr>)) }
      else if c = 91 then
        if depth st \<ge> MG_JSON_MAX_DEPTH then json_fail MG_JSON_TOO_DEEP
        else do {
          p \<leftarrow> (if depth st = js_ed st then rd path (js_pos st) else Some 0);
          st \<leftarrow> (if p = 91 \<and> js_ei st = js_ci st then do {
                    (pos, ei) \<leftarrow> json_index path (js_pos st + 1) 0;
                    Some (st\<lparr>js_ed := js_ed st + 1, js_pos := (if path ! pos \<noteq> 0 then pos + 1 else pos), js_ci := 0, js_ei := ei\<rparr>) }
                 else Some st);
          Some (Inr (i, st\<lparr>nesting := c # nesting st\<rparr>)) }
      else if c = 93 \<and> depth st > 0 then mg_eoo path i c st (json_value_end path)
      else case json_literal s i of
        Some i \<Rightarrow> json_value_end path i st
      | None \<Rightarrow>
          if c = 45 \<or> is_digit c then json_value_end path (i + mg_atod_len (drop i s) - 1) st
          else if c = 34 then
            case mg_pass_string (drop (i + 1) s) of
              None \<Rightarrow> json_fail MG_JSON_INVALID
            | Some n \<Rightarrow> json_value_end path (i + n + 1) st
          else json_fail MG_JSON_INVALID)"

text \<open>A key: whether it is the one the path names at this depth.\<close>

definition json_key_matches :: "bytes \<Rightarrow> bytes \<Rightarrow> nat \<Rightarrow> nat \<Rightarrow> nat \<Rightarrow> bool option" where
  "json_key_matches path s i n pos = do {
     r \<leftarrow> strncmp (drop (i + 1) s) (drop pos path) n;
     if r = 0 then do { c \<leftarrow> rd path (pos + n); Some (c = 0 \<or> c = 46 \<or> c = 91) } else Some False }"

definition json_key :: "bytes \<Rightarrow> bytes \<Rightarrow> nat \<Rightarrow> u8 \<Rightarrow> json_state \<Rightarrow> json_res option" where
  "json_key path s i c st =
     (if c = 34 then
        case mg_pass_string (drop (i + 1) s) of
          None \<Rightarrow> json_fail MG_JSON_INVALID
        | Some n \<Rightarrow>
            if i + 1 + n \<ge> length s then json_fail MG_JSON_NOT_FOUND
            else if depth st < js_ed st then json_fail MG_JSON_NOT_FOUND
            else do {
              p \<leftarrow> (if depth st = js_ed st then rd path (js_pos st - 1) else Some 46);
              if p \<noteq> 46 then json_fail MG_JSON_NOT_FOUND
              else do {
                m \<leftarrow> (if depth st = js_ed st then json_key_matches path s i n (js_pos st) else Some False);
                let st = (if m then st\<lparr>js_pos := js_pos st + n\<rparr> else st);
                Some (Inr (i + n + 1, st\<lparr>expecting := S_COLON\<rparr>)) } }
      else if c = 125 then
        mg_eoo path i c st (\<lambda>i st. Some (Inr (i, json_count (st\<lparr>expecting := S_COMMA_OR_EOO\<rparr>))))
      else json_fail MG_JSON_INVALID)"

definition json_comma :: "bytes \<Rightarrow> nat \<Rightarrow> u8 \<Rightarrow> json_state \<Rightarrow> json_res option" where
  "json_comma path i c st =
     (case nesting st of
        [] \<Rightarrow> json_fail MG_JSON_INVALID
      | b # _ \<Rightarrow>
          if c = 44 then Some (Inr (i, st\<lparr>expecting := if b = 123 then S_KEY else S_VALUE\<rparr>))
          else if c = 93 \<or> c = 125 then mg_eoo path i c st (\<lambda>i st. Some (Inr (i, json_count st)))
          else json_fail MG_JSON_INVALID)"

definition json_ws :: "u8 \<Rightarrow> bool" where
  "json_ws c \<longleftrightarrow> c = 32 \<or> c = 9 \<or> c = 10 \<or> c = 13"

definition json_step :: "bytes \<Rightarrow> bytes \<Rightarrow> nat \<Rightarrow> json_state \<Rightarrow> json_res option" where
  "json_step path s i st =
     (let c = s ! i in
      if json_ws c then Some (Inr (i, st))
      else case expecting st of
        S_VALUE \<Rightarrow> json_value path s i c st
      | S_KEY \<Rightarrow> json_key path s i c st
      | S_COLON \<Rightarrow> if c = 58 then Some (Inr (i, st\<lparr>expecting := S_VALUE\<rparr>)) else json_fail MG_JSON_INVALID
      | S_COMMA_OR_EOO \<Rightarrow> json_comma path i c st)"

text \<open>A step never goes back, so the loop ends.\<close>

function json_loop :: "bytes \<Rightarrow> bytes \<Rightarrow> nat \<Rightarrow> json_state \<Rightarrow> (int \<times> nat) option" where
  "json_loop path s i st =
     (if i < length s then do {
        r \<leftarrow> json_step path s i st;
        case r of
          Inl res \<Rightarrow> Some res
        | Inr (i', st) \<Rightarrow> if i \<le> i' then json_loop path s (i' + 1) st else None }
      else Some (MG_JSON_NOT_FOUND, 0))"
  by pat_completeness auto
termination by (relation "measure (\<lambda>(path, s, i, st). length s - i)") auto

declare json_loop.simps [simp del]

text \<open>
  The length of the text is cast to \<open>int\<close>; the result is the offset, or an error, and the length of the token.
\<close>

definition mg_json_get :: "bytes \<Rightarrow> bytes \<Rightarrow> (int \<times> nat) option" where
  "mg_json_get json path = do {
     c \<leftarrow> rd path 0;
     if c \<noteq> 36 then Some (MG_JSON_INVALID, 0)
     else
       let len = nat (sint (word_of_nat (length json) :: 32 word))
       in json_loop path (take len json) 0
            \<lparr>expecting = S_VALUE, nesting = [], js_j = 0, js_ed = 0, js_pos = 1, js_ci = -1, js_ei = -1\<rparr> }"

section \<open>Accessors\<close>

text \<open>\<open>mg_json_get_num\<close>: the characters that \<open>mg_atod\<close> converts, if there is a number.\<close>

definition mg_json_get_num :: "bytes \<Rightarrow> bytes \<Rightarrow> bytes option option" where
  "mg_json_get_num json path = do {
     (n, toklen) \<leftarrow> mg_json_get json path;
     if n \<ge> 0 then do {
       c \<leftarrow> rd json (nat n);
       Some (if c = 45 \<or> is_digit c then Some (take toklen (drop (nat n) json)) else None) }
     else Some None }"

definition mg_json_get_bool :: "bytes \<Rightarrow> bytes \<Rightarrow> bool option option" where
  "mg_json_get_bool json path = do {
     (off, _) \<leftarrow> mg_json_get json path;
     if off \<ge> 0 then do {
       c \<leftarrow> rd json (nat off);
       Some (if c = 116 \<or> c = 102 then Some (c = 116) else None) }
     else Some None }"

text \<open>Unescaping \<open>s\<close> from offset \<open>i\<close> into \<open>to\<close> at \<open>j\<close>: success, and what \<open>to\<close> is left as.\<close>

function unescape_loop :: "bytes \<Rightarrow> nat \<Rightarrow> bytes \<Rightarrow> nat \<Rightarrow> (bool \<times> bytes) option" where
  "unescape_loop s i to j =
     (if i < length s \<and> j < length to then
        if s ! i = 92 \<and> i + 5 < length s \<and> s ! (i + 1) = 117 then
          if s ! (i + 2) \<noteq> 48 \<or> s ! (i + 3) \<noteq> 48 then Some (False, to)
          else do {
            v \<leftarrow> mg_unhexn s (i + 4) 2;
            unescape_loop s (i + 6) (to[j := ucast v]) (j + 1) }
        else if s ! i = 92 \<and> i + 1 < length s then
          let c = json_esc (s ! (i + 1)) False in
          if c = 0 then Some (False, to) else unescape_loop s (i + 2) (to[j := c]) (j + 1)
        else unescape_loop s (i + 1) (to[j := s ! i]) (j + 1)
      else if j \<ge> length to then Some (False, to)
      else Some (True, to[j := 0]))"
  by pat_completeness auto
termination by (relation "measure (\<lambda>(s, i, to, j). length s - i)") auto

declare unescape_loop.simps [simp del]

definition mg_json_unescape :: "bytes \<Rightarrow> bytes \<Rightarrow> (bool \<times> bytes) option" where
  "mg_json_unescape s to = unescape_loop s 0 to 0"

text \<open>The accessors of strings return new memory, or the null pointer; \<open>alloc\<close> says whether \<open>calloc\<close> succeeds.\<close>

definition mg_json_get_str :: "bool \<Rightarrow> bytes \<Rightarrow> bytes \<Rightarrow> bytes option option" where
  "mg_json_get_str alloc json path = do {
     (off, len) \<leftarrow> mg_json_get json path;
     if off \<ge> 0 \<and> len > 1 then do {
       c \<leftarrow> rd json (nat off);
       if c = 34 \<and> alloc then do {
         (ok, result) \<leftarrow> mg_json_unescape (take (len - 2) (drop (nat off + 1) json)) (replicate len 0);
         Some (if ok then Some result else None) }
       else Some None }
     else Some None }"

definition mg_json_get_b64 :: "bool \<Rightarrow> bytes \<Rightarrow> bytes \<Rightarrow> (bytes \<times> nat) option option" where
  "mg_json_get_b64 alloc json path = do {
     (off, len) \<leftarrow> mg_json_get json path;
     if off \<ge> 0 then do {
       c \<leftarrow> rd json (nat off);
       if c = 34 \<and> len > 1 \<and> alloc then do {
         (result, k) \<leftarrow> mg_base64_decode (take (len - 2) (drop (nat off + 1) json)) (replicate len 0);
         Some (Some (result, k)) }
       else Some None }
     else Some None }"

definition mg_json_get_hex :: "bool \<Rightarrow> bytes \<Rightarrow> bytes \<Rightarrow> (bytes \<times> nat) option option" where
  "mg_json_get_hex alloc json path = do {
     (off, len) \<leftarrow> mg_json_get json path;
     if off \<ge> 0 then do {
       c \<leftarrow> rd json (nat off);
       if c = 34 \<and> len > 1 \<and> alloc then do {
         result \<leftarrow> mg_unhex (drop (nat off + 1) json) (len - 2) (replicate (len div 2) 0);
         result \<leftarrow> wr result (len div 2 - 1) 0;
         Some (Some (result, len div 2 - 1)) }
       else Some None }
     else Some None }"

end
