(* ===== verification/Mg_Json_Texts.thy ===== *)
theory Mg_Json_Texts
  imports Mg_Json
begin

text \<open>
  The texts of JSON values, as an inductive relation with blanks wherever the grammar allows them, and the
  central lemma on the scanner of \<open>Mg_Json\<close>: it gets from the first to the last character of every such text.
\<close>

section \<open>Texts of JSON values\<close>

text \<open>Numbers and strings are kept as they are written, strings without their quotes.\<close>

datatype json = JTrue | JFalse | JNull | JNum bytes | JStr bytes | JArr "json list" | JObj "(bytes \<times> json) list"

definition all_digits :: "bytes \<Rightarrow> bool" where
  "all_digits ds \<longleftrightarrow> ds \<noteq> [] \<and> (\<forall>c \<in> set ds. is_digit c)"

text \<open>The exponent may have as many digits as stay below 308 before the last.\<close>

definition json_number :: "bytes \<Rightarrow> bool" where
  "json_number b \<longleftrightarrow> (\<exists>sg ip fp ep. b = sg @ ip @ fp @ ep \<and> (sg = [] \<or> sg = [45]) \<and> all_digits ip \<and>
     (fp = [] \<or> (\<exists>ds. all_digits ds \<and> fp = 46 # ds)) \<and>
     (ep = [] \<or> (\<exists>e s ds. (e = 101 \<or> e = 69) \<and> (s = [] \<or> s = [43] \<or> s = [45]) \<and> all_digits ds \<and>
        digits_val (butlast ds) < 308 \<and> ep = e # s @ ds)))"

definition esc_code :: "u8 \<Rightarrow> bool" where
  "esc_code d \<longleftrightarrow> d \<in> {8, 12, 10, 13, 9, 92, 34}"

text \<open>Between the quotes: no zero, no quote but behind a backslash, and no backslash that would take the closing one.\<close>

fun json_raw :: "bytes \<Rightarrow> bool" where
  "json_raw [] \<longleftrightarrow> True"
| "json_raw [c] \<longleftrightarrow> c \<noteq> 0 \<and> c \<noteq> 34 \<and> c \<noteq> 92"
| "json_raw (c # d # s) \<longleftrightarrow> (if c = 92 \<and> esc_code d then json_raw s else c \<noteq> 0 \<and> c \<noteq> 34 \<and> json_raw (d # s))"

definition blanks :: "bytes \<Rightarrow> bool" where
  "blanks w \<longleftrightarrow> (\<forall>c \<in> set w. json_ws c)"

inductive json_text :: "json \<Rightarrow> bytes \<Rightarrow> bool"
  and elems_text :: "json list \<Rightarrow> bytes \<Rightarrow> bool"
  and pairs_text :: "(bytes \<times> json) list \<Rightarrow> bytes \<Rightarrow> bool" where
  text_true: "json_text JTrue (bs ''true'')"
| text_false: "json_text JFalse (bs ''false'')"
| text_null: "json_text JNull (bs ''null'')"
| text_num: "json_number b \<Longrightarrow> json_text (JNum b) b"
| text_str: "json_raw r \<Longrightarrow> json_text (JStr r) (34 # r @ [34])"
| text_arr0: "blanks w \<Longrightarrow> json_text (JArr []) (91 # w @ [93])"
| text_arr: "elems_text vs t \<Longrightarrow> json_text (JArr vs) (91 # t)"
| text_obj0: "blanks w \<Longrightarrow> json_text (JObj []) (123 # w @ [125])"
| text_obj: "pairs_text kvs t \<Longrightarrow> json_text (JObj kvs) (123 # t)"
| elems_one: "blanks w1 \<Longrightarrow> json_text v u \<Longrightarrow> blanks w2 \<Longrightarrow> elems_text [v] (w1 @ u @ w2 @ [93])"
| elems_more: "blanks w1 \<Longrightarrow> json_text v u \<Longrightarrow> blanks w2 \<Longrightarrow> elems_text vs t \<Longrightarrow> elems_text (v # vs) (w1 @ u @ w2 @ 44 # t)"
| pairs_one: "blanks w1 \<Longrightarrow> json_raw k \<Longrightarrow> blanks w2 \<Longrightarrow> blanks w3 \<Longrightarrow> json_text v u \<Longrightarrow> blanks w4 \<Longrightarrow>
    pairs_text [(k, v)] (w1 @ 34 # k @ 34 # w2 @ 58 # w3 @ u @ w4 @ [125])"
| pairs_more: "blanks w1 \<Longrightarrow> json_raw k \<Longrightarrow> blanks w2 \<Longrightarrow> blanks w3 \<Longrightarrow> json_text v u \<Longrightarrow> blanks w4 \<Longrightarrow> pairs_text kvs t \<Longrightarrow>
    pairs_text ((k, v) # kvs) (w1 @ 34 # k @ 34 # w2 @ 58 # w3 @ u @ w4 @ 44 # t)"

inductive_cases json_text_objE: "json_text (JObj kvs) u"
inductive_cases json_text_arrE: "json_text (JArr vs) u"
inductive_simps elems_text_Nil: "elems_text [] t"
inductive_simps pairs_text_Nil: "pairs_text [] t"

section \<open>Scanning the tokens\<close>

lemma json_esc_code: "json_esc d True \<noteq> 0 \<longleftrightarrow> esc_code d"
  by (auto simp: json_esc_def escapeseq_def esc1_def esc2_def esc_code_def)

lemma pass_string_raw: "json_raw r \<Longrightarrow> mg_pass_string (r @ 34 # post) = Some (length r)"
proof (induction r rule: json_raw.induct)
  case (1)
  then show ?case by (cases post) auto
next
  case (2 c)
  then show ?case by (cases post) auto
next
  case (3 c d s)
  then show ?case by (auto simp: json_esc_code split: if_splits)
qed

definition no_number :: "bytes \<Rightarrow> bool" where
  "no_number post \<longleftrightarrow> post = [] \<or> \<not> is_digit (hd post) \<and> hd post \<notin> {43, 45, 46, 69, 101}"

lemma drop_digits: "all_digits ds \<Longrightarrow> p = [] \<or> \<not> is_digit (hd p) \<Longrightarrow> dropWhile is_digit (ds @ p) = p"
  by (cases p) (auto simp: all_digits_def dropWhile_append dropWhile_eq_Nil_conv)

lemma exp_digits_append:
  assumes "\<forall>c \<in> set ds. is_digit c" "ds \<noteq> [] \<Longrightarrow> foldl (\<lambda>a c. 10 * a + digit_val c) e (butlast ds) < 308" "p = [] \<or> \<not> is_digit (hd p)"
  shows "exp_digits e (ds @ p) = p"
  using assms
proof (induction ds arbitrary: e)
  case Nil
  then show ?case by (cases p) auto
next
  case (Cons c ds)
  have mono: "a \<le> foldl (\<lambda>a c. 10 * a + digit_val c) a xs" for a xs
  proof (induction xs arbitrary: a)
    case (Cons c xs)
    have "a \<le> 10 * a + digit_val c" by simp
    also have "\<dots> \<le> foldl (\<lambda>a c. 10 * a + digit_val c) (10 * a + digit_val c) xs" by (rule Cons)
    finally show ?case by simp
  qed simp
  show ?case
  proof (cases "ds = []")
    case True
    then show ?thesis using Cons by (cases p) auto
  next
    case False
    then have "foldl (\<lambda>a c. 10 * a + digit_val c) (10 * e + digit_val c) (butlast ds) < 308" using Cons.prems(2) by simp
    moreover have "e < 308" using mono [of "10 * e + digit_val c" "butlast ds"] calculation by linarith
    ultimately show ?thesis using Cons by simp
  qed
qed

lemma digit_no_sign: "is_digit c \<Longrightarrow> c \<noteq> 45 \<and> c \<noteq> 43 \<and> c \<noteq> 46 \<and> c \<noteq> 101 \<and> c \<noteq> 69 \<and> c \<noteq> 123 \<and> c \<noteq> 91 \<and> c \<noteq> 93 \<and> \<not> json_ws c \<and> c \<noteq> 34 \<and> c \<noteq> 116 \<and> c \<noteq> 110 \<and> c \<noteq> 102"
  by (drule is_digit_cases) (auto simp: json_ws_def)

lemma no_digits: "\<not> is_digit 43" "\<not> is_digit 45" "\<not> is_digit 46" "\<not> is_digit 69" "\<not> is_digit 101"
  by (simp_all add: is_digit_def)

lemma skip_if_no: "p = [] \<or> \<not> P (hd p) \<Longrightarrow> skip_if P p = p"
  by (cases p) (auto simp: skip_if_def)

lemma hd_digits: "all_digits ds \<Longrightarrow> is_digit (hd (ds @ p))"
  by (cases ds) (auto simp: all_digits_def)

lemma atod_rest_number:
  assumes "json_number b" "no_number post"
  shows "mg_atod_rest (b @ post) = post"
proof -
  obtain sg ip fp ep where b: "b = sg @ ip @ fp @ ep" "sg = [] \<or> sg = [45]" "all_digits ip"
    "fp = [] \<or> (\<exists>ds. all_digits ds \<and> fp = 46 # ds)"
    "ep = [] \<or> (\<exists>e s ds. (e = 101 \<or> e = 69) \<and> (s = [] \<or> s = [43] \<or> s = [45]) \<and> all_digits ds \<and>
        digits_val (butlast ds) < 308 \<and> ep = e # s @ ds)"
    using assms(1) unfolding json_number_def by blast
  let ?E = "ep @ post"
  have nd: "post = [] \<or> \<not> is_digit (hd post)" using assms(2) by (auto simp: no_number_def)
  have e1: "?E = [] \<or> \<not> is_digit (hd ?E)" "?E = [] \<or> hd ?E \<noteq> 46"
    using b(5) assms(2) no_digits by (auto simp: no_number_def)
  have f1: "fp @ ?E = [] \<or> \<not> is_digit (hd (fp @ ?E))" using b(4) e1 no_digits by auto
  have "is_digit (hd (ip @ fp @ ?E))" using hd_digits [OF b(3)] by simp
  then have s: "skip_if (\<lambda>c. c = 45 \<or> c = 43) (b @ post) = ip @ fp @ ?E"
    using b(1,2) no_digits by (auto simp: skip_if_def intro!: skip_if_no split: list.split)
  have d: "dropWhile is_digit (ip @ fp @ ?E) = fp @ ?E" by (rule drop_digits [OF b(3) f1])
  have f: "(case fp @ ?E of c # r \<Rightarrow> if c = 46 then dropWhile is_digit r else fp @ ?E | [] \<Rightarrow> fp @ ?E) = ?E"
  proof (cases "fp = []")
    case True
    then show ?thesis using e1 by (auto split: list.split)
  next
    case False
    then obtain ds where "all_digits ds" "fp = 46 # ds" using b(4) by blast
    then show ?thesis using e1(1) drop_digits [of ds ?E] by simp
  qed
  have x: "(case ?E of c # r \<Rightarrow> if c = 101 \<or> c = 69 then exp_digits 0 (skip_if (\<lambda>c. c = 43) (skip_if (\<lambda>c. c = 45) r)) else ?E | [] \<Rightarrow> ?E) = post"
  proof (cases "ep = []")
    case True
    then show ?thesis using assms(2) by (auto simp: no_number_def split: list.split)
  next
    case False
    then obtain e s ds where e: "e = 101 \<or> e = 69" "s = [] \<or> s = [43] \<or> s = [45]" "all_digits ds"
        "digits_val (butlast ds) < 308" "ep = e # s @ ds" using b(5) by blast
    have h: "is_digit (hd (ds @ post))" by (rule hd_digits [OF e(3)])
    have "skip_if (\<lambda>c. c = 43) (skip_if (\<lambda>c. c = 45) (s @ ds @ post)) = ds @ post"
      using e(2) h no_digits by (cases "ds @ post") (auto simp: skip_if_def)
    moreover have "exp_digits 0 (ds @ post) = post"
      using exp_digits_append [of ds 0 post] e(3,4) nd by (simp add: all_digits_def digits_val_def)
    ultimately show ?thesis using e by auto
  qed
  show ?thesis using s d f x by (simp add: mg_atod_rest_def)
qed

lemma number_start:
  assumes "json_number b"
  shows "\<exists>c r. b = c # r \<and> (c = 45 \<or> is_digit c)"
proof -
  obtain sg ip q where "b = sg @ ip @ q" "sg = [] \<or> sg = [45]" "all_digits ip" using assms unfolding json_number_def by blast
  then show ?thesis by (cases ip) (auto simp: all_digits_def)
qed

lemma number_len: "json_number b \<Longrightarrow> no_number post \<Longrightarrow> mg_atod_len (b @ post) = length b"
  by (simp add: mg_atod_len_def atod_rest_number)

section \<open>Scanning a value\<close>

lemma loop_step:
  "i < length s \<Longrightarrow> json_loop path s i st =
     (case json_step path s i st of
        None \<Rightarrow> None
      | Some (Inl r) \<Rightarrow> Some r
      | Some (Inr (i', st')) \<Rightarrow> if i \<le> i' then json_loop path s (i' + 1) st' else None)"
  by (subst json_loop.simps) (auto split: option.split sum.split)

lemma loop_go:
  "i < length s \<Longrightarrow> json_step path s i st = Some (Inr (i', st')) \<Longrightarrow> i \<le> i' \<Longrightarrow>
   json_loop path s i st = json_loop path s (i' + 1) st'"
  by (simp add: loop_step)

lemma loop_blanks:
  "blanks w \<Longrightarrow> json_loop path (pre @ w @ x) (length pre) st = json_loop path (pre @ w @ x) (length pre + length w) st"
proof (induction w arbitrary: pre)
  case (Cons c w)
  have "json_loop path (pre @ (c # w) @ x) (length pre) st = json_loop path (pre @ (c # w) @ x) (length pre + 1) st"
    using Cons.prems by (intro loop_go) (simp_all add: json_step_def blanks_def)
  then show ?case using Cons.IH [of "pre @ [c]"] Cons.prems by (simp add: blanks_def)
qed simp

text \<open>What happens when the last character of a value has been reached.\<close>

definition scan_end :: "bytes \<Rightarrow> bytes \<Rightarrow> nat \<Rightarrow> json_state \<Rightarrow> (int \<times> nat) option" where
  "scan_end path s i st = do {
     r \<leftarrow> json_value_end path i st;
     case r of Inl res \<Rightarrow> Some res | Inr (i', st') \<Rightarrow> json_loop path s (i' + 1) st' }"

definition json_mark :: "nat \<Rightarrow> json_state \<Rightarrow> json_state" where
  "json_mark i st = (if depth st = js_ed st then st\<lparr>js_j := i\<rparr> else st)"

lemma mark_simps [simp]:
  "expecting (json_mark i st) = expecting st" "nesting (json_mark i st) = nesting st" "js_ed (json_mark i st) = js_ed st"
  "js_pos (json_mark i st) = js_pos st" "js_ci (json_mark i st) = js_ci st" "js_ei (json_mark i st) = js_ei st"
  by (simp_all add: json_mark_def)

lemma value_end_cases:
  "json_value_end path i st = None \<or> (\<exists>r. json_value_end path i st = Some (Inl r)) \<or> (\<exists>st'. json_value_end path i st = Some (Inr (i, st')))"
  by (cases "rd path (js_pos st)") (simp_all add: json_value_end_def mg_checkret_def)

lemma value_end_expecting: "json_value_end path i (st\<lparr>expecting := e\<rparr>) = json_value_end path i st"
  by (cases "rd path (js_pos st)"; cases st) (simp_all add: json_value_end_def mg_checkret_def json_count_def)

lemma scan_end_expecting: "scan_end path s i (st\<lparr>expecting := e\<rparr>) = scan_end path s i st"
  by (simp add: scan_end_def value_end_expecting)

lemma loop_value_end:
  "i < length s \<Longrightarrow> json_step path s i st = json_value_end path i' st' \<Longrightarrow> i \<le> i' \<Longrightarrow>
   json_loop path s i st = scan_end path s i' st'"
  using value_end_cases [of path i' st'] by (auto simp: loop_step scan_end_def)

text \<open>The path does not lead into the value.\<close>

definition json_calm :: "bytes \<Rightarrow> json_state \<Rightarrow> bool" where
  "json_calm path st \<longleftrightarrow> expecting st = S_VALUE \<and> js_ed st \<le> depth st \<and>
     (depth st = js_ed st \<longrightarrow> js_pos st < length path \<and> (js_ci st = js_ei st \<longrightarrow> path ! js_pos st \<noteq> 46 \<and> path ! js_pos st \<noteq> 91))"

lemma calm_open:
  assumes "json_calm path st" "i < length s" "s ! i = c" "c = 123 \<or> c = 91" "depth st < MG_JSON_MAX_DEPTH"
  shows "json_loop path s i st = json_loop path s (i + 1)
    ((json_mark i st)\<lparr>nesting := c # nesting st, expecting := if c = 123 then S_KEY else S_VALUE\<rparr>)"
proof -
  let ?st = "json_mark i st" and ?new = "(json_mark i st)\<lparr>nesting := c # nesting st, expecting := if c = 123 then S_KEY else S_VALUE\<rparr>"
  have ws: "\<not> json_ws c" using assms(4) by (auto simp: json_ws_def)
  obtain p where p: "(if depth st = js_ed st then rd path (js_pos st) else Some 0) = Some p"
    "js_ci st = js_ei st \<Longrightarrow> p \<noteq> 46 \<and> p \<noteq> 91"
    using assms(1) by (cases "depth st = js_ed st") (auto simp: json_calm_def)
  have e: "expecting st = S_VALUE" using assms(1) by (simp add: json_calm_def)
  have m: "(if depth st = js_ed st then st\<lparr>js_j := i\<rparr> else st) = json_mark i st" by (simp add: json_mark_def)
  have d: "\<not> MG_JSON_MAX_DEPTH \<le> depth st" using assms(5) by simp
  have v: "json_value path s i c st = Some (Inr (i, ?new))"
    using assms(4)
  proof
    assume c: "c = 123"
    have "(p = 46 \<and> js_ci st = js_ei st) = False" using p(2) by blast
    then show ?thesis unfolding json_value_def m Let_def mark_simps using c d p(1) by (simp, blast?)
  next
    assume c: "c = 91"
    have "(p = 91 \<and> js_ei st = js_ci st) = False" using p(2) by auto
    moreover have "(json_mark i st)\<lparr>nesting := n, expecting := S_VALUE\<rparr> = (json_mark i st)\<lparr>nesting := n\<rparr>" for n
      using e mark_simps(1) [of i st] by (cases "json_mark i st") simp
    ultimately show ?thesis unfolding json_value_def m Let_def mark_simps using c d p(1) by (simp, blast?)
  qed
  show ?thesis using assms(2,3) ws e v by (intro loop_go) (simp_all add: json_step_def)
qed

lemma eoo_value_end:
  assumes "nesting st = b # ns" "c = b + 2" "js_ed st \<le> length ns"
    "\<And>i st. k i st = Some (Inr (i, (json_count st)\<lparr>expecting := S_COMMA_OR_EOO\<rparr>)) \<or> k i st = json_value_end path i st"
  shows "mg_eoo path i c st k = json_value_end path i (st\<lparr>nesting := ns\<rparr>)"
proof -
  let ?st = "st\<lparr>nesting := ns\<rparr>"
  have "mg_eoo path i c st k = mg_checkret path i ?st k"
    using assms(1-3) by (simp add: mg_eoo_def)
  moreover have "mg_checkret path i ?st k = json_value_end path i ?st"
  proof -
    from assms(4) [of i ?st] show ?thesis
      by (elim disjE; cases "rd path (js_pos ?st)") (simp_all add: json_value_end_def mg_checkret_def)
  qed
  ultimately show ?thesis by simp
qed

lemma close_comma:
  assumes "expecting st = S_COMMA_OR_EOO" "nesting st = b # ns" "js_ed st \<le> length ns" "i < length s" "s ! i = b + 2" "b = 91 \<or> b = 123"
  shows "json_loop path s i st = scan_end path s i (st\<lparr>nesting := ns\<rparr>)"
proof (rule loop_value_end [OF assms(4) _ order_refl])
  have c: "s ! i = 93 \<or> s ! i = 125" using assms(5,6) by auto
  let ?st = "st\<lparr>nesting := ns\<rparr>"
  have "(json_count ?st)\<lparr>expecting := S_COMMA_OR_EOO\<rparr> = json_count ?st"
    using assms(1) by (cases st) (simp add: json_count_def)
  then have "mg_eoo path i (s ! i) st (\<lambda>i st. Some (Inr (i, json_count st))) =
      mg_eoo path i (s ! i) st (\<lambda>i st. Some (Inr (i, (json_count st)\<lparr>expecting := S_COMMA_OR_EOO\<rparr>)))"
    using assms(2) by (cases "rd path (js_pos st)") (simp_all add: mg_eoo_def mg_checkret_def)
  then have "mg_eoo path i (s ! i) st (\<lambda>i st. Some (Inr (i, json_count st))) = json_value_end path i (st\<lparr>nesting := ns\<rparr>)"
    using eoo_value_end [OF assms(2,5,3), of _ path i] by simp
  then show "json_step path s i st = json_value_end path i (st\<lparr>nesting := ns\<rparr>)"
    using assms(1,2) c by (auto simp: json_step_def json_comma_def json_ws_def)
qed

lemma close_empty_object:
  assumes "expecting st = S_KEY" "nesting st = 123 # ns" "js_ed st \<le> length ns" "i < length s" "s ! i = 125"
  shows "json_loop path s i st = scan_end path s i (st\<lparr>nesting := ns\<rparr>)"
proof (rule loop_value_end [OF assms(4) _ order_refl])
  have "mg_eoo path i 125 st (\<lambda>i st. Some (Inr (i, json_count (st\<lparr>expecting := S_COMMA_OR_EOO\<rparr>)))) =
      json_value_end path i (st\<lparr>nesting := ns\<rparr>)"
    by (rule eoo_value_end [OF assms(2) _ assms(3)]) (auto simp: json_count_def)
  then show "json_step path s i st = json_value_end path i (st\<lparr>nesting := ns\<rparr>)"
    using assms(1,5) by (simp add: json_step_def json_key_def json_ws_def)
qed

lemma close_empty_array:
  assumes "expecting st = S_VALUE" "nesting st = 91 # ns" "js_ed st \<le> length ns" "i < length s" "s ! i = 93"
  shows "json_loop path s i st = scan_end path s i (st\<lparr>nesting := ns\<rparr>)"
proof (rule loop_value_end [OF assms(4) _ order_refl])
  have "mg_eoo path i 93 st (json_value_end path) = json_value_end path i (st\<lparr>nesting := ns\<rparr>)"
    by (rule eoo_value_end [OF assms(2) _ assms(3)]) auto
  then show "json_step path s i st = json_value_end path i (st\<lparr>nesting := ns\<rparr>)"
    using assms(1-3,5) by (simp add: json_step_def json_value_def json_ws_def Let_def)
qed

lemma no_number_blanks: "blanks w \<Longrightarrow> c = 44 \<or> c = 93 \<or> c = 125 \<Longrightarrow> no_number (w @ c # x)"
proof (cases w)
  case (Cons b v)
  assume "blanks w"
  then have "json_ws b" using Cons by (simp add: blanks_def)
  then show ?thesis using Cons by (auto simp: no_number_def json_ws_def is_digit_def)
qed (auto simp: no_number_def is_digit_def)

fun json_height :: "json \<Rightarrow> nat" where
  "json_height (JArr vs) = Suc (foldr max (map json_height vs) 0)"
| "json_height (JObj kvs) = Suc (foldr max (map (\<lambda>(k, v). json_height v) kvs) 0)"
| "json_height _ = 0"

lemma foldr_max_bound: "x \<in> set xs \<Longrightarrow> (x :: nat) \<le> foldr max xs 0"
  by (induction xs) auto

lemma height_elem: "v \<in> set vs \<Longrightarrow> json_height v < json_height (JArr vs)"
  using foldr_max_bound [of "json_height v" "map json_height vs"] by auto

lemma height_pair: "(k, v) \<in> set kvs \<Longrightarrow> json_height v < json_height (JObj kvs)"
  using foldr_max_bound [of "json_height v" "map (\<lambda>(k, v). json_height v) kvs"] by force

definition value_scanned :: "bytes \<Rightarrow> json \<Rightarrow> bytes \<Rightarrow> bool" where
  "value_scanned path v u \<longleftrightarrow> u \<noteq> [] \<and> (\<forall>pre post st. json_calm path st \<longrightarrow> depth st + json_height v \<le> MG_JSON_MAX_DEPTH \<longrightarrow>
     no_number post \<longrightarrow> json_loop path (pre @ u @ post) (length pre) st =
       scan_end path (pre @ u @ post) (length pre + length u - 1) (json_mark (length pre) st))"

definition inside_scanned :: "json_expect \<Rightarrow> u8 \<Rightarrow> bytes \<Rightarrow> json list \<Rightarrow> bytes \<Rightarrow> bool" where
  "inside_scanned e b path vs t \<longleftrightarrow> t \<noteq> [] \<and> last t = b + 2 \<and> (\<forall>pre post st. expecting st = e \<longrightarrow> js_ed st < depth st \<longrightarrow> hd (nesting st) = b \<longrightarrow>
     (\<forall>v \<in> set vs. depth st + json_height v \<le> MG_JSON_MAX_DEPTH) \<longrightarrow>
     json_loop path (pre @ t @ post) (length pre) st =
       json_loop path (pre @ t @ post) (length pre + length t - 1) (st\<lparr>expecting := S_COMMA_OR_EOO\<rparr>))"

lemma value_scannedD:
  "value_scanned path v u \<Longrightarrow> json_calm path st \<Longrightarrow> depth st + json_height v \<le> MG_JSON_MAX_DEPTH \<Longrightarrow> no_number post \<Longrightarrow>
   s = pre @ u @ post \<Longrightarrow> i = length pre \<Longrightarrow>
   json_loop path s i st = scan_end path s (i + length u - 1) (json_mark i st)"
  by (simp add: value_scanned_def)

lemma inside_scannedD:
  "inside_scanned e b path vs t \<Longrightarrow> expecting st = e \<Longrightarrow> js_ed st < depth st \<Longrightarrow> hd (nesting st) = b \<Longrightarrow>
     (\<forall>v \<in> set vs. depth st + json_height v \<le> MG_JSON_MAX_DEPTH) \<Longrightarrow> s = pre @ t @ post \<Longrightarrow> i = length pre \<Longrightarrow>
     json_loop path s i st = json_loop path s (i + length t - 1) (st\<lparr>expecting := S_COMMA_OR_EOO\<rparr>)"
  by (simp add: inside_scanned_def)

text \<open>Deeper than the path looks, the end of a value is only passed.\<close>

lemma scan_end_deep:
  "js_ed st < depth st \<Longrightarrow> scan_end path s i st = json_loop path s (i + 1) (st\<lparr>expecting := S_COMMA_OR_EOO\<rparr>)"
  by (simp add: scan_end_def json_value_end_def mg_checkret_def json_count_def)

lemma mark_deep: "js_ed st < depth st \<Longrightarrow> json_mark i st = st"
  by (simp add: json_mark_def)

lemma scalar_scanned:
  assumes "u \<noteq> []" "\<not> json_ws (hd u)"
    "\<And>pre post st. no_number post \<Longrightarrow>
       json_value path (pre @ u @ post) (length pre) (hd u) st = json_value_end path (length pre + length u - 1) (json_mark (length pre) st)"
  shows "value_scanned path v u"
proof -
  have "json_loop path (pre @ u @ post) (length pre) st = scan_end path (pre @ u @ post) (length pre + length u - 1) (json_mark (length pre) st)"
    if "json_calm path st" "no_number post" for pre post st
  proof (rule loop_value_end)
    show "length pre < length (pre @ u @ post)" "length pre \<le> length pre + length u - 1" using assms(1) by (cases u; simp)+
    show "json_step path (pre @ u @ post) (length pre) st = json_value_end path (length pre + length u - 1) (json_mark (length pre) st)"
      using assms(1,2) assms(3) [OF that(2), of pre st] that(1)
      by (cases u) (simp_all add: json_step_def json_calm_def nth_append)
  qed
  then show ?thesis using assms(1) by (simp add: value_scanned_def)
qed

lemma Suc_steps: "Suc (Suc (Suc (Suc n))) = n + 4" "Suc (Suc (Suc n)) = n + 3"
  by simp_all

lemma literal_true: "value_scanned path JTrue (bs ''true'')"
  by (rule scalar_scanned) (simp_all add: json_ws_def json_value_def json_literal_def json_mark_def Let_def Suc_steps add.commute)

lemma literal_null: "value_scanned path JNull (bs ''null'')"
  by (rule scalar_scanned) (simp_all add: json_ws_def json_value_def json_literal_def json_mark_def Let_def Suc_steps add.commute)

lemma literal_false: "value_scanned path JFalse (bs ''false'')"
  by (rule scalar_scanned) (simp_all add: json_ws_def json_value_def json_literal_def json_mark_def Let_def Suc_steps add.commute)

lemma no_literal: "c \<noteq> 116 \<Longrightarrow> c \<noteq> 110 \<Longrightarrow> c \<noteq> 102 \<Longrightarrow> json_literal (pre @ (c # r) @ post) (length pre) = None"
  by (simp add: json_literal_def)

lemma number_scanned:
  assumes "json_number b"
  shows "value_scanned path (JNum b) b"
proof -
  obtain c r where b: "b = c # r" "c = 45 \<or> is_digit c" using number_start [OF assms] by blast
  have c: "c \<noteq> 123" "c \<noteq> 91" "c \<noteq> 93" "c \<noteq> 116" "c \<noteq> 110" "c \<noteq> 102" "\<not> json_ws c"
    using b(2) digit_no_sign [of c] by (auto simp: json_ws_def)
  show ?thesis
  proof (rule scalar_scanned)
    show "b \<noteq> []" "\<not> json_ws (hd b)" using b c by simp_all
    fix pre post st assume p: "no_number post"
    have "mg_atod_len (drop (length pre) (pre @ b @ post)) = length b" using number_len [OF assms p] by simp
    then show "json_value path (pre @ b @ post) (length pre) (hd b) st = json_value_end path (length pre + length b - 1) (json_mark (length pre) st)"
      using b c no_literal [of c pre r post] by (simp add: json_value_def json_mark_def Let_def)
  qed
qed

lemma string_scanned:
  assumes "json_raw r"
  shows "value_scanned path (JStr r) (34 # r @ [34])"
proof (rule scalar_scanned)
  fix pre post :: bytes and st assume "no_number post"
  have "mg_pass_string (drop (length pre + 1) (pre @ (34 # r @ [34]) @ post)) = Some (length r)"
    using pass_string_raw [OF assms, of post] by simp
  then show "json_value path (pre @ (34 # r @ [34]) @ post) (length pre) (hd (34 # r @ [34])) st =
      json_value_end path (length pre + length (34 # r @ [34]) - 1) (json_mark (length pre) st)"
    using no_literal [of 34 pre "r @ [34]" post] by (simp add: json_value_def json_mark_def Let_def is_digit_def)
qed (simp_all add: json_ws_def)

lemma container_scanned:
  assumes "inside_scanned e b path vs t" "b = 91 \<and> e = S_VALUE \<or> b = 123 \<and> e = S_KEY" "\<forall>w \<in> set vs. json_height w < json_height v"
    "json_height v > 0"
  shows "value_scanned path v (b # t)"
  unfolding value_scanned_def
proof (intro conjI allI impI)
  fix pre post st
  assume calm: "json_calm path st" and deep: "depth st + json_height v \<le> MG_JSON_MAX_DEPTH"
  let ?s = "pre @ (b # t) @ post" and ?i = "length pre"
  let ?st = "(json_mark ?i st)\<lparr>nesting := b # nesting st, expecting := e\<rparr>"
  have ed: "js_ed st \<le> depth st" using calm by (simp add: json_calm_def)
  have t: "t \<noteq> []" "last t = b + 2" using assms(1) by (simp_all add: inside_scanned_def)
  have "json_loop path ?s ?i st = json_loop path ?s (?i + 1) ?st"
    using calm_open [OF calm, of ?i ?s b] assms(2,4) deep by (auto simp: nth_append)
  also have "\<dots> = json_loop path ?s (?i + 1 + length t - 1) (?st\<lparr>expecting := S_COMMA_OR_EOO\<rparr>)"
    using inside_scannedD [OF assms(1), of ?st ?s "pre @ [b]" post] ed assms(3) deep by fastforce
  also have "\<dots> = scan_end path ?s (?i + length t) (?st\<lparr>expecting := S_COMMA_OR_EOO, nesting := nesting st\<rparr>)"
    using close_comma [of "?st\<lparr>expecting := S_COMMA_OR_EOO\<rparr>" b "nesting st" "?i + length t" ?s path] t ed assms(2)
    by (auto simp: nth_append last_conv_nth)
  also have "?st\<lparr>expecting := S_COMMA_OR_EOO, nesting := nesting st\<rparr> = (json_mark ?i st)\<lparr>expecting := S_COMMA_OR_EOO\<rparr>"
    using mark_simps(2) [of ?i st] by (cases "json_mark ?i st") simp
  finally show "json_loop path ?s ?i st = scan_end path ?s (?i + length (b # t) - 1) (json_mark ?i st)"
    by (simp add: scan_end_expecting)
qed simp

lemma empty_scanned:
  assumes "blanks w" "b = 91 \<and> v = JArr [] \<or> b = 123 \<and> v = JObj []"
  shows "value_scanned path v (b # w @ [b + 2])"
  unfolding value_scanned_def
proof (intro conjI allI impI)
  fix pre post st
  assume calm: "json_calm path st" and deep: "depth st + json_height v \<le> MG_JSON_MAX_DEPTH"
  let ?s = "pre @ (b # w @ [b + 2]) @ post" and ?i = "length pre"
  let ?st = "(json_mark ?i st)\<lparr>nesting := b # nesting st, expecting := if b = 123 then S_KEY else S_VALUE\<rparr>"
  have ed: "js_ed st \<le> depth st" using calm by (simp add: json_calm_def)
  have "json_loop path ?s ?i st = json_loop path ?s (?i + 1) ?st"
    using calm_open [OF calm, of ?i ?s b] assms(2) deep by (auto simp: nth_append)
  also have "\<dots> = json_loop path ?s (?i + 1 + length w) ?st"
    using loop_blanks [OF assms(1), of path "pre @ [b]" "(b + 2) # post" ?st] by simp
  also have "\<dots> = scan_end path ?s (?i + 1 + length w) (?st\<lparr>nesting := nesting st\<rparr>)"
    using assms(2) ed close_empty_array [of ?st "nesting st" "?i + 1 + length w" ?s path]
      close_empty_object [of ?st "nesting st" "?i + 1 + length w" ?s path]
    by (auto simp: nth_append)
  also have "?st\<lparr>nesting := nesting st\<rparr> = (json_mark ?i st)\<lparr>expecting := if b = 123 then S_KEY else S_VALUE\<rparr>"
    using mark_simps(2) [of ?i st] by (cases "json_mark ?i st") simp
  finally show "json_loop path ?s ?i st = scan_end path ?s (?i + length (b # w @ [b + 2]) - 1) (json_mark ?i st)"
    by (simp add: scan_end_expecting)
qed simp

text \<open>Deep inside, a value with the blanks around it.\<close>

lemma deep_value:
  assumes "value_scanned path v u" "blanks w1" "blanks w2" "c = 44 \<or> c = 93 \<or> c = 125"
    "expecting st = S_VALUE" "js_ed st < depth st" "depth st + json_height v \<le> MG_JSON_MAX_DEPTH"
    "s = pre @ w1 @ u @ w2 @ c # x" "i = length pre"
  shows "json_loop path s i st = json_loop path s (i + length (w1 @ u @ w2)) (st\<lparr>expecting := S_COMMA_OR_EOO\<rparr>)"
proof -
  have u: "u \<noteq> []" using assms(1) by (simp add: value_scanned_def)
  have calm: "json_calm path st" using assms(5,6) by (simp add: json_calm_def)
  have "json_loop path s i st = json_loop path s (i + length w1) st"
    using loop_blanks [OF assms(2), of path pre "u @ w2 @ c # x" st] assms(8,9) by simp
  also have "\<dots> = scan_end path s (i + length w1 + length u - 1) st"
    using value_scannedD [OF assms(1) calm assms(7) no_number_blanks [OF assms(3,4)], of s "pre @ w1" x "i + length w1"] assms(6,8,9)
    by (simp add: mark_deep)
  also have "\<dots> = json_loop path s (i + length w1 + length u) (st\<lparr>expecting := S_COMMA_OR_EOO\<rparr>)"
    using scan_end_deep [OF assms(6)] u by (cases u) simp_all
  also have "\<dots> = json_loop path s (i + length w1 + length u + length w2) (st\<lparr>expecting := S_COMMA_OR_EOO\<rparr>)"
    using loop_blanks [OF assms(3), of path "pre @ w1 @ u" "c # x" "st\<lparr>expecting := S_COMMA_OR_EOO\<rparr>"] assms(8,9) by (simp add: add.assoc)
  finally show ?thesis by (simp add: add.assoc)
qed

lemma comma_step:
  assumes "expecting st = S_COMMA_OR_EOO" "nesting st = b # ns" "i < length s" "s ! i = 44"
  shows "json_loop path s i st = json_loop path s (i + 1) (st\<lparr>expecting := if b = 123 then S_KEY else S_VALUE\<rparr>)"
  using assms by (intro loop_go) (simp_all add: json_step_def json_comma_def json_ws_def)

lemma colon_step:
  assumes "expecting st = S_COLON" "i < length s" "s ! i = 58"
  shows "json_loop path s i st = json_loop path s (i + 1) (st\<lparr>expecting := S_VALUE\<rparr>)"
  using assms by (intro loop_go) (simp_all add: json_step_def json_ws_def)

lemma key_deep:
  assumes "json_raw k" "expecting st = S_KEY" "js_ed st < depth st" "s = pre @ 34 # k @ 34 # x" "i = length pre"
  shows "json_loop path s i st = json_loop path s (i + length k + 2) (st\<lparr>expecting := S_COLON\<rparr>)"
proof -
  have "mg_pass_string (drop (i + 1) s) = Some (length k)" using pass_string_raw [OF assms(1), of x] assms(4,5) by simp
  then have "json_step path s i st = Some (Inr (i + length k + 1, st\<lparr>expecting := S_COLON\<rparr>))"
    using assms by (simp add: json_step_def json_key_def json_ws_def nth_append)
  then show ?thesis using assms(4,5) by (subst loop_go) simp_all
qed

text \<open>Between the brackets, where an element's text begins.\<close>

lemma elems_one_scanned:
  assumes "value_scanned path v u" "blanks w1" "blanks w2"
  shows "inside_scanned S_VALUE 91 path [v] (w1 @ u @ w2 @ [93])"
  unfolding inside_scanned_def
proof (intro conjI allI impI)
  fix pre post st
  assume "expecting st = S_VALUE" "js_ed st < depth st" "\<forall>v \<in> set [v]. depth st + json_height v \<le> MG_JSON_MAX_DEPTH"
  from deep_value [OF assms, of 93 st "pre @ (w1 @ u @ w2 @ [93]) @ post" pre post, OF _ this(1,2)] this(3)
  show "json_loop path (pre @ (w1 @ u @ w2 @ [93]) @ post) (length pre) st =
      json_loop path (pre @ (w1 @ u @ w2 @ [93]) @ post) (length pre + length (w1 @ u @ w2 @ [93]) - 1) (st\<lparr>expecting := S_COMMA_OR_EOO\<rparr>)"
    by simp
qed simp_all

lemma elems_more_scanned:
  assumes "value_scanned path v u" "blanks w1" "blanks w2" "inside_scanned S_VALUE 91 path vs t"
  shows "inside_scanned S_VALUE 91 path (v # vs) (w1 @ u @ w2 @ 44 # t)"
  unfolding inside_scanned_def
proof (intro conjI allI impI)
  show "w1 @ u @ w2 @ 44 # t \<noteq> []" "last (w1 @ u @ w2 @ 44 # t) = 91 + 2" using assms(4) by (simp_all add: inside_scanned_def)
  fix pre post st
  assume a: "expecting st = S_VALUE" "js_ed st < depth st" "hd (nesting st) = 91" "\<forall>v \<in> set (v # vs). depth st + json_height v \<le> MG_JSON_MAX_DEPTH"
  let ?s = "pre @ (w1 @ u @ w2 @ 44 # t) @ post" and ?c = "st\<lparr>expecting := S_COMMA_OR_EOO\<rparr>"
  let ?i = "length pre + length (w1 @ u @ w2)"
  obtain ns where n: "nesting st = 91 # ns" using a(2,3) by (cases "nesting st") auto
  have t: "t \<noteq> []" using assms(4) by (simp add: inside_scanned_def)
  have "json_loop path ?s (length pre) st = json_loop path ?s ?i ?c"
    using deep_value [OF assms(1-3), of 44 st ?s pre "t @ post"] a by simp
  also have "\<dots> = json_loop path ?s (?i + 1) (?c\<lparr>expecting := S_VALUE\<rparr>)"
    using comma_step [of ?c 91 ns ?i ?s path] n by (simp add: nth_append)
  also have "\<dots> = json_loop path ?s (?i + 1 + length t - 1) (?c\<lparr>expecting := S_VALUE, expecting := S_COMMA_OR_EOO\<rparr>)"
    using inside_scannedD [OF assms(4), of "?c\<lparr>expecting := S_VALUE\<rparr>" ?s "pre @ w1 @ u @ w2 @ [44]" post "?i + 1"] a by simp
  finally show "json_loop path ?s (length pre) st = json_loop path ?s (length pre + length (w1 @ u @ w2 @ 44 # t) - 1) ?c"
    using t by (cases t) (simp_all add: add.assoc)
qed

lemma deep_pair:
  assumes "value_scanned path v u" "json_raw k" "blanks w1" "blanks w2" "blanks w3" "blanks w4" "c = 44 \<or> c = 93 \<or> c = 125"
    "expecting st = S_KEY" "js_ed st < depth st" "depth st + json_height v \<le> MG_JSON_MAX_DEPTH"
    "s = pre @ w1 @ 34 # k @ 34 # w2 @ 58 # w3 @ u @ w4 @ c # x" "i = length pre"
  shows "json_loop path s i st =
    json_loop path s (i + length (w1 @ 34 # k @ 34 # w2 @ 58 # w3 @ u @ w4)) (st\<lparr>expecting := S_COMMA_OR_EOO\<rparr>)"
proof -
  let ?c = "st\<lparr>expecting := S_COLON\<rparr>" and ?v = "st\<lparr>expecting := S_VALUE\<rparr>"
  let ?i = "i + length w1" and ?j = "i + length w1 + length k + 2"
  let ?k = "?j + length w2"
  have "json_loop path s i st = json_loop path s ?i st"
    using loop_blanks [OF assms(3), of path pre] assms(11,12) by simp
  also have "\<dots> = json_loop path s ?j ?c"
    using key_deep [OF assms(2,8,9), of s "pre @ w1" _ ?i path] assms(11,12) by simp
  also have "\<dots> = json_loop path s ?k ?c"
    using loop_blanks [OF assms(4), of path "pre @ w1 @ 34 # k @ [34]" "58 # w3 @ u @ w4 @ c # x" ?c] assms(11,12) by (simp add: add.assoc)
  also have "\<dots> = json_loop path s (?k + 1) ?v"
    using colon_step [of ?c ?k s path] assms(11,12) by (simp add: nth_append)
  also have "\<dots> = json_loop path s (?k + 1 + length (w3 @ u @ w4)) (st\<lparr>expecting := S_COMMA_OR_EOO\<rparr>)"
    using deep_value [OF assms(1,5-7), of ?v s "pre @ w1 @ 34 # k @ 34 # w2 @ [58]" x "?k + 1"] assms(9-12) by simp
  finally show ?thesis by (simp add: add.assoc)
qed

lemma pairs_one_scanned:
  assumes "value_scanned path v u" "json_raw k" "blanks w1" "blanks w2" "blanks w3" "blanks w4"
  shows "inside_scanned S_KEY 123 path [v] (w1 @ 34 # k @ 34 # w2 @ 58 # w3 @ u @ w4 @ [125])"
  unfolding inside_scanned_def
proof (intro conjI allI impI)
  fix pre post st
  let ?t = "w1 @ 34 # k @ 34 # w2 @ 58 # w3 @ u @ w4 @ [125]"
  assume "expecting st = S_KEY" "js_ed st < depth st" "\<forall>v \<in> set [v]. depth st + json_height v \<le> MG_JSON_MAX_DEPTH"
  from deep_pair [OF assms, of 125 st "pre @ ?t @ post" pre post, OF _ this(1,2)] this(3)
  show "json_loop path (pre @ ?t @ post) (length pre) st =
      json_loop path (pre @ ?t @ post) (length pre + length ?t - 1) (st\<lparr>expecting := S_COMMA_OR_EOO\<rparr>)"
    by simp
qed simp_all

lemma pairs_more_scanned:
  assumes "value_scanned path v u" "json_raw k" "blanks w1" "blanks w2" "blanks w3" "blanks w4" "inside_scanned S_KEY 123 path vs t"
  shows "inside_scanned S_KEY 123 path (v # vs) (w1 @ 34 # k @ 34 # w2 @ 58 # w3 @ u @ w4 @ 44 # t)"
  unfolding inside_scanned_def
proof (intro conjI allI impI)
  let ?p = "w1 @ 34 # k @ 34 # w2 @ 58 # w3 @ u @ w4"
  have t: "t \<noteq> []" "last t = 125" using assms(7) by (simp_all add: inside_scanned_def)
  show "w1 @ 34 # k @ 34 # w2 @ 58 # w3 @ u @ w4 @ 44 # t \<noteq> []" "last (w1 @ 34 # k @ 34 # w2 @ 58 # w3 @ u @ w4 @ 44 # t) = 123 + 2"
    using t by simp_all
  fix pre post st
  assume a: "expecting st = S_KEY" "js_ed st < depth st" "hd (nesting st) = 123" "\<forall>v \<in> set (v # vs). depth st + json_height v \<le> MG_JSON_MAX_DEPTH"
  let ?t = "w1 @ 34 # k @ 34 # w2 @ 58 # w3 @ u @ w4 @ 44 # t"
  let ?s = "pre @ ?t @ post" and ?c = "st\<lparr>expecting := S_COMMA_OR_EOO\<rparr>" and ?i = "length pre + length ?p"
  obtain ns where n: "nesting st = 123 # ns" using a(2,3) by (cases "nesting st") auto
  have s: "?s = (pre @ ?p) @ 44 # t @ post" by simp
  have "json_loop path ?s (length pre) st = json_loop path ?s ?i ?c"
    using deep_pair [OF assms(1-6), of 44 st ?s pre "t @ post"] a by simp
  also have "\<dots> = json_loop path ?s (?i + 1) (?c\<lparr>expecting := S_KEY\<rparr>)"
    using comma_step [of ?c 123 ns ?i ?s path] n unfolding s nth_append by simp
  also have "\<dots> = json_loop path ?s (?i + 1 + length t - 1) (?c\<lparr>expecting := S_KEY, expecting := S_COMMA_OR_EOO\<rparr>)"
    using inside_scannedD [OF assms(7), of "?c\<lparr>expecting := S_KEY\<rparr>" ?s "pre @ ?p @ [44]" post "?i + 1"] a by simp
  also have "?i + 1 + length t - 1 = length pre + length ?t - 1" using t(1) by (cases t) simp_all
  finally show "json_loop path ?s (length pre) st = json_loop path ?s (length pre + length ?t - 1) ?c" by simp
qed

text \<open>Every text of a value is scanned to its end.\<close>

lemma text_scanned:
  shows json_text_scanned: "json_text v u \<Longrightarrow> value_scanned path v u"
    and elems_text_scanned: "elems_text vs t \<Longrightarrow> inside_scanned S_VALUE 91 path vs t"
    and pairs_text_scanned: "pairs_text kvs t' \<Longrightarrow> inside_scanned S_KEY 123 path (map snd kvs) t'"
proof (induction rule: json_text_elems_text_pairs_text.inducts)
  case (text_arr0 w)
  then show ?case using empty_scanned [of w 91 "JArr []" path] by simp
next
  case (text_obj0 w)
  then show ?case using empty_scanned [of w 123 "JObj []" path] by simp
next
  case (text_arr vs t)
  then show ?case using height_elem by (intro container_scanned) auto
next
  case (text_obj kvs t)
  then show ?case using height_pair [of _ _ kvs] by (intro container_scanned) (auto simp del: json_height.simps, auto)
next
  case (pairs_one w1 k w2 w3 v u w4)
  then show ?case using pairs_one_scanned by simp
next
  case (pairs_more w1 k w2 w3 v u w4 kvs t)
  then show ?case using pairs_more_scanned by simp
qed (auto simp del: bs_simps intro: literal_true literal_false literal_null number_scanned string_scanned elems_one_scanned elems_more_scanned)

end
