(* ===== verification/Mg_Json_Paths.thy ===== *)
theory Mg_Json_Paths
  imports Mg_Json_Texts
begin

text \<open>
  Paths into JSON values: the scanner finds what a path leads to, is memory safe on arbitrary texts, and
  returns strings as they were before the printer escaped them.
\<close>

section \<open>Paths\<close>

datatype path_step = Key bytes | Index nat

fun steps_text :: "path_step list \<Rightarrow> bytes" where
  "steps_text [] = []"
| "steps_text (Key k # p) = 46 # k @ steps_text p"
| "steps_text (Index n # p) = 91 # dec_of n @ 93 # steps_text p"

definition json_path :: "path_step list \<Rightarrow> bytes" where
  "json_path p = 36 # steps_text p @ [0]"

definition plain_key :: "bytes \<Rightarrow> bool" where
  "plain_key k \<longleftrightarrow> 0 \<notin> set k \<and> 46 \<notin> set k \<and> 91 \<notin> set k"

fun step_ok :: "path_step \<Rightarrow> bool" where
  "step_ok (Key k) \<longleftrightarrow> k \<noteq> [] \<and> plain_key k"
| "step_ok (Index n) \<longleftrightarrow> n < 2 ^ 31"

fun json_lookup :: "json \<Rightarrow> path_step list \<Rightarrow> json option" where
  "json_lookup v [] = Some v"
| "json_lookup (JObj kvs) (Key k # p) = (case map_of kvs k of None \<Rightarrow> None | Some w \<Rightarrow> json_lookup w p)"
| "json_lookup (JArr vs) (Index n # p) = (if n < length vs then json_lookup (vs ! n) p else None)"
| "json_lookup _ _ = None"

text \<open>Keys without the characters that structure a path.\<close>

fun plain_keys :: "json \<Rightarrow> bool" where
  "plain_keys (JArr vs) \<longleftrightarrow> (\<forall>v \<in> set vs. plain_keys v)"
| "plain_keys (JObj kvs) \<longleftrightarrow> (\<forall>(k, v) \<in> set kvs. plain_key k \<and> plain_keys v)"
| "plain_keys _ \<longleftrightarrow> True"

lemma steps_text_end: "\<exists>c r. steps_text p @ [0] = c # r \<and> (c = 0 \<or> c = 46 \<or> c = 91)"
  by (cases p rule: steps_text.cases) auto

lemma strncmp_key:
  assumes "plain_key k" "plain_key k'" "c = 0 \<or> c = 46 \<or> c = (91 :: u8)"
  shows "\<exists>d. strncmp (k' @ x) (k @ c # r) (length k') = Some d \<and>
    (d = 0 \<and> (let e = (k @ c # r) ! length k' in e = 0 \<or> e = 46 \<or> e = 91) \<longleftrightarrow> k' = k) \<and> (d = 0 \<longrightarrow> length k' \<le> length k)"
  using assms(1,2)
proof (induction k' arbitrary: k)
  case Nil
  then show ?case by (cases k) (auto simp: plain_key_def assms(3))
next
  case (Cons a k')
  show ?case
  proof (cases k)
    case Nil
    have "a \<noteq> c" using Cons.prems(2) assms(3) by (auto simp: plain_key_def)
    then show ?thesis using Nil by (auto simp: word_inject)
  next
    case (Cons b ks)
    show ?thesis
    proof (cases "a = b")
      case True
      then show ?thesis using Cons Cons.IH [of ks] Cons.prems by (auto simp: plain_key_def)
    next
      case False
      then show ?thesis using Cons by (auto simp: word_inject)
    qed
  qed
qed

lemma key_matches:
  assumes "drop (i + 1) s = k' @ x" "drop pos path = k @ c # r" "plain_key k" "plain_key k'" "c = 0 \<or> c = 46 \<or> c = 91"
  shows "json_key_matches path s i (length k') pos = Some (k' = k)"
proof -
  obtain d where d: "strncmp (k' @ x) (k @ c # r) (length k') = Some d"
    "d = 0 \<and> (let e = (k @ c # r) ! length k' in e = 0 \<or> e = 46 \<or> e = 91) \<longleftrightarrow> k' = k" "d = 0 \<longrightarrow> length k' \<le> length k"
    using strncmp_key [OF assms(3-5), of x r] by blast
  have p: "pos + length (k @ c # r) = length path" using arg_cong [OF assms(2), of length] by simp
  have "rd path (pos + length k') = Some ((k @ c # r) ! length k')" if "d = 0"
    using that d(3) p arg_cong [OF assms(2), of "\<lambda>l. l ! length k'"] by (simp add: rd_def)
  then show ?thesis using d(1,2) assms(1,2) by (auto simp: json_key_matches_def Let_def)
qed

lemma drop_ConsD: "drop n xs = y # ys \<Longrightarrow> n < length xs \<and> xs ! n = y \<and> drop (n + 1) xs = ys"
  using nth_via_drop [of n xs y ys] by (cases "n < length xs") (auto simp: drop_Suc tl_drop [symmetric])

lemma index_read:
  assumes "drop pos path = ds @ 93 # r" "\<forall>c \<in> set ds. is_digit c" "foldl (\<lambda>a c. 10 * a + digit_val c) e ds < 2 ^ 31"
  shows "json_index path pos (int e) = Some (pos + length ds, int (foldl (\<lambda>a c. 10 * a + digit_val c) e ds))"
  using assms
proof (induction ds arbitrary: pos e)
  case Nil
  then have "pos < length path" "path ! pos = 93" using drop_ConsD [of pos path 93 r] by simp_all
  then show ?case by (subst json_index.simps) simp
next
  case (Cons c ds)
  have mono: "a \<le> foldl (\<lambda>a c. 10 * a + digit_val c) a xs" for a and xs :: bytes
  proof (induction xs arbitrary: a)
    case (Cons c xs)
    have "a \<le> 10 * a + digit_val c" by simp
    also have "\<dots> \<le> foldl (\<lambda>a c. 10 * a + digit_val c) (10 * a + digit_val c) xs" by (rule Cons)
    finally show ?case by simp
  qed simp
  have p: "pos < length path" "path ! pos = c" "drop (pos + 1) path = ds @ 93 # r"
    using drop_ConsD [of pos path c "ds @ 93 # r"] Cons.prems(1) by simp_all
  have d: "is_digit c" "sint c - 48 = int (digit_val c)" using Cons.prems(2) digit_sint [of c] by auto
  have b: "10 * e + digit_val c < 2 ^ 31" using mono [of "10 * e + digit_val c" ds] Cons.prems(3) by simp
  have n: "c \<noteq> 93" "c \<noteq> 0" using d(1) by (auto simp: is_digit_def)
  have "json_index path pos (int e) = json_index path (pos + 1) (int (10 * e + digit_val c))"
    using p(1,2) d n b by (subst json_index.simps) (simp add: Let_def algebra_simps)
  then show ?case using Cons.IH [of "pos + 1" "10 * e + digit_val c"] p(3) Cons.prems(2,3) by simp
qed

section \<open>Following a path\<close>

lemma scan_end_pass:
  assumes "depth st = js_ed st" "js_pos st < length path" "path ! js_pos st \<noteq> 0 \<or> js_ci st \<noteq> js_ei st"
  shows "scan_end path s i st = json_loop path s (i + 1) ((json_count st)\<lparr>expecting := S_COMMA_OR_EOO\<rparr>)"
  using assms by (auto simp: scan_end_def json_value_end_def mg_checkret_def)

lemma scan_end_hit:
  assumes "depth st = js_ed st" "js_pos st < length path" "path ! js_pos st = 0" "js_ci st = js_ei st"
  shows "scan_end path s i st = Some (int (js_j st), i - js_j st + 1)"
  using assms by (simp add: scan_end_def json_value_end_def mg_checkret_def)

text \<open>At the level of the path, a value it does not lead into, with the blanks around it.\<close>

lemma level_value:
  assumes "value_scanned path v u" "blanks w1" "blanks w2" "c = 44 \<or> c = 93 \<or> c = 125" "json_calm path st"
    "depth st = js_ed st" "path ! js_pos st \<noteq> 0 \<or> js_ci st \<noteq> js_ei st" "depth st + json_height v \<le> MG_JSON_MAX_DEPTH"
    "s = pre @ w1 @ u @ w2 @ c # x" "i = length pre"
  shows "json_loop path s i st = json_loop path s (i + length (w1 @ u @ w2))
    ((json_count (st\<lparr>js_j := i + length w1\<rparr>))\<lparr>expecting := S_COMMA_OR_EOO\<rparr>)"
proof -
  have u: "u \<noteq> []" using assms(1) by (simp add: value_scanned_def)
  let ?st = "st\<lparr>js_j := i + length w1\<rparr>"
  let ?c = "(json_count ?st)\<lparr>expecting := S_COMMA_OR_EOO\<rparr>"
  have "json_loop path s i st = json_loop path s (i + length w1) st"
    using loop_blanks [OF assms(2), of path pre "u @ w2 @ c # x" st] assms(9,10) by simp
  also have "\<dots> = scan_end path s (i + length w1 + length u - 1) ?st"
    using value_scannedD [OF assms(1,5,8) no_number_blanks [OF assms(3,4)], of s "pre @ w1" x "i + length w1"] assms(6,9,10)
    by (simp add: json_mark_def)
  also have "\<dots> = json_loop path s (i + length w1 + length u) ?c"
    using scan_end_pass [of ?st path s "i + length w1 + length u - 1"] assms(5-7) u by (cases u) (auto simp: json_calm_def)
  also have "\<dots> = json_loop path s (i + length w1 + length u + length w2) ?c"
    using loop_blanks [OF assms(3), of path "pre @ w1 @ u" "c # x" ?c] assms(9,10) by (simp add: add.assoc)
  finally show ?thesis by (simp add: add.assoc)
qed

text \<open>At the level of the path, a key: it is followed when it is the one.\<close>

lemma level_key:
  assumes "json_raw k'" "plain_key k'" "plain_key k" "expecting st = S_KEY" "depth st = js_ed st" "js_pos st > 0" "path ! (js_pos st - 1) = 46"
    "drop (js_pos st) path = k @ c # r" "c = 0 \<or> c = 46 \<or> c = 91" "blanks w1" "blanks w2"
    "s = pre @ w1 @ 34 # k' @ 34 # w2 @ 58 # x" "i = length pre"
  shows "json_loop path s i st = json_loop path s (i + length (w1 @ 34 # k' @ 34 # w2 @ [58]))
    (st\<lparr>js_pos := (if k' = k then js_pos st + length k else js_pos st), expecting := S_VALUE\<rparr>)"
proof -
  let ?st = "st\<lparr>js_pos := (if k' = k then js_pos st + length k else js_pos st), expecting := S_COLON\<rparr>"
  let ?i = "i + length w1" and ?j = "i + length w1 + length k' + 2"
  have "json_loop path s i st = json_loop path s ?i st"
    using loop_blanks [OF assms(10), of path pre] assms(12,13) by simp
  also have "\<dots> = json_loop path s ?j ?st"
  proof -
    have d: "drop (?i + 1) s = k' @ 34 # w2 @ 58 # x" using assms(12,13) by simp
    have n: "mg_pass_string (drop (?i + 1) s) = Some (length k')" using pass_string_raw [OF assms(1)] d by simp
    have m: "json_key_matches path s ?i (length k') (js_pos st) = Some (k' = k)"
      by (rule key_matches [OF d assms(8,3,2,9)])
    have "js_pos st - 1 < length path" using arg_cong [OF assms(8), of length] by simp
    then have "json_step path s ?i st = Some (Inr (?i + length k' + 1, ?st))"
      using n m assms(4-7,12,13) by (cases st) (simp add: json_step_def json_key_def json_ws_def nth_append)
    then show ?thesis using assms(12,13) by (subst loop_go) simp_all
  qed
  also have "\<dots> = json_loop path s (?j + length w2) ?st"
    using loop_blanks [OF assms(11), of path "pre @ w1 @ 34 # k' @ [34]" "58 # x" ?st] assms(12,13) by (simp add: add.assoc)
  also have "\<dots> = json_loop path s (?j + length w2 + 1) (?st\<lparr>expecting := S_VALUE\<rparr>)"
    using colon_step [of ?st "?j + length w2" s path] assms(12,13) by (simp add: nth_append)
  finally show ?thesis by (simp add: add.assoc)
qed

lemma count_key: "js_ei st = -1 \<Longrightarrow> json_count st = st"
  by (simp add: json_count_def)

text \<open>The value behind a key of an object.\<close>

definition found_value :: "bytes \<Rightarrow> json \<Rightarrow> bytes \<Rightarrow> json_state \<Rightarrow> (int \<times> nat) option \<Rightarrow> bool" where
  "found_value path w s st' res \<longleftrightarrow> (\<exists>pre u post st. s = pre @ u @ post \<and> json_text w u \<and> no_number post \<and>
     res = json_loop path s (length pre) st \<and> st = st'\<lparr>js_j := js_j st\<rparr>)"

lemma object_find:
  assumes "pairs_text kvs t" "map_of kvs k = Some w" "\<forall>(k, v) \<in> set kvs. plain_key k" "k \<noteq> []" "plain_key k"
    "expecting st = S_KEY" "nesting st = 123 # ns" "depth st = js_ed st" "js_pos st > 0" "path ! (js_pos st - 1) = 46"
    "drop (js_pos st) path = k @ c # r" "c = 0 \<or> c = 46 \<or> c = 91" "js_ci st = -1" "js_ei st = -1"
    "\<forall>(k, v) \<in> set kvs. depth st + json_height v \<le> MG_JSON_MAX_DEPTH" "s = pre @ t @ post" "i = length pre"
  shows "found_value path w s (st\<lparr>js_pos := js_pos st + length k, expecting := S_VALUE\<rparr>) (json_loop path s i st)"
  using assms
proof (induction kvs arbitrary: t st pre i)
  case Nil
  then show ?case by simp
next
  case (Cons kv kvs)
  obtain k' v where kv: "kv = (k', v)" by (cases kv)
  obtain w1 w2 w3 u w4 b x where p: "blanks w1" "json_raw k'" "blanks w2" "blanks w3" "json_text v u" "blanks w4"
    "t = w1 @ 34 # k' @ 34 # w2 @ 58 # w3 @ u @ w4 @ b # x" "b = 125 \<and> kvs = [] \<or> b = 44 \<and> pairs_text kvs x"
    using Cons.prems(1) unfolding kv by (cases rule: pairs_text.cases) auto
  let ?i = "i + length (w1 @ 34 # k' @ 34 # w2 @ [58])"
  have s: "s = pre @ w1 @ 34 # k' @ 34 # w2 @ 58 # w3 @ u @ w4 @ b # x @ post" using Cons.prems(16) p(7) by simp
  have pk: "plain_key k'" using Cons.prems(3) kv by simp
  note key = level_key [OF p(2) pk Cons.prems(5,6,8-12) p(1,3) s Cons.prems(17)]
  have len: "length (pre @ w1 @ 34 # k' @ 34 # w2 @ [58]) = ?i" using Cons.prems(17) by simp
  show ?case
  proof (cases "k' = k")
    case True
    let ?st = "st\<lparr>js_pos := js_pos st + length k, expecting := S_VALUE\<rparr>"
    have "json_loop path s i st = json_loop path s ?i ?st" using key True by simp
    also have "\<dots> = json_loop path s (?i + length w3) ?st"
      using loop_blanks [OF p(4), of path "pre @ w1 @ 34 # k' @ 34 # w2 @ [58]" "u @ w4 @ b # x @ post" ?st] s len by simp
    finally have "json_loop path s i st = json_loop path s (length (pre @ w1 @ 34 # k' @ 34 # w2 @ 58 # w3)) ?st" using len by (simp add: add.assoc)
    moreover have "w = v" using Cons.prems(2) True kv by simp
    moreover have "no_number (w4 @ b # x @ post)" using p(6,8) by (intro no_number_blanks) auto
    moreover have "?st = ?st\<lparr>js_j := js_j ?st\<rparr>" by simp
    ultimately show ?thesis unfolding found_value_def using p(5) s
      by (intro exI [of _ "pre @ w1 @ 34 # k' @ 34 # w2 @ 58 # w3"] exI [of _ u] exI [of _ "w4 @ b # x @ post"] exI [of _ ?st]) simp
  next
    case False
    let ?v = "st\<lparr>expecting := S_VALUE\<rparr>" and ?e = "?i + length (w3 @ u @ w4)"
    have path: "js_pos st < length path" "path ! js_pos st = hd k" using drop_ConsD [of "js_pos st" path "hd k" "tl k @ c # r"]
      Cons.prems(4,11) by simp_all
    have hd: "hd k \<noteq> 0" "hd k \<noteq> 46" "hd k \<noteq> 91" using Cons.prems(4,5) by (cases k; auto simp: plain_key_def)+
    have calm: "json_calm path ?v" using Cons.prems(8) path hd by (simp add: json_calm_def)
    define st1 where "st1 = st\<lparr>js_j := ?i + length w3\<rparr>"
    have b: "b = 44" "pairs_text kvs x" using p(8) Cons.prems(2) False kv by auto
    have "json_loop path s i st = json_loop path s ?i ?v" using key False by simp
    also have "\<dots> = json_loop path s ?e (?v\<lparr>js_j := ?i + length w3, expecting := S_COMMA_OR_EOO\<rparr>)"
      using level_value [OF json_text_scanned [OF p(5)] p(4,6) _ calm, of b s "pre @ w1 @ 34 # k' @ 34 # w2 @ [58]" "x @ post" ?i]
        Cons.prems(8,14,15) kv path hd s len b(1) count_key [of "?v\<lparr>js_j := ?i + length w3\<rparr>"] by simp
    also have "\<dots> = json_loop path s ?e (st1\<lparr>expecting := S_COMMA_OR_EOO\<rparr>)" by (simp add: st1_def)
    also have "\<dots> = json_loop path s (?e + 1) (st1\<lparr>expecting := S_KEY\<rparr>)"
      using comma_step [of "st1\<lparr>expecting := S_COMMA_OR_EOO\<rparr>" 123 ns ?e s path] Cons.prems(7,17) s b(1) by (simp add: st1_def nth_append)
    also have "st1\<lparr>expecting := S_KEY\<rparr> = st1" using Cons.prems(6) by (simp add: st1_def)
    finally have step: "json_loop path s i st = json_loop path s (?e + 1) st1" .
    have f: "found_value path w s (st1\<lparr>js_pos := js_pos st1 + length k, expecting := S_VALUE\<rparr>) (json_loop path s (?e + 1) st1)"
    proof (rule Cons.IH [OF b(2)])
      show "map_of kvs k = Some w" using Cons.prems(2) False kv by simp
      show "s = (pre @ w1 @ 34 # k' @ 34 # w2 @ 58 # w3 @ u @ w4 @ [b]) @ x @ post" using s by simp
      show "?e + 1 = length (pre @ w1 @ 34 # k' @ 34 # w2 @ 58 # w3 @ u @ w4 @ [b])" using len by simp
    qed (use Cons.prems in \<open>simp_all add: st1_def\<close>)
    have "st1\<lparr>js_pos := js_pos st1 + length k, expecting := S_VALUE\<rparr>\<lparr>js_j := j\<rparr> = st\<lparr>js_pos := js_pos st + length k, expecting := S_VALUE\<rparr>\<lparr>js_j := j\<rparr>" for j
      by (simp add: st1_def)
    then show ?thesis using f unfolding step found_value_def by metis
  qed
qed

lemma found_valueE:
  assumes "found_value path w s st' res"
  obtains pre u post st where "s = pre @ u @ post" "json_text w u" "no_number post"
    "res = json_loop path s (length pre) st" "st = st'\<lparr>js_j := js_j st\<rparr>"
  using assms unfolding found_value_def by (elim exE conjE) (rule that)

text \<open>The element of an array with an index, from the element the scanner has got to.\<close>

lemma array_find:
  assumes "elems_text vs t" "m < length vs" "expecting st = S_VALUE" "nesting st = 91 # ns" "depth st = js_ed st"
    "js_pos st < length path" "js_ei st = js_ci st + int m" "0 \<le> js_ci st"
    "\<forall>v \<in> set vs. depth st + json_height v \<le> MG_JSON_MAX_DEPTH" "s = pre @ t @ post" "i = length pre"
  shows "found_value path (vs ! m) s (st\<lparr>js_ci := js_ei st\<rparr>) (json_loop path s i st)"
  using assms
proof (induction vs arbitrary: t m st pre i)
  case Nil
  then show ?case by simp
next
  case (Cons v vs)
  obtain w1 u w2 b x where p: "blanks w1" "json_text v u" "blanks w2" "t = w1 @ u @ w2 @ b # x"
    "b = 93 \<and> vs = [] \<or> b = 44 \<and> elems_text vs x"
    using Cons.prems(1) by (cases rule: elems_text.cases) auto
  have s: "s = pre @ w1 @ u @ w2 @ b # x @ post" using Cons.prems(10) p(4) by simp
  show ?case
  proof (cases m)
    case 0
    have "json_loop path s i st = json_loop path s (length (pre @ w1)) st"
      using loop_blanks [OF p(1), of path pre "u @ w2 @ b # x @ post" st] s Cons.prems(11) by simp
    moreover have "no_number (w2 @ b # x @ post)" using p(3,5) by (intro no_number_blanks) auto
    moreover have "st = (st\<lparr>js_ci := js_ei st\<rparr>)\<lparr>js_j := js_j st\<rparr>" using Cons.prems(7) 0 by simp
    ultimately show ?thesis unfolding found_value_def using p(2) s 0
      by (intro exI [of _ "pre @ w1"] exI [of _ u] exI [of _ "w2 @ b # x @ post"] exI [of _ st]) simp
  next
    case (Suc m')
    then have b: "b = 44" "elems_text vs x" using p(5) Cons.prems(2) by auto
    let ?e = "i + length (w1 @ u @ w2)"
    define st1 where "st1 = st\<lparr>js_j := i + length w1, js_ci := js_ci st + 1\<rparr>"
    have ne: "js_ci st \<noteq> js_ei st" using Cons.prems(7) Suc by simp
    have calm: "json_calm path st" using Cons.prems(3,5,6) ne by (simp add: json_calm_def)
    have cnt: "(json_count (st\<lparr>js_j := i + length w1\<rparr>))\<lparr>expecting := S_COMMA_OR_EOO\<rparr> = st1\<lparr>expecting := S_COMMA_OR_EOO\<rparr>"
      using Cons.prems(5,7,8) by (simp add: json_count_def st1_def)
    have "json_loop path s i st = json_loop path s ?e (st1\<lparr>expecting := S_COMMA_OR_EOO\<rparr>)"
      using level_value [OF json_text_scanned [OF p(2)] p(1,3) _ calm, of b s pre "x @ post" i] Cons.prems(5,9,11) ne s b(1)
      unfolding cnt by simp
    also have "\<dots> = json_loop path s (?e + 1) (st1\<lparr>expecting := S_VALUE\<rparr>)"
      using comma_step [of "st1\<lparr>expecting := S_COMMA_OR_EOO\<rparr>" 91 ns ?e s path] Cons.prems(4,11) s b(1) by (simp add: st1_def nth_append)
    also have "st1\<lparr>expecting := S_VALUE\<rparr> = st1" using Cons.prems(3) by (simp add: st1_def)
    finally have step: "json_loop path s i st = json_loop path s (?e + 1) st1" .
    have f: "found_value path (vs ! m') s (st1\<lparr>js_ci := js_ei st1\<rparr>) (json_loop path s (?e + 1) st1)"
    proof (rule Cons.IH [OF b(2)])
      show "m' < length vs" using Cons.prems(2) Suc by simp
      show "s = (pre @ w1 @ u @ w2 @ [b]) @ x @ post" using s by simp
      show "?e + 1 = length (pre @ w1 @ u @ w2 @ [b])" using Cons.prems(11) by simp
    qed (use Cons.prems Suc in \<open>simp_all add: st1_def\<close>)
    have "st1\<lparr>js_ci := js_ei st1\<rparr>\<lparr>js_j := j\<rparr> = st\<lparr>js_ci := js_ei st\<rparr>\<lparr>js_j := j\<rparr>" for j by (simp add: st1_def)
    then show ?thesis using f Suc unfolding step found_value_def by (metis nth_Cons_Suc)
  qed
qed

text \<open>The scanner stands at a value, and \<open>p\<close> is what is left of the path.\<close>

definition json_ready :: "bytes \<Rightarrow> path_step list \<Rightarrow> json_state \<Rightarrow> bool" where
  "json_ready path p st \<longleftrightarrow> expecting st = S_VALUE \<and> depth st = js_ed st \<and> js_ci st = js_ei st \<and> js_pos st > 0 \<and>
     drop (js_pos st) path = steps_text p @ [0]"

lemma ready_object:
  assumes "json_ready path (Key k # p) st" "i < length s" "s ! i = 123" "depth st < MG_JSON_MAX_DEPTH"
  shows "json_loop path s i st = json_loop path s (i + 1)
    (st\<lparr>js_j := i, js_ed := js_ed st + 1, js_pos := js_pos st + 1, js_ci := -1, js_ei := -1, nesting := 123 # nesting st, expecting := S_KEY\<rparr>)"
proof -
  have "js_pos st < length path" "path ! js_pos st = 46"
    using assms(1) drop_ConsD [of "js_pos st" path 46 "k @ steps_text p @ [0]"] by (simp_all add: json_ready_def)
  then have "json_step path s i st = Some (Inr (i,
      st\<lparr>js_j := i, js_ed := js_ed st + 1, js_pos := js_pos st + 1, js_ci := -1, js_ei := -1, nesting := 123 # nesting st, expecting := S_KEY\<rparr>))"
    using assms by (simp add: json_step_def json_value_def json_ready_def json_ws_def Let_def)
  then show ?thesis using assms(2) by (intro loop_go) simp_all
qed

lemma ready_array:
  assumes "json_ready path (Index n # p) st" "n < 2 ^ 31" "i < length s" "s ! i = 91" "depth st < MG_JSON_MAX_DEPTH"
  shows "json_loop path s i st = json_loop path s (i + 1)
    (st\<lparr>js_j := i, js_ed := js_ed st + 1, js_pos := js_pos st + length (dec_of n) + 2, js_ci := 0, js_ei := int n, nesting := 91 # nesting st\<rparr>)"
proof -
  let ?k = "js_pos st + 1 + length (dec_of n)"
  have d: "drop (js_pos st) path = 91 # dec_of n @ 93 # steps_text p @ [0]" using assms(1) by (simp add: json_ready_def)
  have p: "js_pos st < length path" "path ! js_pos st = 91" "drop (js_pos st + 1) path = dec_of n @ 93 # steps_text p @ [0]"
    using drop_ConsD [OF d] by simp_all
  have "foldl (\<lambda>a c. 10 * a + digit_val c) 0 (dec_of n) = n" using dec_of_props [of n] by (simp add: digits_val_def)
  then have ix: "json_index path (js_pos st + 1) 0 = Some (?k, int n)"
    using index_read [OF p(3), of 0] dec_of_props [of n] assms(2) by simp
  have "drop ?k path = 93 # steps_text p @ [0]"
    using arg_cong [OF p(3), of "drop (length (dec_of n))"] by (simp add: add.commute add.left_commute)
  then have "path ! ?k = 93" using drop_ConsD [of ?k path 93 "steps_text p @ [0]"] by simp
  then have "json_step path s i st = Some (Inr (i,
      st\<lparr>js_j := i, js_ed := js_ed st + 1, js_pos := js_pos st + length (dec_of n) + 2, js_ci := 0, js_ei := int n, nesting := 91 # nesting st\<rparr>))"
    using assms p(1,2) ix by (simp add: json_step_def json_value_def json_ready_def json_ws_def Let_def)
  then show ?thesis using assms(3) by (intro loop_go) simp_all
qed

lemma raw_no_zero: "json_raw k \<Longrightarrow> 0 \<notin> set k"
  by (induction k rule: json_raw.induct) (auto simp: esc_code_def split: if_splits)

text \<open>Where a path leads, the scanner finds the text of the value.\<close>

text \<open>The search ends with the place of a text of the value.\<close>

definition value_at :: "bytes \<Rightarrow> json \<Rightarrow> (int \<times> nat) option \<Rightarrow> bool" where
  "value_at s w res \<longleftrightarrow>
     (\<exists>pre u post. s = pre @ u @ post \<and> json_text w u \<and> res = Some (int (length pre), length u))"

lemma traverse_key:
  assumes "json_text v u" "json_lookup v (Key k # p) = Some w" "plain_keys v" "step_ok (Key k)" "json_ready path (Key k # p) st"
    "depth st + json_height v \<le> MG_JSON_MAX_DEPTH" "no_number post" "s = pre @ u @ post"
    and down: "\<And>v' st' res. found_value path v' s st' res \<Longrightarrow> json_lookup v' p = Some w \<Longrightarrow> plain_keys v' \<Longrightarrow>
      (\<And>j. json_ready path p (st'\<lparr>js_j := j\<rparr>)) \<Longrightarrow> depth st' + json_height v' \<le> MG_JSON_MAX_DEPTH \<Longrightarrow> value_at s w res"
  shows "value_at s w (json_loop path s (length pre) st)"
proof -
  have ready: "expecting st = S_VALUE" "depth st = js_ed st" "js_pos st > 0" using assms(5) by (simp_all add: json_ready_def)
  obtain kvs v' where v: "v = JObj kvs" "map_of kvs k = Some v'" "json_lookup v' p = Some w"
    using assms(2) by (cases v) (auto split: option.splits)
  have in_set: "(k, v') \<in> set kvs" using v(2) by (rule map_of_SomeD)
  then obtain t where t: "u = 123 # t" "pairs_text kvs t" using assms(1) v(1) by (auto elim: json_text_objE)
  let ?st = "st\<lparr>js_j := length pre, js_ed := js_ed st + 1, js_pos := js_pos st + 1, js_ci := -1, js_ei := -1, nesting := 123 # nesting st, expecting := S_KEY\<rparr>"
  have open1: "json_loop path s (length pre) st = json_loop path s (length pre + 1) ?st"
    using ready_object [of path k p st "length pre" s] assms(5,6,8) t(1) v(1) by simp
  obtain c r where cr: "steps_text p @ [0] = c # r" "c = 0 \<or> c = 46 \<or> c = 91" using steps_text_end by blast
  have d: "drop (js_pos st) path = 46 # k @ c # r" using assms(5) cr(1) by (simp add: json_ready_def)
  have d1: "drop (js_pos st + 1) path = k @ c # r" "path ! js_pos st = 46" using drop_ConsD [OF d] by simp_all
  have d2: "drop (js_pos st + 1 + length k) path = c # r"
    using arg_cong [OF d1(1), of "drop (length k)"] by (simp add: drop_drop add.commute add.left_commute del: drop_Suc)
  have h: "\<forall>(k, v) \<in> set kvs. depth ?st + json_height v \<le> MG_JSON_MAX_DEPTH" using assms(6) height_pair [of _ _ kvs] v(1) by fastforce
  have "found_value path v' s (?st\<lparr>js_pos := js_pos ?st + length k, expecting := S_VALUE\<rparr>) (json_loop path s (length pre + 1) ?st)"
  proof (rule object_find [OF t(2) v(2)])
    show "\<forall>(k, v) \<in> set kvs. plain_key k" using assms(3) v(1) by auto
    show "k \<noteq> []" "plain_key k" using assms(4) by simp_all
    show "s = (pre @ [123]) @ t @ post" using assms(8) t(1) by simp
  qed (use ready d1 cr(2) h in simp_all)
  then have "value_at s w (json_loop path s (length pre + 1) ?st)"
  proof (rule down [OF _ v(3)])
    show "plain_keys v'" using assms(3) v(1) in_set by auto
    show "json_ready path p (?st\<lparr>js_pos := js_pos ?st + length k, expecting := S_VALUE, js_j := j\<rparr>)" for j
      using d2 ready cr(1) by (simp add: json_ready_def)
  qed (use h in_set in auto)
  then show ?thesis using open1 by simp
qed

lemma traverse_index:
  assumes "json_text v u" "json_lookup v (Index n # p) = Some w" "plain_keys v" "step_ok (Index n)" "json_ready path (Index n # p) st"
    "depth st + json_height v \<le> MG_JSON_MAX_DEPTH" "no_number post" "s = pre @ u @ post"
    and down: "\<And>v' st' res. found_value path v' s st' res \<Longrightarrow> json_lookup v' p = Some w \<Longrightarrow> plain_keys v' \<Longrightarrow>
      (\<And>j. json_ready path p (st'\<lparr>js_j := j\<rparr>)) \<Longrightarrow> depth st' + json_height v' \<le> MG_JSON_MAX_DEPTH \<Longrightarrow> value_at s w res"
  shows "value_at s w (json_loop path s (length pre) st)"
proof -
  have ready: "expecting st = S_VALUE" "depth st = js_ed st" "js_pos st > 0" using assms(5) by (simp_all add: json_ready_def)
  obtain vs where v: "v = JArr vs" "n < length vs" "json_lookup (vs ! n) p = Some w"
    using assms(2) by (cases v) (auto split: if_splits)
  have in_set: "vs ! n \<in> set vs" using v(2) by simp
  then obtain t where t: "u = 91 # t" "elems_text vs t" using assms(1) v(1) by (auto elim: json_text_arrE)
  let ?st = "st\<lparr>js_j := length pre, js_ed := js_ed st + 1, js_pos := js_pos st + length (dec_of n) + 2, js_ci := 0, js_ei := int n, nesting := 91 # nesting st\<rparr>"
  have open1: "json_loop path s (length pre) st = json_loop path s (length pre + 1) ?st"
    using ready_array [of path n p st "length pre" s] assms(4-6,8) t(1) v(1) by simp
  have d: "drop (js_pos st) path = (91 # dec_of n @ [93]) @ steps_text p @ [0]" using assms(5) by (simp add: json_ready_def)
  have d1: "drop (js_pos st + length (dec_of n) + 2) path = steps_text p @ [0]"
    using arg_cong [OF d, of "drop (length (dec_of n) + 2)"] by (simp add: add.commute add.left_commute)
  then have l: "js_pos st + length (dec_of n) + 2 < length path" by (metis append_is_Nil_conv drop_eq_Nil linorder_not_less not_Cons_self2)
  have h: "\<forall>v \<in> set vs. depth ?st + json_height v \<le> MG_JSON_MAX_DEPTH" using assms(6) height_elem [of _ vs] v(1) by fastforce
  have "found_value path (vs ! n) s (?st\<lparr>js_ci := js_ei ?st\<rparr>) (json_loop path s (length pre + 1) ?st)"
  proof (rule array_find [OF t(2) v(2)])
    show "s = (pre @ [91]) @ t @ post" using assms(8) t(1) by simp
  qed (use ready l h in simp_all)
  then have "value_at s w (json_loop path s (length pre + 1) ?st)"
  proof (rule down [OF _ v(3)])
    show "plain_keys (vs ! n)" using assms(3) v(1) in_set by auto
    show "json_ready path p (?st\<lparr>js_ci := js_ei ?st, js_j := j\<rparr>)" for j using d1 ready by (simp add: json_ready_def)
  qed (use h in_set in auto)
  then show ?thesis using open1 by simp
qed

lemma traverse:
  assumes "json_text v u" "json_lookup v p = Some w" "plain_keys v" "\<forall>x \<in> set p. step_ok x" "json_ready path p st"
    "depth st + json_height v \<le> MG_JSON_MAX_DEPTH" "no_number post" "s = pre @ u @ post"
  shows "value_at s w (json_loop path s (length pre) st)"
  using assms
proof (induction p arbitrary: v u st pre post)
  case Nil
  have path: "js_pos st < length path" "path ! js_pos st = 0"
    using Nil.prems(5) drop_ConsD [of "js_pos st" path 0 "[]"] by (simp_all add: json_ready_def)
  have calm: "json_calm path st" using Nil.prems(5) path by (simp add: json_calm_def json_ready_def)
  have u: "u \<noteq> []" using json_text_scanned [OF Nil.prems(1)] by (simp add: value_scanned_def)
  have d: "depth st = js_ed st" "js_ci st = js_ei st" using Nil.prems(5) by (simp_all add: json_ready_def)
  have "json_loop path s (length pre) st = scan_end path s (length pre + length u - 1) (st\<lparr>js_j := length pre\<rparr>)"
    using value_scannedD [OF json_text_scanned [OF Nil.prems(1)] calm Nil.prems(6,7,8) refl] d by (simp add: json_mark_def)
  also have "\<dots> = Some (int (length pre), length u)"
    using scan_end_hit [of "st\<lparr>js_j := length pre\<rparr>" path s "length pre + length u - 1"] d path u by (cases u) simp_all
  finally show ?case using Nil.prems(1,2,8) by (auto simp: value_at_def)
next
  case (Cons x p)
  have ready: "expecting st = S_VALUE" "depth st = js_ed st" "js_pos st > 0" using Cons.prems(5) by (simp_all add: json_ready_def)
  have down: "value_at s w res"
    if fv: "found_value path v' s st' res" and dn: "json_lookup v' p = Some w" "plain_keys v'" "\<And>j. json_ready path p (st'\<lparr>js_j := j\<rparr>)"
      "depth st' + json_height v' \<le> MG_JSON_MAX_DEPTH" for v' st' res
  proof -
    obtain pre1 u1 post1 st1 where f: "s = pre1 @ u1 @ post1" "json_text v' u1" "no_number post1"
      "res = json_loop path s (length pre1) st1" "st1 = st'\<lparr>js_j := js_j st1\<rparr>" using fv by (rule found_valueE)
    have "json_ready path p st1" using dn(3) [of "js_j st1"] f(5) by simp
    moreover have "nesting st1 = nesting st'" using arg_cong [OF f(5), of nesting] by simp
    moreover have "\<forall>x \<in> set p. step_ok x" using Cons.prems(4) by simp
    ultimately show ?thesis using Cons.IH [OF f(2) dn(1,2) _ _ _ f(3,1), of st1] dn(4) f(4) by simp
  qed
  show ?case
  proof (cases x)
    case (Key k)
    show ?thesis
      by (rule traverse_key [OF Cons.prems(1) _ Cons.prems(3) _ _ Cons.prems(6-8) down]) (use Cons.prems(2,4,5) Key in auto)
  next
    case (Index n)
    show ?thesis
      by (rule traverse_index [OF Cons.prems(1) _ Cons.prems(3) _ _ Cons.prems(6-8) down]) (use Cons.prems(2,4,5) Index in auto)
  qed
qed

section \<open>Finding values\<close>

lemma int_length: "n < 2 ^ 31 \<Longrightarrow> nat (sint (word_of_nat n :: 32 word)) = n"
  by (simp add: signed_of_nat signed_take_bit_int_eq_self)

lemma json_finds:
  assumes "json_text v u" "blanks w1" "blanks w2" "json_lookup v p = Some w" "plain_keys v" "\<forall>x \<in> set p. step_ok x"
    "json_height v \<le> MG_JSON_MAX_DEPTH" "length (w1 @ u @ w2) < 2 ^ 31"
  shows "\<exists>pre t post. w1 @ u @ w2 = pre @ t @ post \<and> json_text w t \<and>
    mg_json_get (w1 @ u @ w2) (json_path p) = Some (int (length pre), length t)"
proof -
  let ?s = "w1 @ u @ w2" and ?path = "json_path p"
  let ?st = "\<lparr>expecting = S_VALUE, nesting = [], js_j = 0, js_ed = 0, js_pos = 1, js_ci = -1, js_ei = -1\<rparr>"
  have "mg_json_get ?s ?path = json_loop ?path ?s 0 ?st"
    using int_length [OF assms(8)] by (simp add: mg_json_get_def json_path_def Let_def del: length_append take_append)
  also have "\<dots> = json_loop ?path ?s (length w1) ?st"
    using loop_blanks [OF assms(2), of ?path "[]" "u @ w2" ?st] by simp
  finally have g: "mg_json_get ?s ?path = json_loop ?path ?s (length w1) ?st" .
  have n: "no_number w2"
  proof (cases w2)
    case (Cons c x)
    then have "json_ws c" using assms(3) by (simp add: blanks_def)
    then show ?thesis using Cons by (auto simp: no_number_def json_ws_def is_digit_def)
  qed (simp add: no_number_def)
  have "json_ready ?path p ?st" by (simp add: json_ready_def json_path_def)
  then show ?thesis unfolding g
    using traverse [OF assms(1,4-6), of ?path ?st w2 ?s w1] assms(7) n by (auto simp: value_at_def)
qed

text \<open>
  C6.  In a text of a JSON value, with blanks wherever they may stand, the search for a path returns the
  offset and the length of a text of the value that the path leads to: the first with the key, the element
  with the index.  It reads neither beyond the text nor beyond the path.  The value is nested at most
  \<open>MG_JSON_MAX_DEPTH\<close> = 30 deep (deeper texts are refused, \<open>mg_json_get_too_deep\<close>); no key of it holds a dot, an
  opening bracket or a zero byte (a dot in a key is taken for two steps of a path,
  \<open>mg_json_get_dotted_key\<close>); the digits of an exponent but the last are a number below 308, where
  the scanner stops reading it (\<open>json_number\<close>); the text is shorter than 2^31 bytes.
\<close>

theorem mg_json_get_finds:
  assumes "json_text v u" "blanks w1" "blanks w2" "json_lookup v p = Some w" "plain_keys v" "\<forall>x \<in> set p. step_ok x"
    "json_height v \<le> MG_JSON_MAX_DEPTH" "length (w1 @ u @ w2) < 2 ^ 31"
  shows "\<exists>pre t post. w1 @ u @ w2 = pre @ t @ post \<and> json_text w t \<and>
    mg_json_get (w1 @ u @ w2) (json_path p) = Some (int (length pre), length t)"
  by (rule json_finds [OF assms])

text \<open>Blanks, a number and an empty array on the way to the second element of an array.\<close>

theorem mg_json_get_finds_witness:
  "let text = bs ''{ '' @ [34, 97, 34] @ bs '':-1.5e3, '' @ [34, 98, 34] @ bs '' : [[], true ] }'';
       path = json_path [Key (bs ''b''), Index 1]
   in \<exists>pre t post. text = pre @ t @ post \<and> json_text JTrue t \<and> mg_json_get text path = Some (int (length pre), length t)"
proof -
  have num: "json_number (bs ''-1.5e3'')"
  proof -
    have d: "all_digits [49]" "all_digits [53]" "all_digits [51]" by (simp_all add: all_digits_def is_digit_def)
    have f: "\<exists>ds. all_digits ds \<and> bs ''.5'' = 46 # ds" using d(2) by simp
    have e: "\<exists>e s ds. (e = 101 \<or> e = 69) \<and> (s = [] \<or> s = [43] \<or> s = [45]) \<and> all_digits ds \<and>
        digits_val (butlast ds) < 308 \<and> bs ''e3'' = e # s @ ds"
      by (intro exI [of _ 101] exI [of _ "[]"] exI [of _ "[51]"]) (use d(3) in \<open>simp add: digits_val_def\<close>)
    show ?thesis unfolding json_number_def
      by (rule exI [of _ "bs ''-''"], rule exI [of _ "bs ''1''"], rule exI [of _ "bs ''.5''"], rule exI [of _ "bs ''e3''"])
        (intro conjI disjI2 f e; use d(1) in simp)
  qed
  have b: "blanks []" "blanks [32]" by (simp_all add: blanks_def json_ws_def)
  have "elems_text [JArr [], JTrue] ([] @ (91 # [] @ [93]) @ [] @ 44 # [32] @ bs ''true'' @ [32] @ [93])"
    by (intro elems_more elems_one text_arr0 text_true b)
  then have "json_text (JArr [JArr [], JTrue]) (bs ''[[], true ]'')" using text_arr by fastforce
  then have "pairs_text [(bs ''a'', JNum (bs ''-1.5e3'')), (bs ''b'', JArr [JArr [], JTrue])]
      ([32] @ 34 # bs ''a'' @ 34 # [] @ 58 # [] @ bs ''-1.5e3'' @ [] @ 44 # [32] @ 34 # bs ''b'' @ 34 # [32] @ 58 # [32] @ bs ''[[], true ]'' @ [32] @ [125])"
    by (intro pairs_more pairs_one text_num num b) simp_all
  from text_obj [OF this] show ?thesis
    using mg_json_get_finds [of "JObj [(bs ''a'', JNum (bs ''-1.5e3'')), (bs ''b'', JArr [JArr [], JTrue])]"
      "123 # ([32] @ 34 # bs ''a'' @ 34 # [] @ 58 # [] @ bs ''-1.5e3'' @ [] @ 44 # [32] @ 34 # bs ''b'' @ 34 # [32] @ 58 # [32] @ bs ''[[], true ]'' @ [32] @ [125])"
      "[]" "[]" "[Key (bs ''b''), Index 1]" JTrue] b(1)
    by (simp add: plain_key_def MG_JSON_MAX_DEPTH_def Let_def)
qed

text \<open>The index of an array is not checked again: the key is found in an element behind the one that was asked for.\<close>

definition quoted :: "string \<Rightarrow> bytes" where
  "quoted t = bs (map (\<lambda>c. if c = CHR ''`'' then CHR 0x22 else c) t)"

lemma mg_json_get_wrong_element:
  "mg_json_get (quoted ''[{`c`:1},{`b`:2}]'') (json_path [Index 0, Key (bs ''b'')]) = Some (14, 1)"
  by code_simp

text \<open>A path that ends in a dot finds the first value of the object.\<close>

lemma mg_json_get_trailing_dot: "mg_json_get (quoted ''{`c`:1}'') (bs ''$.'' @ [0]) = Some (5, 1)"
  by code_simp

text \<open>A key with a dot hides the member that the path names, and 31 nested arrays are refused.\<close>

lemma mg_json_get_dotted_key:
  "mg_json_get (quoted ''{`a.b`:1,`a`:{`b`:2}}'') (json_path [Key (bs ''a''), Key (bs ''b'')]) = Some (7, 1)"
  by code_simp

lemma mg_json_get_too_deep:
  "mg_json_get (replicate 31 91 @ replicate 31 93) (json_path [Index 0]) = Some (MG_JSON_TOO_DEEP, 0)"
  by code_simp

section \<open>Memory safety on arbitrary texts\<close>

text \<open>What holds before every character: the path's terminating zero is still ahead, brackets are brackets.\<close>

definition json_inv :: "bytes \<Rightarrow> nat \<Rightarrow> json_state \<Rightarrow> bool" where
  "json_inv path i st \<longleftrightarrow> 0 < js_pos st \<and> 0 \<in> set (drop (js_pos st) path) \<and> set (nesting st) \<subseteq> {91, 123} \<and> js_j st \<le> i"

definition json_good :: "nat \<Rightarrow> int \<times> nat \<Rightarrow> bool" where
  "json_good l r \<longleftrightarrow> (case r of (off, n) \<Rightarrow>
     (off = MG_JSON_TOO_DEEP \<or> off = MG_JSON_INVALID \<or> off = MG_JSON_NOT_FOUND) \<and> n = 0 \<or> 0 \<le> off \<and> 0 < n \<and> nat off + n \<le> l)"

definition json_res_ok :: "bytes \<Rightarrow> bytes \<Rightarrow> nat \<Rightarrow> json_res option \<Rightarrow> bool" where
  "json_res_ok path s i r \<longleftrightarrow> (case r of
     None \<Rightarrow> False
   | Some (Inl e) \<Rightarrow> json_good (length s) e
   | Some (Inr (i', st)) \<Rightarrow> i \<le> i' \<and> i' < length s \<and> json_inv path i' st \<and> (expecting st = S_KEY \<longrightarrow> nesting st \<noteq> []))"

lemma res_ok_simps [simp]:
  "json_res_ok path s i None = False"
  "json_res_ok path s i (Some (Inl e)) = json_good (length s) e"
  "json_res_ok path s i (Some (Inr (i', st))) = (i \<le> i' \<and> i' < length s \<and> json_inv path i' st \<and> (expecting st = S_KEY \<longrightarrow> nesting st \<noteq> []))"
  by (simp_all add: json_res_ok_def)

lemma good_fail [simp]: "json_good n (MG_JSON_TOO_DEEP, 0)" "json_good n (MG_JSON_INVALID, 0)" "json_good n (MG_JSON_NOT_FOUND, 0)"
  by (simp_all add: json_good_def)

lemma inv_path: "json_inv path i st \<Longrightarrow> js_pos st < length path"
  by (cases "js_pos st < length path") (auto simp: json_inv_def)

lemma inv_later: "json_inv path i st \<Longrightarrow> i \<le> i' \<Longrightarrow> json_inv path i' st"
  by (auto simp: json_inv_def)

lemma count_inv: "json_inv path i (json_count st) = json_inv path i st" "expecting (json_count st) = expecting st"
  "nesting (json_count st) = nesting st"
  by (simp_all add: json_inv_def json_count_def)

lemma inv_expecting: "json_inv path i (st\<lparr>expecting := e\<rparr>) = json_inv path i st"
  by (simp add: json_inv_def)

lemma checkret_ok:
  assumes "json_inv path i' st" "i \<le> i'" "i' < length s" "json_res_ok path s i (k i' st)"
  shows "json_res_ok path s i (mg_checkret path i' st k)"
  using assms inv_path [OF assms(1)] by (auto simp: mg_checkret_def json_good_def json_inv_def)

lemma value_end_ok:
  assumes "json_inv path i' st" "i \<le> i'" "i' < length s"
  shows "json_res_ok path s i (json_value_end path i' st)"
  unfolding json_value_end_def using assms by (intro checkret_ok) (simp_all add: inv_expecting count_inv)

lemma eoo_ok:
  assumes "json_inv path i st" "nesting st \<noteq> []" "i < length s"
    "\<And>ns. nesting st = hd (nesting st) # ns \<Longrightarrow> json_inv path i (st\<lparr>nesting := ns\<rparr>) \<Longrightarrow> json_res_ok path s i (k i (st\<lparr>nesting := ns\<rparr>))"
  shows "json_res_ok path s i (mg_eoo path i c st k)"
proof -
  obtain b ns where n: "nesting st = b # ns" using assms(2) by (cases "nesting st") auto
  have inv: "json_inv path i (st\<lparr>nesting := ns\<rparr>)" using assms(1) n by (simp add: json_inv_def)
  have "json_res_ok path s i (mg_checkret path i (st\<lparr>nesting := ns\<rparr>) k)"
    using checkret_ok [OF inv order_refl assms(3)] assms(4) [of ns] n inv by simp
  then show ?thesis using n by (simp add: mg_eoo_def)
qed

lemma index_bounds:
  "json_index path pos e = Some (k, e') \<Longrightarrow> pos \<le> k \<and> k < length path \<and> (path ! k = 0 \<or> 0 \<in> set (drop pos path) \<longrightarrow> 0 \<in> set (drop k path)) \<and>
    (path ! k \<noteq> 0 \<and> 0 \<in> set (drop pos path) \<longrightarrow> 0 \<in> set (drop (k + 1) path))"
proof (induction path pos e rule: json_index.induct)
  case (1 path pos e)
  have d: "pos < length path \<Longrightarrow> drop pos path = path ! pos # drop (pos + 1) path" by (simp add: Cons_nth_drop_Suc)
  from "1.prems" have p: "pos < length path" by (subst (asm) json_index.simps) (auto split: if_splits)
  show ?case
  proof (cases "path ! pos = 93 \<or> path ! pos = 0")
    case True
    then have "k = pos" using "1.prems" p by (subst (asm) json_index.simps) auto
    then show ?thesis using p d True by auto
  next
    case False
    let ?e = "e * 10 + (sint (path ! pos) - 48)"
    have "json_index path (pos + 1) ?e = Some (k, e') \<and> - (2 ^ 31) \<le> e * 10 \<and> e * 10 < 2 ^ 31 \<and> - (2 ^ 31) \<le> ?e \<and> ?e < 2 ^ 31"
      using "1.prems" p False by (subst (asm) json_index.simps) (simp add: Let_def split: if_splits)
    then show ?thesis using "1.IH" [OF p refl refl False] False d [OF p] by auto
  qed
qed

lemma pass_string_bounds: "mg_pass_string p = Some n \<Longrightarrow> n < length p \<and> 0 \<notin> set (take n p)"
proof (induction p arbitrary: n rule: mg_pass_string.induct)
  case (3 c d s)
  then show ?case by (auto simp: json_esc_code esc_code_def split: if_splits)
qed (auto split: if_splits)

lemma exp_digits_length: "length (exp_digits e p) \<le> length p"
  by (induction e p rule: exp_digits.induct) auto

lemma skip_if_length: "length (skip_if P p) \<le> length p"
  by (cases p) (simp_all add: skip_if_def)

lemma atod_rest_length:
  assumes "c = 45 \<or> is_digit c"
  shows "length (mg_atod_rest (c # r)) \<le> length r"
proof -
  let ?p1 = "dropWhile is_digit (skip_if (\<lambda>c. c = 45 \<or> c = 43) (c # r))"
  let ?p2 = "case ?p1 of c # r \<Rightarrow> if c = 46 then dropWhile is_digit r else ?p1 | [] \<Rightarrow> ?p1"
  have "length ?p1 \<le> length r"
    using assms length_dropWhile_le [of is_digit r] digit_no_sign [of c] by (auto simp: skip_if_def)
  moreover have "length ?p2 \<le> length ?p1"
    using length_dropWhile_le le_Suc_eq by (auto split: list.split)
  moreover have "length (mg_atod_rest (c # r)) \<le> length ?p2"
    unfolding mg_atod_rest_def Let_def
    by (auto split: list.split intro!: le_SucI exp_digits_length [THEN le_trans] skip_if_length [THEN le_trans])
  ultimately show ?thesis by linarith
qed

lemma atod_bounds: "c = 45 \<or> is_digit c \<Longrightarrow> 1 \<le> mg_atod_len (c # r) \<and> mg_atod_len (c # r) \<le> length (c # r)"
  using atod_rest_length [of c r] by (simp add: mg_atod_len_def)

lemma strncmp_safe:
  assumes "n \<le> length a" "0 \<notin> set (take n a)" "0 \<in> set b"
  shows "\<exists>d. strncmp a b n = Some d \<and> (d = 0 \<longrightarrow> n < length b \<and> 0 \<in> set (drop n b))"
  using assms
proof (induction n arbitrary: a b)
  case (Suc n)
  obtain x a' where a: "a = x # a'" using Suc.prems(1) by (cases a) auto
  obtain y b' where b: "b = y # b'" using Suc.prems(3) by (cases b) auto
  show ?case
  proof (cases "x = y")
    case True
    then show ?thesis using Suc.IH [of a' b'] Suc.prems a b by auto
  next
    case False
    then show ?thesis using a b by (simp add: word_inject)
  qed
qed auto

lemma literal_bounds: "json_literal s i = Some i' \<Longrightarrow> i \<le> i' \<and> i' < length s"
  by (auto simp: json_literal_def split: if_splits)

definition json_path_ok :: "bytes \<Rightarrow> bool" where
  "json_path_ok path \<longleftrightarrow> (\<forall>pos < length path. path ! pos = 91 \<longrightarrow> json_index path (pos + 1) 0 \<noteq> None)"

lemma inv_next:
  assumes "json_inv path i st" "path ! js_pos st \<noteq> 0"
  shows "0 \<in> set (drop (js_pos st + 1) path)"
  using assms Cons_nth_drop_Suc [OF inv_path [OF assms(1)]] by (auto simp: json_inv_def dest: sym)

lemma comma_ok:
  assumes "json_inv path i st" "i < length s" "expecting st = S_COMMA_OR_EOO"
  shows "json_res_ok path s i (json_comma path i c st)"
proof (cases "nesting st")
  case (Cons b ns)
  have "json_res_ok path s i (mg_eoo path i c st (\<lambda>i st. Some (Inr (i, json_count st))))"
    using Cons assms by (intro eoo_ok) (simp_all add: count_inv)
  then show ?thesis using Cons assms(1,2) by (simp add: json_comma_def inv_expecting)
qed (simp add: json_comma_def)

lemma key_ok:
  assumes "json_inv path i st" "i < length s" "nesting st \<noteq> []" "s ! i = c"
  shows "json_res_ok path s i (json_key path s i c st)"
proof (cases "c = 34")
  case True
  show ?thesis
  proof (cases "mg_pass_string (drop (i + 1) s)")
    case None
    then show ?thesis using True by (simp add: json_key_def)
  next
    case (Some n)
    have n: "i + 1 + n < length s" "0 \<notin> set (take n (drop (i + 1) s))" using pass_string_bounds [OF Some] assms(2) by auto
    have p: "js_pos st - 1 < length path" "0 \<in> set (drop (js_pos st) path)" using inv_path [OF assms(1)] assms(1) by (auto simp: json_inv_def)
    obtain d where d: "strncmp (drop (i + 1) s) (drop (js_pos st) path) n = Some d"
      "d = 0 \<longrightarrow> n < length (drop (js_pos st) path) \<and> 0 \<in> set (drop n (drop (js_pos st) path))"
    proof -
      have "n \<le> length (drop (i + 1) s)" using n(1) by simp
      from strncmp_safe [OF this n(2) p(2)] show ?thesis using that by blast
    qed
    obtain m where m: "json_key_matches path s i n (js_pos st) = Some m" "m \<longrightarrow> 0 \<in> set (drop (js_pos st + n) path)"
      using d by (cases "d = 0") (auto simp: json_key_matches_def add.commute)
    have "json_inv path (i + n + 1) (if m then st\<lparr>js_pos := js_pos st + n\<rparr> else st)"
      using assms(1) m(2) by (auto simp: json_inv_def)
    moreover have "json_inv path (i + n + 1) st" using inv_later [OF assms(1)] by simp
    ultimately show ?thesis using True Some n(1) p(1) m(1)
      by (simp add: json_key_def inv_expecting Let_def)
  qed
next
  case False
  have "json_res_ok path s i (mg_eoo path i c st (\<lambda>i st. Some (Inr (i, json_count (st\<lparr>expecting := S_COMMA_OR_EOO\<rparr>)))))"
    using assms by (intro eoo_ok) (simp_all add: count_inv inv_expecting)
  then show ?thesis using False by (auto simp: json_key_def)
qed

lemma value_ok:
  assumes "json_inv path i st" "i < length s" "s ! i = c" "expecting st = S_VALUE" "json_path_ok path"
  shows "json_res_ok path s i (json_value path s i c st)"
proof -
  define st0 where "st0 = (if depth st = js_ed st then st\<lparr>js_j := i\<rparr> else st)"
  have st0: "json_inv path i st0" "expecting st0 = S_VALUE" "nesting st0 = nesting st" "js_ed st0 = js_ed st" "js_pos st0 = js_pos st"
    using assms(1,4) by (simp_all add: st0_def json_inv_def)
  have pos: "js_pos st0 < length path" using inv_path [OF st0(1)] .
  have dr: "drop i s = c # drop (i + 1) s" using Cons_nth_drop_Suc [OF assms(2)] assms(3) by simp
  consider "c = 123" | "c = 91" | "c = 93 \<and> depth st0 > 0" | "c \<noteq> 123" "c \<noteq> 91" "\<not> (c = 93 \<and> depth st0 > 0)" by blast
  then show ?thesis
  proof cases
    case 1
    let ?in = "st0\<lparr>js_ed := js_ed st0 + 1, js_pos := js_pos st0 + 1, js_ci := -1, js_ei := -1, nesting := 123 # nesting st0, expecting := S_KEY\<rparr>"
    let ?over = "st0\<lparr>nesting := 123 # nesting st0, expecting := S_KEY\<rparr>"
    have "json_inv path i ?over" using st0(1) by (simp add: json_inv_def)
    moreover have "json_inv path i ?in" if "path ! js_pos st0 = 46"
      using st0(1) inv_next [OF st0(1)] that by (simp add: json_inv_def)
    ultimately show ?thesis unfolding json_value_def st0_def [symmetric] Let_def using 1 pos assms(2) by simp
  next
    case 2
    show ?thesis
    proof (cases "depth st0 = js_ed st0 \<and> path ! js_pos st0 = 91 \<and> js_ei st0 = js_ci st0")
      case True
      obtain k e where k: "json_index path (js_pos st0 + 1) 0 = Some (k, e)" using assms(5) pos True by (auto simp: json_path_ok_def)
      let ?p = "if path ! k \<noteq> 0 then k + 1 else k"
      have "0 \<in> set (drop ?p path)" using index_bounds [OF k] inv_next [OF st0(1)] True by auto
      then have "json_inv path i (st0\<lparr>js_ed := js_ed st0 + 1, js_pos := ?p, js_ci := 0, js_ei := e, nesting := 91 # nesting st0\<rparr>)"
        using st0(1) index_bounds [OF k] by (auto simp: json_inv_def)
      then show ?thesis unfolding json_value_def st0_def [symmetric] Let_def using 2 pos assms(2) True k st0(2) by simp
    next
      case False
      have "json_inv path i (st0\<lparr>nesting := 91 # nesting st0\<rparr>)" using st0(1) by (simp add: json_inv_def)
      moreover have "\<exists>p. (if depth st0 = js_ed st0 then rd path (js_pos st0) else Some 0) = Some p \<and> \<not> (p = 91 \<and> js_ei st0 = js_ci st0)"
        using False pos by auto
      then obtain p where "(if depth st0 = js_ed st0 then rd path (js_pos st0) else Some 0) = Some p" "(p = 91 \<and> js_ei st0 = js_ci st0) = False"
        by blast
      ultimately show ?thesis unfolding json_value_def st0_def [symmetric] Let_def using 2 assms(2) st0(2) by (simp, blast?)
    qed
  next
    case 3
    have "json_res_ok path s i (mg_eoo path i c st0 (json_value_end path))"
      using 3 st0 assms(2) value_end_ok [of path i _ i s] by (intro eoo_ok) auto
    then show ?thesis unfolding json_value_def st0_def [symmetric] Let_def using 3 by simp
  next
    case 4
    have e: "json_res_ok path s i (json_value_end path i' st0)" if "i \<le> i'" "i' < length s" for i'
      using value_end_ok [OF inv_later [OF st0(1) that(1)] that] .
    have num: "json_res_ok path s i (json_value_end path (i + mg_atod_len (drop i s) - 1) st0)" if "c = 45 \<or> is_digit c"
    proof (rule e)
      have "1 \<le> mg_atod_len (drop i s)" "mg_atod_len (drop i s) \<le> length s - i" using atod_bounds [OF that, of "drop (i + 1) s"] dr assms(2) by (simp_all add: Suc_diff_Suc)
      then show "i \<le> i + mg_atod_len (drop i s) - 1" "i + mg_atod_len (drop i s) - 1 < length s" using assms(2) by linarith+
    qed
    have str: "json_res_ok path s i (json_value_end path (i + n + 1) st0)" if "mg_pass_string (drop (i + 1) s) = Some n" for n
      using pass_string_bounds [OF that] by (intro e) auto
    show ?thesis unfolding json_value_def st0_def [symmetric] Let_def
      using 4 num str e literal_bounds [of s i] by (auto split: option.split)
  qed
qed

lemma json_step_ok:
  assumes "json_inv path i st" "expecting st = S_KEY \<longrightarrow> nesting st \<noteq> []" "i < length s" "json_path_ok path"
  shows "json_res_ok path s i (json_step path s i st)"
  using comma_ok [OF assms(1,3)] key_ok [OF assms(1,3)] value_ok [OF assms(1,3) _ _ assms(4)] assms
  by (cases "expecting st") (auto simp: json_step_def Let_def inv_expecting)

lemma loop_ok:
  assumes "json_inv path i st" "expecting st = S_KEY \<longrightarrow> nesting st \<noteq> []" "json_path_ok path"
  shows "\<exists>r. json_loop path s i st = Some r \<and> json_good (length s) r"
  using assms
proof (induction "length s - i" arbitrary: i st rule: less_induct)
  case less
  show ?case
  proof (cases "i < length s")
    case True
    have r: "json_res_ok path s i (json_step path s i st)" by (rule json_step_ok [OF less.prems(1,2) True less.prems(3)])
    then obtain res where res: "json_step path s i st = Some res" by (cases "json_step path s i st") auto
    show ?thesis
    proof (cases res)
      case (Inl e)
      then show ?thesis using r res True by (simp add: loop_step)
    next
      case (Inr p)
      then obtain i' st' where p: "res = Inr (i', st')" by (cases p) auto
      have i: "i \<le> i'" "i' < length s" "json_inv path i' st'" "expecting st' = S_KEY \<longrightarrow> nesting st' \<noteq> []"
        using r res p by auto
      have "\<exists>r. json_loop path s (i' + 1) st' = Some r \<and> json_good (length s) r"
        by (rule less.hyps) (use i less.prems(3) inv_later [OF i(3)] True in auto)
      then show ?thesis using res p i(1) True by (simp add: loop_step)
    qed
  next
    case False
    then show ?thesis by (subst json_loop.simps) simp
  qed
qed

text \<open>
  C7.  On every text whatever, the search ends, reads neither outside the text nor behind the zero of the
  path, and returns one of its three errors or the position of a token inside the text, provided only that
  no index of the path overflows an \<open>int\<close>.
\<close>

theorem mg_json_get_safe:
  assumes "0 \<in> set path" "json_path_ok path" "length json < 2 ^ 31"
  shows "\<exists>off n. mg_json_get json path = Some (off, n) \<and>
    (off \<in> {MG_JSON_TOO_DEEP, MG_JSON_INVALID, MG_JSON_NOT_FOUND} \<and> n = 0 \<or> 0 \<le> off \<and> 0 < n \<and> nat off + n \<le> length json)"
proof -
  let ?st = "\<lparr>expecting = S_VALUE, nesting = [], js_j = 0, js_ed = 0, js_pos = 1, js_ci = -1, js_ei = -1\<rparr>"
  obtain c r where p: "path = c # r" using assms(1) by (cases path) auto
  show ?thesis
  proof (cases "c = 36")
    case True
    then have "json_inv path 0 ?st" using assms(1) p by (auto simp: json_inv_def)
    from loop_ok [OF this _ assms(2), of json] show ?thesis
      using p True int_length [OF assms(3)] by (auto simp: mg_json_get_def json_good_def Let_def)
  next
    case False
    then show ?thesis using p by (simp add: mg_json_get_def MG_JSON_TOO_DEEP_def MG_JSON_INVALID_def MG_JSON_NOT_FOUND_def)
  qed
qed

lemma length_quoted [simp]: "length (quoted t) = length t"
  by (simp add: quoted_def)

text \<open>A text that breaks off in a string, and a path with a bad index.\<close>

theorem mg_json_get_safe_witness:
  "\<exists>off n. mg_json_get (quoted ''[[1],`ab'') (bs ''$[x'' @ [0]) = Some (off, n) \<and>
    (off \<in> {-1, -2, -3} \<and> n = 0 \<or> 0 \<le> off \<and> 0 < n \<and> nat off + n \<le> length (quoted ''[[1],`ab''))"
proof -
  have "json_path_ok (bs ''$[x'' @ [0])"
    by (auto simp: json_path_ok_def less_Suc_eq json_index.simps)
  then show ?thesis
    using mg_json_get_safe [of "bs ''$[x'' @ [0]" "quoted ''[[1],`ab''"]
    by (simp add: MG_JSON_TOO_DEEP_def MG_JSON_INVALID_def MG_JSON_NOT_FOUND_def)
qed

section \<open>Strings there and back\<close>

inductive_simps json_text_str: "json_text (JStr t) u"

lemma raw_ordinary: "c \<noteq> 0 \<Longrightarrow> c \<noteq> 34 \<Longrightarrow> c \<noteq> 92 \<Longrightarrow> json_raw (c # s) = json_raw s"
  by (cases s) auto

text \<open>The escapes of the printer, and what they stand for.\<close>

lemma escape_back:
  "mg_escape b \<noteq> 0 \<Longrightarrow> json_esc (mg_escape b) False = b \<and> b \<noteq> 0"
  "mg_escape b \<noteq> 0 \<Longrightarrow> mg_escape b \<noteq> 117 \<and> (esc_code (mg_escape b) \<or> mg_escape b \<noteq> 0 \<and> mg_escape b \<noteq> 34 \<and> mg_escape b \<noteq> 92)"
  "mg_escape b = 0 \<Longrightarrow> b \<noteq> 34 \<and> b \<noteq> 92"
  by (auto simp: mg_escape_def mg_esc_def esc1_def esc2_def json_esc_def escapeseq_def esc_code_def split: if_splits)

lemma qcpy_raw:
  "qcpy m k = Some (t, n) \<Longrightarrow> json_raw t"
proof (induction m k arbitrary: t n rule: qcpy.induct)
  case (3 b m k)
  show ?case
  proof (cases "b = 0")
    case False
    then obtain t' n' where q: "qcpy m k = Some (t', n')" "t = (if mg_escape b \<noteq> 0 then 92 # mg_escape b # t' else b # t')"
      using "3.prems" by (cases "qcpy m k") (auto simp: Let_def split: if_splits)
    have r: "json_raw t'" using "3.IH" [OF False refl q(1)] .
    show ?thesis
    proof (cases "mg_escape b = 0")
      case True
      then show ?thesis using q(2) r False escape_back(3) [OF True] by (simp add: raw_ordinary)
    next
      case e: False
      then show ?thesis using q(2) r escape_back(2) [OF e] raw_ordinary [of "mg_escape b" t'] by auto
    qed
  qed (use "3.prems" in simp)
qed auto

lemma unescape_qcpy:
  assumes "qcpy m (length m) = Some (t, n)" "0 \<notin> set m" "j + length m < length to" "drop i s = t" "i \<le> length s"
  shows "unescape_loop s i to j = Some (True, take j to @ m @ 0 # drop (j + length m + 1) to)"
  using assms
proof (induction m arbitrary: t n i to j)
  case Nil
  then show ?case by (subst unescape_loop.simps) (auto simp: upd_conv_take_nth_drop)
next
  case (Cons b m)
  have b0: "b \<noteq> 0" using Cons.prems(2) by auto
  obtain t' n' where q: "qcpy m (length m) = Some (t', n')" "t = (if mg_escape b \<noteq> 0 then 92 # mg_escape b # t' else b # t')"
    using Cons.prems(1) b0 by (cases "qcpy m (length m)") (auto simp: Let_def split: if_splits)
  have j: "j < length to" using Cons.prems(3) by simp
  have fin: "take (j + 1) (to[j := b]) @ m @ 0 # drop (j + 1 + length m + 1) (to[j := b]) =
      take j to @ (b # m) @ 0 # drop (j + length (b # m) + 1) to"
    using j by (simp add: take_Suc_conv_app_nth)
  show ?case
  proof (cases "mg_escape b = 0")
    case True
    then have d: "drop i s = b # t'" using q(2) Cons.prems(4) by simp
    then have s: "i < length s" "s ! i = b" "drop (i + 1) s = t'" using drop_ConsD [OF d] by simp_all
    have "unescape_loop s i to j = unescape_loop s (i + 1) (to[j := b]) (j + 1)"
      using s j escape_back(3) [OF True] by (subst unescape_loop.simps) simp
    also have "\<dots> = Some (True, take (j + 1) (to[j := b]) @ m @ 0 # drop (j + 1 + length m + 1) (to[j := b]))"
      using Cons.IH [OF q(1), of "j + 1" "to[j := b]" "i + 1"] Cons.prems(2,3) s by simp
    finally show ?thesis using fin by simp
  next
    case False
    then have d: "drop i s = 92 # mg_escape b # t'" using q(2) Cons.prems(4) by simp
    then have s: "i < length s" "s ! i = 92" "drop (i + 1) s = mg_escape b # t'" using drop_ConsD [OF d] by simp_all
    then have s2: "i + 1 < length s" "s ! (i + 1) = mg_escape b" "drop (i + 2) s = t'"
      using drop_ConsD [of "i + 1" s "mg_escape b" t'] by simp_all
    have "unescape_loop s i to j = unescape_loop s (i + 2) (to[j := b]) (j + 1)"
      using s(1,2) s2(1,2) j False escape_back(1,2) [OF False] by (subst unescape_loop.simps) (simp add: Let_def)
    also have "\<dots> = Some (True, take (j + 1) (to[j := b]) @ m @ 0 # drop (j + 1 + length m + 1) (to[j := b]))"
      using Cons.IH [OF q(1), of "j + 1" "to[j := b]" "i + 2"] Cons.prems(2,3) s2 by simp
    finally show ?thesis using fin by simp
  qed
qed

lemma qcpy_longer: "qcpy m (length m) = Some (t, n) \<Longrightarrow> 0 \<notin> set m \<Longrightarrow> length m \<le> length t"
  by (induction m arbitrary: t n) (auto simp: Let_def split: if_splits option.splits)

text \<open>
  C8.  A string printed into a JSON text with the escapes of \<open>mg_print_esc\<close> comes back: wherever a path leads
  to it, \<open>mg_json_get_str\<close> returns new memory that holds the string and its zero, and nothing overflows.
\<close>

theorem mg_json_string_roundtrip:
  assumes "mg_print_esc (length m) (Some m) = Some (t, n)" "m \<noteq> []" "0 \<notin> set m"
    "json_text v u" "blanks w1" "blanks w2" "json_lookup v p = Some (JStr t)" "plain_keys v" "\<forall>x \<in> set p. step_ok x"
    "json_height v \<le> MG_JSON_MAX_DEPTH" "length (w1 @ u @ w2) < 2 ^ 31"
  shows "\<exists>x. mg_json_get_str True (w1 @ u @ w2) (json_path p) = Some (Some (m @ 0 # x))"
proof -
  have q: "qcpy m (length m) = Some (t, n)" using assms(1,2) by (simp add: mg_print_esc_def)
  obtain pre u' post where g: "w1 @ u @ w2 = pre @ u' @ post" "json_text (JStr t) u'"
    "mg_json_get (w1 @ u @ w2) (json_path p) = Some (int (length pre), length u')"
    using json_finds [OF assms(4-11)] by blast
  have u': "u' = 34 # t @ [34]" using g(2) by (simp add: json_text_str)
  have "mg_json_unescape t (replicate (length t + 2) 0) = Some (True, m @ 0 # drop (length m + 1) (replicate (length t + 2) 0))"
    using unescape_qcpy [OF q assms(3), of 0 "replicate (length t + 2) 0" 0 t] qcpy_longer [OF q assms(3)]
    by (simp add: mg_json_unescape_def)
  then show ?thesis using g(3) unfolding mg_json_get_str_def g(1) u' by (simp add: rd_def nth_append del: replicate_Suc drop_replicate)
qed

text \<open>A string with a quote and a line feed.\<close>

theorem mg_json_string_roundtrip_witness:
  "\<exists>x. mg_json_get_str True (bs ''['' @ [34, 97, 92, 34, 98, 92, 110, 34] @ bs '']'') (json_path [Index 0]) = Some (Some ([97, 34, 98, 10] @ 0 # x))"
proof -
  have t: "mg_print_esc (length [97, 34, 98, 10 :: u8]) (Some [97, 34, 98, 10]) = Some ([97, 92, 34, 98, 92, 110], 6)"
    by (simp add: mg_print_esc_def mg_escape_def mg_esc_def esc1_def esc2_def Let_def)
  have "elems_text [JStr [97, 92, 34, 98, 92, 110]] ([] @ (34 # [97, 92, 34, 98, 92, 110] @ [34]) @ [] @ [93])"
    by (intro elems_one text_str) (simp_all add: blanks_def esc_code_def)
  from text_arr [OF this] show ?thesis
    using mg_json_string_roundtrip [OF t, of "JArr [JStr [97, 92, 34, 98, 92, 110]]" "91 # ([] @ (34 # [97, 92, 34, 98, 92, 110] @ [34]) @ [] @ [93])" "[]" "[]" "[Index 0]"]
    by (simp add: blanks_def MG_JSON_MAX_DEPTH_def)
qed

end
