(* ===== verification/Mg_Md5.thy ===== *)
theory Mg_Md5
  imports Mg_Hash
begin

text \<open>
  The MD5 digest of \<open>src/md5.c\<close> (compiled into \<open>src/mongoose.c\<close>), on the little-endian host the
  program runs on.  The unrolled transform is kept row by row as the source writes it and proved
  equal to the loop of RFC 1321; the streaming interface is proved to compute the digest of the
  concatenation of its pieces.
\<close>

record mg_md5_ctx =
  md5_buf :: "u32 \<times> u32 \<times> u32 \<times> u32"
  md5_bits :: "u32 \<times> u32"
  md5_in :: bytes

section \<open>The transform\<close>

datatype reg = RA | RB | RC | RD

definition MD5_F1 :: "u32 \<Rightarrow> u32 \<Rightarrow> u32 \<Rightarrow> u32" where "MD5_F1 x y z = z XOR (x AND (y XOR z))"
definition MD5_F2 :: "u32 \<Rightarrow> u32 \<Rightarrow> u32 \<Rightarrow> u32" where "MD5_F2 x y z = MD5_F1 z x y"
definition MD5_F3 :: "u32 \<Rightarrow> u32 \<Rightarrow> u32 \<Rightarrow> u32" where "MD5_F3 x y z = x XOR y XOR z"
definition MD5_F4 :: "u32 \<Rightarrow> u32 \<Rightarrow> u32 \<Rightarrow> u32" where "MD5_F4 x y z = y XOR (x OR NOT z)"

text \<open>The macro \<open>MD5STEP(f, w, x, y, z, data, s)\<close> on the local variables \<open>a b c d\<close>.\<close>

definition MD5STEP ::
  "(u32 \<Rightarrow> u32 \<Rightarrow> u32 \<Rightarrow> u32) \<Rightarrow> reg \<Rightarrow> reg \<Rightarrow> reg \<Rightarrow> reg \<Rightarrow> u32 \<Rightarrow> nat \<Rightarrow> (reg \<Rightarrow> u32) \<Rightarrow> (reg \<Rightarrow> u32)" where
  "MD5STEP f w x y z data s r =
     (let v = r w + (f (r x) (r y) (r z) + data);
          v = push_bit s v OR drop_bit (32 - s) v
      in r(w := v + r x))"

text \<open>The 64 rows: function, variables, index into \<open>in\<close>, constant, rotation.\<close>

definition md5_program ::
  "((u32 \<Rightarrow> u32 \<Rightarrow> u32 \<Rightarrow> u32) \<times> reg \<times> reg \<times> reg \<times> reg \<times> nat \<times> u32 \<times> nat) list" where
  "md5_program = [
   (MD5_F1, RA, RB, RC, RD, 0, 0xd76aa478, 7), (MD5_F1, RD, RA, RB, RC, 1, 0xe8c7b756, 12),
   (MD5_F1, RC, RD, RA, RB, 2, 0x242070db, 17), (MD5_F1, RB, RC, RD, RA, 3, 0xc1bdceee, 22),
   (MD5_F1, RA, RB, RC, RD, 4, 0xf57c0faf, 7), (MD5_F1, RD, RA, RB, RC, 5, 0x4787c62a, 12),
   (MD5_F1, RC, RD, RA, RB, 6, 0xa8304613, 17), (MD5_F1, RB, RC, RD, RA, 7, 0xfd469501, 22),
   (MD5_F1, RA, RB, RC, RD, 8, 0x698098d8, 7), (MD5_F1, RD, RA, RB, RC, 9, 0x8b44f7af, 12),
   (MD5_F1, RC, RD, RA, RB, 10, 0xffff5bb1, 17), (MD5_F1, RB, RC, RD, RA, 11, 0x895cd7be, 22),
   (MD5_F1, RA, RB, RC, RD, 12, 0x6b901122, 7), (MD5_F1, RD, RA, RB, RC, 13, 0xfd987193, 12),
   (MD5_F1, RC, RD, RA, RB, 14, 0xa679438e, 17), (MD5_F1, RB, RC, RD, RA, 15, 0x49b40821, 22),
   (MD5_F2, RA, RB, RC, RD, 1, 0xf61e2562, 5), (MD5_F2, RD, RA, RB, RC, 6, 0xc040b340, 9),
   (MD5_F2, RC, RD, RA, RB, 11, 0x265e5a51, 14), (MD5_F2, RB, RC, RD, RA, 0, 0xe9b6c7aa, 20),
   (MD5_F2, RA, RB, RC, RD, 5, 0xd62f105d, 5), (MD5_F2, RD, RA, RB, RC, 10, 0x02441453, 9),
   (MD5_F2, RC, RD, RA, RB, 15, 0xd8a1e681, 14), (MD5_F2, RB, RC, RD, RA, 4, 0xe7d3fbc8, 20),
   (MD5_F2, RA, RB, RC, RD, 9, 0x21e1cde6, 5), (MD5_F2, RD, RA, RB, RC, 14, 0xc33707d6, 9),
   (MD5_F2, RC, RD, RA, RB, 3, 0xf4d50d87, 14), (MD5_F2, RB, RC, RD, RA, 8, 0x455a14ed, 20),
   (MD5_F2, RA, RB, RC, RD, 13, 0xa9e3e905, 5), (MD5_F2, RD, RA, RB, RC, 2, 0xfcefa3f8, 9),
   (MD5_F2, RC, RD, RA, RB, 7, 0x676f02d9, 14), (MD5_F2, RB, RC, RD, RA, 12, 0x8d2a4c8a, 20),
   (MD5_F3, RA, RB, RC, RD, 5, 0xfffa3942, 4), (MD5_F3, RD, RA, RB, RC, 8, 0x8771f681, 11),
   (MD5_F3, RC, RD, RA, RB, 11, 0x6d9d6122, 16), (MD5_F3, RB, RC, RD, RA, 14, 0xfde5380c, 23),
   (MD5_F3, RA, RB, RC, RD, 1, 0xa4beea44, 4), (MD5_F3, RD, RA, RB, RC, 4, 0x4bdecfa9, 11),
   (MD5_F3, RC, RD, RA, RB, 7, 0xf6bb4b60, 16), (MD5_F3, RB, RC, RD, RA, 10, 0xbebfbc70, 23),
   (MD5_F3, RA, RB, RC, RD, 13, 0x289b7ec6, 4), (MD5_F3, RD, RA, RB, RC, 0, 0xeaa127fa, 11),
   (MD5_F3, RC, RD, RA, RB, 3, 0xd4ef3085, 16), (MD5_F3, RB, RC, RD, RA, 6, 0x04881d05, 23),
   (MD5_F3, RA, RB, RC, RD, 9, 0xd9d4d039, 4), (MD5_F3, RD, RA, RB, RC, 12, 0xe6db99e5, 11),
   (MD5_F3, RC, RD, RA, RB, 15, 0x1fa27cf8, 16), (MD5_F3, RB, RC, RD, RA, 2, 0xc4ac5665, 23),
   (MD5_F4, RA, RB, RC, RD, 0, 0xf4292244, 6), (MD5_F4, RD, RA, RB, RC, 7, 0x432aff97, 10),
   (MD5_F4, RC, RD, RA, RB, 14, 0xab9423a7, 15), (MD5_F4, RB, RC, RD, RA, 5, 0xfc93a039, 21),
   (MD5_F4, RA, RB, RC, RD, 12, 0x655b59c3, 6), (MD5_F4, RD, RA, RB, RC, 3, 0x8f0ccc92, 10),
   (MD5_F4, RC, RD, RA, RB, 10, 0xffeff47d, 15), (MD5_F4, RB, RC, RD, RA, 1, 0x85845dd1, 21),
   (MD5_F4, RA, RB, RC, RD, 8, 0x6fa87e4f, 6), (MD5_F4, RD, RA, RB, RC, 15, 0xfe2ce6e0, 10),
   (MD5_F4, RC, RD, RA, RB, 6, 0xa3014314, 15), (MD5_F4, RB, RC, RD, RA, 13, 0x4e0811a1, 21),
   (MD5_F4, RA, RB, RC, RD, 4, 0xf7537e82, 6), (MD5_F4, RD, RA, RB, RC, 11, 0xbd3af235, 10),
   (MD5_F4, RC, RD, RA, RB, 2, 0x2ad7d2bb, 15), (MD5_F4, RB, RC, RD, RA, 9, 0xeb86d391, 21)]"

definition mg_md5_transform :: "u32 \<times> u32 \<times> u32 \<times> u32 \<Rightarrow> u32 list \<Rightarrow> u32 \<times> u32 \<times> u32 \<times> u32" where
  "mg_md5_transform = (\<lambda>(a, b, c, d) X.
     let r = foldl (\<lambda>r (f, w, x, y, z, i, k, s). MD5STEP f w x y z (X ! i + k) s r)
               ((\<lambda>_. 0)(RA := a, RB := b, RC := c, RD := d)) md5_program
     in (a + r RA, b + r RB, c + r RC, d + r RD))"

section \<open>The streaming interface\<close>

definition mg_md5_init :: "bytes \<Rightarrow> mg_md5_ctx" where
  "mg_md5_init mem = \<lparr>md5_buf = (0x67452301, 0xefcdab89, 0x98badcfe, 0x10325476), md5_bits = (0, 0), md5_in = mem\<rparr>"

text \<open>The array \<open>in\<close> read as \<open>uint32_t[16]\<close>.\<close>

definition in_words :: "bytes \<Rightarrow> u32 list" where
  "in_words b = map (\<lambda>i. un32 (span b (4 * i) 4)) [0..<16]"

definition md5_absorb_in :: "mg_md5_ctx \<Rightarrow> mg_md5_ctx" where
  "md5_absorb_in ctx = ctx\<lparr>md5_buf := mg_md5_transform (md5_buf ctx) (in_words (md5_in ctx))\<rparr>"

function md5_blocks :: "mg_md5_ctx \<Rightarrow> bytes \<Rightarrow> mg_md5_ctx option" where
  "md5_blocks ctx buf =
     (if 64 \<le> length buf then do {
        i \<leftarrow> blit (md5_in ctx) 0 (take 64 buf);
        md5_blocks (md5_absorb_in (ctx\<lparr>md5_in := i\<rparr>)) (drop 64 buf) }
      else do {
        i \<leftarrow> blit (md5_in ctx) 0 buf;
        Some (ctx\<lparr>md5_in := i\<rparr>) })"
  by pat_completeness auto
termination by (relation "measure (\<lambda>(ctx, buf). length buf)") auto

declare md5_blocks.simps [simp del]

definition mg_md5_update :: "mg_md5_ctx \<Rightarrow> bytes \<Rightarrow> mg_md5_ctx option" where
  "mg_md5_update ctx buf =
     (let len = length buf;
          (t, b1) = md5_bits ctx;
          b0 = t + push_bit 3 (of_nat len);
          b1 = (if b0 < t then b1 + 1 else b1) + drop_bit 29 (of_nat len);
          ctx = ctx\<lparr>md5_bits := (b0, b1)\<rparr>;
          t = unat (drop_bit 3 t AND 0x3f)
      in if t \<noteq> 0 then
           let n = 64 - t in
           if len < n then do {
             i \<leftarrow> blit (md5_in ctx) t buf;
             Some (ctx\<lparr>md5_in := i\<rparr>) }
           else do {
             i \<leftarrow> blit (md5_in ctx) t (take n buf);
             md5_blocks (md5_absorb_in (ctx\<lparr>md5_in := i\<rparr>)) (drop n buf) }
         else md5_blocks ctx buf)"

definition mg_md5_final :: "mg_md5_ctx \<Rightarrow> bytes option" where
  "mg_md5_final ctx =
     (let (b0, b1) = md5_bits ctx;
          count = unat (drop_bit 3 b0 AND 0x3f);
          p = count + 1
      in do {
        i \<leftarrow> wr (md5_in ctx) count 0x80;
        let count = 64 - 1 - count;
        ctx \<leftarrow> (if count < 8 then do {
                  i \<leftarrow> blit i p (replicate count 0);
                  let ctx = md5_absorb_in (ctx\<lparr>md5_in := i\<rparr>);
                  i \<leftarrow> blit (md5_in ctx) 0 (replicate 56 0);
                  Some (ctx\<lparr>md5_in := i\<rparr>) }
                else do {
                  i \<leftarrow> blit i p (replicate (count - 8) 0);
                  Some (ctx\<lparr>md5_in := i\<rparr>) });
        i \<leftarrow> blit (md5_in ctx) (4 * 14) (le32 b0);
        i \<leftarrow> blit i (4 * 15) (le32 b1);
        let (a, b, c, d) = md5_buf (md5_absorb_in (ctx\<lparr>md5_in := i\<rparr>));
        Some (le32 a @ le32 b @ le32 c @ le32 d) })"

section \<open>The reference: RFC 1321\<close>

definition md5_K :: "u32 list" where
  "md5_K = [
   0xd76aa478, 0xe8c7b756, 0x242070db, 0xc1bdceee, 0xf57c0faf, 0x4787c62a, 0xa8304613, 0xfd469501,
   0x698098d8, 0x8b44f7af, 0xffff5bb1, 0x895cd7be, 0x6b901122, 0xfd987193, 0xa679438e, 0x49b40821,
   0xf61e2562, 0xc040b340, 0x265e5a51, 0xe9b6c7aa, 0xd62f105d, 0x02441453, 0xd8a1e681, 0xe7d3fbc8,
   0x21e1cde6, 0xc33707d6, 0xf4d50d87, 0x455a14ed, 0xa9e3e905, 0xfcefa3f8, 0x676f02d9, 0x8d2a4c8a,
   0xfffa3942, 0x8771f681, 0x6d9d6122, 0xfde5380c, 0xa4beea44, 0x4bdecfa9, 0xf6bb4b60, 0xbebfbc70,
   0x289b7ec6, 0xeaa127fa, 0xd4ef3085, 0x04881d05, 0xd9d4d039, 0xe6db99e5, 0x1fa27cf8, 0xc4ac5665,
   0xf4292244, 0x432aff97, 0xab9423a7, 0xfc93a039, 0x655b59c3, 0x8f0ccc92, 0xffeff47d, 0x85845dd1,
   0x6fa87e4f, 0xfe2ce6e0, 0xa3014314, 0x4e0811a1, 0xf7537e82, 0xbd3af235, 0x2ad7d2bb, 0xeb86d391]"

definition md5_index :: "nat \<Rightarrow> nat" where
  "md5_index i = (if i < 16 then i else if i < 32 then (5 * i + 1) mod 16
     else if i < 48 then (3 * i + 5) mod 16 else (7 * i) mod 16)"

definition md5_shift :: "nat \<Rightarrow> nat" where
  "md5_shift i = [[7, 12, 17, 22], [5, 9, 14, 20], [4, 11, 16, 23], [6, 10, 15, 21]] ! (i div 16) ! (i mod 4)"

definition md5_round_fn :: "nat \<Rightarrow> u32 \<Rightarrow> u32 \<Rightarrow> u32 \<Rightarrow> u32" where
  "md5_round_fn i x y z =
     (if i < 16 then (x AND y) OR (NOT x AND z)
      else if i < 32 then (x AND z) OR (y AND NOT z)
      else if i < 48 then x XOR y XOR z
      else y XOR (x OR NOT z))"

definition md5_round :: "u32 list \<Rightarrow> u32 \<times> u32 \<times> u32 \<times> u32 \<Rightarrow> nat \<Rightarrow> u32 \<times> u32 \<times> u32 \<times> u32" where
  "md5_round X = (\<lambda>(a, b, c, d) i.
     (d, b + word_rotl (md5_shift i) (a + md5_round_fn i b c d + X ! md5_index i + md5_K ! i), b, c))"

definition md5_compress :: "u32 \<times> u32 \<times> u32 \<times> u32 \<Rightarrow> u32 list \<Rightarrow> u32 \<times> u32 \<times> u32 \<times> u32" where
  "md5_compress st X =
     (let (a, b, c, d) = st; (a', b', c', d') = foldl (md5_round X) st [0..<64]
      in (a + a', b + b', c + c', d + d'))"

definition md5_padding :: "nat \<Rightarrow> bytes" where
  "md5_padding n = 0x80 # replicate ((119 - n mod 64) mod 64) 0 @ le32 (fst (bit_count n)) @ le32 (snd (bit_count n))"

definition md5 :: "bytes \<Rightarrow> bytes" where
  "md5 m =
     (let (a, b, c, d) = absorb (\<lambda>s b. md5_compress s (in_words b))
            (0x67452301, 0xefcdab89, 0x98badcfe, 0x10325476) (m @ md5_padding (length m))
      in le32 a @ le32 b @ le32 c @ le32 d)"

section \<open>The transform is the reference compression\<close>

definition reg_at :: "nat \<Rightarrow> reg" where
  "reg_at k = [RA, RD, RC, RB] ! (k mod 4)"

text \<open>The table of the source is the regular one.\<close>

lemma md5_program_regular:
  "md5_program = map (\<lambda>i. ([MD5_F1, MD5_F2, MD5_F3, MD5_F4] ! (i div 16), reg_at i, reg_at (i + 3), reg_at (i + 2),
     reg_at (i + 1), md5_index i, md5_K ! i, md5_shift i)) [0..<64]"
  by (simp add: md5_program_def upt_rec reg_at_def md5_index_def md5_K_def md5_shift_def)

text \<open>The functions of the source, with fewer operations, are those of the RFC.\<close>

lemma md5_functions:
  "i < 64 \<Longrightarrow> ([MD5_F1, MD5_F2, MD5_F3, MD5_F4] ! (i div 16)) x y z = md5_round_fn i x y z"
proof -
  assume "i < 64"
  then consider "i < 16" "i div 16 = 0" | "16 \<le> i" "i < 32" "i div 16 = 1" | "32 \<le> i" "i < 48" "i div 16 = 2"
    | "48 \<le> i" "i div 16 = 3"
    by (cases "i < 16"; cases "i < 32"; cases "i < 48") (simp_all add: div_nat_eqI)
  then show ?thesis
    by cases (auto simp: md5_round_fn_def MD5_F1_def MD5_F2_def MD5_F3_def MD5_F4_def bit_simps
        intro!: bit_word_eqI)
qed

lemma reg_at_distinct:
  "reg_at i \<noteq> reg_at (i + 1)" "reg_at i \<noteq> reg_at (i + 2)" "reg_at i \<noteq> reg_at (i + 3)" "reg_at (i + 4) = reg_at i"
proof -
  define k where "k = i mod 4"
  then have k: "k = 0 \<or> k = 1 \<or> k = 2 \<or> k = 3" by presburger
  have m: "reg_at (i + j) = reg_at (k + j)" for j
    unfolding reg_at_def k_def by (simp only: mod_add_left_eq)
  have "reg_at i = reg_at (k + 0)" using m [of 0] by simp
  with k show "reg_at i \<noteq> reg_at (i + 1)" "reg_at i \<noteq> reg_at (i + 2)" "reg_at i \<noteq> reg_at (i + 3)"
    "reg_at (i + 4) = reg_at i"
    unfolding m by (elim disjE; simp add: reg_at_def)+
qed

lemma md5_shift_range: "i < 64 \<Longrightarrow> 0 < md5_shift i \<and> md5_shift i < 32"
proof -
  have "\<forall>i \<in> set [0..<64]. 0 < md5_shift i \<and> md5_shift i < 32"
    by (simp add: md5_shift_def upt_rec)
  then show "i < 64 \<Longrightarrow> 0 < md5_shift i \<and> md5_shift i < 32" by simp
qed

abbreviation run_row :: "u32 list \<Rightarrow> (reg \<Rightarrow> u32) \<Rightarrow>
    (u32 \<Rightarrow> u32 \<Rightarrow> u32 \<Rightarrow> u32) \<times> reg \<times> reg \<times> reg \<times> reg \<times> nat \<times> u32 \<times> nat \<Rightarrow> (reg \<Rightarrow> u32)" where
  "run_row X \<equiv> \<lambda>r (f, w, x, y, z, i, k, s). MD5STEP f w x y z (X ! i + k) s r"

abbreviation md5_row :: "nat \<Rightarrow> (u32 \<Rightarrow> u32 \<Rightarrow> u32 \<Rightarrow> u32) \<times> reg \<times> reg \<times> reg \<times> reg \<times> nat \<times> u32 \<times> nat" where
  "md5_row i \<equiv> ([MD5_F1, MD5_F2, MD5_F3, MD5_F4] ! (i div 16), reg_at i, reg_at (i + 3), reg_at (i + 2),
     reg_at (i + 1), md5_index i, md5_K ! i, md5_shift i)"

lemma md5_row_round:
  assumes "i < 64"
  shows "(let r' = run_row X r (md5_row i)
      in (r' (reg_at (i + 1)), r' (reg_at (i + 4)), r' (reg_at (i + 3)), r' (reg_at (i + 2)))) =
    md5_round X (r (reg_at i), r (reg_at (i + 3)), r (reg_at (i + 2)), r (reg_at (i + 1))) i"
proof -
  have s: "0 < md5_shift i" "md5_shift i < 32" using md5_shift_range [OF assms] by auto
  show ?thesis
    using reg_at_distinct [of i]
    by (simp add: MD5STEP_def Let_def rotate_or [OF s] md5_functions [OF assms] md5_round_def del: One_nat_def add_2_eq_Suc' add_Suc_right)
       (simp add: ac_simps)
qed

lemma md5_rows_rounds:
  "n \<le> 64 \<Longrightarrow>
   (let r = foldl (run_row X) r0 (map md5_row [0..<n])
    in (r (reg_at n), r (reg_at (n + 3)), r (reg_at (n + 2)), r (reg_at (n + 1)))) =
   foldl (md5_round X) (r0 RA, r0 RB, r0 RC, r0 RD) [0..<n]"
proof (induction n)
  case 0
  then show ?case by (simp add: reg_at_def)
next
  case (Suc n)
  have d: "Suc n + 3 = n + 4" "Suc n + 2 = n + 3" "Suc n + 1 = n + 2" by simp_all
  obtain r where r: "foldl (run_row X) r0 (map md5_row [0..<n]) = r" by blast
  then have "foldl (run_row X) r0 (map md5_row [0..<Suc n]) = run_row X r (md5_row n)" by simp
  moreover have "foldl (md5_round X) (r0 RA, r0 RB, r0 RC, r0 RD) [0..<Suc n] =
      md5_round X (r (reg_at n), r (reg_at (n + 3)), r (reg_at (n + 2)), r (reg_at (n + 1))) n"
    using Suc r by (simp add: Let_def)
  ultimately show ?case
    using md5_row_round [of n X r] Suc.prems by (simp only: d Let_def) (simp only: Suc_eq_plus1 less_eq_Suc_le)
qed

lemma transform_compress: "mg_md5_transform st X = md5_compress st X"
proof (cases st)
  case (fields a b c d)
  have r: "reg_at 64 = RA" "reg_at (64 + 3) = RB" "reg_at (64 + 2) = RC" "reg_at (64 + 1) = RD" by (simp_all add: reg_at_def)
  from md5_rows_rounds [of 64 X "(\<lambda>_. 0)(RA := a, RB := b, RC := c, RD := d)", unfolded r]
  have "foldl (md5_round X) st [0..<64] =
      (let r = foldl (run_row X) ((\<lambda>_. 0)(RA := a, RB := b, RC := c, RD := d)) md5_program in (r RA, r RB, r RC, r RD))"
    unfolding md5_program_regular fields by (simp add: Let_def del: upt_Suc upt.simps)
  then show ?thesis
    by (simp add: mg_md5_transform_def md5_compress_def fields Let_def del: upt_Suc upt.simps)
qed

section \<open>Streaming computes the digest of the whole message\<close>

abbreviation md5_f :: "u32 \<times> u32 \<times> u32 \<times> u32 \<Rightarrow> bytes \<Rightarrow> u32 \<times> u32 \<times> u32 \<times> u32" where
  "md5_f \<equiv> \<lambda>s b. md5_compress s (in_words b)"

abbreviation md5_iv :: "u32 \<times> u32 \<times> u32 \<times> u32" where
  "md5_iv \<equiv> (0x67452301, 0xefcdab89, 0x98badcfe, 0x10325476)"

definition md5_rep :: "mg_md5_ctx \<Rightarrow> bytes \<Rightarrow> bool" where
  "md5_rep c m \<longleftrightarrow> length (md5_in c) = 64 \<and> md5_bits c = bit_count (length m) \<and>
     md5_buf c = absorb md5_f md5_iv m \<and> take (length m mod 64) (md5_in c) = partial_block m"

lemma absorb_in: "md5_absorb_in c = c\<lparr>md5_buf := md5_f (md5_buf c) (md5_in c)\<rparr>"
  by (simp add: md5_absorb_in_def transform_compress)

lemma md5_blocks_spec:
  "length (md5_in c) = 64 \<Longrightarrow>
   \<exists>i. md5_blocks c buf = Some (c\<lparr>md5_buf := absorb md5_f (md5_buf c) buf, md5_in := i\<rparr>) \<and> length i = 64 \<and>
       take (length buf mod 64) i = partial_block buf"
proof (induction c buf rule: md5_blocks.induct)
  case (1 c buf)
  show ?case
  proof (cases "64 \<le> length buf")
    case False
    then show ?thesis
      using "1.prems" by (auto simp: md5_blocks.simps [of c buf] blit_def
          intro!: exI [of _ "buf @ drop (length buf) (md5_in c)"])
  next
    case True
    let ?c = "md5_absorb_in (c\<lparr>md5_in := take 64 buf\<rparr>)"
    have b: "blit (md5_in c) 0 (take 64 buf) = Some (take 64 buf)" using "1.prems" True by (simp add: blit_def)
    have l: "length (md5_in ?c) = 64" using True by (simp add: absorb_in)
    have "length (drop 64 buf) mod 64 = length buf mod 64" using True by (simp add: le_mod_geq)
    moreover have "absorb md5_f (md5_buf c) buf = absorb md5_f (md5_buf ?c) (drop 64 buf)"
      "partial_block buf = partial_block (drop 64 buf)"
      using absorb_block(1) [of "take 64 buf" md5_f "md5_buf c" "drop 64 buf"] absorb_block(2) [of "take 64 buf" "drop 64 buf"] True by (simp_all add: absorb_in)
    ultimately show ?thesis
      using "1.IH" [OF True b l] True b by (auto simp: md5_blocks.simps [of c buf] absorb_in)
  qed
qed

lemma small_len: "n < 2 ^ 32 \<Longrightarrow> drop_bit 29 (of_nat n :: u32) = of_nat (n div 2 ^ 29)"
  by (rule word_inject(3) [THEN iffD1])
     (simp add: unsigned_drop_bit_eq drop_bit_eq_div [where 'a = nat] unat_of_nat take_bit_nat_eq_self)

lemma md5_update_unfold:
  assumes "md5_rep c m" "length d < 2 ^ 32"
  shows "mg_md5_update c d = (let r = length m mod 64; ctx = c\<lparr>md5_bits := bit_count (length (m @ d))\<rparr> in
     if r \<noteq> 0 then
       if length d < 64 - r then do { i \<leftarrow> blit (md5_in c) r d; Some (ctx\<lparr>md5_in := i\<rparr>) }
       else do { i \<leftarrow> blit (md5_in c) r (take (64 - r) d);
                 md5_blocks (md5_absorb_in (ctx\<lparr>md5_in := i\<rparr>)) (drop (64 - r) d) }
     else md5_blocks ctx d)"
proof -
  obtain t b1 where tb: "md5_bits c = (t, b1)" by fastforce
  have bc: "bit_count (length m) = (t, b1)" using assms(1) tb by (simp add: md5_rep_def)
  let ?b0 = "t + push_bit 3 (of_nat (length d))"
  have bits: "(?b0, (if ?b0 < t then b1 + 1 else b1) + drop_bit 29 (of_nat (length d))) = bit_count (length (m @ d))"
    using bit_count_add [OF bc refl, of "length d"] small_len [OF assms(2)] by simp
  show ?thesis
    using bit_count_index [OF bc] unfolding mg_md5_update_def tb Let_def prod.case bits
    by (simp del: length_append)
qed

lemma md5_update_rep:
  assumes "md5_rep c m" "length d < 2 ^ 32"
  shows "\<exists>c'. mg_md5_update c d = Some c' \<and> md5_rep c' (m @ d)"
proof -
  let ?r = "length m mod 64"
  let ?c = "c\<lparr>md5_bits := bit_count (length (m @ d))\<rparr>"
  note up = md5_update_unfold [OF assms, unfolded Let_def]
  have inp: "length (md5_in c) = 64" "take ?r (md5_in c) = partial_block m" "md5_buf c = absorb md5_f md5_iv m"
    using assms(1) by (simp_all add: md5_rep_def)
  have r: "?r < 64" by simp
  consider (aligned) "?r = 0" | (short) "?r \<noteq> 0" "length d < 64 - ?r" | (fill) "?r \<noteq> 0" "64 - ?r \<le> length d" by linarith
  then show ?thesis
  proof cases
    case aligned
    then have "(length m + length d) mod 64 = length d mod 64" by (metis add_0 mod_add_left_eq)
    then show ?thesis
      using md5_blocks_spec [of ?c d] absorb_aligned(1) [OF aligned, of md5_f md5_iv d] absorb_aligned(2,3) [OF aligned] inp aligned up
      by (auto simp: md5_rep_def)
  next
    case short
    then have st: "?r + length d < 64" by linarith
    then have "?r + length d \<le> 64" by simp
    then show ?thesis
      using short inp up absorb_stay(1) [OF st, where f = md5_f and s = md5_iv] absorb_stay(2,3) [OF st] by (simp add: md5_rep_def blit_def)
  next
    case fill
    let ?k = "64 - ?r" and ?b = "partial_block m @ take (64 - ?r) d"
    note f = absorb_fill(1) [OF refl fill(2) refl] absorb_fill(2) [OF refl fill(2) refl, where f = md5_f and s = md5_iv]
      absorb_fill(3) [OF refl fill(2) refl]
    have b: "blit (md5_in c) ?r (take ?k d) = Some ?b" using fill inp r by (simp add: blit_def)
    let ?c1 = "?c\<lparr>md5_in := ?b, md5_buf := md5_f (md5_buf c) ?b\<rparr>"
    have n: "length (drop ?k d) mod 64 = length (m @ d) mod 64"
      using length_partial [of "drop ?k d"] length_partial [of "m @ d"] f(3) by metis
    have "length (md5_in ?c1) = 64" using f(1) by simp
    from md5_blocks_spec [OF this, of "drop ?k d"]
    obtain i where i: "md5_blocks ?c1 (drop ?k d) = Some (?c1\<lparr>md5_buf := absorb md5_f (md5_buf ?c1) (drop ?k d), md5_in := i\<rparr>)"
      "length i = 64" "take (length (m @ d) mod 64) i = partial_block (m @ d)" unfolding n f(3) by blast
    have "mg_md5_update c d = md5_blocks ?c1 (drop ?k d)"
      using fill b unfolding up by (simp add: absorb_in)
    then show ?thesis using i f(2) inp(3) by (simp add: md5_rep_def del: length_append)
  qed
qed

lemma final_blocks:
  fixes m :: bytes
  assumes "b = le32 (fst (bit_count (length m))) @ le32 (snd (bit_count (length m)))"
  defines "r \<equiv> length m mod 64"
  shows "55 < r \<Longrightarrow> absorb f s (m @ md5_padding (length m)) =
           f (f (absorb f s m) (partial_block m @ 0x80 # replicate (63 - r) 0)) (replicate 56 0 @ b)"
    "r \<le> 55 \<Longrightarrow> absorb f s (m @ md5_padding (length m)) =
           f (absorb f s m) (partial_block m @ 0x80 # replicate (55 - r) 0 @ b)"
proof -
  have l: "length b = 8" "length (partial_block m) = r" "r < 64" using assms by simp_all
  note app = absorb_append [of f s m "md5_padding (length m)", THEN conjunct1]
  have two: "absorb f t (x @ y) = f (f t x) y" "absorb f t y = f t y" if "length x = 64" "length y = 64" for x y t
    using absorb_block(1) [OF that(1), of f t y] absorb_block(1) [OF that(2), of f _ "[]"] by simp_all
  show "absorb f s (m @ md5_padding (length m)) =
           f (f (absorb f s m) (partial_block m @ 0x80 # replicate (63 - r) 0)) (replicate 56 0 @ b)" if "55 < r"
  proof -
    have "(119 - r) mod 64 = (63 - r) + 56" using that l by simp
    then have "partial_block m @ md5_padding (length m) =
        (partial_block m @ 0x80 # replicate (63 - r) 0) @ (replicate 56 0 @ b)"
      by (simp only: md5_padding_def assms replicate_add append_assoc append_Cons)
    moreover have "length (partial_block m @ 0x80 # replicate (63 - r) 0) = 64" "length (replicate 56 0 @ b) = 64"
      using l by simp_all
    ultimately show ?thesis using app two(1) by metis
  qed
  show "absorb f s (m @ md5_padding (length m)) =
           f (absorb f s m) (partial_block m @ 0x80 # replicate (55 - r) 0 @ b)" if "r \<le> 55"
  proof -
    have "119 - r = (55 - r) + 64" using that by simp
    then have "(119 - r) mod 64 = 55 - r" by (simp only: mod_add_self2) simp
    then have "partial_block m @ md5_padding (length m) = partial_block m @ 0x80 # replicate (55 - r) 0 @ b"
      by (simp only: md5_padding_def assms)
    moreover have "length (partial_block m @ 0x80 # replicate (55 - r) 0 @ b) = 64" using l that by simp
    ultimately show ?thesis using app two(2) by metis
  qed
qed

lemma md5_final_rep:
  assumes "md5_rep c m"
  shows "mg_md5_final c = Some (md5 m)"
proof -
  obtain b0 b1 where bb: "md5_bits c = (b0, b1)" by fastforce
  have bc: "bit_count (length m) = (b0, b1)" using assms bb by (simp add: md5_rep_def)
  have inp: "length (md5_in c) = 64" "take (length m mod 64) (md5_in c) = partial_block m" "md5_buf c = absorb md5_f md5_iv m"
    using assms by (simp_all add: md5_rep_def)
  let ?r = "length m mod 64" and ?b = "le32 b0 @ le32 b1"
  have b: "?b = le32 (fst (bit_count (length m))) @ le32 (snd (bit_count (length m)))" by (simp add: bc)
  have r: "?r < 64" by simp
  have cut: "take ?r (md5_in c) = partial_block m" "length (partial_block m) = ?r" using inp by simp_all
  have w: "wr (md5_in c) ?r 0x80 = Some (partial_block m @ 0x80 # drop (?r + 1) (md5_in c))"
    using inp(1) r by (simp add: upd_conv_take_nth_drop cut)
  have tail: "blit (x @ y) 56 (le32 b0) = Some (x @ le32 b0 @ drop 4 y)"
    "blit (x @ le32 b0 @ drop 4 y) 60 (le32 b1) = Some (x @ ?b)" if "length x = 56" "length y = 8" for x y
    using that by (simp_all add: blit_def)
  note fin = mg_md5_final_def [of c] bb bit_count_index [OF bc] w absorb_in inp(3) Let_def
  show ?thesis
  proof (cases "55 < ?r")
    case True
    let ?i = "partial_block m @ 0x80 # replicate (63 - ?r) 0"
    have "blit (partial_block m @ 0x80 # drop (Suc ?r) (md5_in c)) (Suc ?r) (replicate (63 - ?r) 0) = Some ?i"
      using inp(1) r cut(2) by (simp add: blit_def)
    moreover have "blit ?i 0 (replicate 56 0) = Some (replicate 56 0 @ drop 56 ?i)" using r cut(2) by (simp add: blit_def)
    moreover have "length (drop 56 ?i) = 8" using r cut(2) by simp
    moreover have "63 - ?r < 8" using True by linarith
    ultimately show ?thesis
      using True final_blocks(1) [OF b True, of md5_f md5_iv] tail [of "replicate 56 0" "drop 56 ?i"]
      by (simp add: fin md5_def del: drop_append drop_Cons' append_assoc split: prod.split)
  next
    case False
    let ?i = "partial_block m @ 0x80 # replicate (55 - ?r) 0"
    let ?d = "drop 56 (md5_in c)"
    have "blit (partial_block m @ 0x80 # drop (Suc ?r) (md5_in c)) (Suc ?r) (replicate (55 - ?r) 0) = Some (?i @ ?d)"
    proof -
      have "56 - ?r = Suc (55 - ?r)" using False by linarith
      then show ?thesis using inp(1) False cut(2) by (simp add: blit_def)
    qed
    moreover have "\<not> 63 - ?r < 8" using False by linarith
    moreover have "length ?i = 56" "length ?d = 8" using inp(1) False cut(2) by simp_all
    ultimately show ?thesis
      using False final_blocks(2) [OF b, of md5_f md5_iv] tail [of ?i ?d]
      by (simp add: fin md5_def split: prod.split)
  qed
qed

definition md5_start :: "mg_md5_ctx \<Rightarrow> bool" where
  "md5_start c \<longleftrightarrow> (\<exists>mem. length mem = 64 \<and> c = mg_md5_init mem)"

interpretation md5: digest md5_start mg_md5_update mg_md5_final md5_rep md5 "\<lambda>d. length d < 2 ^ 32"
  using md5_update_rep md5_final_rep
  by unfold_locales (auto simp: md5_start_def md5_rep_def mg_md5_init_def bit_count_def)

text \<open>
  C17.  MD5 with memory safety: whatever the stack holds in the context's block buffer, hashing a
  message handed over in any pieces (each under 2 ^ 32 bytes) stays inside the buffer and yields
  the RFC 1321 digest of their concatenation, where the reference is the 64-round loop over
  the padded message and the code is an unrolled table with fewer bit operations.
\<close>

theorem mg_md5_correct:
  assumes "length mem = 64" "\<forall>d \<in> set ds. length d < 2 ^ 32"
  shows "(do { c \<leftarrow> md5.updates (mg_md5_init mem) ds; mg_md5_final c }) = Some (md5 (concat ds))"
  using assms by (intro md5.digest_pieces) (auto simp: md5_start_def)

theorem mg_md5_correct_witness:
  "(do { c \<leftarrow> md5.updates (mg_md5_init (replicate 64 0)) [bs ''a'', bs ''bc'']; mg_md5_final c }) = Some (md5 (bs ''abc''))"
  using mg_md5_correct [of "replicate 64 0" "[bs ''a'', bs ''bc'']"] by (simp del: md5.updates.simps)

text \<open>A single update of 2 ^ 32 bytes or more loses the high bits of the length: only its low 32 bits are counted.\<close>

lemma md5_long_update_miscounts:
  assumes "md5_rep c []" "length d = 2 ^ 32" "mg_md5_update c d = Some c'"
  shows "md5_bits c' = (0, 0)" "bit_count (length d) = (0, 8)"
proof -
  have z: "of_nat (length d) = (0 :: u32)" by (simp add: assms(2))
  have b: "md5_bits c = (0, 0)" "length (md5_in c) = 64" using assms(1) by (simp_all add: md5_rep_def bit_count_def)
  have "mg_md5_update c d = md5_blocks (c\<lparr>md5_bits := (0, 0)\<rparr>) d"
    by (simp add: mg_md5_update_def b z Let_def)
  with md5_blocks_spec [of "c\<lparr>md5_bits := (0, 0)\<rparr>" d] assms(3) b show "md5_bits c' = (0, 0)" by auto
  show "bit_count (length d) = (0, 8)" by (simp add: bit_count_def assms(2))
qed

end
