(* ===== verification/Stream_Reader.thy ===== *)
theory Stream_Reader
  imports Prelude
begin

text \<open>
  Reading packets off a byte stream: a handler is called with the bytes that have arrived, takes
  whole packets from the front of its buffer in a loop, and leaves the beginning of the next packet
  where it is.  The laws are what the loop does on a whole packet, on a part of one and on nothing; the conclusion is that the segmentation of the stream does not matter.
\<close>

lemma append_overlap:
  assumes "p @ l = e @ r"
  shows "(length p < length e \<and> p = take (length p) e) \<or> (\<exists>q. p = e @ q \<and> q @ l = r)"
proof -
  from assms obtain us where "p = e @ us \<and> us @ l = r \<or> p @ us = e \<and> l = us @ r"
    by (auto simp: append_eq_append_conv2)
  then show ?thesis by (cases us) auto
qed

text \<open>The handler is called with each piece in turn.\<close>

fun feed_all :: "(bytes \<Rightarrow> 'c \<Rightarrow> 'c option) \<Rightarrow> bytes list \<Rightarrow> 'c \<Rightarrow> 'c option" where
  "feed_all feed [] c = Some c"
| "feed_all feed (x # xs) c = do { c \<leftarrow> feed x c; feed_all feed xs c }"

text \<open>
  \<open>conn s p\<close> is the connection in the state \<open>s\<close> with the unread bytes \<open>p\<close>; \<open>good s f\<close> says that
  the packet \<open>f\<close> may come in the state \<open>s\<close>, and \<open>after s f\<close> is the state it leads to.
\<close>

locale stream_reader =
  fixes enc :: "'f \<Rightarrow> bytes"
    and good :: "'s \<Rightarrow> 'f \<Rightarrow> bool"
    and after :: "'s \<Rightarrow> 'f \<Rightarrow> 's"
    and conn :: "'s \<Rightarrow> bytes \<Rightarrow> 'c"
    and loop :: "'c \<Rightarrow> 'c option"
    and feed :: "bytes \<Rightarrow> 'c \<Rightarrow> 'c option"
  assumes enc_nonempty: "enc f \<noteq> []"
    and loop_whole: "good s f \<Longrightarrow> loop (conn s (enc f @ rest)) = loop (conn (after s f) rest)"
    and loop_part: "good s f \<Longrightarrow> k < length (enc f) \<Longrightarrow>
          loop (conn s (take k (enc f))) = Some (conn s (take k (enc f)))"
    and loop_nothing: "loop (conn s []) = Some (conn s [])"
    and feed_conn: "feed x (conn s p) = loop (conn s (p @ x))"
begin

fun goods :: "'s \<Rightarrow> 'f list \<Rightarrow> bool" where
  "goods s [] = True"
| "goods s (f # fs) = (good s f \<and> goods (after s f) fs)"

definition waiting_for :: "'f list \<Rightarrow> bytes \<Rightarrow> bool" where
  "waiting_for fs p \<longleftrightarrow> (case fs of [] \<Rightarrow> p = [] | f # _ \<Rightarrow> \<exists>k < length (enc f). p = take k (enc f))"

lemma waiting_start: "waiting_for fs []"
  using enc_nonempty by (cases fs) (auto simp: waiting_for_def)

lemma goods_app: "goods s (fs1 @ fs2) \<longleftrightarrow> goods s fs1 \<and> goods (foldl after s fs1) fs2"
  by (induction fs1 arbitrary: s) auto

lemma loop_packets:
  assumes "goods s fs" "p @ later = concat (map enc fs)"
  shows "\<exists>fs1 fs2 q. fs = fs1 @ fs2 \<and> waiting_for fs2 q \<and> q @ later = concat (map enc fs2) \<and>
    loop (conn s p) = Some (conn (foldl after s fs1) q)"
  using assms
proof (induction fs arbitrary: s p)
  case Nil
  then show ?case by (simp add: waiting_for_def loop_nothing)
next
  case (Cons f fs)
  have g: "good s f" "goods (after s f) fs" using Cons.prems(1) by simp_all
  from Cons.prems(2) have "p @ later = enc f @ concat (map enc fs)" by simp
  then consider (part) "length p < length (enc f)" "p = take (length p) (enc f)"
    | (whole) q where "p = enc f @ q" "q @ later = concat (map enc fs)"
    using append_overlap by blast
  then show ?case
  proof cases
    case part
    from loop_part [OF g(1) part(1)] have "loop (conn s p) = Some (conn s p)"
      unfolding part(2) [symmetric] .
    moreover have "waiting_for (f # fs) p" using part by (auto simp: waiting_for_def)
    ultimately show ?thesis
      using Cons.prems(2) by (intro exI [of _ "[]"] exI [of _ "f # fs"] exI [of _ p]) simp
  next
    case whole
    have "loop (conn s p) = loop (conn (after s f) q)"
      unfolding whole(1) by (rule loop_whole [OF g(1)])
    moreover obtain fs1 fs2 r where "fs = fs1 @ fs2" "waiting_for fs2 r" "r @ later = concat (map enc fs2)"
      "loop (conn (after s f) q) = Some (conn (foldl after (after s f) fs1) r)"
      using Cons.IH [OF g(2) whole(2)] by blast
    ultimately show ?thesis
      by (intro exI [of _ "f # fs1"] exI [of _ fs2] exI [of _ r]) simp
  qed
qed

lemma feed_all_waiting:
  assumes "goods s fs" "waiting_for fs p" "p @ concat xs = concat (map enc fs)"
  shows "feed_all feed xs (conn s p) = Some (conn (foldl after s fs) [])"
  using assms
proof (induction xs arbitrary: s fs p)
  case Nil
  show ?case
  proof (cases fs)
    case (Cons f gs)
    then obtain k where "k < length (enc f)" "p = take k (enc f)" using Nil by (auto simp: waiting_for_def)
    then have "length p < length (concat (map enc fs))" using Cons by simp
    then show ?thesis using Nil by simp
  qed (use Nil in \<open>simp add: waiting_for_def\<close>)
next
  case (Cons x xs)
  have "(p @ x) @ concat xs = concat (map enc fs)" using Cons.prems(3) by simp
  from loop_packets [OF Cons.prems(1) this] obtain fs1 fs2 q where f: "fs = fs1 @ fs2" "waiting_for fs2 q"
    "q @ concat xs = concat (map enc fs2)" "loop (conn s (p @ x)) = Some (conn (foldl after s fs1) q)" by blast
  have "goods (foldl after s fs1) fs2" using Cons.prems(1) f(1) by (simp add: goods_app)
  from Cons.IH [OF this f(2,3)] show ?case using f(1,4) by (simp add: feed_conn)
qed

theorem feed_all_stream:
  "goods s fs \<Longrightarrow> concat xs = concat (map enc fs) \<Longrightarrow> feed_all feed xs (conn s []) = Some (conn (foldl after s fs) [])"
  by (rule feed_all_waiting [OF _ waiting_start]) simp_all

end

end
