(* ===== verification/Mg_Sha1.thy ===== *)
theory Mg_Sha1
  imports Mg_Hash
begin

text \<open>
  The SHA-1 digest of \<open>src/sha1.c\<close> (used by the WebSocket handshake).  The source expands the
  message schedule in place in a ring of sixteen words and unrolls the 80 rounds over renamed
  variables; both are proved equal to the schedule and the loop of FIPS 180, and the streaming
  interface to the digest of the whole message.
\<close>

record mg_sha1_ctx =
  sha1_state :: "u32 \<times> u32 \<times> u32 \<times> u32 \<times> u32"
  sha1_count :: "u32 \<times> u32"
  sha1_buffer :: bytes

section \<open>The transform\<close>

datatype sreg = SA | SB | SC | SD | SE

type_synonym sha1_local = "(sreg \<Rightarrow> u32) \<times> u32 list"

definition rol :: "u32 \<Rightarrow> nat \<Rightarrow> u32" where
  "rol v bits = push_bit bits v OR drop_bit (32 - bits) v"

definition blk0 :: "u32 list \<Rightarrow> nat \<Rightarrow> u32 list" where
  "blk0 l i = l[i := (rol (l ! i) 24 AND 0xFF00FF00) OR (rol (l ! i) 8 AND 0x00FF00FF)]"

definition blk :: "u32 list \<Rightarrow> nat \<Rightarrow> u32 list" where
  "blk l i = l[i AND 15 := rol (l ! ((i + 13) AND 15) XOR l ! ((i + 8) AND 15) XOR l ! ((i + 2) AND 15) XOR
      l ! (i AND 15)) 1]"

text \<open>What the round macros share: \<open>z += t + rol(v, 5); w = rol(w, 30)\<close>.\<close>

definition sha1_mix :: "sreg \<Rightarrow> sreg \<Rightarrow> sreg \<Rightarrow> u32 \<Rightarrow> (sreg \<Rightarrow> u32) \<Rightarrow> sreg \<Rightarrow> u32" where
  "sha1_mix v w z t r = (let r = r(z := r z + (t + rol (r v) 5)) in r(w := rol (r w) 30))"

definition SHA1_R0 :: "sreg \<Rightarrow> sreg \<Rightarrow> sreg \<Rightarrow> sreg \<Rightarrow> sreg \<Rightarrow> nat \<Rightarrow> sha1_local \<Rightarrow> sha1_local" where
  "SHA1_R0 v w x y z i = (\<lambda>(r, l). let l = blk0 l i in
     (sha1_mix v w z (((r w AND (r x XOR r y)) XOR r y) + l ! i + 0x5A827999) r, l))"

definition SHA1_R1 :: "sreg \<Rightarrow> sreg \<Rightarrow> sreg \<Rightarrow> sreg \<Rightarrow> sreg \<Rightarrow> nat \<Rightarrow> sha1_local \<Rightarrow> sha1_local" where
  "SHA1_R1 v w x y z i = (\<lambda>(r, l). let l = blk l i in
     (sha1_mix v w z (((r w AND (r x XOR r y)) XOR r y) + l ! (i AND 15) + 0x5A827999) r, l))"

definition SHA1_R2 :: "sreg \<Rightarrow> sreg \<Rightarrow> sreg \<Rightarrow> sreg \<Rightarrow> sreg \<Rightarrow> nat \<Rightarrow> sha1_local \<Rightarrow> sha1_local" where
  "SHA1_R2 v w x y z i = (\<lambda>(r, l). let l = blk l i in
     (sha1_mix v w z ((r w XOR r x XOR r y) + l ! (i AND 15) + 0x6ED9EBA1) r, l))"

definition SHA1_R3 :: "sreg \<Rightarrow> sreg \<Rightarrow> sreg \<Rightarrow> sreg \<Rightarrow> sreg \<Rightarrow> nat \<Rightarrow> sha1_local \<Rightarrow> sha1_local" where
  "SHA1_R3 v w x y z i = (\<lambda>(r, l). let l = blk l i in
     (sha1_mix v w z ((((r w OR r x) AND r y) OR (r w AND r x)) + l ! (i AND 15) + 0x8F1BBCDC) r, l))"

definition SHA1_R4 :: "sreg \<Rightarrow> sreg \<Rightarrow> sreg \<Rightarrow> sreg \<Rightarrow> sreg \<Rightarrow> nat \<Rightarrow> sha1_local \<Rightarrow> sha1_local" where
  "SHA1_R4 v w x y z i = (\<lambda>(r, l). let l = blk l i in
     (sha1_mix v w z ((r w XOR r x XOR r y) + l ! (i AND 15) + 0xCA62C1D6) r, l))"

definition sha1_program ::
  "((sreg \<Rightarrow> sreg \<Rightarrow> sreg \<Rightarrow> sreg \<Rightarrow> sreg \<Rightarrow> nat \<Rightarrow> sha1_local \<Rightarrow> sha1_local) \<times>
     sreg \<times> sreg \<times> sreg \<times> sreg \<times> sreg \<times> nat) list" where
  "sha1_program = [
   (SHA1_R0, SA, SB, SC, SD, SE, 0), (SHA1_R0, SE, SA, SB, SC, SD, 1),
   (SHA1_R0, SD, SE, SA, SB, SC, 2), (SHA1_R0, SC, SD, SE, SA, SB, 3),
   (SHA1_R0, SB, SC, SD, SE, SA, 4), (SHA1_R0, SA, SB, SC, SD, SE, 5),
   (SHA1_R0, SE, SA, SB, SC, SD, 6), (SHA1_R0, SD, SE, SA, SB, SC, 7),
   (SHA1_R0, SC, SD, SE, SA, SB, 8), (SHA1_R0, SB, SC, SD, SE, SA, 9),
   (SHA1_R0, SA, SB, SC, SD, SE, 10), (SHA1_R0, SE, SA, SB, SC, SD, 11),
   (SHA1_R0, SD, SE, SA, SB, SC, 12), (SHA1_R0, SC, SD, SE, SA, SB, 13),
   (SHA1_R0, SB, SC, SD, SE, SA, 14), (SHA1_R0, SA, SB, SC, SD, SE, 15),
   (SHA1_R1, SE, SA, SB, SC, SD, 16), (SHA1_R1, SD, SE, SA, SB, SC, 17),
   (SHA1_R1, SC, SD, SE, SA, SB, 18), (SHA1_R1, SB, SC, SD, SE, SA, 19),
   (SHA1_R2, SA, SB, SC, SD, SE, 20), (SHA1_R2, SE, SA, SB, SC, SD, 21),
   (SHA1_R2, SD, SE, SA, SB, SC, 22), (SHA1_R2, SC, SD, SE, SA, SB, 23),
   (SHA1_R2, SB, SC, SD, SE, SA, 24), (SHA1_R2, SA, SB, SC, SD, SE, 25),
   (SHA1_R2, SE, SA, SB, SC, SD, 26), (SHA1_R2, SD, SE, SA, SB, SC, 27),
   (SHA1_R2, SC, SD, SE, SA, SB, 28), (SHA1_R2, SB, SC, SD, SE, SA, 29),
   (SHA1_R2, SA, SB, SC, SD, SE, 30), (SHA1_R2, SE, SA, SB, SC, SD, 31),
   (SHA1_R2, SD, SE, SA, SB, SC, 32), (SHA1_R2, SC, SD, SE, SA, SB, 33),
   (SHA1_R2, SB, SC, SD, SE, SA, 34), (SHA1_R2, SA, SB, SC, SD, SE, 35),
   (SHA1_R2, SE, SA, SB, SC, SD, 36), (SHA1_R2, SD, SE, SA, SB, SC, 37),
   (SHA1_R2, SC, SD, SE, SA, SB, 38), (SHA1_R2, SB, SC, SD, SE, SA, 39),
   (SHA1_R3, SA, SB, SC, SD, SE, 40), (SHA1_R3, SE, SA, SB, SC, SD, 41),
   (SHA1_R3, SD, SE, SA, SB, SC, 42), (SHA1_R3, SC, SD, SE, SA, SB, 43),
   (SHA1_R3, SB, SC, SD, SE, SA, 44), (SHA1_R3, SA, SB, SC, SD, SE, 45),
   (SHA1_R3, SE, SA, SB, SC, SD, 46), (SHA1_R3, SD, SE, SA, SB, SC, 47),
   (SHA1_R3, SC, SD, SE, SA, SB, 48), (SHA1_R3, SB, SC, SD, SE, SA, 49),
   (SHA1_R3, SA, SB, SC, SD, SE, 50), (SHA1_R3, SE, SA, SB, SC, SD, 51),
   (SHA1_R3, SD, SE, SA, SB, SC, 52), (SHA1_R3, SC, SD, SE, SA, SB, 53),
   (SHA1_R3, SB, SC, SD, SE, SA, 54), (SHA1_R3, SA, SB, SC, SD, SE, 55),
   (SHA1_R3, SE, SA, SB, SC, SD, 56), (SHA1_R3, SD, SE, SA, SB, SC, 57),
   (SHA1_R3, SC, SD, SE, SA, SB, 58), (SHA1_R3, SB, SC, SD, SE, SA, 59),
   (SHA1_R4, SA, SB, SC, SD, SE, 60), (SHA1_R4, SE, SA, SB, SC, SD, 61),
   (SHA1_R4, SD, SE, SA, SB, SC, 62), (SHA1_R4, SC, SD, SE, SA, SB, 63),
   (SHA1_R4, SB, SC, SD, SE, SA, 64), (SHA1_R4, SA, SB, SC, SD, SE, 65),
   (SHA1_R4, SE, SA, SB, SC, SD, 66), (SHA1_R4, SD, SE, SA, SB, SC, 67),
   (SHA1_R4, SC, SD, SE, SA, SB, 68), (SHA1_R4, SB, SC, SD, SE, SA, 69),
   (SHA1_R4, SA, SB, SC, SD, SE, 70), (SHA1_R4, SE, SA, SB, SC, SD, 71),
   (SHA1_R4, SD, SE, SA, SB, SC, 72), (SHA1_R4, SC, SD, SE, SA, SB, 73),
   (SHA1_R4, SB, SC, SD, SE, SA, 74), (SHA1_R4, SA, SB, SC, SD, SE, 75),
   (SHA1_R4, SE, SA, SB, SC, SD, 76), (SHA1_R4, SD, SE, SA, SB, SC, 77),
   (SHA1_R4, SC, SD, SE, SA, SB, 78), (SHA1_R4, SB, SC, SD, SE, SA, 79)]"

definition mg_sha1_transform :: "u32 \<times> u32 \<times> u32 \<times> u32 \<times> u32 \<Rightarrow> bytes \<Rightarrow> u32 \<times> u32 \<times> u32 \<times> u32 \<times> u32" where
  "mg_sha1_transform = (\<lambda>(a, b, c, d, e) buffer.
     let block = map (\<lambda>i. un32 (span buffer (4 * i) 4)) [0..<16];
         (r, l) = foldl (\<lambda>s (R, v, w, x, y, z, i). R v w x y z i s)
                    ((\<lambda>_. 0)(SA := a, SB := b, SC := c, SD := d, SE := e), block) sha1_program
     in (a + r SA, b + r SB, c + r SC, d + r SD, e + r SE))"

section \<open>The streaming interface\<close>

definition mg_sha1_init :: "bytes \<Rightarrow> mg_sha1_ctx" where
  "mg_sha1_init mem = \<lparr>sha1_state = (0x67452301, 0xEFCDAB89, 0x98BADCFE, 0x10325476, 0xC3D2E1F0),
     sha1_count = (0, 0), sha1_buffer = mem\<rparr>"

function sha1_blocks :: "mg_sha1_ctx \<Rightarrow> bytes \<Rightarrow> nat \<Rightarrow> (mg_sha1_ctx \<times> nat) option" where
  "sha1_blocks ctx data i =
     (if i + 63 < length data then do {
        b \<leftarrow> slice data i 64;
        sha1_blocks (ctx\<lparr>sha1_state := mg_sha1_transform (sha1_state ctx) b\<rparr>) data (i + 64) }
      else Some (ctx, i))"
  by pat_completeness auto
termination by (relation "measure (\<lambda>(ctx, data, i). length data - i)") auto

declare sha1_blocks.simps [simp del]

definition mg_sha1_update :: "mg_sha1_ctx \<Rightarrow> bytes \<Rightarrow> mg_sha1_ctx option" where
  "mg_sha1_update ctx data =
     (let len = length data;
          (j, c1) = sha1_count ctx;
          c0 = j + push_bit 3 (of_nat len);
          c1 = (if c0 < j then c1 + 1 else c1) + of_nat (len div 2 ^ 29);
          ctx = ctx\<lparr>sha1_count := (c0, c1)\<rparr>;
          j = unat (drop_bit 3 j AND 63)
      in do {
        (ctx, i, j) \<leftarrow>
          (if j + len > 63 then do {
             let i = 64 - j;
             d \<leftarrow> slice data 0 i;
             b \<leftarrow> blit (sha1_buffer ctx) j d;
             let ctx = ctx\<lparr>sha1_buffer := b, sha1_state := mg_sha1_transform (sha1_state ctx) b\<rparr>;
             (ctx, i) \<leftarrow> sha1_blocks ctx data i;
             Some (ctx, i, 0) }
           else Some (ctx, 0, j));
        d \<leftarrow> slice data i (len - i);
        b \<leftarrow> blit (sha1_buffer ctx) j d;
        Some (ctx\<lparr>sha1_buffer := b\<rparr>) })"

text \<open>The padding loop; \<open>None\<close> also when the fuel runs out.\<close>

fun sha1_pad :: "nat \<Rightarrow> mg_sha1_ctx \<Rightarrow> mg_sha1_ctx option" where
  "sha1_pad 0 ctx = None"
| "sha1_pad (Suc fuel) ctx =
     (if fst (sha1_count ctx) AND 504 \<noteq> 448 then do {
        ctx \<leftarrow> mg_sha1_update ctx [0];
        sha1_pad fuel ctx }
      else Some ctx)"

definition mg_sha1_final :: "mg_sha1_ctx \<Rightarrow> bytes option" where
  "mg_sha1_final ctx =
     (let finalcount = be32 (snd (sha1_count ctx)) @ be32 (fst (sha1_count ctx)) in do {
        ctx \<leftarrow> mg_sha1_update ctx [0x80];
        ctx \<leftarrow> sha1_pad 65 ctx;
        ctx \<leftarrow> mg_sha1_update ctx finalcount;
        let (a, b, c, d, e) = sha1_state ctx;
        Some (be32 a @ be32 b @ be32 c @ be32 d @ be32 e) })"

section \<open>The reference: FIPS 180\<close>

fun sha1_W :: "bytes \<Rightarrow> nat \<Rightarrow> u32" where
  "sha1_W b t =
     (if t < 16 then unbe32 (span b (4 * t) 4)
      else word_rotl 1 (sha1_W b (t - 3) XOR sha1_W b (t - 8) XOR sha1_W b (t - 14) XOR sha1_W b (t - 16)))"

declare sha1_W.simps [simp del]

definition sha1_fn :: "nat \<Rightarrow> u32 \<Rightarrow> u32 \<Rightarrow> u32 \<Rightarrow> u32" where
  "sha1_fn t b c d =
     (if t < 20 then (b AND c) OR (NOT b AND d)
      else if 40 \<le> t \<and> t < 60 then (b AND c) OR (b AND d) OR (c AND d)
      else b XOR c XOR d)"

definition sha1_K :: "nat \<Rightarrow> u32" where
  "sha1_K t = (if t < 20 then 0x5A827999 else if t < 40 then 0x6ED9EBA1 else if t < 60 then 0x8F1BBCDC else 0xCA62C1D6)"

definition sha1_round :: "bytes \<Rightarrow> u32 \<times> u32 \<times> u32 \<times> u32 \<times> u32 \<Rightarrow> nat \<Rightarrow> u32 \<times> u32 \<times> u32 \<times> u32 \<times> u32" where
  "sha1_round m = (\<lambda>(a, b, c, d, e) t.
     (word_rotl 5 a + sha1_fn t b c d + e + sha1_K t + sha1_W m t, a, word_rotl 30 b, c, d))"

definition sha1_compress :: "u32 \<times> u32 \<times> u32 \<times> u32 \<times> u32 \<Rightarrow> bytes \<Rightarrow> u32 \<times> u32 \<times> u32 \<times> u32 \<times> u32" where
  "sha1_compress st m =
     (let (a, b, c, d, e) = st; (a', b', c', d', e') = foldl (sha1_round m) st [0..<80]
      in (a + a', b + b', c + c', d + d', e + e'))"

definition sha1_padding :: "nat \<Rightarrow> bytes" where
  "sha1_padding n = 0x80 # replicate ((119 - n mod 64) mod 64) 0 @ be32 (snd (bit_count n)) @ be32 (fst (bit_count n))"

definition sha1 :: "bytes \<Rightarrow> bytes" where
  "sha1 m =
     (let (a, b, c, d, e) = absorb sha1_compress (0x67452301, 0xEFCDAB89, 0x98BADCFE, 0x10325476, 0xC3D2E1F0)
            (m @ sha1_padding (length m))
      in be32 a @ be32 b @ be32 c @ be32 d @ be32 e)"

section \<open>The transform is the reference compression\<close>

lemma rol_rotl: "0 < s \<Longrightarrow> s < 32 \<Longrightarrow> rol v s = word_rotl s v"
  by (simp add: rol_def rotate_or)

definition sreg_at :: "nat \<Rightarrow> sreg" where
  "sreg_at k = [SA, SE, SD, SC, SB] ! (k mod 5)"

definition sha1_R :: "nat \<Rightarrow> sreg \<Rightarrow> sreg \<Rightarrow> sreg \<Rightarrow> sreg \<Rightarrow> sreg \<Rightarrow> nat \<Rightarrow> sha1_local \<Rightarrow> sha1_local" where
  "sha1_R i = (if i < 16 then SHA1_R0 else if i < 20 then SHA1_R1 else if i < 40 then SHA1_R2
     else if i < 60 then SHA1_R3 else SHA1_R4)"

abbreviation sha1_row where
  "sha1_row i \<equiv> (sha1_R i, sreg_at i, sreg_at (i + 4), sreg_at (i + 3), sreg_at (i + 2), sreg_at (i + 1), i)"

lemma sha1_program_regular: "sha1_program = map sha1_row [0..<80]"
  by (simp add: sha1_program_def upt_rec sreg_at_def sha1_R_def)

lemma sreg_at_distinct:
  "sreg_at i \<noteq> sreg_at (i + 1)" "sreg_at i \<noteq> sreg_at (i + 2)" "sreg_at i \<noteq> sreg_at (i + 3)" "sreg_at i \<noteq> sreg_at (i + 4)"
  "sreg_at (i + 5) = sreg_at i" "sreg_at (i + 1) \<noteq> sreg_at (i + 4)" "sreg_at (i + 2) \<noteq> sreg_at (i + 4)"
  "sreg_at (i + 3) \<noteq> sreg_at (i + 4)" "sreg_at (i + 1) \<noteq> sreg_at (i + 2)" "sreg_at (i + 1) \<noteq> sreg_at (i + 3)"
proof -
  define k where "k = i mod 5"
  then have k: "k = 0 \<or> k = 1 \<or> k = 2 \<or> k = 3 \<or> k = 4" by presburger
  have m: "sreg_at (i + j) = sreg_at (k + j)" for j
    unfolding sreg_at_def k_def by (simp only: mod_add_left_eq)
  have z: "sreg_at i = sreg_at (k + 0)" using m [of 0] by simp
  show "sreg_at i \<noteq> sreg_at (i + 1)" "sreg_at i \<noteq> sreg_at (i + 2)" "sreg_at i \<noteq> sreg_at (i + 3)" "sreg_at i \<noteq> sreg_at (i + 4)"
    "sreg_at (i + 5) = sreg_at i" "sreg_at (i + 1) \<noteq> sreg_at (i + 4)" "sreg_at (i + 2) \<noteq> sreg_at (i + 4)"
    "sreg_at (i + 3) \<noteq> sreg_at (i + 4)" "sreg_at (i + 1) \<noteq> sreg_at (i + 2)" "sreg_at (i + 1) \<noteq> sreg_at (i + 3)"
    using k unfolding m z by (elim disjE; simp add: sreg_at_def)+
qed

lemma swap_masks:
  "(0xFF00FF00 :: u32) = push_bit 8 (mask 8) OR push_bit 24 (mask 8)"
  "(0x00FF00FF :: u32) = mask 8 OR push_bit 16 (mask 8)"
  by (simp_all add: mask_eq_exp_minus_1 push_bit_eq_mult)

lemma byte_swap: "(rol (un32 b) 24 AND 0xFF00FF00) OR (rol (un32 b) 8 AND 0x00FF00FF) = unbe32 b"
proof (rule bit_word_eqI)
  fix n assume n: "n < LENGTH(32)"
  then show "bit ((rol (un32 b) 24 AND 0xFF00FF00) OR (rol (un32 b) 8 AND 0x00FF00FF)) n = bit (unbe32 b) n"
    unfolding swap_masks
    by (cases rule: word32_bytes) (auto simp: rol_def un32_def unbe32_def bit_simps byte_high_bit)
qed

lemma and_15_mod: "(i :: nat) AND 15 = i mod 16"
proof -
  have "(15 :: nat) = mask 4" by (simp add: mask_eq_exp_minus_1)
  then show ?thesis by (simp only: take_bit_eq_mask [symmetric] take_bit_eq_mod) simp
qed

text \<open>The ring holds the last sixteen schedule words, before the first pass the unswapped rest.\<close>

definition ring :: "bytes \<Rightarrow> nat \<Rightarrow> u32 list \<Rightarrow> bool" where
  "ring b n l \<longleftrightarrow> length l = 16 \<and> (\<forall>t. t < n \<longrightarrow> n \<le> t + 16 \<longrightarrow> l ! (t mod 16) = sha1_W b t) \<and>
     (\<forall>t. n \<le> t \<longrightarrow> t < 16 \<longrightarrow> l ! t = un32 (span b (4 * t) 4))"

lemma ring_start: "ring b 0 (map (\<lambda>i. un32 (span b (4 * i) 4)) [0..<16])"
  by (simp add: ring_def del: upt_Suc)

lemma ring_blk0:
  assumes "ring b n l" "n < 16"
  shows "ring b (n + 1) (blk0 l n)" "blk0 l n ! n = sha1_W b n"
proof -
  have l: "length l = 16" "l ! n = un32 (span b (4 * n) 4)" using assms by (auto simp: ring_def)
  then show w: "blk0 l n ! n = sha1_W b n"
    using assms(2) by (simp add: blk0_def byte_swap sha1_W.simps [of b n])
  have o: "blk0 l n ! k = l ! k" if "k \<noteq> n" for k using that by (simp add: blk0_def)
  have len: "length (blk0 l n) = 16" using l by (simp add: blk0_def)
  show "ring b (n + 1) (blk0 l n)"
    unfolding ring_def
  proof (intro conjI allI impI)
    fix t assume t: "t < n + 1" "n + 1 \<le> t + 16"
    show "blk0 l n ! (t mod 16) = sha1_W b t"
      using t assms w o [of t] by (cases "t = n") (auto simp: ring_def)
  next
    fix t assume "n + 1 \<le> t" "t < 16"
    then show "blk0 l n ! t = un32 (span b (4 * t) 4)" using assms o [of t] by (auto simp: ring_def)
  qed (rule len)
qed

lemma mod_shift:
  fixes n :: nat
  assumes "16 \<le> n" "k \<le> 16"
  shows "(n + (16 - k)) mod 16 = (n - k) mod 16"
proof -
  have "n + (16 - k) = (n - k) + 16" using assms by simp
  then show ?thesis by simp
qed

lemma ring_blk:
  assumes "ring b n l" "16 \<le> n"
  shows "ring b (n + 1) (blk l n)" "blk l n ! (n AND 15) = sha1_W b n"
proof -
  have l: "length l = 16" using assms(1) by (simp add: ring_def)
  have at: "l ! ((n + (16 - k)) mod 16) = sha1_W b (n - k)" if "0 < k" "k \<le> 16" for k
    using assms that mod_shift [OF assms(2) that(2)] by (auto simp: ring_def)
  have "l ! ((n + 13) mod 16) = sha1_W b (n - 3)" "l ! ((n + 8) mod 16) = sha1_W b (n - 8)"
    "l ! ((n + 2) mod 16) = sha1_W b (n - 14)" "l ! (n mod 16) = sha1_W b (n - 16)"
    using at [of 3] at [of 8] at [of 14] at [of 16] by simp_all
  then have v: "blk l n = l[n mod 16 := sha1_W b n]"
    using assms(2) by (simp add: blk_def and_15_mod rol_rotl sha1_W.simps [of b n])
  then show "blk l n ! (n AND 15) = sha1_W b n" using l by (simp add: and_15_mod)
  have o: "t mod 16 \<noteq> n mod 16" if "t < n" "n + 1 \<le> t + 16" for t
  proof
    assume "t mod 16 = n mod 16"
    then have "16 dvd n - t" using that(1) mod_eq_dvd_iff_nat [of t n 16] by simp
    then show False using that by (auto dest!: dvd_imp_le)
  qed
  show "ring b (n + 1) (blk l n)"
    unfolding ring_def v
  proof (intro conjI allI impI)
    fix t assume t: "t < n + 1" "n + 1 \<le> t + 16"
    show "l[n mod 16 := sha1_W b n] ! (t mod 16) = sha1_W b t"
    proof (cases "t = n")
      case False
      then show ?thesis using t o [of t] assms(1) by (auto simp: ring_def)
    qed (use l in simp)
  qed (use l assms(2) in auto)
qed

lemma sha1_functions:
  "((x AND (y XOR z)) XOR z) = (x AND y) OR (NOT x AND (z :: u32))"
  "(((x OR y) AND z) OR (x AND y)) = (x AND y) OR (x AND z) OR (y AND (z :: u32))"
  by (rule bit_word_eqI; auto simp: bit_simps)+

lemma sha1_row:
  assumes "ring b i l" "i < 80"
  obtains l' where "ring b (i + 1) l'"
    "\<And>v w x y z. sha1_R i v w x y z i (r, l) =
       (sha1_mix v w z (sha1_fn i (r w) (r x) (r y) + sha1_W b i + sha1_K i) r, l')"
proof (cases "i < 16")
  case True
  then show ?thesis
    using ring_blk0 [OF assms(1) True]
    by (intro that [of "blk0 l i"]) (simp_all add: sha1_R_def SHA1_R0_def Let_def sha1_fn_def sha1_K_def sha1_functions)
next
  case False
  then have ge: "16 \<le> i" by simp
  consider "i < 20" | "20 \<le> i" "i < 40" | "40 \<le> i" "i < 60" | "60 \<le> i" by linarith
  then show ?thesis
    using ring_blk [OF assms(1) ge] False
    by (cases; intro that [of "blk l i"])
       (simp_all add: sha1_R_def SHA1_R1_def SHA1_R2_def SHA1_R3_def SHA1_R4_def Let_def sha1_fn_def sha1_K_def sha1_functions)
qed

lemma sha1_row_round:
  assumes "ring b i l" "i < 80"
  shows "case sha1_R i (sreg_at i) (sreg_at (i + 4)) (sreg_at (i + 3)) (sreg_at (i + 2)) (sreg_at (i + 1)) i (r, l) of
      (r', l') \<Rightarrow> ring b (i + 1) l' \<and>
        (r' (sreg_at (i + 1)), r' (sreg_at (i + 5)), r' (sreg_at (i + 4)), r' (sreg_at (i + 3)), r' (sreg_at (i + 2))) =
        sha1_round b (r (sreg_at i), r (sreg_at (i + 4)), r (sreg_at (i + 3)), r (sreg_at (i + 2)), r (sreg_at (i + 1))) i"
proof -
  obtain l' where l': "ring b (i + 1) l'"
    "\<forall>v w x y z. sha1_R i v w x y z i (r, l) =
       (sha1_mix v w z (sha1_fn i (r w) (r x) (r y) + sha1_W b i + sha1_K i) r, l')"
    using sha1_row [OF assms, where r = r] by metis
  show ?thesis
    using sreg_at_distinct [of i] l'(1)
    by (simp add: l'(2) [rule_format] sha1_mix_def Let_def sha1_round_def rol_rotl del: One_nat_def add_2_eq_Suc' add_Suc_right)
qed

abbreviation run_sha1_row where
  "run_sha1_row \<equiv> \<lambda>s (R, v, w, x, y, z, i). R v w x y z i s"

lemma sha1_rows_rounds:
  "n \<le> 80 \<Longrightarrow>
   (case foldl run_sha1_row (r0, map (\<lambda>i. un32 (span b (4 * i) 4)) [0..<16]) (map sha1_row [0..<n]) of (r, l) \<Rightarrow> ring b n l \<and>
      (r (sreg_at n), r (sreg_at (n + 4)), r (sreg_at (n + 3)), r (sreg_at (n + 2)), r (sreg_at (n + 1))) =
      foldl (sha1_round b) (r0 SA, r0 SB, r0 SC, r0 SD, r0 SE) [0..<n])"
proof (induction n)
  case 0
  show ?case using ring_start [of b] by (simp add: sreg_at_def del: upt_Suc)
next
  case (Suc n)
  obtain r l where rl: "foldl run_sha1_row (r0, map (\<lambda>i. un32 (span b (4 * i) 4)) [0..<16]) (map sha1_row [0..<n]) = (r, l)"
    by fastforce
  then have inv: "ring b n l" "foldl (sha1_round b) (r0 SA, r0 SB, r0 SC, r0 SD, r0 SE) [0..<n] =
      (r (sreg_at n), r (sreg_at (n + 4)), r (sreg_at (n + 3)), r (sreg_at (n + 2)), r (sreg_at (n + 1)))"
    using Suc by simp_all
  have "foldl run_sha1_row (r0, map (\<lambda>i. un32 (span b (4 * i) 4)) [0..<16]) (map sha1_row [0..<Suc n]) =
      sha1_R n (sreg_at n) (sreg_at (n + 4)) (sreg_at (n + 3)) (sreg_at (n + 2)) (sreg_at (n + 1)) n (r, l)"
    using rl by simp
  moreover have "foldl (sha1_round b) (r0 SA, r0 SB, r0 SC, r0 SD, r0 SE) [0..<Suc n] =
      sha1_round b (r (sreg_at n), r (sreg_at (n + 4)), r (sreg_at (n + 3)), r (sreg_at (n + 2)), r (sreg_at (n + 1))) n"
    using inv by simp
  moreover have "Suc n = n + 1" "Suc n + 4 = n + 5" "Suc n + 3 = n + 4" "Suc n + 2 = n + 3" "Suc n + 1 = n + 2" by simp_all
  ultimately show ?case
    using sha1_row_round [OF inv(1), where r = r] Suc.prems by (simp only: Suc_le_eq)
qed

lemma sha1_transform_compress:
  "mg_sha1_transform st b = sha1_compress st b"
proof (cases st)
  case (fields a1 a2 a3 a4 a5)
  let ?r0 = "(\<lambda>_. 0)(SA := a1, SB := a2, SC := a3, SD := a4, SE := a5)"
  have at: "sreg_at 80 = SA" "sreg_at (80 + 4) = SB" "sreg_at (80 + 3) = SC" "sreg_at (80 + 2) = SD" "sreg_at (80 + 1) = SE"
    by (simp_all add: sreg_at_def)
  obtain r l where rl: "foldl run_sha1_row (?r0, map (\<lambda>i. un32 (span b (4 * i) 4)) [0..<16]) sha1_program = (r, l)"
    by fastforce
  then have "foldl (sha1_round b) st [0..<80] = (r SA, r SB, r SC, r SD, r SE)"
    using sha1_rows_rounds [where n = 80 and ?r0.0 = ?r0 and b = b, unfolded at] unfolding sha1_program_regular fields by (simp del: upt_Suc upt.simps)
  with rl show ?thesis
    by (simp add: mg_sha1_transform_def sha1_compress_def fields Let_def del: upt_Suc upt.simps)
qed

section \<open>Streaming computes the digest of the whole message\<close>

abbreviation sha1_iv :: "u32 \<times> u32 \<times> u32 \<times> u32 \<times> u32" where
  "sha1_iv \<equiv> (0x67452301, 0xEFCDAB89, 0x98BADCFE, 0x10325476, 0xC3D2E1F0)"

definition sha1_rep :: "mg_sha1_ctx \<Rightarrow> bytes \<Rightarrow> bool" where
  "sha1_rep c m \<longleftrightarrow> length (sha1_buffer c) = 64 \<and> sha1_count c = bit_count (length m) \<and>
     sha1_state c = absorb sha1_compress sha1_iv m \<and> take (length m mod 64) (sha1_buffer c) = partial_block m"

lemma sha1_blocks_spec:
  "i \<le> length data \<Longrightarrow>
   \<exists>k. sha1_blocks c data i = Some (c\<lparr>sha1_state := absorb sha1_compress (sha1_state c) (drop i data)\<rparr>, k) \<and>
       i \<le> k \<and> k \<le> length data \<and> drop k data = partial_block (drop i data)"
proof (induction c data i rule: sha1_blocks.induct)
  case (1 c data i)
  show ?case
  proof (cases "i + 63 < length data")
    case False
    then have "length (drop i data) < 64" by simp
    then show ?thesis
      using "1.prems" False by (simp add: sha1_blocks.simps [of c data i])
  next
    case True
    let ?c = "c\<lparr>sha1_state := sha1_compress (sha1_state c) (span data i 64)\<rparr>"
    have s: "slice data i 64 = Some (span data i 64)" using True by (simp add: slice_def)
    have e: "drop i data = span data i 64 @ drop (i + 64) data" by (simp add: span_def add.commute [of i] flip: drop_drop)
    have l: "length (span data i 64) = 64" using True by simp
    have "i + 64 \<le> length data" using True by simp
    from "1.IH" [OF True s, unfolded sha1_transform_compress, OF this]
    obtain k where "sha1_blocks ?c data (i + 64) =
        Some (?c\<lparr>sha1_state := absorb sha1_compress (sha1_state ?c) (drop (i + 64) data)\<rparr>, k)"
      "i + 64 \<le> k" "k \<le> length data" "drop k data = partial_block (drop (i + 64) data)" by blast
    then show ?thesis
      using True s absorb_block(1) [OF l, of sha1_compress "sha1_state c" "drop (i + 64) data"]
        absorb_block(2) [OF l, of "drop (i + 64) data"]
      by (auto simp: sha1_blocks.simps [of c data i] sha1_transform_compress e [symmetric] intro!: exI [of _ k])
  qed
qed

lemma sha1_update_unfold:
  assumes "sha1_rep c m"
  shows "mg_sha1_update c d = (let r = length m mod 64; ctx = c\<lparr>sha1_count := bit_count (length (m @ d))\<rparr> in do {
        (ctx, i, j) \<leftarrow>
          (if r + length d > 63 then do {
             x \<leftarrow> slice d 0 (64 - r);
             b \<leftarrow> blit (sha1_buffer c) r x;
             (ctx, i) \<leftarrow> sha1_blocks (ctx\<lparr>sha1_buffer := b, sha1_state := sha1_compress (sha1_state c) b\<rparr>) d (64 - r);
             Some (ctx, i, 0) }
           else Some (ctx, 0, r));
        x \<leftarrow> slice d i (length d - i);
        b \<leftarrow> blit (sha1_buffer ctx) j x;
        Some (ctx\<lparr>sha1_buffer := b\<rparr>) })"
proof -
  obtain t c1 where tb: "sha1_count c = (t, c1)" by fastforce
  have bc: "bit_count (length m) = (t, c1)" using assms tb by (simp add: sha1_rep_def)
  let ?low = "t + push_bit 3 (of_nat (length d))"
  have bits: "(?low, (if ?low < t then c1 + 1 else c1) + of_nat (length d div 2 ^ 29)) = bit_count (length (m @ d))"
    using bit_count_add [OF bc refl, of "length d"] by simp
  show ?thesis
    using bit_count_index [OF bc] unfolding mg_sha1_update_def tb Let_def prod.case bits sha1_transform_compress
    by (simp del: length_append)
qed

lemma sha1_update_rep:
  assumes "sha1_rep c m"
  shows "\<exists>c'. mg_sha1_update c d = Some c' \<and> sha1_rep c' (m @ d)"
proof -
  let ?r = "length m mod 64"
  let ?c = "c\<lparr>sha1_count := bit_count (length (m @ d))\<rparr>"
  note up = sha1_update_unfold [OF assms, of d, unfolded Let_def]
  have inp: "length (sha1_buffer c) = 64" "take ?r (sha1_buffer c) = partial_block m"
    "sha1_state c = absorb sha1_compress sha1_iv m"
    using assms by (simp_all add: sha1_rep_def)
  have rest: "slice d i (length d - i) = Some (drop i d)" if "i \<le> length d" for i
    using that by (simp add: slice_def span_def)
  show ?thesis
  proof (cases "?r + length d > 63")
    case False
    then have short: "?r + length d < 64" by simp
    show ?thesis
      using False inp up absorb_stay(1) [OF short, where f = sha1_compress and s = sha1_iv]
        absorb_stay(2,3) [OF short] rest [of 0] by (simp add: sha1_rep_def blit_def)
  next
    case True
    let ?k = "64 - ?r"
    obtain buf where buf: "buf = partial_block m @ take ?k d" by blast
    have r: "?r < 64" by simp
    have k: "?k \<le> length d" using True by linarith
    note fill = absorb_fill(1) [OF refl k buf] absorb_fill(2) [OF refl k buf, where f = sha1_compress and s = sha1_iv]
      absorb_fill(3) [OF refl k buf]
    have s: "slice d 0 ?k = Some (take ?k d)" using k by (simp add: slice_def)
    have b: "blit (sha1_buffer c) ?r (take ?k d) = Some buf" using k inp r by (simp add: blit_def buf)
    let ?cc = "?c\<lparr>sha1_buffer := buf, sha1_state := sha1_compress (sha1_state c) buf\<rparr>"
    obtain p where p: "sha1_blocks ?cc d ?k = Some (?cc\<lparr>sha1_state := absorb sha1_compress (sha1_state ?cc) (drop ?k d)\<rparr>, p)"
      "p \<le> length d" "drop p d = partial_block (drop ?k d)"
      using sha1_blocks_spec [OF k, of ?cc] by blast
    obtain q where q: "drop p d = q" "length q = length (m @ d) mod 64"
      using p(3) fill(3) length_partial [of "m @ d"] by metis
    then have q64: "length q < 64" by simp
    then have "blit buf 0 q = Some (q @ drop (length q) buf)" using fill(1) by (simp add: blit_def)
    then have "mg_sha1_update c d = Some (?cc\<lparr>sha1_state := absorb sha1_compress (sha1_state ?cc) (drop ?k d),
        sha1_buffer := q @ drop (length q) buf\<rparr>)"
      using True s b p(1) rest [OF p(2)] q(1) unfolding up by simp
    then show ?thesis
      using q fill p(3) q64 inp(3) by (simp add: sha1_rep_def)
  qed
qed

lemma push_bit_and: "x AND push_bit k y = push_bit k (drop_bit k x AND y)"
  for x y :: u32
  by (rule bit_word_eqI) (auto simp: bit_simps)

lemma count_low_index: "fst (bit_count n) AND 504 = 448 \<longleftrightarrow> n mod 64 = 56"
proof -
  obtain lo hi where b: "bit_count n = (lo, hi)" by fastforce
  have "lo AND 504 = 8 * (drop_bit 3 lo AND 63)"
    using push_bit_and [of lo 3 63] by (simp add: push_bit_eq_mult)
  moreover have "unat (8 * (drop_bit 3 lo AND 63)) = 8 * (n mod 64)"
    using bit_count_index [OF b] by (simp add: unat_word_ariths)
  ultimately have "unat (lo AND 504) = 8 * (n mod 64)" by simp
  moreover have "lo AND 504 = 448 \<longleftrightarrow> unat (lo AND 504) = unat (448 :: u32)" by (simp only: word_inject)
  ultimately show ?thesis by (simp add: b)
qed

lemma pad_rep:
  assumes "sha1_rep c m" "(length m + k) mod 64 = 56" "\<forall>j < k. (length m + j) mod 64 \<noteq> 56" "k < fuel"
  shows "\<exists>c'. sha1_pad fuel c = Some c' \<and> sha1_rep c' (m @ replicate k 0)"
  using assms
proof (induction k arbitrary: c m fuel)
  case 0
  obtain f where "fuel = Suc f" using "0.prems"(4) by (cases fuel) auto
  moreover have "fst (sha1_count c) AND 504 = 448"
    using 0 count_low_index [of "length m"] by (simp add: sha1_rep_def)
  ultimately show ?case using "0.prems"(1) by simp
next
  case (Suc k)
  obtain f where f: "fuel = Suc f" using Suc.prems(4) by (cases fuel) auto
  have "fst (sha1_count c) AND 504 \<noteq> 448"
    using Suc.prems(1) spec [OF Suc.prems(3), of 0] count_low_index [of "length m"]
    by (simp add: sha1_rep_def)
  moreover obtain c1 where c1: "mg_sha1_update c [0] = Some c1" "sha1_rep c1 (m @ [0])"
    using sha1_update_rep [OF Suc.prems(1), of "[0]"] by blast
  moreover have "\<exists>c'. sha1_pad f c1 = Some c' \<and> sha1_rep c' ((m @ [0]) @ replicate k 0)"
  proof (rule Suc.IH [OF c1(2)])
    show "(length (m @ [0]) + k) mod 64 = 56" using Suc.prems(2) by simp
    show "\<forall>j < k. (length (m @ [0]) + j) mod 64 \<noteq> 56"
    proof (intro allI impI)
      fix j assume "j < k"
      then show "(length (m @ [0]) + j) mod 64 \<noteq> 56" using spec [OF Suc.prems(3), of "Suc j"] by simp
    qed
    show "k < f" using Suc.prems(4) f by simp
  qed
  ultimately show ?case using f by (simp add: replicate_app_Cons_same)
qed

lemma pad_count:
  fixes n :: nat
  defines "k \<equiv> (119 - n mod 64) mod 64"
  shows "(n + 1 + k) mod 64 = 56" "\<forall>j < k. (n + 1 + j) mod 64 \<noteq> 56" "k < 65"
proof -
  have n: "(n + 1 + j) mod 64 = (n mod 64 + 1 + j) mod 64" for j by (metis add.assoc mod_add_left_eq)
  have "r < 64 \<Longrightarrow> (r + 1 + (119 - r) mod 64) mod 64 = 56 \<and> (\<forall>j < (119 - r) mod 64. (r + 1 + j) mod 64 \<noteq> 56)" for r :: nat
  proof (cases "r \<le> 55")
    case True
    then have "119 - r = (55 - r) + 64" by simp
    then have "(119 - r) mod 64 = 55 - r" by (simp only: mod_add_self2) simp
    then show ?thesis using True by auto
  next
    case False
    then have "(119 - r) mod 64 = 119 - r" by simp
    moreover assume "r < 64"
    moreover have "(r + 1 + j) mod 64 \<noteq> 56" if "j < 119 - r" for j
      using that False \<open>r < 64\<close> by (cases "r + 1 + j < 64") (simp_all add: le_mod_geq)
    moreover have "(r + 1 + (119 - r)) = 56 + 64" using False \<open>r < 64\<close> by simp
    ultimately show ?thesis by (simp only: mod_add_self2) simp
  qed
  from this [of "n mod 64"] show "(n + 1 + k) mod 64 = 56" "\<forall>j < k. (n + 1 + j) mod 64 \<noteq> 56" "k < 65"
    unfolding n k_def by (simp_all add: less_Suc_eq_le order.strict_implies_order)
qed

lemma sha1_final_rep:
  assumes "sha1_rep c m"
  shows "mg_sha1_final c = Some (sha1 m)"
proof -
  let ?n = "length m"
  let ?z = "replicate ((119 - ?n mod 64) mod 64) (0 :: u8)"
  let ?f = "be32 (snd (sha1_count c)) @ be32 (fst (sha1_count c))"
  obtain c1 where c1: "mg_sha1_update c [0x80] = Some c1" "sha1_rep c1 (m @ [0x80])"
    using sha1_update_rep [OF assms] by blast
  obtain c2 where c2: "sha1_pad 65 c1 = Some c2" "sha1_rep c2 ((m @ [0x80]) @ ?z)"
    using pad_rep [OF c1(2), of "(119 - ?n mod 64) mod 64" 65] pad_count [of ?n] by auto
  obtain c3 where c3: "mg_sha1_update c2 ?f = Some c3" "sha1_rep c3 (((m @ [0x80]) @ ?z) @ ?f)"
    using sha1_update_rep [OF c2(2)] by blast
  have "((m @ [0x80]) @ ?z) @ ?f = m @ sha1_padding ?n"
    using assms by (simp add: sha1_padding_def sha1_rep_def)
  then have "sha1_state c3 = absorb sha1_compress sha1_iv (m @ sha1_padding ?n)"
    using c3(2) by (simp add: sha1_rep_def)
  then show ?thesis
    by (simp add: mg_sha1_final_def c1(1) c2(1) c3(1) sha1_def split: prod.split)
qed

definition sha1_start :: "mg_sha1_ctx \<Rightarrow> bool" where
  "sha1_start c \<longleftrightarrow> (\<exists>mem. length mem = 64 \<and> c = mg_sha1_init mem)"

interpretation sha1: digest sha1_start mg_sha1_update mg_sha1_final sha1_rep sha1 "\<lambda>d. True"
  using sha1_update_rep sha1_final_rep
  by unfold_locales (auto simp: sha1_start_def sha1_rep_def mg_sha1_init_def bit_count_def)

text \<open>
  C18.  SHA-1 with memory safety and termination of its padding loop: hashing a message handed over
  in any pieces yields the FIPS 180 digest of their concatenation, where the reference expands the
  schedule to 80 words and loops, and the code works in a ring of 16 words with unrolled rounds.
\<close>

theorem mg_sha1_correct:
  assumes "length mem = 64"
  shows "(do { c \<leftarrow> sha1.updates (mg_sha1_init mem) ds; mg_sha1_final c }) = Some (sha1 (concat ds))"
  using assms by (intro sha1.digest_pieces) (auto simp: sha1_start_def)

theorem mg_sha1_correct_witness:
  "(do { c \<leftarrow> sha1.updates (mg_sha1_init (replicate 64 0)) [bs ''a'', bs ''bc'']; mg_sha1_final c }) = Some (sha1 (bs ''abc''))"
  using mg_sha1_correct [of "replicate 64 0" "[bs ''a'', bs ''bc'']"] by (simp del: sha1.updates.simps)

end
