(* ===== verification/Mg_Mqtt.thy ===== *)
theory Mg_Mqtt
  imports Stream_Reader Mg_Sha1 Mg_Util
begin

text \<open>
  MQTT 3.1.1 and 5 (\<open>src/mongoose.c\<close>, \<open>mqtt.c\<close>): the fixed header and its variable-length sizes,
  the properties of version 5, the packets a client sends, the parser \<open>mg_mqtt_parse\<close> and the event
  handler \<open>mqtt_cb\<close>, which acknowledges what it receives.  The receive and send buffers of a
  connection are their contents, allocation succeeds and the connection is a stream.  Sizes are
  natural numbers where the code uses \<open>size_t\<close>; its casts to \<open>uint32_t\<close> and \<open>uint16_t\<close> are kept.
\<close>

section \<open>Connections and messages\<close>

datatype prop_type = Prop_byte | Prop_string | Prop_string_pair | Prop_binary_data | Prop_variable_int |
  Prop_int | Prop_short

record mqtt_prop =
  prop_id :: u8
  prop_iv :: u32
  prop_key :: bytes
  prop_val :: bytes

record mqtt_opts =
  o_user :: bytes
  o_pass :: bytes
  o_client_id :: bytes
  o_topic :: bytes
  o_message :: bytes
  o_qos :: u8
  o_version :: u8
  o_keepalive :: u16
  o_retain :: bool
  o_clean :: bool
  o_props :: "mqtt_prop list"
  o_will_props :: "mqtt_prop list"

record mqtt_message =
  m_topic :: bytes
  m_data :: bytes
  m_dgram :: bytes
  m_id :: u16
  m_cmd :: u8
  m_qos :: u8
  m_ack :: u8
  m_props_start :: nat
  m_props_size :: nat

datatype mqtt_rc = Mqtt_ok | Mqtt_incomplete | Mqtt_malformed

datatype mqtt_ev = Mqtt_open u8 | Mqtt_msg mqtt_message | Mqtt_cmd mqtt_message

text \<open>The fields of a connection that MQTT uses; \<open>mqtt_id\<close> is in the event manager.\<close>

record mqtt_conn =
  q_recv :: bytes
  q_sent :: bytes
  is_mqtt5 :: bool
  mqtt_id :: u16
  q_closing :: bool
  q_trace :: "mqtt_ev list"

type_synonym mqtt_handler = "mqtt_ev \<Rightarrow> mqtt_conn \<Rightarrow> mqtt_conn"

definition q_send :: "bytes \<Rightarrow> mqtt_conn \<Rightarrow> mqtt_conn" where
  "q_send b c = c\<lparr>q_sent := q_sent c @ b\<rparr>"

definition q_call :: "mqtt_handler \<Rightarrow> mqtt_ev \<Rightarrow> mqtt_conn \<Rightarrow> mqtt_conn" where
  "q_call h ev c = h ev (c\<lparr>q_trace := q_trace c @ [ev]\<rparr>)"

section \<open>Sizes and headers\<close>

text \<open>The loop of \<open>mg_mqtt_send_header\<close>; \<open>k\<close> is the room behind \<open>vlen\<close>.\<close>

fun header_loop :: "nat \<Rightarrow> u32 \<Rightarrow> bytes" where
  "header_loop 0 n = []"
| "header_loop (Suc k) n =
     (let b = ucast (n mod 0x80); n = n div 0x80
      in if n > 0 then (b OR 0x80) # header_loop k n else [b])"

definition mg_mqtt_send_header :: "u8 \<Rightarrow> u8 \<Rightarrow> u32 \<Rightarrow> mqtt_conn \<Rightarrow> mqtt_conn" where
  "mg_mqtt_send_header cmd flags n c = q_send ((push_bit 4 cmd OR flags) # header_loop 4 n) c"

text \<open>An integer is sent as it lies in the memory of a little-endian host.\<close>

definition mg_send_u16 :: "u16 \<Rightarrow> mqtt_conn \<Rightarrow> mqtt_conn" where
  "mg_send_u16 v c = q_send [ucast v, ucast (drop_bit 8 v)] c"

definition mg_send_u32 :: "u32 \<Rightarrow> mqtt_conn \<Rightarrow> mqtt_conn" where
  "mg_send_u32 v c = q_send (le32 v) c"

fun compute_variable_length_size :: "nat \<Rightarrow> nat" where
  "compute_variable_length_size n =
     (if n div 0x80 > 0 then 1 + compute_variable_length_size (n div 0x80) else 1)"

text \<open>\<open>n\<close> bytes of the array \<open>mem\<close> are written.\<close>

fun encode_variable_length :: "bytes \<Rightarrow> nat \<Rightarrow> nat \<Rightarrow> (nat \<times> bytes) option" where
  "encode_variable_length mem n v = do {
     let byte = word_of_nat (v mod 128);
     let v' = v div 128;
     mem \<leftarrow> wr mem n (if v' > 0 then byte OR 0x80 else byte);
     if v' > 0 then encode_variable_length mem (n + 1) v' else Some (n + 1, mem) }"

text \<open>The size of the number at \<open>p\<close>, which has \<open>n\<close> bytes at most, and its value; 0: there is none.\<close>

function varint_loop :: "bytes \<Rightarrow> nat \<Rightarrow> nat \<Rightarrow> u32 \<Rightarrow> nat \<Rightarrow> nat \<Rightarrow> (nat \<times> nat) option" where
  "varint_loop mem p n mult v ofs =
     (if ofs < 4 \<and> ofs < n then do {
        b \<leftarrow> rd mem (p + ofs);
        let v = v + unat (ucast (b AND 0x7f) * mult);
        if b AND 0x80 = 0 then Some (ofs + 1, v) else varint_loop mem p n (mult * 128) v (ofs + 1) }
      else Some (0, v))"
  by pat_completeness auto
termination by (relation "measure (\<lambda>(mem, p, n, mult, v, ofs). 4 - ofs)") auto

definition decode_varint :: "bytes \<Rightarrow> nat \<Rightarrow> nat \<Rightarrow> (nat \<times> nat) option" where
  "decode_varint mem p n = varint_loop mem p n 1 0 0"

declare compute_variable_length_size.simps [simp del] encode_variable_length.simps [simp del]
  varint_loop.simps [simp del]

section \<open>Properties\<close>

definition s_prop_map :: "(u8 \<times> prop_type) list" where
  "s_prop_map =
     [(0x01, Prop_byte), (0x02, Prop_int), (0x03, Prop_string), (0x08, Prop_string),
      (0x09, Prop_binary_data), (0x0B, Prop_variable_int), (0x11, Prop_int), (0x12, Prop_string),
      (0x13, Prop_short), (0x15, Prop_string), (0x16, Prop_binary_data), (0x17, Prop_byte),
      (0x18, Prop_int), (0x19, Prop_byte), (0x1A, Prop_string), (0x1C, Prop_string),
      (0x1F, Prop_string), (0x21, Prop_short), (0x22, Prop_short), (0x23, Prop_short),
      (0x24, Prop_byte), (0x25, Prop_byte), (0x26, Prop_string_pair), (0x27, Prop_int),
      (0x28, Prop_byte), (0x29, Prop_byte), (0x2A, Prop_byte)]"

fun prop_find :: "(u8 \<times> prop_type) list \<Rightarrow> u8 \<Rightarrow> prop_type option" where
  "prop_find [] i = None"
| "prop_find ((j, t) # m) i = (if j = i then Some t else prop_find m i)"

definition mqtt_prop_type_by_id :: "u8 \<Rightarrow> prop_type option" where
  "mqtt_prop_type_by_id i = prop_find s_prop_map i"

text \<open>\<open>(uint32_t) n\<close> of a size.\<close>

definition cast32 :: "nat \<Rightarrow> nat" where
  "cast32 n = n mod 2 ^ 32"

fun get_properties_length :: "mqtt_prop list \<Rightarrow> nat" where
  "get_properties_length [] = 0"
| "get_properties_length (p # ps) =
     (case mqtt_prop_type_by_id (prop_id p) of
        Some Prop_string_pair \<Rightarrow> 1 + cast32 (length (prop_val p) + length (prop_key p) + 2 * 2) + get_properties_length ps
      | Some Prop_string \<Rightarrow> 1 + cast32 (length (prop_val p) + 2) + get_properties_length ps
      | Some Prop_binary_data \<Rightarrow> 1 + cast32 (length (prop_val p) + 2) + get_properties_length ps
      | Some Prop_variable_int \<Rightarrow> 1 + compute_variable_length_size (unat (prop_iv p)) + get_properties_length ps
      | Some Prop_int \<Rightarrow> 1 + 4 + get_properties_length ps
      | Some Prop_short \<Rightarrow> 1 + 2 + get_properties_length ps
      | Some Prop_byte \<Rightarrow> 1 + 1 + get_properties_length ps
      | None \<Rightarrow> 1)"

definition get_props_size :: "mqtt_prop list \<Rightarrow> nat" where
  "get_props_size ps =
     (let n = get_properties_length ps in n + compute_variable_length_size n)"

definition send_string :: "bytes \<Rightarrow> mqtt_conn \<Rightarrow> mqtt_conn" where
  "send_string s c = q_send s (mg_send_u16 (mg_ntohs (word_of_nat (length s))) c)"

text \<open>One property; \<open>mem\<close> is the array \<open>buf_v\<close>.\<close>

definition send_prop :: "mqtt_prop \<Rightarrow> bytes \<Rightarrow> mqtt_conn \<Rightarrow> (bytes \<times> mqtt_conn) option" where
  "send_prop p mem c =
     (let c = q_send [prop_id p] c in
      case mqtt_prop_type_by_id (prop_id p) of
        Some Prop_string_pair \<Rightarrow> Some (mem, send_string (prop_val p) (send_string (prop_key p) c))
      | Some Prop_byte \<Rightarrow> Some (mem, q_send [ucast (prop_iv p)] c)
      | Some Prop_short \<Rightarrow> Some (mem, mg_send_u16 (mg_ntohs (ucast (prop_iv p))) c)
      | Some Prop_int \<Rightarrow> Some (mem, mg_send_u32 (mg_ntohl (prop_iv p)) c)
      | Some Prop_string \<Rightarrow> Some (mem, send_string (prop_val p) c)
      | Some Prop_binary_data \<Rightarrow> Some (mem, send_string (prop_val p) c)
      | Some Prop_variable_int \<Rightarrow> do {
          (n, mem) \<leftarrow> encode_variable_length mem 0 (unat (prop_iv p));
          b \<leftarrow> slice mem 0 n;
          Some (mem, q_send b c) }
      | None \<Rightarrow> Some (mem, c))"

fun send_props :: "mqtt_prop list \<Rightarrow> bytes \<Rightarrow> mqtt_conn \<Rightarrow> mqtt_conn option" where
  "send_props [] mem c = Some c"
| "send_props (p # ps) mem c = do { (mem, c) \<leftarrow> send_prop p mem c; send_props ps mem c }"

definition mg_send_mqtt_properties :: "mqtt_prop list \<Rightarrow> mqtt_conn \<Rightarrow> mqtt_conn option" where
  "mg_send_mqtt_properties ps c = do {
     (n, mem) \<leftarrow> encode_variable_length (replicate 4 0) 0 (get_properties_length ps);
     b \<leftarrow> slice mem 0 n;
     send_props ps (replicate 4 0) (q_send b c) }"

text \<open>The string behind the two bytes of its length.  A string that leaves the memory is no value.\<close>

definition be16_at :: "bytes \<Rightarrow> nat \<Rightarrow> u16 option" where
  "be16_at mem p = do { a \<leftarrow> rd mem p; b \<leftarrow> rd mem (p + 1); Some (push_bit 8 (ucast a) OR ucast b) }"

definition int_at :: "bytes \<Rightarrow> nat \<Rightarrow> u32 option" where
  "int_at mem p = do {
     a \<leftarrow> rd mem p; b \<leftarrow> rd mem (p + 1); c \<leftarrow> rd mem (p + 2); d \<leftarrow> rd mem (p + 3);
     Some (push_bit 24 (ucast a) OR push_bit 16 (ucast b) OR push_bit 8 (ucast c) OR ucast d) }"

definition string_at :: "bytes \<Rightarrow> nat \<Rightarrow> bytes option" where
  "string_at mem p = do { n \<leftarrow> be16_at mem p; slice mem (p + 2) (unat n) }"

text \<open>
  \<open>mem\<close> is the memory from \<open>msg->dgram.ptr\<close> on.  Reading a variable-length integer stores eight bytes
  at the four of \<open>prop->iv\<close>, which clears the low half of \<open>prop->key.ptr\<close>: \<open>wild\<close> is what the string
  reads as from there.
\<close>

definition mg_mqtt_next_prop ::
  "bytes \<Rightarrow> bytes \<Rightarrow> mqtt_message \<Rightarrow> mqtt_prop \<Rightarrow> nat \<Rightarrow> (nat \<times> mqtt_prop) option" where
  "mg_mqtt_next_prop wild mem msg pr ofs = do {
     let i = m_props_start msg + ofs;
     let ende = length (m_dgram msg);
     b \<leftarrow> rd mem i;
     let pr = pr\<lparr>prop_id := b\<rparr>;
     if ofs \<ge> length (m_dgram msg) \<or> ofs \<ge> m_props_start msg + m_props_size msg then Some (0, pr)
     else do {
       let i = i + 1;
       let new_pos = ofs + 1;
       case mqtt_prop_type_by_id (prop_id pr) of
         Some Prop_string_pair \<Rightarrow> do {
           k \<leftarrow> string_at mem i;
           v \<leftarrow> string_at mem (i + 2 + length k);
           Some (new_pos + (2 * 2 + length v + length k), pr\<lparr>prop_key := k, prop_val := v\<rparr>) }
       | Some Prop_byte \<Rightarrow> do {
           b \<leftarrow> rd mem i;
           Some (new_pos + 1, pr\<lparr>prop_iv := ucast b\<rparr>) }
       | Some Prop_short \<Rightarrow> do {
           v \<leftarrow> be16_at mem i;
           Some (new_pos + 2, pr\<lparr>prop_iv := ucast v\<rparr>) }
       | Some Prop_int \<Rightarrow> do {
           v \<leftarrow> int_at mem i;
           Some (new_pos + 4, pr\<lparr>prop_iv := v\<rparr>) }
       | Some Prop_string \<Rightarrow> do {
           v \<leftarrow> string_at mem i;
           Some (new_pos + (2 + length v), pr\<lparr>prop_val := v\<rparr>) }
       | Some Prop_binary_data \<Rightarrow> do {
           v \<leftarrow> string_at mem i;
           Some (new_pos + (2 + length v), pr\<lparr>prop_val := v\<rparr>) }
       | Some Prop_variable_int \<Rightarrow> do {
           (n, v) \<leftarrow> decode_varint mem i (ende - i);
           Some (if n = 0 then 0 else new_pos + n, pr\<lparr>prop_iv := word_of_nat v, prop_key := wild\<rparr>) }
       | None \<Rightarrow> Some (0, pr) } }"

section \<open>Packets of a client\<close>

definition send_props_if5 :: "mqtt_prop list \<Rightarrow> mqtt_conn \<Rightarrow> mqtt_conn option" where
  "send_props_if5 ps c = (if is_mqtt5 c then mg_send_mqtt_properties ps c else Some c)"

text \<open>
  \<open>rnd\<close> are the ten bytes of \<open>mg_random\<close>, used when there is no client identifier.
\<close>

definition login_client_id :: "bytes \<Rightarrow> mqtt_opts \<Rightarrow> bytes option" where
  "login_client_id rnd opts =
     (if length (o_client_id opts) = 0 then do {
        client_id \<leftarrow> mg_hex rnd (replicate 21 0);
        client_id \<leftarrow> wr client_id 20 0;
        Some (cstr client_id) }
      else Some (o_client_id opts))"

definition has_will :: "mqtt_opts \<Rightarrow> bool" where
  "has_will opts \<longleftrightarrow> length (o_topic opts) > 0 \<and> length (o_message opts) > 0"

text \<open>The connection flags and the remaining length, as the sequence of tests adds them up.\<close>

definition login_flags :: "bytes \<Rightarrow> mqtt_opts \<Rightarrow> u8" where
  "login_flags cid opts =
     push_bit 3 (o_qos opts AND 3) OR (if length (o_user opts) > 0 then 0x80 else 0) OR
     (if length (o_pass opts) > 0 then 0x40 else 0) OR (if has_will opts then 0x04 else 0) OR
     (if o_clean opts \<or> length cid = 0 then 0x02 else 0) OR (if o_retain opts then 0x20 else 0)"

definition login_total :: "bool \<Rightarrow> bytes \<Rightarrow> mqtt_opts \<Rightarrow> nat" where
  "login_total v5 cid opts =
     7 + 1 + 2 + 2 + (if length (o_user opts) > 0 then 2 + cast32 (length (o_user opts)) else 0) +
     (if length (o_pass opts) > 0 then 2 + cast32 (length (o_pass opts)) else 0) +
     (if has_will opts then 4 + cast32 (length (o_topic opts)) + cast32 (length (o_message opts)) else 0) +
     cast32 (length cid) +
     (if v5 then get_props_size (o_props opts) + (if has_will opts then get_props_size (o_will_props opts) else 0) else 0)"

definition mg_mqtt_login :: "bytes \<Rightarrow> mqtt_opts \<Rightarrow> mqtt_conn \<Rightarrow> mqtt_conn option" where
  "mg_mqtt_login rnd opts c = do {
     cid \<leftarrow> login_client_id rnd opts;
     let version = (if o_version opts = 0 then 4 else o_version opts);
     let c = c\<lparr>is_mqtt5 := (version = 5)\<rparr>;
     let c = mg_mqtt_send_header 1 0 (word_of_nat (login_total (is_mqtt5 c) cid opts)) c;
     let c = q_send [0, 4, 77, 81, 84, 84, version, login_flags cid opts] c;
     let c = mg_send_u16 (mg_ntohs (o_keepalive opts)) c;
     c \<leftarrow> send_props_if5 (o_props opts) c;
     let c = send_string cid c;
     c \<leftarrow> (if has_will opts then do {
             c \<leftarrow> send_props_if5 (o_will_props opts) c;
             Some (send_string (o_message opts) (send_string (o_topic opts) c)) }
           else Some c);
     let c = (if length (o_user opts) > 0 then send_string (o_user opts) c else c);
     Some (if length (o_pass opts) > 0 then send_string (o_pass opts) c else c) }"

definition next_mqtt_id :: "mqtt_conn \<Rightarrow> mqtt_conn" where
  "next_mqtt_id c =
     (let c = c\<lparr>mqtt_id := mqtt_id c + 1\<rparr>
      in if mqtt_id c = 0 then c\<lparr>mqtt_id := mqtt_id c + 1\<rparr> else c)"

definition mg_mqtt_pub :: "mqtt_opts \<Rightarrow> mqtt_conn \<Rightarrow> mqtt_conn option" where
  "mg_mqtt_pub opts c = do {
     let flags = push_bit 1 (o_qos opts AND 3) OR (if o_retain opts then 1 else 0);
     let n = 2 + length (o_topic opts) + length (o_message opts);
     let n = (if o_qos opts > 0 then n + 2 else n);
     let n = (if is_mqtt5 c then n + get_props_size (o_props opts) else n);
     let c = mg_mqtt_send_header 3 flags (word_of_nat n) c;
     let c = send_string (o_topic opts) c;
     let c = (if o_qos opts > 0
              then let c = next_mqtt_id c in mg_send_u16 (mg_ntohs (mqtt_id c)) c else c);
     c \<leftarrow> send_props_if5 (o_props opts) c;
     Some (q_send (o_message opts) c) }"

definition mg_mqtt_sub :: "mqtt_opts \<Rightarrow> mqtt_conn \<Rightarrow> mqtt_conn option" where
  "mg_mqtt_sub opts c = do {
     let qos = o_qos opts AND 3;
     let plen = (if is_mqtt5 c then get_props_size (o_props opts) else 0);
     let n = 2 + length (o_topic opts) + 2 + 1 + plen;
     let c = mg_mqtt_send_header 8 2 (word_of_nat n) c;
     let c = next_mqtt_id c;
     let c = mg_send_u16 (mg_ntohs (mqtt_id c)) c;
     c \<leftarrow> send_props_if5 (o_props opts) c;
     let c = send_string (o_topic opts) c;
     Some (q_send [qos] c) }"

definition mg_mqtt_ping :: "mqtt_conn \<Rightarrow> mqtt_conn" where
  "mg_mqtt_ping c = mg_mqtt_send_header 12 0 0 c"

definition mg_mqtt_pong :: "mqtt_conn \<Rightarrow> mqtt_conn" where
  "mg_mqtt_pong c = mg_mqtt_send_header 13 0 0 c"

definition mg_mqtt_disconnect :: "mqtt_opts \<Rightarrow> mqtt_conn \<Rightarrow> mqtt_conn option" where
  "mg_mqtt_disconnect opts c =
     (let n = (if is_mqtt5 c then 1 + get_props_size (o_props opts) else 0);
          c = mg_mqtt_send_header 14 0 (word_of_nat n) c
      in if is_mqtt5 c then mg_send_mqtt_properties (o_props opts) (q_send [0] c) else Some c)"

text \<open>\<open>mg_mqtt_connect\<close> on the connection that \<open>mg_connect\<close> returned.\<close>

definition empty_opts :: mqtt_opts where
  "empty_opts = \<lparr>o_user = [], o_pass = [], o_client_id = [], o_topic = [], o_message = [], o_qos = 0, o_version = 0,
     o_keepalive = 0, o_retain = False, o_clean = False, o_props = [], o_will_props = []\<rparr>"

definition mg_mqtt_connect :: "bytes \<Rightarrow> mqtt_opts option \<Rightarrow> mqtt_conn option \<Rightarrow> mqtt_conn option option" where
  "mg_mqtt_connect rnd opts c =
     (case c of
        None \<Rightarrow> Some None
      | Some c \<Rightarrow> do {
          c \<leftarrow> mg_mqtt_login rnd (case opts of None \<Rightarrow> empty_opts | Some opts \<Rightarrow> opts) c;
          Some (Some c) })"

section \<open>The parser\<close>

text \<open>
  The remaining length.  The result says whether it is malformed and has the position behind it, its
  value and the last byte read.
\<close>

function length_loop :: "bytes \<Rightarrow> nat \<Rightarrow> nat \<Rightarrow> nat \<Rightarrow> u8 \<Rightarrow> bool \<times> nat \<times> nat \<times> u8" where
  "length_loop mem p n len_len lc =
     (if p < length mem then
        let lc = mem ! p;
            p = p + 1;
            n = n + push_bit (7 * len_len) (unat (lc AND 0x7f));
            len_len = len_len + 1
        in if lc AND 0x80 = 0 then (False, p, n, lc)
           else if len_len \<ge> 4 then (True, p, n, lc)
           else length_loop mem p n len_len lc
      else (False, p, n, lc))"
  by pat_completeness auto
termination by (relation "measure (\<lambda>(mem, p, n, len_len, lc). length mem - p)") auto

declare length_loop.simps [simp del]

definition parse_publish_props ::
  "bytes \<Rightarrow> nat \<Rightarrow> nat \<Rightarrow> nat \<Rightarrow> mqtt_message \<Rightarrow> (bool \<times> nat \<times> mqtt_message) option" where
  "parse_publish_props buf version p ende m =
     (if version = 5 \<and> p + 2 < ende then do {
        (len_len, v) \<leftarrow> decode_varint buf p (ende - p);
        let m = m\<lparr>m_props_size := v\<rparr>;
        Some (if len_len = 0 then (False, p, m)
              else (True, p + (len_len + v), m\<lparr>m_props_start := p + len_len\<rparr>)) }
      else Some (True, p, m))"

text \<open>
  The body of a \<open>PUBLISH\<close> between \<open>p\<close> and \<open>ende\<close>.  A topic that leaves the packet is cut at the end of
  the buffer: the message is malformed then and nobody reads it.
\<close>

definition parse_publish :: "bytes \<Rightarrow> nat \<Rightarrow> nat \<Rightarrow> nat \<Rightarrow> mqtt_message \<Rightarrow> (mqtt_rc \<times> mqtt_message) option" where
  "parse_publish buf version p ende m =
     (if p + 2 > ende then Some (Mqtt_malformed, m)
      else do {
        n \<leftarrow> be16_at buf p;
        let m = m\<lparr>m_topic := span buf (p + 2) (unat n)\<rparr>;
        let p = p + 2 + unat n;
        if p > ende then Some (Mqtt_malformed, m)
        else if m_qos m > 0 \<and> p + 2 > ende then Some (Mqtt_malformed, m)
        else do {
          (p, m) \<leftarrow> (if m_qos m > 0 then do { i \<leftarrow> be16_at buf p; Some (p + 2, m\<lparr>m_id := i\<rparr>) }
                    else Some (p, m));
          if p > ende then Some (Mqtt_malformed, m)
          else do {
            (ok, p, m) \<leftarrow> parse_publish_props buf version p ende m;
            if \<not> ok \<or> p > ende then Some (Mqtt_malformed, m)
            else Some (Mqtt_ok, m\<lparr>m_data := span buf p (ende - p)\<rparr>) } } })"

definition parse_body :: "bytes \<Rightarrow> nat \<Rightarrow> nat \<Rightarrow> nat \<Rightarrow> mqtt_message \<Rightarrow> (mqtt_rc \<times> mqtt_message) option" where
  "parse_body buf version p ende m =
     (if m_cmd m = 2 then
        if ende - p < 2 then Some (Mqtt_malformed, m)
        else do { a \<leftarrow> rd buf (p + 1); Some (Mqtt_ok, m\<lparr>m_ack := a\<rparr>) }
      else if m_cmd m \<in> {4, 5, 6, 7, 8, 9, 10, 11} then
        if p + 2 > ende then Some (Mqtt_malformed, m)
        else do { i \<leftarrow> be16_at buf p; Some (Mqtt_ok, m\<lparr>m_id := i\<rparr>) }
      else if m_cmd m = 3 then parse_publish buf version p ende m
      else Some (Mqtt_ok, m))"

definition mg_mqtt_parse :: "bytes \<Rightarrow> nat \<Rightarrow> (mqtt_rc \<times> mqtt_message) option" where
  "mg_mqtt_parse buf version =
     (let m = \<lparr>m_topic = [], m_data = [], m_dgram = [], m_id = 0, m_cmd = 0, m_qos = 0, m_ack = 0,
               m_props_start = 0, m_props_size = 0\<rparr> in
      if length buf < 2 then Some (Mqtt_incomplete, m)
      else do {
        b \<leftarrow> rd buf 0;
        let m = m\<lparr>m_cmd := drop_bit 4 b, m_qos := drop_bit 1 b AND 3\<rparr>;
        let (malformed, p, n, lc) = length_loop buf 1 0 0 0;
        let ende = p + n;
        if malformed then Some (Mqtt_malformed, m)
        else if lc AND 0x80 \<noteq> 0 \<or> ende > length buf then Some (Mqtt_incomplete, m)
        else parse_body buf version p ende (m\<lparr>m_dgram := take ende buf\<rparr>) })"

section \<open>The event handler\<close>

text \<open>The acknowledgement \<open>cmd\<close> of the packet \<open>i\<close>; \<open>zeros\<close> is sent behind it.\<close>

definition send_ack :: "u8 \<Rightarrow> u8 \<Rightarrow> u32 \<Rightarrow> u16 \<Rightarrow> mqtt_conn \<Rightarrow> mqtt_conn" where
  "send_ack cmd flags remaining i c =
     (let i = mg_ntohs i; c = mg_mqtt_send_header cmd flags remaining c
      in q_send [ucast i, ucast (drop_bit 8 i)] c)"

definition mqtt_dispatch :: "mqtt_handler \<Rightarrow> mqtt_message \<Rightarrow> mqtt_conn \<Rightarrow> mqtt_conn" where
  "mqtt_dispatch h mm c =
     (if m_cmd mm = 2 then
        let c = q_call h (Mqtt_open (m_ack mm)) c
        in if m_ack mm = 0 then c else c\<lparr>q_closing := True\<rparr>
      else if m_cmd mm = 3 then
        let c = (if m_qos mm > 0 then
                   let c = send_ack (if m_qos mm = 2 then 5 else 4) 0 (if is_mqtt5 c then 2 + 2 else 2) (m_id mm) c
                   in if is_mqtt5 c then q_send [0, 0] c else c
                 else c)
        in q_call h (Mqtt_msg mm) c
      else if m_cmd mm = 5 then send_ack 6 2 2 (m_id mm) c
      else if m_cmd mm = 6 then send_ack 7 0 2 (m_id mm) c
      else c)"

text \<open>One round of the loop and whether there is another.\<close>

definition mqtt_round :: "mqtt_handler \<Rightarrow> mqtt_conn \<Rightarrow> (bool \<times> mqtt_conn) option" where
  "mqtt_round h c = do {
     (rc, mm) \<leftarrow> mg_mqtt_parse (q_recv c) (if is_mqtt5 c then 5 else 4);
     Some (case rc of
        Mqtt_malformed \<Rightarrow> (False, c\<lparr>q_closing := True\<rparr>)
      | Mqtt_ok \<Rightarrow>
          let c = mqtt_dispatch h mm c;
              c = q_call h (Mqtt_cmd mm) c
          in (True, c\<lparr>q_recv := drop (length (m_dgram mm)) (q_recv c)\<rparr>)
      | Mqtt_incomplete \<Rightarrow> (False, c)) }"

text \<open>\<open>mqtt_cb\<close> on \<open>MG_EV_READ\<close>, the only event it handles.\<close>

partial_function (option) mqtt_cb :: "mqtt_handler \<Rightarrow> mqtt_conn \<Rightarrow> mqtt_conn option" where
  "mqtt_cb h c = do {
     (more, c) \<leftarrow> mqtt_round h c;
     if more then mqtt_cb h c else Some c }"

section \<open>Variable-length integers\<close>

fun varlen :: "nat \<Rightarrow> bytes" where
  "varlen n = (if n < 128 then [word_of_nat n] else (word_of_nat (n mod 128) OR 0x80) # varlen (n div 128))"

declare varlen.simps [simp del]

lemma varlen_small: "n < 128 \<Longrightarrow> varlen n = [word_of_nat n]"
  by (simp add: varlen.simps)

lemma varlen_big: "\<not> n < 128 \<Longrightarrow> varlen n = (word_of_nat (n mod 128) OR 0x80) # varlen (n div 128)"
  by (simp add: varlen.simps)

lemma varlen_nonempty [simp]: "varlen n \<noteq> []" "0 < length (varlen n)"
  by (subst varlen.simps; simp)+

lemma length_varlen: "n < 128 ^ Suc k \<Longrightarrow> length (varlen n) \<le> Suc k"
proof (induction k arbitrary: n)
  case (Suc k)
  have "n div 128 < 128 ^ Suc k" using Suc.prems by (simp add: less_mult_imp_div_less)
  then show ?case using Suc.IH [of "n div 128"] by (cases "n < 128") (simp_all add: varlen_small varlen_big)
qed (simp add: varlen_small)

text \<open>The two kinds of bytes of such a number.\<close>

lemma varlen_last_byte:
  assumes "n < 128"
  shows "(word_of_nat n :: u8) AND 0x80 = 0" "unat ((word_of_nat n :: u8) AND 0x7f) = n"
proof -
  have n: "unat (word_of_nat n :: u8) = n" using assms by (intro unat_small) simp
  have b: "\<not> bit (word_of_nat n :: u8) 7"
    using assms bit_unsigned_iff [of "word_of_nat n :: u8" 7, where ?'a = nat] by (simp add: n bit_iff_odd)
  show "(word_of_nat n :: u8) AND 0x80 = 0" by (rule byte_eqI) (use b in \<open>auto simp: bit_simps\<close>)
  have "(word_of_nat n :: u8) AND 0x7f = word_of_nat n" by (rule byte_eqI) (use b in \<open>auto simp: bit_simps\<close>)
  then show "unat ((word_of_nat n :: u8) AND 0x7f) = n" by (simp add: n)
qed

lemma varlen_more_byte:
  assumes "n < 128"
  shows "(word_of_nat n OR 0x80 :: u8) AND 0x80 \<noteq> 0" "unat ((word_of_nat n OR 0x80 :: u8) AND 0x7f) = n"
proof -
  have "bit ((word_of_nat n OR 0x80 :: u8) AND 0x80) 7" by (simp add: bit_simps)
  then show "(word_of_nat n OR 0x80 :: u8) AND 0x80 \<noteq> 0" by auto
  have "(word_of_nat n OR 0x80 :: u8) AND 0x7f = word_of_nat n AND 0x7f" by (rule byte_eqI) (auto simp: bit_simps)
  then show "unat ((word_of_nat n OR 0x80 :: u8) AND 0x7f) = n" by (simp add: varlen_last_byte [OF assms])
qed

lemma header_loop_step:
  assumes "n < 2 ^ 32"
  shows "header_loop (Suc k) (word_of_nat n) =
    (if n < 128 then [word_of_nat n] else (word_of_nat (n mod 128) OR 0x80) # header_loop k (word_of_nat (n div 128)))"
proof -
  have u: "unat (word_of_nat n :: u32) = n" using assms by (intro unat_small) simp
  have d: "word_of_nat n div 0x80 = (word_of_nat (n div 128) :: u32)"
    by (simp add: word_inject(3) [symmetric] unat_div u) (use assms in \<open>simp add: unat_small\<close>)
  have m: "ucast (word_of_nat n mod 0x80 :: u32) = (word_of_nat (n mod 128) :: u8)"
    by (simp add: word_inject(3) [symmetric] unsigned_ucast_eq unat_mod u unat_of_nat take_bit_eq_mod mod_mod_cancel)
  have "(word_of_nat n div 0x80 > (0 :: u32)) = (\<not> n < 128)"
    by (simp add: word_less_nat_alt unat_div u div_greater_zero_iff not_less)
  then show ?thesis by (simp add: m d Let_def)
qed

lemma header_loop_varlen:
  "n < 128 ^ Suc k \<Longrightarrow> n < 2 ^ 32 \<Longrightarrow> header_loop (Suc k) (word_of_nat n) = varlen n"
proof (induction k arbitrary: n)
  case (Suc k)
  have "n div 128 < 128 ^ Suc k" using Suc.prems by (simp add: less_mult_imp_div_less)
  moreover have "n div 128 < 2 ^ 32" using Suc.prems by simp
  ultimately show ?case using Suc.IH [of "n div 128"] header_loop_step [OF Suc.prems(2), of "Suc k"]
    by (cases "n < 128") (simp_all add: varlen_small varlen_big del: header_loop.simps)
qed (use header_loop_step in \<open>simp add: varlen_small\<close>)

lemma size_varlen: "compute_variable_length_size n = length (varlen n)"
proof (induction n rule: varlen.induct)
  case (1 n)
  then show ?case by (cases "n < 128") (simp_all add: compute_variable_length_size.simps [of n] varlen_small varlen_big)
qed

lemma encode_varlen:
  "length (varlen v) \<le> length mem - n \<Longrightarrow> n \<le> length mem \<Longrightarrow>
   encode_variable_length mem n v =
     Some (n + length (varlen v), take n mem @ varlen v @ drop (n + length (varlen v)) mem)"
proof (induction v arbitrary: mem n rule: varlen.induct)
  case (1 v)
  show ?case
  proof (cases "v < 128")
    case True
    then show ?thesis using 1(2,3)
      by (simp add: encode_variable_length.simps [of mem n v] varlen_small upd_conv_take_nth_drop)
  next
    case False
    note p = 1(2) [unfolded varlen_big [OF False]]
    let ?m = "mem[n := word_of_nat (v mod 128) OR 0x80]"
    have "n < length mem" using p by (cases "n < length mem") auto
    moreover have "encode_variable_length ?m (n + 1) (v div 128) =
        Some (n + 1 + length (varlen (v div 128)),
              take (n + 1) ?m @ varlen (v div 128) @ drop (n + 1 + length (varlen (v div 128))) ?m)"
      using p by (intro 1(1) [OF False]) auto
    moreover have "0 < v div 128" using False by (simp add: div_greater_zero_iff)
    ultimately show ?thesis using False
      by (simp add: encode_variable_length.simps [of mem n v] varlen_big take_Suc_update Let_def)
  qed
qed

lemma encode_varlen_4:
  "v < 2 ^ 28 \<Longrightarrow> length mem = 4 \<Longrightarrow>
   \<exists>mem'. encode_variable_length mem 0 v = Some (length (varlen v), mem') \<and> length mem' = 4 \<and>
     slice mem' 0 (length (varlen v)) = Some (varlen v)"
  using length_varlen [of v 3] by (subst encode_varlen) (simp_all add: slice_def)

lemma varint_term:
  assumes "unat (b :: u8) * unat (mult :: u32) < 2 ^ 32"
  shows "unat (ucast b * mult) = unat b * unat mult"
proof -
  have "unat (ucast b :: u32) = unat b"
    using order.strict_trans [OF unat_u8_less [of b], of "2 ^ 32"] by (simp add: unsigned_ucast_eq take_bit_nat_eq_self)
  then show ?thesis using assms unat_mult_lem [of "ucast b :: u32" mult] by simp
qed

lemma times_div_mod: "m * 128 * (v div 128) + v mod 128 * m = m * (v :: nat)"
proof -
  have "m * v = m * (128 * (v div 128) + v mod 128)" by simp
  then show ?thesis by (simp only: distrib_left ac_simps)
qed

lemma varint_loop_varlen:
  "ofs + length (varlen v) \<le> 4 \<Longrightarrow> ofs + length (varlen v) \<le> n \<Longrightarrow> p + ofs = length pre \<Longrightarrow>
   unat mult * v < 2 ^ 32 \<Longrightarrow>
   varint_loop (pre @ varlen v @ rest) p n mult acc ofs = Some (ofs + length (varlen v), acc + unat mult * v)"
proof (induction v arbitrary: pre mult acc ofs rule: varlen.induct)
  case (1 v)
  show ?case
  proof (cases "v < 128")
    case True
    then have "rd (pre @ varlen v @ rest) (p + ofs) = Some (word_of_nat v)" using 1(4) by (simp add: varlen_small nth_append)
    moreover have "unat (ucast ((word_of_nat v :: u8) AND 0x7f) * mult) = v * unat mult"
      using varint_term [of "word_of_nat v AND 0x7f" mult] 1(5) by (simp add: varlen_last_byte [OF True] mult.commute)
    ultimately show ?thesis using 1(2,3) True
      by (simp add: varint_loop.simps [of _ _ _ _ _ ofs] varlen_small varlen_last_byte [OF True] Let_def mult.commute)
  next
    case False
    let ?b = "word_of_nat (v mod 128) OR 0x80 :: u8"
    have b: "v mod 128 < 128" by simp
    have 0: "rd (pre @ varlen v @ rest) (p + ofs) = Some ?b" using 1(4) False by (simp add: varlen_big nth_append)
    have "v mod 128 * unat mult \<le> v * unat mult" by (rule mult_right_mono) simp_all
    also have "v * unat mult < 2 ^ 32" using 1(5) by (simp add: mult.commute)
    finally have t: "unat (ucast (?b AND 0x7f) * mult) = (v mod 128) * unat mult"
      using varint_term [of "?b AND 0x7f" mult] by (simp add: varlen_more_byte [OF b])
    have "unat mult * 128 < 2 ^ 32"
      using False by (intro le_less_trans [OF mult_left_mono 1(5)]) simp_all
    then have m: "unat (mult * 128) = unat mult * 128"
      using unat_mult_lem [of mult 128] by simp
    have s: "unat mult * 128 * (v div 128) + v mod 128 * unat mult = unat mult * v"
      by (rule times_div_mod)
    then have q: "unat mult * 128 * (v div 128) < 2 ^ 32" using 1(5) by linarith
    have "varint_loop ((pre @ [?b]) @ varlen (v div 128) @ rest) p n (mult * 128) (acc + (v mod 128) * unat mult) (ofs + 1) =
      Some (ofs + 1 + length (varlen (v div 128)), acc + (v mod 128) * unat mult + unat (mult * 128) * (v div 128))"
      using 1(2-4) False q by (intro 1(1) [OF False]) (simp_all add: varlen_big m)
    then show ?thesis using 1(2,3) False 0 s
      by (simp add: varint_loop.simps [of _ _ _ mult acc ofs] varlen_big [of v] varlen_more_byte [OF b] Let_def t m)
  qed
qed

lemma decode_varint_varlen:
  assumes "v < 2 ^ 28" "length (varlen v) \<le> n" "p = length pre"
  shows "decode_varint (pre @ varlen v @ rest) p n = Some (length (varlen v), v)"
  using varint_loop_varlen [of 0 v n p pre 1 rest 0] length_varlen [of v 3] assms
  by (simp add: decode_varint_def)

lemma length_loop_more:
  assumes "d < 128" "ll < 3"
  shows "length_loop (pre @ (word_of_nat d OR 0x80) # r) (length pre) n ll lc =
    length_loop ((pre @ [word_of_nat d OR 0x80]) @ r) (length pre + 1) (n + d * 2 ^ (7 * ll)) (ll + 1) (word_of_nat d OR 0x80)"
  using assms(2) varlen_more_byte [OF assms(1)] by (subst length_loop.simps) (simp add: push_bit_eq_mult Let_def)

lemma length_loop_varlen:
  "ll + length (varlen v) \<le> 4 \<Longrightarrow> p = length pre \<Longrightarrow>
   \<exists>b. b AND 0x80 = 0 \<and>
     length_loop (pre @ varlen v @ rest) p n ll lc = (False, p + length (varlen v), n + v * 2 ^ (7 * ll), b)"
proof (induction v arbitrary: pre p n ll lc rule: varlen.induct)
  case (1 v)
  show ?case
  proof (cases "v < 128")
    case True
    then show ?thesis using 1(3)
      by (subst length_loop.simps) (simp add: varlen_small varlen_last_byte [OF True] Let_def push_bit_eq_mult nth_append)
  next
    case False
    let ?b = "word_of_nat (v mod 128) OR 0x80 :: u8"
    have b: "v mod 128 < 128" by simp
    have "length (varlen (v div 128)) \<ge> 1" by (simp add: Suc_leI)
    then have l: "ll < 3" using 1(2) False by (simp add: varlen_big)
    obtain lc' where lc: "lc' AND 0x80 = 0"
      "length_loop ((pre @ [?b]) @ varlen (v div 128) @ rest) (p + 1) (n + v mod 128 * 2 ^ (7 * ll)) (ll + 1) ?b =
        (False, p + 1 + length (varlen (v div 128)), n + v mod 128 * 2 ^ (7 * ll) + (v div 128) * 2 ^ (7 * (ll + 1)), lc')"
      using 1(1) [OF False, of "ll + 1" "p + 1" "pre @ [?b]" "n + v mod 128 * 2 ^ (7 * ll)" ?b] 1(2,3) False
      by (auto simp: varlen_big)
    have e: "v mod 128 * 2 ^ (7 * ll) + (v div 128) * 2 ^ (7 * (ll + 1)) = v * 2 ^ (7 * ll)"
      using times_div_mod [of "2 ^ (7 * ll)" v] by (simp add: power_add mult.commute mult.left_commute)
    show ?thesis using length_loop_more [OF b l, of pre "varlen (v div 128) @ rest" n lc] 1(3) False lc e
      by (intro exI [of _ lc']) (simp add: varlen_big [of v])
  qed
qed

lemma length_loop_part:
  "ll + length (varlen v) \<le> 4 \<Longrightarrow> p = length pre \<Longrightarrow> k < length (varlen v) \<Longrightarrow>
   \<exists>p' n' b. (if k = 0 then b = lc else b AND 0x80 \<noteq> 0) \<and>
     length_loop (pre @ take k (varlen v)) p n ll lc = (False, p', n', b)"
proof (induction v arbitrary: pre p n ll lc k rule: varlen.induct)
  case (1 v)
  show ?case
  proof (cases k)
    case 0
    then show ?thesis using 1(3) by (subst length_loop.simps) simp
  next
    case (Suc j)
    then have False: "\<not> v < 128" using 1(4) by (auto simp: varlen_small)
    let ?b = "word_of_nat (v mod 128) OR 0x80 :: u8"
    have b: "v mod 128 < 128" by simp
    have l: "ll < 3" using 1(2,4) Suc False by (auto simp: varlen_big)
    obtain p' n' lc' where lc: "if j = 0 then lc' = ?b else lc' AND 0x80 \<noteq> 0"
      "length_loop ((pre @ [?b]) @ take j (varlen (v div 128))) (p + 1) (n + v mod 128 * 2 ^ (7 * ll)) (ll + 1) ?b =
        (False, p', n', lc')"
      using 1(1) [OF False, of "ll + 1" "p + 1" "pre @ [?b]" j ?b "n + v mod 128 * 2 ^ (7 * ll)"] 1(2,3,4) False Suc
      by (auto simp: varlen_big)
    then have "lc' AND 0x80 \<noteq> 0" using varlen_more_byte(1) [OF b] by (cases "j = 0") auto
    then show ?thesis
      using length_loop_more [OF b l, of pre "take j (varlen (v div 128))" n lc] 1(3) False lc(2) Suc
      by (simp add: varlen_big [of v])
  qed
qed

end
