(* ===== verification/Mg_Mqtt_Packets.thy ===== *)
theory Mg_Mqtt_Packets
  imports Mg_Mqtt
begin

text \<open>
  The packets of MQTT as a datatype with its encoding, and what the code of \<open>Mg_Mqtt\<close> does on them: the
  parser inverts the encoding, the client operations write it, the handler takes a stream of packets
  apart wherever the network cuts it, and properties are read back one by one.
\<close>

section \<open>The packets of the protocol\<close>

text \<open>
  A packet: its first byte and its parts.  \<open>Acks\<close> are the packets that begin with an identifier, the
  properties are those of version 5, as bytes.
\<close>

datatype mqtt_packet =
    Connack u8 u8 u8 bytes
  | Publish u8 bytes u16 bytes bytes
  | Acks u8 u16 bytes
  | Control u8 bytes

definition pk_qos :: "u8 \<Rightarrow> u8" where
  "pk_qos b = drop_bit 1 b AND 3"

fun pk_first :: "mqtt_packet \<Rightarrow> u8" where
  "pk_first (Connack b _ _ _) = b"
| "pk_first (Publish b _ _ _ _) = b"
| "pk_first (Acks b _ _) = b"
| "pk_first (Control b _) = b"

definition pk_props :: "bool \<Rightarrow> bytes \<Rightarrow> bytes" where
  "pk_props v5 ps = (if v5 then varlen (length ps) @ ps else [])"

definition pk_string :: "bytes \<Rightarrow> bytes" where
  "pk_string s = be16 (word_of_nat (length s)) @ s"

fun pk_body :: "bool \<Rightarrow> mqtt_packet \<Rightarrow> bytes" where
  "pk_body v5 (Connack _ session code extra) = session # code # extra"
| "pk_body v5 (Publish b topic i ps data) =
     pk_string topic @ (if pk_qos b > 0 then be16 i else []) @ pk_props v5 ps @ data"
| "pk_body v5 (Acks _ i extra) = be16 i @ extra"
| "pk_body v5 (Control _ body) = body"

definition pk_enc :: "bool \<Rightarrow> mqtt_packet \<Rightarrow> bytes" where
  "pk_enc v5 k = pk_first k # varlen (length (pk_body v5 k)) @ pk_body v5 k"

fun pk_kind :: "bool \<Rightarrow> mqtt_packet \<Rightarrow> bool" where
  "pk_kind v5 (Connack b _ _ _) = (drop_bit 4 b = 2)"
| "pk_kind v5 (Publish b topic i ps data) =
     (drop_bit 4 b = 3 \<and> length topic < 2 ^ 16 \<and> (v5 \<or> ps = []))"
| "pk_kind v5 (Acks b _ _) = (drop_bit 4 b \<in> {4, 5, 6, 7, 8, 9, 10, 11})"
| "pk_kind v5 (Control b _) = (drop_bit 4 b \<notin> {2, 3, 4, 5, 6, 7, 8, 9, 10, 11})"

definition pk_ok :: "bool \<Rightarrow> mqtt_packet \<Rightarrow> bool" where
  "pk_ok v5 k \<longleftrightarrow> pk_kind v5 k \<and> length (pk_body v5 k) < 2 ^ 28"

text \<open>
  What the parser makes of it.  It looks for the properties of a version-5 \<open>PUBLISH\<close> only when more than
  two bytes follow the topic and the identifier; otherwise all that follows, the length of the
  properties included, becomes the data.
\<close>

definition pk_unread :: "bool \<Rightarrow> bytes \<Rightarrow> bytes \<Rightarrow> bool" where
  "pk_unread v5 ps data \<longleftrightarrow> v5 \<and> length (pk_props v5 ps @ data) \<le> 2"

definition pk_data :: "bool \<Rightarrow> bytes \<Rightarrow> bytes \<Rightarrow> bytes" where
  "pk_data v5 ps data = (if pk_unread v5 ps data then pk_props v5 ps @ data else data)"

definition pk_blank :: "bool \<Rightarrow> mqtt_packet \<Rightarrow> mqtt_message" where
  "pk_blank v5 k = \<lparr>m_topic = [], m_data = [], m_dgram = pk_enc v5 k, m_id = 0, m_cmd = drop_bit 4 (pk_first k),
     m_qos = pk_qos (pk_first k), m_ack = 0, m_props_start = 0, m_props_size = 0\<rparr>"

fun pk_message :: "bool \<Rightarrow> mqtt_packet \<Rightarrow> mqtt_message" where
  "pk_message v5 (Connack b s code extra) = (pk_blank v5 (Connack b s code extra))\<lparr>m_ack := code\<rparr>"
| "pk_message v5 (Publish b topic i ps data) =
     (pk_blank v5 (Publish b topic i ps data))
       \<lparr>m_topic := topic, m_data := pk_data v5 ps data, m_id := (if pk_qos b > 0 then i else 0),
        m_props_start := (if v5 \<and> \<not> pk_unread v5 ps data
          then length (pk_enc v5 (Publish b topic i ps data)) - length (ps @ data) else 0),
        m_props_size := (if pk_unread v5 ps data then 0 else length ps)\<rparr>"
| "pk_message v5 (Acks b i extra) = (pk_blank v5 (Acks b i extra))\<lparr>m_id := i\<rparr>"
| "pk_message v5 (Control b body) = pk_blank v5 (Control b body)"

lemma be16_at_app: "p = length pre \<Longrightarrow> be16_at (pre @ be16 w @ r) p = Some w"
  using unbe16_be16 [of w] by (simp add: be16_at_def be16_def unbe16_def nth_append)

lemma span_at: "p = length pre \<Longrightarrow> n = length x \<Longrightarrow> span (pre @ x @ r) p n = x"
  by (simp add: span_mid)

text \<open>The part of the parser behind the identifier: properties and data.\<close>

lemma parse_props:
  assumes "p = length pre" "buf = pre @ pk_props v5 ps @ data @ rest" "length ps < 2 ^ 28"
    "v5 \<or> ps = []" "ende = p + length (pk_props v5 ps @ data)"
  shows "parse_publish_props buf (if v5 then 5 else 4) p ende m =
     Some (True, ende - length (pk_data v5 ps data),
      m\<lparr>m_props_start := (if v5 \<and> \<not> pk_unread v5 ps data then ende - length (ps @ data) else m_props_start m),
      m_props_size := (if v5 \<and> \<not> pk_unread v5 ps data then length ps else m_props_size m)\<rparr>)"
proof (cases "v5 \<and> \<not> pk_unread v5 ps data")
  case True
  have "decode_varint buf p (ende - p) = Some (length (varlen (length ps)), length ps)"
    unfolding assms(2) using assms(1,3,5) True by (simp add: pk_props_def decode_varint_varlen)
  then show ?thesis using assms True
    by (simp add: parse_publish_props_def pk_props_def pk_data_def pk_unread_def)
qed (use assms in \<open>auto simp: parse_publish_props_def pk_props_def pk_data_def pk_unread_def\<close>)

lemma pk_parse_publish:
  assumes "p = length pre" "buf = pre @ pk_string topic @ (if pk_qos b > 0 then be16 i else []) @ pk_props v5 ps @ data @ rest"
    "ende = length buf - length rest" "length topic < 2 ^ 16" "length ps < 2 ^ 28"
    "v5 \<or> ps = []" "m_qos m = pk_qos b"
  shows "parse_publish buf (if v5 then 5 else 4) p ende m = Some (Mqtt_ok,
    m\<lparr>m_topic := topic, m_data := pk_data v5 ps data, m_id := (if pk_qos b > 0 then i else m_id m),
      m_props_start := (if v5 \<and> \<not> pk_unread v5 ps data then ende - length (ps @ data) else m_props_start m),
      m_props_size := (if v5 \<and> \<not> pk_unread v5 ps data then length ps else m_props_size m)\<rparr>)"
proof -
  let ?q = "pk_qos b > 0" and ?t = "be16 (word_of_nat (length topic)) @ topic"
  let ?i = "if ?q then be16 i else []" and ?r = "pk_props v5 ps @ data"
  have n: "unat (word_of_nat (length topic) :: u16) = length topic" using assms(4) by (intro unat_small) simp
  have t: "be16_at buf p = Some (word_of_nat (length topic))" "span buf (p + 2) (length topic) = topic"
    using assms(1) be16_at_app [of p pre "word_of_nat (length topic)" "topic @ ?i @ ?r @ rest"]
      span_at [of "p + 2" "pre @ be16 (word_of_nat (length topic))" "length topic" topic "?i @ ?r @ rest"]
    by (simp_all add: assms(2) pk_string_def)
  have i: "?q \<Longrightarrow> be16_at buf (p + 2 + length topic) = Some i"
    using assms(1) be16_at_app [of "p + 2 + length topic" "pre @ ?t" i "?r @ rest"] by (simp add: assms(2) pk_string_def)
  have e: "ende = p + 2 + length topic + length ?i + length ?r"
    using assms(1,3) by (simp add: assms(2) pk_string_def)
  let ?d = "pk_data v5 ps data"
  have d: "span buf (ende - length ?d) (length ?d) = ?d"
  proof (cases "pk_unread v5 ps data")
    case True
    then show ?thesis using span_at [of "p + 2 + length topic + length ?i" "pre @ ?t @ ?i" "length ?r" ?r rest] assms(1) e
      by (cases ?q) (simp_all add: assms(2) pk_string_def pk_data_def eval_nat_numeral)
  next
    case False
    then show ?thesis using span_at [of "ende - length data" "pre @ ?t @ ?i @ pk_props v5 ps" "length data" data rest] assms(1) e
      by (simp add: assms(2) pk_string_def pk_data_def)
  qed
  have pr: "parse_publish_props buf (if v5 then 5 else 4) (p + 2 + length topic + length ?i) ende m' =
     Some (True, ende - length ?d,
      m'\<lparr>m_props_start := (if v5 \<and> \<not> pk_unread v5 ps data then ende - length (ps @ data) else m_props_start m'),
      m_props_size := (if v5 \<and> \<not> pk_unread v5 ps data then length ps else m_props_size m')\<rparr>)" for m'
    by (rule parse_props [of _ "pre @ ?t @ ?i" _ _ _ _ rest]) (use assms e in \<open>simp_all add: pk_string_def\<close>)
  define w where "w \<longleftrightarrow> v5 \<and> \<not> pk_unread v5 ps data"
  have "length ?d \<le> ende" using e by (simp add: pk_data_def)
  then show ?thesis
    using t i e d pr [folded w_def] assms(7) n unfolding parse_publish_def w_def [symmetric]
    by (cases ?q; cases w) (simp_all add: Let_def)
qed

lemma pk_enc_nonempty: "pk_enc v5 k \<noteq> []"
  by (simp add: pk_enc_def)

lemma length_props_body: "length ps \<le> length (pk_body v5 (Publish b topic i ps data)) \<or> \<not> v5"
  by (auto simp: pk_props_def)

lemma parse_header:
  assumes "length body < 2 ^ 28"
  shows "\<exists>lc. lc AND 0x80 = 0 \<and>
    length_loop (b # varlen (length body) @ body @ rest) 1 0 0 0 = (False, 1 + length (varlen (length body)), length body, lc)"
  using length_loop_varlen [of 0 "length body" 1 "[b]" "body @ rest" 0 0] length_varlen [of "length body" 3] assms
  by simp

lemma parse_step:
  assumes "2 \<le> length buf" "length_loop buf 1 0 0 0 = (False, p, n, lc)" "lc AND 0x80 = 0" "p + n \<le> length buf"
  shows "mg_mqtt_parse buf version = parse_body buf version p (p + n)
    \<lparr>m_topic = [], m_data = [], m_dgram = take (p + n) buf, m_id = 0, m_cmd = drop_bit 4 (buf ! 0),
     m_qos = drop_bit 1 (buf ! 0) AND 3, m_ack = 0, m_props_start = 0, m_props_size = 0\<rparr>"
proof -
  have "rd buf 0 = Some (buf ! 0)" using assms(1) by (cases buf) simp_all
  then show ?thesis unfolding mg_mqtt_parse_def Let_def using assms by simp
qed

theorem mqtt_parse_packet:
  assumes "pk_ok v5 k"
  shows "mg_mqtt_parse (pk_enc v5 k @ rest) (if v5 then 5 else 4) = Some (Mqtt_ok, pk_message v5 k)"
proof -
  let ?b = "pk_body v5 k" and ?buf = "pk_enc v5 k @ rest"
  let ?p = "1 + length (varlen (length ?b))"
  from assms have l: "length ?b < 2 ^ 28" by (simp add: pk_ok_def)
  obtain lc where lc: "lc AND 0x80 = 0" "length_loop ?buf 1 0 0 0 = (False, ?p, length ?b, lc)"
    using parse_header [OF l, of "pk_first k" rest] by (auto simp: pk_enc_def)
  have ende: "?p + length ?b = length (pk_enc v5 k)" by (simp add: pk_enc_def)
  have 2: "2 \<le> length ?buf" by (cases "varlen (length ?b)") (simp_all add: pk_enc_def)
  have "?p + length ?b \<le> length ?buf" unfolding ende by simp
  from parse_step [OF 2 lc(2,1) this] have parse: "mg_mqtt_parse ?buf (if v5 then 5 else 4) =
      parse_body ?buf (if v5 then 5 else 4) ?p (length (pk_enc v5 k)) (pk_blank v5 k)"
    unfolding ende pk_blank_def pk_qos_def by (simp add: pk_enc_def)
  have i: "be16_at ?buf ?p = Some i" if "?b = be16 i @ x" for i x
    using be16_at_app [of ?p "pk_first k # varlen (length ?b)" i "x @ rest"] that by (simp add: pk_enc_def)
  show ?thesis
  proof (cases k)
    case (Connack b s code extra)
    then show ?thesis using assms ende unfolding parse
      by (simp add: parse_body_def pk_ok_def pk_blank_def pk_enc_def nth_append)
  next
    case (Acks b j extra)
    then show ?thesis using assms ende i [of j extra] unfolding parse
      by (auto simp: parse_body_def pk_ok_def pk_blank_def)
  next
    case (Control b body)
    then show ?thesis using assms unfolding parse
      by (auto simp: parse_body_def pk_ok_def pk_blank_def)
  next
    case (Publish b topic j ps data)
    have "length ps < 2 ^ 28" using assms l length_props_body [of ps v5 b topic j data] Publish
      by (auto simp: pk_ok_def split: if_splits)
    have "parse_publish ?buf (if v5 then 5 else 4) ?p (length (pk_enc v5 k)) (pk_blank v5 k) = Some (Mqtt_ok,
        (pk_blank v5 k)\<lparr>m_topic := topic, m_data := pk_data v5 ps data, m_id := (if pk_qos b > 0 then j else m_id (pk_blank v5 k)),
          m_props_start := (if v5 \<and> \<not> pk_unread v5 ps data then length (pk_enc v5 k) - length (ps @ data)
            else m_props_start (pk_blank v5 k)),
          m_props_size := (if v5 \<and> \<not> pk_unread v5 ps data then length ps else m_props_size (pk_blank v5 k))\<rparr>)"
      by (rule pk_parse_publish [of _ "pk_first k # varlen (length ?b)" _ _ _ _ _ _ _ rest])
        (use assms Publish \<open>length ps < 2 ^ 28\<close> in \<open>auto simp: pk_enc_def pk_ok_def pk_blank_def split: if_splits\<close>)
    then show ?thesis using assms Publish unfolding parse
      by (auto simp: parse_body_def pk_ok_def pk_blank_def split: if_splits)
  qed
qed

theorem mqtt_parse_part:
  assumes "pk_ok v5 k" "n < length (pk_enc v5 k)"
  shows "\<exists>m. mg_mqtt_parse (take n (pk_enc v5 k)) version = Some (Mqtt_incomplete, m)"
proof (cases "n < 2")
  case True
  then have "length (take n (pk_enc v5 k)) < 2" by simp
  then show ?thesis unfolding mg_mqtt_parse_def Let_def by (simp only: if_True) simp
next
  case False
  let ?b = "pk_body v5 k" and ?v = "varlen (length (pk_body v5 k))"
  from assms have l: "length ?b < 2 ^ 28" by (simp add: pk_ok_def)
  then have v: "0 + length ?v \<le> 4" using length_varlen [of "length ?b" 3] by simp
  obtain j where j: "n = Suc j" "j > 0" using False by (cases n) auto
  have w: "\<not> length (take n (pk_enc v5 k)) < 2" "rd (take n (pk_enc v5 k)) 0 = Some (pk_first k)"
    using False assms(2) by (simp_all add: pk_enc_def j)
  show ?thesis
  proof (cases "j < length ?v")
    case True
    from length_loop_part [OF v _ True, of 1 "[pk_first k]" 0 0] j(2)
    obtain p n' b where "b AND 0x80 \<noteq> 0"
      "length_loop (take n (pk_enc v5 k)) 1 0 0 0 = (False, p, n', b)"
      using True by (auto simp: pk_enc_def j)
    then show ?thesis using w by (auto simp: mg_mqtt_parse_def)
  next
    case False
    from length_loop_varlen [OF v, of 1 "[pk_first k]" "take (j - length ?v) ?b" 0 0]
    obtain b where "length_loop (take n (pk_enc v5 k)) 1 0 0 0 = (False, 1 + length ?v, length ?b, b)"
      using False by (auto simp: pk_enc_def j)
    moreover have "1 + length ?v + length ?b > length (take n (pk_enc v5 k))"
      using assms(2) by (simp add: pk_enc_def)
    ultimately show ?thesis using w by (auto simp: mg_mqtt_parse_def)
  qed
qed

section \<open>Streams of packets\<close>

text \<open>The answer to a packet and what the user's handler sees.\<close>

fun pk_answer :: "bool \<Rightarrow> mqtt_packet \<Rightarrow> bytes" where
  "pk_answer v5 (Publish b _ i _ _) =
     (if pk_qos b > 0
      then (if pk_qos b = 2 then 0x50 else 0x40) # (if v5 then 4 else 2) # be16 i @ (if v5 then [0, 0] else [])
      else [])"
| "pk_answer v5 (Acks b i _) =
     (if drop_bit 4 b = 5 then [0x62, 2] @ be16 i else if drop_bit 4 b = 6 then [0x70, 2] @ be16 i else [])"
| "pk_answer v5 _ = []"

fun pk_events :: "bool \<Rightarrow> mqtt_packet \<Rightarrow> mqtt_ev list" where
  "pk_events v5 (Connack b s code extra) = [Mqtt_open code, Mqtt_cmd (pk_message v5 (Connack b s code extra))]"
| "pk_events v5 (Publish b topic i ps data) =
     [Mqtt_msg (pk_message v5 (Publish b topic i ps data)), Mqtt_cmd (pk_message v5 (Publish b topic i ps data))]"
| "pk_events v5 k = [Mqtt_cmd (pk_message v5 k)]"

fun pk_refused :: "mqtt_packet \<Rightarrow> bool" where
  "pk_refused (Connack _ _ code _) = (code \<noteq> 0)"
| "pk_refused _ = False"

definition pk_after :: "mqtt_conn \<Rightarrow> mqtt_packet \<Rightarrow> mqtt_conn" where
  "pk_after c k = c\<lparr>q_sent := q_sent c @ pk_answer (is_mqtt5 c) k, q_closing := q_closing c \<or> pk_refused k,
     q_trace := q_trace c @ pk_events (is_mqtt5 c) k\<rparr>"

abbreviation quiet_user :: mqtt_handler where
  "quiet_user \<equiv> (\<lambda>ev c. c)"

lemma bytes_ntohs: "[ucast (mg_ntohs v), ucast (drop_bit 8 (mg_ntohs v))] = be16 v"
  unfolding be16_def by (auto intro!: byte_eqI simp: bit_simps bit_ntohs)

lemma bytes_ntohl: "le32 (mg_ntohl v) = be32 v"
  unfolding be32_def le32_def by (auto intro!: byte_eqI simp: bit_simps bit_ntohl)

lemma header_sent:
  assumes "n < 2 ^ 28"
  shows "mg_mqtt_send_header cmd flags (word_of_nat n) c = q_send ((push_bit 4 cmd OR flags) # varlen n) c"
  using assms header_loop_varlen [of n 3] by (simp add: mg_mqtt_send_header_def del: header_loop.simps)

lemma ack_sent:
  "send_ack cmd flags 2 i c = q_send ((push_bit 4 cmd OR flags) # 2 # be16 i) c"
  "send_ack cmd flags 4 i c = q_send ((push_bit 4 cmd OR flags) # 4 # be16 i) c"
  using header_sent [of 2 cmd flags c] header_sent [of 4 cmd flags c]
  by (simp_all add: send_ack_def Let_def bytes_ntohs varlen_small q_send_def)

lemma dispatch_packet:
  assumes "pk_ok v5 k" "is_mqtt5 c = v5"
  shows "q_call quiet_user (Mqtt_cmd (pk_message v5 k)) (mqtt_dispatch quiet_user (pk_message v5 k) c) = pk_after c k"
proof (cases k)
  case (Publish b topic i ps data)
  then show ?thesis using assms
    by (auto simp: pk_ok_def mqtt_dispatch_def pk_blank_def pk_after_def q_call_def q_send_def ack_sent Let_def)
next
  case (Acks b i extra)
  then show ?thesis using assms
    by (auto simp: pk_ok_def mqtt_dispatch_def pk_blank_def pk_after_def q_call_def q_send_def ack_sent Let_def)
qed (use assms in \<open>auto simp: pk_ok_def mqtt_dispatch_def pk_blank_def pk_after_def q_call_def Let_def\<close>)

lemma message_dgram: "m_dgram (pk_message v5 k) = pk_enc v5 k"
  by (cases k) (simp_all add: pk_blank_def)

lemma round_packet:
  assumes "pk_ok v5 k" "is_mqtt5 c = v5"
  shows "mqtt_round quiet_user (c\<lparr>q_recv := pk_enc v5 k @ rest\<rparr>) = Some (True, (pk_after c k)\<lparr>q_recv := rest\<rparr>)"
proof -
  have "pk_after (c\<lparr>q_recv := x\<rparr>) k = (pk_after c k)\<lparr>q_recv := x\<rparr>" for x by (simp add: pk_after_def)
  then show ?thesis
    using mqtt_parse_packet [OF assms(1), of rest] dispatch_packet [OF assms(1), of "c\<lparr>q_recv := pk_enc v5 k @ rest\<rparr>"] assms(2)
    by (simp add: mqtt_round_def Let_def message_dgram)
qed

lemma round_part:
  assumes "pk_ok v5 k" "n < length (pk_enc v5 k)"
  shows "mqtt_round quiet_user (c\<lparr>q_recv := take n (pk_enc v5 k)\<rparr>) = Some (False, c\<lparr>q_recv := take n (pk_enc v5 k)\<rparr>)"
  using mqtt_parse_part [OF assms, of "if is_mqtt5 c then 5 else 4"] by (auto simp: mqtt_round_def)

text \<open>Bytes arrive: they are added to the receive buffer and the handler is called.\<close>

definition mqtt_arrive :: "mqtt_handler \<Rightarrow> bytes \<Rightarrow> mqtt_conn \<Rightarrow> mqtt_conn option" where
  "mqtt_arrive h x c = mqtt_cb h (c\<lparr>q_recv := q_recv c @ x\<rparr>)"

interpretation mq: stream_reader "pk_enc v5" "\<lambda>c k. is_mqtt5 c = v5 \<and> pk_ok v5 k" pk_after
  "\<lambda>c p. c\<lparr>q_recv := p\<rparr>" "mqtt_cb quiet_user" "mqtt_arrive quiet_user" for v5
proof unfold_locales
  show "mqtt_cb quiet_user (c\<lparr>q_recv := []\<rparr>) = Some (c\<lparr>q_recv := []\<rparr>)" for c
    by (subst mqtt_cb.simps) (simp add: mqtt_round_def mg_mqtt_parse_def)
qed (simp_all add: pk_enc_nonempty round_packet round_part mqtt_cb.simps [of quiet_user "_\<lparr>q_recv := _ @ _\<rparr>"]
  mqtt_cb.simps [of quiet_user "_\<lparr>q_recv := take _ _\<rparr>"] mqtt_arrive_def)

section \<open>Properties on the wire\<close>

text \<open>The bytes of a property, and what is left of it: the fields its type has.\<close>

definition prop_value :: "mqtt_prop \<Rightarrow> bytes" where
  "prop_value p =
     (case mqtt_prop_type_by_id (prop_id p) of
        Some Prop_string_pair \<Rightarrow> pk_string (prop_key p) @ pk_string (prop_val p)
      | Some Prop_byte \<Rightarrow> [ucast (prop_iv p)]
      | Some Prop_short \<Rightarrow> be16 (ucast (prop_iv p))
      | Some Prop_int \<Rightarrow> be32 (prop_iv p)
      | Some Prop_string \<Rightarrow> pk_string (prop_val p)
      | Some Prop_binary_data \<Rightarrow> pk_string (prop_val p)
      | Some Prop_variable_int \<Rightarrow> varlen (unat (prop_iv p))
      | None \<Rightarrow> [])"

definition prop_enc :: "mqtt_prop \<Rightarrow> bytes" where
  "prop_enc p = prop_id p # prop_value p"

definition prop_view :: "mqtt_prop \<Rightarrow> u8 \<times> u32 \<times> bytes \<times> bytes" where
  "prop_view p = (prop_id p,
     case mqtt_prop_type_by_id (prop_id p) of
        Some Prop_string_pair \<Rightarrow> (0, prop_key p, prop_val p)
      | Some Prop_byte \<Rightarrow> (prop_iv p AND 0xff, [], [])
      | Some Prop_short \<Rightarrow> (prop_iv p AND 0xffff, [], [])
      | Some Prop_string \<Rightarrow> (0, [], prop_val p)
      | Some Prop_binary_data \<Rightarrow> (0, [], prop_val p)
      | _ \<Rightarrow> (prop_iv p, [], []))"

definition prop_ok :: "mqtt_prop \<Rightarrow> bool" where
  "prop_ok p \<longleftrightarrow> mqtt_prop_type_by_id (prop_id p) \<noteq> None \<and> length (prop_key p) < 2 ^ 16 \<and> length (prop_val p) < 2 ^ 16 \<and>
     (mqtt_prop_type_by_id (prop_id p) = Some Prop_variable_int \<longrightarrow> prop_iv p < 2 ^ 28)"

definition props_enc :: "mqtt_prop list \<Rightarrow> bytes" where
  "props_enc ps = concat (map prop_enc ps)"

definition props_ok :: "mqtt_prop list \<Rightarrow> bool" where
  "props_ok ps \<longleftrightarrow> (\<forall>p \<in> set ps. prop_ok p) \<and> length (props_enc ps) < 2 ^ 28"

lemma props_enc_simps [simp]: "props_enc [] = []" "props_enc (p # ps) = prop_enc p @ props_enc ps"
    "props_enc (ps @ qs) = props_enc ps @ props_enc qs"
  by (simp_all add: props_enc_def)

lemma length_pk_string [simp]: "length (pk_string s) = 2 + length s"
  by (simp add: pk_string_def)

lemma q_send_simps [simp]: "q_send b (q_send a c) = q_send (a @ b) c" "is_mqtt5 (q_send b c) = is_mqtt5 c"
    "mqtt_id (q_send b c) = mqtt_id c" "q_sent (q_send b c) = q_sent c @ b"
  by (simp_all add: q_send_def)

lemma send_string_sent [simp]: "send_string s c = q_send (pk_string s) c"
  by (simp add: send_string_def mg_send_u16_def bytes_ntohs pk_string_def)

lemma properties_length: "\<forall>p \<in> set ps. prop_ok p \<Longrightarrow> get_properties_length ps = length (props_enc ps)"
proof (induction ps)
  case (Cons p ps)
  then have p: "prop_ok p" by simp
  then obtain t where t: "mqtt_prop_type_by_id (prop_id p) = Some t" by (auto simp: prop_ok_def)
  with Cons p show ?case
    by (cases t) (simp_all add: prop_enc_def prop_value_def prop_ok_def cast32_def size_varlen)
qed simp

lemma send_prop_sent:
  assumes "prop_ok p" "length mem = 4"
  shows "\<exists>mem'. send_prop p mem c = Some (mem', q_send (prop_enc p) c) \<and> length mem' = 4"
proof -
  obtain t where t: "mqtt_prop_type_by_id (prop_id p) = Some t" using assms(1) by (auto simp: prop_ok_def)
  show ?thesis
  proof (cases "t = Prop_variable_int")
    case True
    then have "unat (prop_iv p) < 2 ^ 28" using assms(1) t by (simp add: prop_ok_def word_less_nat_alt)
    from encode_varlen_4 [OF this assms(2)] show ?thesis using True t
      by (auto simp: send_prop_def prop_enc_def prop_value_def)
  next
    case False
    then show ?thesis using assms t
      by (cases t) (simp_all add: send_prop_def prop_enc_def prop_value_def mg_send_u16_def mg_send_u32_def bytes_ntohs bytes_ntohl)
  qed
qed

lemma send_props_sent: "\<forall>p \<in> set ps. prop_ok p \<Longrightarrow> length mem = 4 \<Longrightarrow> send_props ps mem c = Some (q_send (props_enc ps) c)"
proof (induction ps arbitrary: mem c)
  case (Cons p ps)
  then obtain mem' where "send_prop p mem c = Some (mem', q_send (prop_enc p) c)" "length mem' = 4"
    using send_prop_sent [of p mem c] by auto
  then show ?case using Cons by simp
qed (simp add: q_send_def)

lemma properties_sent:
  assumes "props_ok ps"
  shows "mg_send_mqtt_properties ps c = Some (q_send (pk_props True (props_enc ps)) c)"
proof -
  have ps: "\<forall>p \<in> set ps. prop_ok p" "length (props_enc ps) < 2 ^ 28" using assms by (simp_all add: props_ok_def)
  from encode_varlen_4 [OF ps(2), of "replicate 4 0"] show ?thesis
    by (auto simp: mg_send_mqtt_properties_def properties_length [OF ps(1)] send_props_sent [OF ps(1)] pk_props_def)
qed

lemma props_size: "props_ok ps \<Longrightarrow> get_props_size ps = length (pk_props True (props_enc ps))"
  by (simp add: get_props_size_def props_ok_def properties_length size_varlen pk_props_def Let_def)

lemma props_if5_sent:
  "(is_mqtt5 c \<Longrightarrow> props_ok ps) \<Longrightarrow> send_props_if5 ps c = Some (q_send (pk_props (is_mqtt5 c) (props_enc ps)) c)"
  by (simp add: send_props_if5_def properties_sent) (simp add: pk_props_def q_send_def)

section \<open>Reading properties\<close>

lemma string_at_app: "p = length pre \<Longrightarrow> length s < 2 ^ 16 \<Longrightarrow> string_at (pre @ pk_string s @ r) p = Some s"
  using span_at [of "p + 2" "pre @ be16 (word_of_nat (length s))" "length s" s r]
  by (simp add: string_at_def pk_string_def be16_at_app unat_small slice_def)

lemma int_at_app: "p = length pre \<Longrightarrow> int_at (pre @ be32 w @ r) p = Some w"
  using unbe32_be32 [of w] by (simp add: int_at_def rd_def be32_def unbe32_def nth_append)

lemma low_bits: "ucast (ucast (w :: u32) :: u8) = w AND 0xff" "ucast (ucast (w :: u32) :: u16) = w AND 0xffff"
  "(w AND 0xff) AND 0xff = w AND 0xff" "(w AND 0xffff) AND 0xffff = w AND 0xffff"
proof -
  have "ucast (ucast w :: u8) = take_bit 8 w" "ucast (ucast w :: u16) = take_bit 16 w"
    by (rule bit_word_eqI, auto simp: bit_simps)+
  then show "ucast (ucast w :: u8) = w AND 0xff" "ucast (ucast w :: u16) = w AND 0xffff"
      "(w AND 0xff) AND 0xff = w AND 0xff" "(w AND 0xffff) AND 0xffff = w AND 0xffff"
    using take_bit_eq_mask [of 8 w] take_bit_eq_mask [of 16 w] by (simp_all add: mask_eq_exp_minus_1 and.assoc)
qed

lemma next_prop_enc:
  assumes "prop_ok p" "m_props_start msg + ofs = length pre" "mem = pre @ prop_enc p @ r"
    "ofs < length (m_dgram msg)" "ofs < m_props_start msg + m_props_size msg"
    "length pre + length (prop_enc p) \<le> length (m_dgram msg)"
  shows "\<exists>pr'. mg_mqtt_next_prop wild mem msg pr ofs = Some (ofs + length (prop_enc p), pr') \<and> prop_view pr' = prop_view p"
proof -
  obtain t where t: "mqtt_prop_type_by_id (prop_id p) = Some t" using assms(1) by (auto simp: prop_ok_def)
  let ?i = "m_props_start msg + ofs + 1" and ?pre = "pre @ [prop_id p]"
  have m: "mem = ?pre @ prop_value p @ r" using assms(3) by (simp add: prop_enc_def)
  have 0: "rd mem (m_props_start msg + ofs) = Some (prop_id p)" using assms(2) by (simp add: m)
  have i: "?i = length ?pre" using assms(2) by simp
  have c: "\<not> (ofs \<ge> length (m_dgram msg) \<or> ofs \<ge> m_props_start msg + m_props_size msg)" using assms(4,5) by simp
  note defs = mg_mqtt_next_prop_def prop_view_def prop_enc_def prop_value_def Let_def
  have l: "length (prop_key p) < 2 ^ 16" "length (prop_val p) < 2 ^ 16" using assms(1) by (simp_all add: prop_ok_def)
  show ?thesis
  proof (cases t)
    case Prop_variable_int
    then have v: "unat (prop_iv p) < 2 ^ 28" "prop_value p = varlen (unat (prop_iv p))"
      using assms(1) t by (simp_all add: prop_ok_def word_less_nat_alt prop_value_def)
    have "decode_varint mem ?i (length (m_dgram msg) - ?i) = Some (length (prop_value p), unat (prop_iv p))"
      unfolding m v(2) by (rule decode_varint_varlen [OF v(1) _ i]) (use assms(2,6) v(2) in \<open>simp add: prop_enc_def\<close>)
    then show ?thesis using 0 c t Prop_variable_int by (simp add: defs)
  next
    case Prop_string_pair
    then have v: "prop_value p = pk_string (prop_key p) @ pk_string (prop_val p)" using t by (simp add: prop_value_def)
    have "string_at mem ?i = Some (prop_key p)" "string_at mem (?i + 2 + length (prop_key p)) = Some (prop_val p)"
      using string_at_app [OF i l(1), of "pk_string (prop_val p) @ r"]
        string_at_app [of "?i + 2 + length (prop_key p)" "?pre @ pk_string (prop_key p)" "prop_val p" r] l i
      by (simp_all add: m v)
    then show ?thesis using 0 c t Prop_string_pair by (simp add: defs)
  next
    case Prop_string
    then have "string_at mem ?i = Some (prop_val p)" using string_at_app [OF i l(2), of r] t by (simp add: m prop_value_def)
    then show ?thesis using 0 c t Prop_string by (simp add: defs)
  next
    case Prop_binary_data
    then have "string_at mem ?i = Some (prop_val p)" using string_at_app [OF i l(2), of r] t by (simp add: m prop_value_def)
    then show ?thesis using 0 c t Prop_binary_data by (simp add: defs)
  next
    case Prop_byte
    then have "rd mem ?i = Some (ucast (prop_iv p))" using i t by (simp add: m prop_value_def nth_append)
    then show ?thesis using 0 c t Prop_byte by (simp add: defs low_bits)
  next
    case Prop_short
    then have "be16_at mem ?i = Some (ucast (prop_iv p))" using be16_at_app [OF i] t by (simp add: m prop_value_def)
    then show ?thesis using 0 c t Prop_short by (simp add: defs low_bits)
  next
    case Prop_int
    then have "int_at mem ?i = Some (prop_iv p)" using int_at_app [OF i] t by (simp add: m prop_value_def)
    then show ?thesis using 0 c t Prop_int by (simp add: defs)
  qed
qed

text \<open>
  A careful reader of properties: it calls \<open>mg_mqtt_next_prop\<close> while the offset is below the size of
  the properties, and does not rely on the end that this function reports.
\<close>

fun read_props :: "nat \<Rightarrow> bytes \<Rightarrow> bytes \<Rightarrow> mqtt_message \<Rightarrow> mqtt_prop \<Rightarrow> nat \<Rightarrow> mqtt_prop list option" where
  "read_props 0 wild mem msg pr ofs = (if ofs < m_props_size msg then None else Some [])"
| "read_props (Suc n) wild mem msg pr ofs =
     (if ofs < m_props_size msg then do {
        (ofs, pr) \<leftarrow> mg_mqtt_next_prop wild mem msg pr ofs;
        prs \<leftarrow> read_props n wild mem msg pr ofs;
        Some (pr # prs) }
      else Some [])"

lemma read_props_enc:
  assumes "\<forall>p \<in> set ps. prop_ok p" "m_props_start msg + ofs = length pre" "mem = pre @ props_enc ps @ r"
    "ofs + length (props_enc ps) = m_props_size msg"
    "length pre + length (props_enc ps) \<le> length (m_dgram msg)" "length ps \<le> n"
  shows "\<exists>prs. read_props n wild mem msg pr ofs = Some prs \<and> map prop_view prs = map prop_view ps"
  using assms
proof (induction ps arbitrary: pre ofs pr n)
  case Nil
  then show ?case by (cases n) simp_all
next
  case (Cons p ps)
  obtain n' where n: "n = Suc n'" "length ps \<le> n'" using Cons.prems(6) by (cases n) auto
  have e: "length (prop_enc p) > 0" by (simp add: prop_enc_def)
  have lt: "ofs < m_props_size msg"
    using Cons.prems(4) e by (simp only: props_enc_simps length_append)
  then obtain pr' where pr': "mg_mqtt_next_prop wild mem msg pr ofs = Some (ofs + length (prop_enc p), pr')"
      "prop_view pr' = prop_view p"
    using next_prop_enc [of p msg ofs pre mem "props_enc ps @ r" wild pr] Cons.prems e by auto
  obtain prs where "read_props n' wild mem msg pr' (ofs + length (prop_enc p)) = Some prs"
      "map prop_view prs = map prop_view ps"
    using Cons.IH [of "ofs + length (prop_enc p)" "pre @ prop_enc p" n' pr'] Cons.prems n by auto
  then show ?case using pr' n lt by simp
qed

lemma length_prop_enc: "prop_ok p \<Longrightarrow> 2 \<le> length (prop_enc p)"
  by (cases "varlen (unat (prop_iv p))") (auto simp: prop_ok_def prop_enc_def prop_value_def split: prop_type.split)

lemma length_props_enc: "\<forall>p \<in> set ps. prop_ok p \<Longrightarrow> 2 * length ps \<le> length (props_enc ps)"
  by (induction ps) (use length_prop_enc in \<open>force+\<close>)

section \<open>What a client publishes\<close>

definition pub_byte :: "mqtt_opts \<Rightarrow> u8" where
  "pub_byte opts = 0x30 OR (push_bit 1 (o_qos opts AND 3) OR (if o_retain opts then 1 else 0))"

definition pub_packet :: "mqtt_opts \<Rightarrow> mqtt_conn \<Rightarrow> mqtt_packet" where
  "pub_packet opts c = Publish (pub_byte opts)
     (o_topic opts) (mqtt_id (next_mqtt_id c)) (if is_mqtt5 c then props_enc (o_props opts) else []) (o_message opts)"

definition pub_ok :: "bool \<Rightarrow> mqtt_opts \<Rightarrow> bool" where
  "pub_ok v5 opts \<longleftrightarrow> o_qos opts < 4 \<and> length (o_topic opts) < 2 ^ 16 \<and>
     length (o_topic opts) + length (o_message opts) + (if v5 then length (props_enc (o_props opts)) else 0) < 2 ^ 27 \<and>
     (v5 \<longrightarrow> props_ok (o_props opts))"

lemma small_qos: "q < 4 \<Longrightarrow> q AND 3 = (q :: u8)"
  using take_bit_eq_mask [of 2 q] by (simp add: mask_eq_exp_minus_1 take_bit_eq_mod word_less_nat_alt unat_mod word_inject(3) [symmetric])

lemma qos_cases: "(q :: u8) AND 3 = 0 \<or> q AND 3 = 1 \<or> q AND 3 = 2 \<or> q AND 3 = 3"
proof -
  have "unat (q AND 3) \<le> 3" using word_and_le1 [of q 3] by (simp add: word_le_nat_alt)
  then have "unat (q AND 3) = 0 \<or> unat (q AND 3) = 1 \<or> unat (q AND 3) = 2 \<or> unat (q AND 3) = 3" by linarith
  then show ?thesis by (simp add: word_inject(3) [symmetric])
qed

lemma pub_byte_props [simp]: "pk_qos (pub_byte opts) = o_qos opts AND 3" "drop_bit 4 (pub_byte opts) = 3"
  using qos_cases [of "o_qos opts"] unfolding pk_qos_def pub_byte_def by (elim disjE; cases "o_retain opts"; simp)+

lemma pub_packet_ok:
  assumes "pub_ok (is_mqtt5 c) opts"
  shows "pk_ok (is_mqtt5 c) (pub_packet opts c)"
proof -
  obtain b w where "varlen (length (props_enc (o_props opts))) = b # w" by (cases "varlen (length (props_enc (o_props opts)))") simp_all
  then show ?thesis using assms length_varlen [of "length (props_enc (o_props opts))" 3]
    by (auto simp: pub_ok_def props_ok_def pk_ok_def pub_packet_def pk_props_def)
qed

definition pub_after :: "mqtt_opts \<Rightarrow> mqtt_conn \<Rightarrow> mqtt_conn" where
  "pub_after opts c = q_send (pk_enc (is_mqtt5 c) (pub_packet opts c)) (if o_qos opts > 0 then next_mqtt_id c else c)"

lemma next_id_simps [simp]: "next_mqtt_id (q_send b c) = q_send b (next_mqtt_id c)" "is_mqtt5 (next_mqtt_id c) = is_mqtt5 c"
    "q_sent (next_mqtt_id c) = q_sent c" "mqtt_id (next_mqtt_id c) \<noteq> 0"
  by (simp_all add: next_mqtt_id_def q_send_def Let_def)

lemma mg_mqtt_pub_packet:
  assumes "pub_ok (is_mqtt5 c) opts"
  shows "mg_mqtt_pub opts c = Some (pub_after opts c)"
proof -
  let ?k = "pub_packet opts c"
  let ?n = "length (pk_body (is_mqtt5 c) ?k)"
  have q: "o_qos opts AND 3 = o_qos opts" using assms small_qos by (simp add: pub_ok_def)
  have n: "?n < 2 ^ 28" using pub_packet_ok [OF assms] by (simp add: pk_ok_def)
  have len: "(let n = 2 + length (o_topic opts) + length (o_message opts); n = (if o_qos opts > 0 then n + 2 else n)
      in if is_mqtt5 c then n + get_props_size (o_props opts) else n) = ?n"
    using assms q by (auto simp: pub_ok_def pub_packet_def props_size pk_props_def)
  have enc: "pk_enc (is_mqtt5 c) ?k = pub_byte opts # varlen ?n @ pk_string (o_topic opts) @
      (if o_qos opts > 0 then be16 (mqtt_id (next_mqtt_id c)) else []) @ pk_props (is_mqtt5 c) (props_enc (o_props opts)) @ o_message opts"
    by (simp add: pk_enc_def pub_packet_def q pk_props_def)
  have pr: "is_mqtt5 d = is_mqtt5 c \<Longrightarrow>
      send_props_if5 (o_props opts) d = Some (q_send (pk_props (is_mqtt5 c) (props_enc (o_props opts))) d)" for d
    using props_if5_sent [of d "o_props opts"] assms by (simp add: pub_ok_def)
  have hd: "mg_mqtt_send_header 3 (push_bit 1 (o_qos opts AND 3) OR (if o_retain opts then 1 else 0)) (word_of_nat ?n) c =
      q_send (pub_byte opts # varlen ?n) c"
    using header_sent [OF n] by (simp add: pub_byte_def)
  show ?thesis
    unfolding mg_mqtt_pub_def len [unfolded Let_def] Let_def hd pub_after_def enc
    by (cases "o_qos opts > 0") (simp_all add: pr mg_send_u16_def bytes_ntohs)
qed

fun pub_all :: "mqtt_opts list \<Rightarrow> mqtt_conn \<Rightarrow> mqtt_conn option" where
  "pub_all [] c = Some c"
| "pub_all (opts # os) c = do { c \<leftarrow> mg_mqtt_pub opts c; pub_all os c }"

fun pub_packets :: "mqtt_opts list \<Rightarrow> mqtt_conn \<Rightarrow> mqtt_packet list" where
  "pub_packets [] c = []"
| "pub_packets (opts # os) c = pub_packet opts c # pub_packets os (pub_after opts c)"

lemma pub_after_version [simp]: "is_mqtt5 (pub_after opts c) = is_mqtt5 c"
  by (simp add: pub_after_def)

lemma pub_all_packets:
  "\<forall>opts \<in> set os. pub_ok (is_mqtt5 c) opts \<Longrightarrow>
   \<exists>c'. pub_all os c = Some c' \<and> q_sent c' = q_sent c @ concat (map (pk_enc (is_mqtt5 c)) (pub_packets os c))"
proof (induction os arbitrary: c)
  case (Cons opts os)
  then obtain c' where "pub_all os (pub_after opts c) = Some c'"
      "q_sent c' = q_sent (pub_after opts c) @ concat (map (pk_enc (is_mqtt5 c)) (pub_packets os (pub_after opts c)))"
    using Cons.IH [of "pub_after opts c"] by auto
  then show ?case using Cons.prems by (simp add: mg_mqtt_pub_packet) (simp add: pub_after_def)
qed simp

lemma pub_packets_ok: "\<forall>opts \<in> set os. pub_ok (is_mqtt5 c) opts \<Longrightarrow> \<forall>k \<in> set (pub_packets os c). pk_ok (is_mqtt5 c) k"
proof (induction os arbitrary: c)
  case (Cons opts os)
  then show ?case using Cons.IH [of "pub_after opts c"] by (auto simp: pub_packet_ok)
qed simp

lemma goods_packets: "(\<forall>k \<in> set ks. pk_ok v5 k) \<Longrightarrow> is_mqtt5 c = v5 \<Longrightarrow> mq.goods v5 c ks"
  by (induction ks arbitrary: c) (simp_all add: pk_after_def)

text \<open>The connection after a stream of packets.\<close>

lemma after_packets:
  "foldl pk_after c ks = c\<lparr>q_sent := q_sent c @ concat (map (pk_answer (is_mqtt5 c)) ks),
     q_closing := q_closing c \<or> (\<exists>k \<in> set ks. pk_refused k),
     q_trace := q_trace c @ concat (map (pk_events (is_mqtt5 c)) ks)\<rparr>"
  by (induction ks arbitrary: c) (simp_all add: pk_after_def disj_assoc)

lemma stream_handled:
  assumes "\<forall>k \<in> set ks. pk_ok (is_mqtt5 c) k" "concat xs = concat (map (pk_enc (is_mqtt5 c)) ks)" "q_recv c = []"
  shows "feed_all (mqtt_arrive quiet_user) xs c = Some (foldl pk_after c ks)"
proof -
  have "c\<lparr>q_recv := []\<rparr> = c" "(foldl pk_after c ks)\<lparr>q_recv := []\<rparr> = foldl pk_after c ks"
    using assms(3) by (simp_all add: after_packets)
  then show ?thesis
    using mq.feed_all_stream [OF goods_packets [OF assms(1) refl] assms(2)] by simp
qed


text \<open>
  C5.  An MQTT connection reads what was sent: the packets of a stream, of all kinds and both versions
  of the protocol and of less than 2^28 bytes each, cut by the network into any pieces, are each
  handled once and in order.  The user sees every message with its topic, identifier and quality of
  service, and with its properties and its data, except for a \<open>PUBLISH\<close> of version 5 in which at most two
  bytes follow the topic and the identifier: there the code takes the length of the properties for
  data (\<open>pk_data\<close>, \<open>pk_unread\<close>).  A \<open>PUBLISH\<close> of quality 1 or 2 is answered by \<open>PUBACK\<close> or \<open>PUBREC\<close>, a
  \<open>PUBREC\<close> by \<open>PUBREL\<close>, a \<open>PUBREL\<close> by \<open>PUBCOMP\<close>, each with the identifier of its packet, and a refused
  connection is closed.  The handler never reads outside its buffer, its loop ends, and nothing is
  left over.
\<close>

theorem mqtt_stream_handled:
  assumes "\<forall>k \<in> set ks. pk_ok (is_mqtt5 c) k" "concat xs = concat (map (pk_enc (is_mqtt5 c)) ks)" "q_recv c = []"
  shows "feed_all (mqtt_arrive quiet_user) xs c =
    Some (c\<lparr>q_sent := q_sent c @ concat (map (pk_answer (is_mqtt5 c)) ks),
            q_closing := q_closing c \<or> (\<exists>k \<in> set ks. pk_refused k),
            q_trace := q_trace c @ concat (map (pk_events (is_mqtt5 c)) ks)\<rparr>)"
  using stream_handled [OF assms] by (simp add: after_packets)

section \<open>The other packets of a client\<close>

lemma hex_spec_nonzero: "0 \<notin> set (hex_spec p)"
proof -
  have "n < 16 \<Longrightarrow> hex_digits ! n \<noteq> 0" for n
    unfolding nat_less_16 insert_iff empty_iff by (elim disjE FalseE) (simp_all add: hex_digits_def)
  then show ?thesis by (induction p) (simp_all add: hex_char_def)
qed

definition client_id :: "bytes \<Rightarrow> mqtt_opts \<Rightarrow> bytes" where
  "client_id rnd opts = (if o_client_id opts = [] then hex_spec rnd else o_client_id opts)"

lemma login_client_id_spec:
  assumes "length rnd = 10"
  shows "login_client_id rnd opts = Some (client_id rnd opts)"
proof -
  have "mg_hex rnd (replicate 21 0) = Some (hex_spec rnd @ [0])"
    using hex_loop_spec [of 0 rnd "replicate 21 0"] assms by (simp add: mg_hex_def)
  then show ?thesis using assms cstr_append [OF hex_spec_nonzero, of rnd "[]"]
    by (simp add: login_client_id_def client_id_def list_update_append)
qed

definition opts_ok :: "bool \<Rightarrow> mqtt_opts \<Rightarrow> bool" where
  "opts_ok v5 opts \<longleftrightarrow> (\<forall>s \<in> {o_user opts, o_pass opts, o_client_id opts, o_topic opts, o_message opts}. length s < 2 ^ 16) \<and>
     (v5 \<longrightarrow> (\<forall>ps \<in> {o_props opts, o_will_props opts}. props_ok ps \<and> length (props_enc ps) < 2 ^ 26))"

definition login_body :: "u8 \<Rightarrow> bytes \<Rightarrow> mqtt_opts \<Rightarrow> bytes" where
  "login_body version cid opts =
     pk_string (bs ''MQTT'') @ [version, login_flags cid opts] @ be16 (o_keepalive opts) @
     pk_props (version = 5) (props_enc (o_props opts)) @ pk_string cid @
     (if has_will opts
      then pk_props (version = 5) (props_enc (o_will_props opts)) @ pk_string (o_topic opts) @ pk_string (o_message opts)
      else []) @
     (if o_user opts \<noteq> [] then pk_string (o_user opts) else []) @
     (if o_pass opts \<noteq> [] then pk_string (o_pass opts) else [])"

lemma length_props_part:
  assumes "opts_ok v5 opts" "ps \<in> {o_props opts, o_will_props opts}"
  shows "length (pk_props v5 (props_enc ps)) < 2 ^ 26 + 5" "v5 \<Longrightarrow> props_ok ps"
    "v5 \<Longrightarrow> get_props_size ps = length (pk_props v5 (props_enc ps))"
    "is_mqtt5 c = v5 \<Longrightarrow> send_props_if5 ps c = Some (q_send (pk_props v5 (props_enc ps)) c)"
  using assms length_varlen [of "length (props_enc ps)" 3] props_if5_sent [of c ps]
  by (auto simp: opts_ok_def pk_props_def props_size)

definition login_version :: "mqtt_opts \<Rightarrow> u8" where
  "login_version opts = (if o_version opts = 0 then 4 else o_version opts)"

lemma mg_mqtt_login_packet:
  assumes "length rnd = 10" "opts_ok (login_version opts = 5) opts"
  shows "mg_mqtt_login rnd opts c = Some (q_send (pk_enc v (Control 0x10 (login_body (login_version opts) (client_id rnd opts) opts)))
    (c\<lparr>is_mqtt5 := (login_version opts = 5)\<rparr>))"
proof -
  let ?v = "login_version opts" and ?cid = "client_id rnd opts"
  let ?b = "login_body ?v ?cid opts" and ?c = "c\<lparr>is_mqtt5 := (login_version opts = 5)\<rparr>"
  have "hex_spec rnd \<noteq> []" using length_hex_spec [of rnd] assms(1) by force
  then have cid: "?cid \<noteq> []" "length ?cid < 2 ^ 16" using assms by (simp_all add: client_id_def opts_ok_def)
  note pr = length_props_part [OF assms(2), of "o_props opts"] length_props_part [OF assms(2), of "o_will_props opts"]
  have l: "length (o_user opts) < 2 ^ 16" "length (o_pass opts) < 2 ^ 16" "length (o_topic opts) < 2 ^ 16"
      "length (o_message opts) < 2 ^ 16" using assms(2) by (simp_all add: opts_ok_def)
  have "length ?b \<le> 12 + length (pk_props (?v = 5) (props_enc (o_props opts))) + (2 + length ?cid) +
      (length (pk_props (?v = 5) (props_enc (o_will_props opts))) + 2 + length (o_topic opts) + 2 + length (o_message opts)) +
      (2 + length (o_user opts)) + (2 + length (o_pass opts))"
    by (simp add: login_body_def)
  then have n: "length ?b < 2 ^ 28" using pr(1,5) l cid(2) by simp
  have total: "login_total (?v = 5) ?cid opts = length ?b"
    using l cid(2) pr(3,7) by (simp add: login_total_def login_body_def cast32_def has_will_def pk_props_def)
  have enc: "pk_enc v (Control 0x10 ?b) = 0x10 # varlen (length ?b) @ ?b" by (simp add: pk_enc_def)
  have mqtt: "pk_string (bs ''MQTT'') = [0, 4, 77, 81, 84, 84]" by (simp add: pk_string_def be16_def)
  show ?thesis
    unfolding mg_mqtt_login_def login_client_id_spec [OF assms(1)] enc
    using pr(4,8) header_sent [OF n, of 1 0 ?c] total mqtt
    by (simp add: Let_def login_version_def [symmetric] mg_send_u16_def bytes_ntohs) (simp add: login_body_def)
qed

lemma mg_mqtt_sub_packet:
  assumes "opts_ok (is_mqtt5 c) opts"
  shows "mg_mqtt_sub opts c = Some (q_send (pk_enc (is_mqtt5 c) (Acks 0x82 (mqtt_id (next_mqtt_id c))
    (pk_props (is_mqtt5 c) (props_enc (o_props opts)) @ pk_string (o_topic opts) @ [o_qos opts AND 3]))) (next_mqtt_id c))"
proof -
  let ?n = "2 + length (o_topic opts) + 2 + 1 + (if is_mqtt5 c then get_props_size (o_props opts) else 0)"
  note pr = length_props_part [OF assms, of "o_props opts"]
  have t: "length (o_topic opts) < 2 ^ 16" using assms by (simp add: opts_ok_def)
  have p: "(if is_mqtt5 c then get_props_size (o_props opts) else 0) = length (pk_props (is_mqtt5 c) (props_enc (o_props opts)))"
    using pr(3) by (simp add: pk_props_def)
  have n: "?n < 2 ^ 28" using pr(1) t unfolding p by simp
  show ?thesis
    unfolding mg_mqtt_sub_def Let_def header_sent [OF n] using pr(4)
    by (simp add: p mg_send_u16_def bytes_ntohs pk_enc_def add.commute)
qed

lemma mg_mqtt_disconnect_packet:
  assumes "opts_ok (is_mqtt5 c) opts"
  shows "mg_mqtt_disconnect opts c = Some (q_send (pk_enc (is_mqtt5 c) (Control 0xe0
    (if is_mqtt5 c then 0 # pk_props True (props_enc (o_props opts)) else []))) c)"
proof -
  let ?n = "if is_mqtt5 c then 1 + get_props_size (o_props opts) else 0"
  note pr = length_props_part [OF assms, of "o_props opts"]
  have n: "?n < 2 ^ 28" using pr(1,3) by (cases "is_mqtt5 c") simp_all
  show ?thesis
    unfolding mg_mqtt_disconnect_def Let_def header_sent [OF n] using pr(2,3)
    by (simp add: properties_sent pk_enc_def)
qed

lemma ping_packets:
  "mg_mqtt_ping c = q_send (pk_enc v (Control 0xc0 [])) c"
  "mg_mqtt_pong c = q_send (pk_enc v (Control 0xd0 [])) c"
  using header_sent [of 0 12 0 c] header_sent [of 0 13 0 c]
  by (simp_all add: mg_mqtt_ping_def mg_mqtt_pong_def pk_enc_def)

section \<open>From a client to another\<close>

text \<open>What a user is told of the messages: topic, data and quality of service.\<close>

fun delivered :: "mqtt_ev list \<Rightarrow> (bytes \<times> bytes \<times> u8) list" where
  "delivered [] = []"
| "delivered (Mqtt_msg m # evs) = (m_topic m, m_data m, m_qos m) # delivered evs"
| "delivered (ev # evs) = delivered evs"

lemma delivered_app [simp]: "delivered (a @ b) = delivered a @ delivered b"
  by (induction a rule: delivered.induct) auto

text \<open>
  The data that the other side is told: the message, and in front of it a zero byte, the length of no properties,
  when a version-5 message has no properties and at most one byte.
\<close>

definition pub_data :: "bool \<Rightarrow> mqtt_opts \<Rightarrow> bytes" where
  "pub_data v5 opts =
     (if v5 \<and> o_props opts = [] \<and> length (o_message opts) \<le> 1 then 0 # o_message opts else o_message opts)"

lemma pub_data_packet:
  assumes "v5 \<Longrightarrow> props_ok (o_props opts)"
  shows "pk_data v5 (if v5 then props_enc (o_props opts) else []) (o_message opts) = pub_data v5 opts"
proof (cases "o_props opts")
  case Nil
  then show ?thesis by (auto simp: pk_data_def pk_unread_def pub_data_def pk_props_def varlen_small)
next
  case (Cons p ps)
  then have "v5 \<Longrightarrow> 2 \<le> length (props_enc (o_props opts))"
    using assms length_prop_enc [of p] by (auto simp: props_ok_def)
  moreover have "varlen n \<noteq> []" for n by simp
  ultimately have "\<not> pk_unread v5 (if v5 then props_enc (o_props opts) else []) (o_message opts)"
    by (cases "varlen (length (props_enc (o_props opts)))") (auto simp: pk_unread_def pk_props_def)
  with Cons show ?thesis by (simp add: pk_data_def pub_data_def)
qed

lemma delivered_packets:
  "\<forall>opts \<in> set os. pub_ok (is_mqtt5 c) opts \<Longrightarrow>
   delivered (concat (map (pk_events (is_mqtt5 c)) (pub_packets os c))) =
     map (\<lambda>opts. (o_topic opts, pub_data (is_mqtt5 c) opts, o_qos opts)) os"
proof (induction os arbitrary: c)
  case (Cons opts os)
  then show ?case using Cons.IH [of "pub_after opts c"] pub_data_packet [of "is_mqtt5 c" opts]
    by (simp add: pub_packet_def pub_ok_def small_qos pk_blank_def)
qed simp

lemma not_refused: "\<forall>k \<in> set (pub_packets os c). \<not> pk_refused k"
  by (induction os arbitrary: c) (auto simp: pub_packet_def)

text \<open>
  C4.  What a client publishes is delivered: any number of \<open>mg_mqtt_pub\<close> calls, of both versions, of
  every quality of service and with properties, leave bytes that, however the network cuts them,
  make the handler of the other side report exactly the published topics and messages, each once
  and in order; no call fails and the connection stays open.  One case is not delivered exactly, and
  the theorem says what happens in it: a version-5 message without properties and with at most one
  byte is reported with a zero byte in front (\<open>pub_data\<close>).  A topic has less than 2^16 bytes, a
  packet less than 2^27.
\<close>

theorem mqtt_publish_delivered:
  assumes "\<forall>opts \<in> set os. pub_ok (is_mqtt5 c) opts" "is_mqtt5 d = is_mqtt5 c" "q_recv d = []"
  shows "\<exists>c' sent. pub_all os c = Some c' \<and> q_sent c' = q_sent c @ sent \<and>
    (\<forall>xs. concat xs = sent \<longrightarrow> (\<exists>d'. feed_all (mqtt_arrive quiet_user) xs d = Some d' \<and> q_recv d' = [] \<and>
       q_closing d' = q_closing d \<and>
       delivered (q_trace d') = delivered (q_trace d) @ map (\<lambda>opts. (o_topic opts, pub_data (is_mqtt5 c) opts, o_qos opts)) os))"
proof -
  let ?ks = "pub_packets os c"
  obtain c' where c': "pub_all os c = Some c'" "q_sent c' = q_sent c @ concat (map (pk_enc (is_mqtt5 c)) ?ks)"
    using pub_all_packets [OF assms(1)] by blast
  have ok: "\<forall>k \<in> set ?ks. pk_ok (is_mqtt5 d) k" using pub_packets_ok [OF assms(1)] assms(2) by simp
  have "feed_all (mqtt_arrive quiet_user) xs d = Some (foldl pk_after d ?ks)"
    if "concat xs = concat (map (pk_enc (is_mqtt5 c)) ?ks)" for xs
    using stream_handled [OF ok _ assms(3), of xs] that assms(2) by simp
  moreover have "q_recv (foldl pk_after d ?ks) = []" "q_closing (foldl pk_after d ?ks) = q_closing d"
    "delivered (q_trace (foldl pk_after d ?ks)) =
      delivered (q_trace d) @ map (\<lambda>opts. (o_topic opts, pub_data (is_mqtt5 c) opts, o_qos opts)) os"
    using assms not_refused [of os c] delivered_packets [OF assms(1)] by (auto simp: after_packets)
  ultimately show ?thesis using c' by blast
qed

text \<open>
  C29.  The properties of a version-5 message come back: parsing what \<open>mg_mqtt_pub\<close> really sends, whatever
  follows it, and calling \<open>mg_mqtt_next_prop\<close> from offset 0 while the offset is below the size of
  the properties returns, for each property that was given, its identifier and the value of its type,
  whole and in order.  (The end that \<open>mg_mqtt_next_prop\<close> itself reports is not used: it comes too
  late, see \<open>mqtt_payload_read_as_property\<close>.)
\<close>

theorem mqtt_properties_read:
  assumes "is_mqtt5 c" "pub_ok True opts"
  shows "\<exists>c' sent m prs. mg_mqtt_pub opts c = Some c' \<and> q_sent c' = q_sent c @ sent \<and>
    mg_mqtt_parse (sent @ rest) 5 = Some (Mqtt_ok, m) \<and>
    read_props (m_props_size m) wild (m_dgram m @ rest) m pr 0 = Some prs \<and>
    map prop_view prs = map prop_view (o_props opts)"
proof -
  let ?k = "pub_packet opts c" and ?ps = "props_enc (o_props opts)"
  let ?m = "pk_message True ?k"
  have sent: "mg_mqtt_pub opts c = Some (pub_after opts c)" "q_sent (pub_after opts c) = q_sent c @ pk_enc True ?k"
    using mg_mqtt_pub_packet [of c opts] assms by (simp_all add: pub_after_def)
  have parse: "mg_mqtt_parse (pk_enc True ?k @ rest) 5 = Some (Mqtt_ok, ?m)"
    using mqtt_parse_packet [of True ?k rest] pub_packet_ok [of c opts] assms by simp
  have ok: "\<forall>p \<in> set (o_props opts). prop_ok p" using assms(2) by (simp add: pub_ok_def props_ok_def)
  have "\<exists>prs. read_props (m_props_size ?m) wild (m_dgram ?m @ rest) ?m pr 0 = Some prs \<and>
      map prop_view prs = map prop_view (o_props opts)"
  proof (cases "o_props opts")
    case Nil
    then show ?thesis using assms(1) by (simp add: pub_packet_def)
  next
    case (Cons p ps)
    obtain b w where "varlen (length ?ps) = b # w" by (cases "varlen (length ?ps)") simp_all
    then have n: "\<not> pk_unread True ?ps (o_message opts)" "length (o_props opts) \<le> length ?ps"
      using length_props_enc [OF ok] Cons by (auto simp: pk_unread_def pk_props_def simp del: props_enc_simps)
    obtain pre where pre: "pk_enc True ?k = pre @ ?ps @ o_message opts"
      using assms(1) by (auto simp: pk_enc_def pub_packet_def pk_props_def)
    have m: "m_dgram ?m = pk_enc True ?k" "m_props_size ?m = length ?ps" "m_props_start ?m = length pre"
      using assms(1) pre n(1) by (simp_all only: message_dgram) (simp_all add: pub_packet_def)
    show ?thesis
      by (rule read_props_enc [of _ _ _ pre _ "o_message opts @ rest"]) (use ok m pre n(2) in simp_all)
  qed
  with sent parse show ?thesis by blast
qed

definition sample_opts :: "bytes \<Rightarrow> bytes \<Rightarrow> u8 \<Rightarrow> mqtt_prop list \<Rightarrow> mqtt_opts" where
  "sample_opts topic msg qos ps = \<lparr>o_user = [], o_pass = [], o_client_id = [], o_topic = topic, o_message = msg, o_qos = qos,
     o_version = 5, o_keepalive = 0, o_retain = False, o_clean = False, o_props = ps, o_will_props = []\<rparr>"

definition sample_props :: "mqtt_prop list" where
  "sample_props = [\<lparr>prop_id = 1, prop_iv = 1, prop_key = [], prop_val = []\<rparr>,
     \<lparr>prop_id = 0x26, prop_iv = 0, prop_key = bs ''k'', prop_val = bs ''v''\<rparr>,
     \<lparr>prop_id = 0x0B, prop_iv = 300, prop_key = [], prop_val = []\<rparr>]"

definition blank_conn :: "bool \<Rightarrow> mqtt_conn" where
  "blank_conn v5 = \<lparr>q_recv = [], q_sent = [], is_mqtt5 = v5, mqtt_id = 0, q_closing = False, q_trace = []\<rparr>"

lemma byte_pieces: "concat (map (\<lambda>b. [b]) b) = b"
  by (induction b) auto

definition sample_pub :: mqtt_opts where
  "sample_pub = sample_opts (bs ''a/b'') (bs ''on'') 1 sample_props"

lemma sample_pub_ok: "pub_ok True sample_pub" "pub_ok True (sample_opts (bs ''a'') (bs ''1'') 0 [])"
  by (simp_all add: sample_pub_def sample_opts_def pub_ok_def sample_props_def props_ok_def prop_ok_def mqtt_prop_type_by_id_def s_prop_map_def
      prop_enc_def prop_value_def varlen.simps)

theorem mqtt_properties_read_witness:
  "\<exists>c' sent m prs. mg_mqtt_pub sample_pub (blank_conn True) = Some c' \<and> q_sent c' = [] @ sent \<and>
    mg_mqtt_parse (sent @ [7]) 5 = Some (Mqtt_ok, m) \<and>
    read_props (m_props_size m) [9] (m_dgram m @ [7]) m \<lparr>prop_id = 0, prop_iv = 0, prop_key = [], prop_val = []\<rparr> 0 = Some prs \<and>
    map prop_view prs = [(1, 1, [], []), (0x26, 0, bs ''k'', bs ''v''), (0x0B, 300, [], [])]"
proof -
  have v: "map prop_view (o_props sample_pub) = [(1, 1, [], []), (0x26, 0, bs ''k'', bs ''v''), (0x0B, 300, [], [])]"
      "is_mqtt5 (blank_conn True)" "q_sent (blank_conn True) = []"
    by (simp_all add: sample_pub_def sample_opts_def sample_props_def prop_view_def mqtt_prop_type_by_id_def s_prop_map_def blank_conn_def)
  show ?thesis
    using mqtt_properties_read [OF v(2) sample_pub_ok(1), of "[7]" "[9]"] unfolding v by blast
qed

theorem mqtt_publish_delivered_witness:
  "\<exists>c' sent. pub_all [sample_pub, sample_opts (bs ''a'') (bs ''1'') 0 []] (blank_conn True) = Some c' \<and> q_sent c' = [] @ sent \<and>
    (\<forall>xs. concat xs = sent \<longrightarrow> (\<exists>d'. feed_all (mqtt_arrive quiet_user) xs (blank_conn True) = Some d' \<and> q_recv d' = [] \<and>
       q_closing d' = False \<and> delivered (q_trace d') = [] @ [(bs ''a/b'', bs ''on'', 1), (bs ''a'', [0, 49], 0)]))"
proof -
  have b: "is_mqtt5 (blank_conn True) = True" "q_sent (blank_conn True) = []" "q_recv (blank_conn True) = []"
      "q_closing (blank_conn True) = False" "delivered (q_trace (blank_conn True)) = []"
    by (simp_all add: blank_conn_def)
  have os: "\<forall>opts \<in> set [sample_pub, sample_opts (bs ''a'') (bs ''1'') 0 []]. pub_ok (is_mqtt5 (blank_conn True)) opts"
    using sample_pub_ok b(1) by simp
  have m: "map (\<lambda>opts. (o_topic opts, pub_data True opts, o_qos opts)) [sample_pub, sample_opts (bs ''a'') (bs ''1'') 0 []] =
      [(bs ''a/b'', bs ''on'', 1), (bs ''a'', [0, 49], 0)]"
    by (simp add: sample_pub_def sample_opts_def pub_data_def sample_props_def)
  show ?thesis using mqtt_publish_delivered [OF os refl b(3)] unfolding b m .
qed

definition sample_packets :: "mqtt_packet list" where
  "sample_packets = [Connack 0x20 0 0 [], Publish 0x34 (bs ''t'') 7 [] (bs ''data''), Acks 0x62 7 []]"

theorem mqtt_stream_handled_witness:
  "\<exists>c. feed_all (mqtt_arrive quiet_user) (map (\<lambda>b. [b]) (concat (map (pk_enc False) sample_packets))) (blank_conn False) = Some c \<and>
    q_sent c = [0x50, 2, 0, 7] @ [0x70, 2, 0, 7] \<and> \<not> q_closing c \<and> q_recv c = []"
  using mqtt_stream_handled [of sample_packets "blank_conn False" "map (\<lambda>b. [b]) (concat (map (pk_enc False) sample_packets))"]
  by (simp add: byte_pieces blank_conn_def sample_packets_def pk_ok_def pk_qos_def pk_props_def be16_def)

section \<open>Where the code departs from the protocol\<close>

text \<open>
  A version-5 \<open>PUBLISH\<close> without properties and with an empty payload: the parser does not look at the
  length of the properties when two bytes or less follow, and takes it for the payload.
\<close>

lemma mqtt_empty_payload_misread:
  "\<exists>m. mg_mqtt_parse (pk_enc True (Publish 0x30 (bs ''t'') 0 [] [])) 5 = Some (Mqtt_ok, m) \<and> m_topic m = bs ''t'' \<and> m_data m = [0]"
proof -
  have "length_loop [0x30, 4, 0, 1, 116, 0] 1 0 0 0 = (False, 2, 4, 4)"
    by (simp add: length_loop.simps)
  then show ?thesis
    by (simp add: pk_enc_def pk_props_def pk_string_def pk_qos_def be16_def varlen_small mg_mqtt_parse_def parse_body_def parse_publish_def
        parse_publish_props_def be16_at_def rd_def span_def)
qed

text \<open>
  The bound in \<open>mg_mqtt_next_prop\<close> adds the start of the properties to their size, but compares it with
  an offset from that start: after the last property the payload is read as one more.
\<close>

lemma mqtt_payload_read_as_property:
  "\<exists>m pr'. mg_mqtt_parse [0x30, 8, 0, 1, 116, 2, 1, 0, 1, 65] 5 = Some (Mqtt_ok, m) \<and> m_data m = [1, 65] \<and> m_props_size m = 2 \<and>
     mg_mqtt_next_prop [] (m_dgram m) m pr 2 = Some (4, pr')"
proof -
  have "length_loop [0x30, 8, 0, 1, 116, 2, 1, 0, 1, 65] 1 0 0 0 = (False, 2, 8, 8)"
    by (simp add: length_loop.simps)
  moreover have "decode_varint [0x30, 8, 0, 1, 116, 2, 1, 0, 1, 65] 5 5 = Some (1, 2)"
    by (simp add: decode_varint_def varint_loop.simps rd_def)
  ultimately show ?thesis
    by (simp add: mg_mqtt_parse_def parse_body_def parse_publish_def parse_publish_props_def be16_at_def rd_def span_def
        mg_mqtt_next_prop_def mqtt_prop_type_by_id_def s_prop_map_def)
qed

text \<open>A variable-length integer of five bytes does not fit the array \<open>buf_v\<close>.\<close>

lemma mqtt_varint_overrun:
  "send_prop \<lparr>prop_id = 0x0B, prop_iv = 0x10000000, prop_key = [], prop_val = []\<rparr> (replicate 4 0) c = None"
  by (simp add: send_prop_def mqtt_prop_type_by_id_def s_prop_map_def encode_variable_length.simps wr_def)

end
