(* ===== verification/Mg_Queue.thy ===== *)
theory Mg_Queue
  imports Prelude
begin

text \<open>
  \<open>src/queue.c\<close>: the single-producer single-consumer message queue in a circular buffer.  A
  message is a 32-bit length in host (little-endian) order and its bytes; a zero length is the
  mark that the producer went back to the start of the buffer.  \<open>None\<close> is a failed \<open>assert\<close>
  or an access outside the buffer.
\<close>

section \<open>The code\<close>

record mg_queue =
  qbuf :: bytes
  qsize :: nat
  tail :: nat
  head :: nat

definition mg_queue_init :: "bytes \<Rightarrow> nat \<Rightarrow> mg_queue" where
  "mg_queue_init b sz = \<lparr>qbuf = b, qsize = sz, tail = 0, head = 0\<rparr>"

definition mg_queue_read_len :: "mg_queue \<Rightarrow> nat option" where
  "mg_queue_read_len q =
     (if tail q + 4 \<le> length (qbuf q) then
        let n = unat (un32 (span (qbuf q) (tail q) 4))
        in if tail q + n + 4 \<le> qsize q then Some n else None
      else None)"

definition mg_queue_write_len :: "mg_queue \<Rightarrow> nat \<Rightarrow> mg_queue option" where
  "mg_queue_write_len q n = do {
     b \<leftarrow> blit (qbuf q) (head q) (le32 (word_of_nat n));
     Some (q\<lparr>qbuf := b\<rparr>) }"

text \<open>The space, the offset of the pointer handed out and the queue.\<close>

definition mg_queue_book :: "mg_queue \<Rightarrow> nat \<Rightarrow> (nat \<times> nat \<times> mg_queue) option" where
  "mg_queue_book q n = (let hs = 8 in do {
     (space, q) \<leftarrow>
       (if head q \<ge> tail q \<and> head q + n + hs \<le> qsize q then Some (qsize q - head q - hs, q)
        else if head q \<ge> tail q \<and> tail q > hs then do {
          q \<leftarrow> mg_queue_write_len q 0;
          Some (0, q\<lparr>head := 0\<rparr>) }
        else Some (0, q));
     let space = (if head q + hs + n < tail q then tail q - head q - hs else space);
     Some (space, head q + 4, q) })"

definition mg_queue_next :: "mg_queue \<Rightarrow> (nat \<times> nat \<times> mg_queue) option" where
  "mg_queue_next q = do {
     (n, q) \<leftarrow>
       (if tail q \<noteq> head q then do {
          n \<leftarrow> mg_queue_read_len q;
          if n = 0 then
            let q = q\<lparr>tail := 0\<rparr> in
            if head q > tail q then do { n \<leftarrow> mg_queue_read_len q; Some (n, q) } else Some (n, q)
          else Some (n, q) }
        else Some (0, q));
     if tail q + n \<le> qsize q then Some (n, tail q + 4, q) else None }"

definition mg_queue_add :: "mg_queue \<Rightarrow> nat \<Rightarrow> mg_queue option" where
  "mg_queue_add q n =
     (if n > 0 then do {
        q \<leftarrow> mg_queue_write_len q n;
        if head q + 8 + n \<le> qsize q then Some (q\<lparr>head := head q + (n + 4)\<rparr>) else None }
      else None)"

definition mg_queue_del :: "mg_queue \<Rightarrow> nat \<Rightarrow> mg_queue option" where
  "mg_queue_del q n =
     (let q = q\<lparr>tail := tail q + (n + 4)\<rparr> in if tail q + 4 \<le> qsize q then Some q else None)"

text \<open>
  The producer of the TCP/IP stack, called from the interrupt of the network driver: a frame is
  queued (\<open>nrecv++\<close>, \<open>True\<close>) or dropped (\<open>ndrop++\<close>, \<open>False\<close>).
\<close>

definition mg_tcpip_qwrite :: "bytes \<Rightarrow> mg_queue \<Rightarrow> (bool \<times> mg_queue) option" where
  "mg_tcpip_qwrite m q = do {
     (space, p, q) \<leftarrow> mg_queue_book q (length m);
     if space \<ge> length m then do {
       b \<leftarrow> blit (qbuf q) p m;
       q \<leftarrow> mg_queue_add (q\<lparr>qbuf := b\<rparr>) (length m);
       Some (True, q) }
     else Some (False, q) }"

text \<open>
  The formatting producer.  \<open>est\<close> is what \<open>mg_snprintf(NULL, 0, fmt, ap)\<close> returns, which is given
  the pointer to the argument list as its only argument, so it need not be the length of the
  text \<open>m\<close> that \<open>mg_vsnprintf\<close> then writes, truncated to \<open>est\<close> bytes and terminated; the full
  length of \<open>m\<close> is what that call returns and what is added.
\<close>

definition mg_queue_vprintf :: "nat \<Rightarrow> bytes \<Rightarrow> mg_queue \<Rightarrow> (nat \<times> mg_queue) option" where
  "mg_queue_vprintf est m q =
     (if est = 0 then Some (0, q)
      else do {
        (space, p, q) \<leftarrow> mg_queue_book q (est + 1);
        if space < est + 1 then Some (0, q)
        else do {
          b \<leftarrow> blit (qbuf q) p (take est m @ [0]);
          q \<leftarrow> mg_queue_add (q\<lparr>qbuf := b\<rparr>) (length m);
          Some (length m, q) } })"

text \<open>The consumer of the polling loop: the next frame is handed on and deleted.\<close>

definition queue_pop :: "mg_queue \<Rightarrow> (bytes option \<times> mg_queue) option" where
  "queue_pop q = do {
     (n, p, q) \<leftarrow> mg_queue_next q;
     if n = 0 then Some (None, q)
     else if p + n \<le> length (qbuf q) then do {
       q' \<leftarrow> mg_queue_del q n;
       Some (Some (span (qbuf q) p n), q') }
     else None }"

section \<open>Representation\<close>

text \<open>The messages \<open>ms\<close> stand one after another from offset \<open>p\<close>.\<close>

fun msgs_at :: "bytes \<Rightarrow> nat \<Rightarrow> bytes list \<Rightarrow> bool" where
  "msgs_at b p [] \<longleftrightarrow> True"
| "msgs_at b p (m # ms) \<longleftrightarrow>
     m \<noteq> [] \<and> length m < 2 ^ 32 \<and> span b p (4 + length m) = le32 (word_of_nat (length m)) @ m \<and>
     msgs_at b (p + 4 + length m) ms"

fun msgs_len :: "bytes list \<Rightarrow> nat" where
  "msgs_len [] = 0"
| "msgs_len (m # ms) = 4 + length m + msgs_len ms"

definition queue_rep :: "mg_queue \<Rightarrow> bytes list \<Rightarrow> bool" where
  "queue_rep q ms \<longleftrightarrow> length (qbuf q) = qsize q \<and> qsize q < 2 ^ 32 \<and> head q + 4 \<le> qsize q \<and>
     (tail q \<le> head q \<and> msgs_at (qbuf q) (tail q) ms \<and> head q = tail q + msgs_len ms \<or>
      head q < tail q \<and> (\<exists>a c. ms = a @ c \<and> msgs_at (qbuf q) (tail q) a \<and>
        tail q + msgs_len a + 4 \<le> qsize q \<and> span (qbuf q) (tail q + msgs_len a) 4 = le32 0 \<and>
        msgs_at (qbuf q) 0 c \<and> head q = msgs_len c))"

lemma msgs_len_append [simp]: "msgs_len (a @ c) = msgs_len a + msgs_len c"
  by (induction a) auto

lemma msgs_at_append: "msgs_at b p (a @ c) \<longleftrightarrow> msgs_at b p a \<and> msgs_at b (p + msgs_len a) c"
  by (induction a arbitrary: p) (auto simp: add.assoc)

lemma span_append_len: "span b p (m + n) = span b p m @ span b (p + m) n"
  by (simp add: span_def take_add add.commute)

lemma msgs_at_agree:
  "msgs_at b p ms \<Longrightarrow> span b' p (msgs_len ms) = span b p (msgs_len ms) \<Longrightarrow> length b' = length b \<Longrightarrow>
   p + msgs_len ms \<le> length b \<Longrightarrow> msgs_at b' p ms"
proof (induction ms arbitrary: p)
  case (Cons m ms)
  let ?k = "4 + length m"
  have eq: "span b' p ?k = span b p ?k \<and> span b' (p + ?k) (msgs_len ms) = span b (p + ?k) (msgs_len ms)"
    using Cons.prems(2-4) span_append_len [of b p ?k "msgs_len ms"] span_append_len [of b' p ?k "msgs_len ms"]
    by (simp add: append_eq_append_conv)
  then have "msgs_at b' (p + 4 + length m) ms"
    using Cons.prems by (intro Cons.IH) (simp_all add: add.assoc)
  with eq Cons.prems(1) show ?case by simp
qed simp

lemma span_blit_out:
  "blit b ofs src = Some b' \<Longrightarrow> p + n \<le> ofs \<or> ofs + length src \<le> p \<Longrightarrow> span b' p n = span b p n"
  by (auto simp: blit_eq_Some_iff span_def drop_take min_def)

lemma span_blit_in: "blit b ofs src = Some b' \<Longrightarrow> span b' ofs (length src) = src"
  by (auto simp: blit_eq_Some_iff span_def)

lemma msgs_at_blit:
  assumes "msgs_at b p ms" "blit b ofs src = Some b'" "p + msgs_len ms \<le> ofs \<or> ofs + length src \<le> p"
    "p + msgs_len ms \<le> length b"
  shows "msgs_at b' p ms"
  using msgs_at_agree [OF assms(1) span_blit_out [OF assms(2,3)] length_blit [OF assms(2)] assms(4)] .

subsection \<open>The producer\<close>

lemma queue_rep_wrapI:
  "length (qbuf q) = qsize q \<Longrightarrow> qsize q < 2 ^ 32 \<Longrightarrow> head q < tail q \<Longrightarrow> msgs_at (qbuf q) (tail q) a \<Longrightarrow>
   tail q + msgs_len a + 4 \<le> qsize q \<Longrightarrow> span (qbuf q) (tail q + msgs_len a) 4 = le32 0 \<Longrightarrow>
   msgs_at (qbuf q) 0 c \<Longrightarrow> head q = msgs_len c \<Longrightarrow> queue_rep q (a @ c)"
  unfolding queue_rep_def by auto

lemma rep_wr_zero:
  "queue_rep q ms \<Longrightarrow> tail q \<le> head q \<Longrightarrow> 0 < tail q \<Longrightarrow>
   \<exists>q'. mg_queue_write_len q 0 = Some q' \<and> queue_rep (q'\<lparr>head := 0\<rparr>) ms \<and>
        qsize q' = qsize q \<and> tail q' = tail q \<and> length (qbuf q') = qsize q'"
proof -
  assume r: "queue_rep q ms" "tail q \<le> head q" "0 < tail q"
  then have l: "length (qbuf q) = qsize q" "head q + 4 \<le> qsize q" "qsize q < 2 ^ 32"
      "msgs_at (qbuf q) (tail q) ms" "head q = tail q + msgs_len ms"
    by (auto simp: queue_rep_def)
  then obtain b where b: "blit (qbuf q) (head q) (le32 0) = Some b" by (auto simp: blit_def)
  have "length b = qsize q" using length_blit [OF b] l by simp
  moreover have "msgs_at b (tail q) ms" using msgs_at_blit [OF l(4) b] l by simp
  moreover have "span b (head q) 4 = le32 0" using span_blit_in [OF b] by simp
  ultimately show ?thesis
    using r l b queue_rep_wrapI [of "q\<lparr>qbuf := b, head := 0\<rparr>" ms "[]"]
    by (simp add: mg_queue_write_len_def)
qed

lemma queue_book_spec:
  assumes "queue_rep q ms"
  shows "\<exists>space q'. mg_queue_book q n = Some (space, head q' + 4, q') \<and> queue_rep q' ms \<and> qsize q' = qsize q \<and>
     (space > 0 \<longrightarrow> space \<ge> n \<and> head q' + 8 + space \<le> qsize q' \<and>
        (head q' < tail q' \<longrightarrow> head q' + 8 + space \<le> tail q'))"
proof -
  note d = mg_queue_book_def Let_def
  have l: "length (qbuf q) = qsize q" "head q + 4 \<le> qsize q" using assms by (auto simp: queue_rep_def)
  consider "head q \<ge> tail q" "head q + n + 8 \<le> qsize q"
    | "head q \<ge> tail q" "\<not> head q + n + 8 \<le> qsize q" "tail q > 8"
    | "head q \<ge> tail q" "\<not> head q + n + 8 \<le> qsize q" "\<not> tail q > 8"
    | "head q < tail q" by linarith
  then show ?thesis
  proof cases
    case 2
    then obtain q' where q': "mg_queue_write_len q 0 = Some q'" "queue_rep (q'\<lparr>head := 0\<rparr>) ms"
        "qsize q' = qsize q" "tail q' = tail q"
      using rep_wr_zero [OF assms] by auto
    have "tail q \<le> qsize q" using 2 l by linarith
    then show ?thesis using 2 q' by (auto simp: d intro!: exI [of _ "q'\<lparr>head := 0\<rparr>"])
  next
    case 4
    then have "tail q \<le> qsize q" using assms by (auto simp: queue_rep_def)
    then show ?thesis using 4 assms by (auto simp: d)
  qed (use assms in \<open>auto simp: d\<close>)
qed

lemma queue_add_spec:
  assumes "queue_rep q ms" "m \<noteq> []" "head q + 8 + length (m @ z) \<le> qsize q"
    "head q < tail q \<longrightarrow> head q + 8 + length (m @ z) \<le> tail q"
  shows "\<exists>b q'. blit (qbuf q) (head q + 4) (m @ z) = Some b \<and>
     mg_queue_add (q\<lparr>qbuf := b\<rparr>) (length m) = Some q' \<and> queue_rep q' (ms @ [m])"
proof -
  have l: "length (qbuf q) = qsize q" "qsize q < 2 ^ 32" using assms(1) by (auto simp: queue_rep_def)
  obtain b where b: "blit (qbuf q) (head q + 4) (m @ z) = Some b"
    using assms(3) l by (auto simp: blit_def)
  obtain b2 where b2: "blit b (head q) (le32 (word_of_nat (length m))) = Some b2"
    using assms(3) l length_blit [OF b] by (auto simp: blit_def)
  have lb: "length b = qsize q" "length b2 = qsize q" using length_blit [OF b] length_blit [OF b2] l by auto
  define q' where "q' = q\<lparr>qbuf := b2, head := head q + (length m + 4)\<rparr>"
  have add: "mg_queue_add (q\<lparr>qbuf := b\<rparr>) (length m) = Some q'"
    using assms(2,3) b2 by (simp add: mg_queue_add_def mg_queue_write_len_def q'_def)
  have at: "msgs_at b2 (head q) [m]"
  proof -
    have "span b2 (head q) 4 = le32 (word_of_nat (length m))" using span_blit_in [OF b2] by simp
    moreover have "span b2 (head q + 4) (length m) = span b (head q + 4) (length m)"
      by (rule span_blit_out [OF b2]) simp
    moreover have "span b (head q + 4) (length m) = m"
      using span_blit_in [OF b] span_append_len [of b "head q + 4" "length m" "length z"] lb assms(3)
      by simp
    ultimately show ?thesis
      using assms(2,3) l by (simp add: span_append_len)
  qed
  have keep: "msgs_at b2 p xs" if "msgs_at (qbuf q) p xs" "p + msgs_len xs \<le> head q \<or> head q + 4 + length (m @ z) \<le> p"
      "p + msgs_len xs \<le> qsize q" for p xs
  proof -
    have "msgs_at b p xs" using msgs_at_blit [OF that(1) b] that(2,3) l by auto
    then show ?thesis using msgs_at_blit [OF _ b2] that(2,3) lb by auto
  qed
  consider (lin) "tail q \<le> head q" "msgs_at (qbuf q) (tail q) ms" "head q = tail q + msgs_len ms"
    | (wrap) a c where "head q < tail q" "ms = a @ c" "msgs_at (qbuf q) (tail q) a"
        "tail q + msgs_len a + 4 \<le> qsize q" "span (qbuf q) (tail q + msgs_len a) 4 = le32 0"
        "msgs_at (qbuf q) 0 c" "head q = msgs_len c"
    using assms(1) unfolding queue_rep_def by blast
  then have "queue_rep q' (ms @ [m])"
  proof cases
    case lin
    have "msgs_at b2 (tail q) ms" using keep [OF lin(2)] lin assms(3) by simp
    then have "msgs_at b2 (tail q) (ms @ [m])" using at lin(3) by (simp add: msgs_at_append)
    then show ?thesis using lin lb l assms(3) by (simp add: queue_rep_def q'_def)
  next
    case wrap
    have "msgs_at b2 (tail q) a" using keep [OF wrap(3)] wrap assms(4) by simp
    moreover have "msgs_at b2 0 (c @ [m])"
      using keep [OF wrap(6)] wrap assms(3) at by (simp add: msgs_at_append)
    moreover have "span b2 (tail q + msgs_len a) 4 = le32 0"
      using span_blit_out [OF b2, of "tail q + msgs_len a" 4] span_blit_out [OF b, of "tail q + msgs_len a" 4]
        wrap assms(4) by simp
    ultimately show ?thesis
      using wrap lb l assms(3,4) queue_rep_wrapI [of q' a "c @ [m]"] by (simp add: q'_def)
  qed
  with b add show ?thesis by blast
qed

lemma mg_tcpip_qwrite_spec:
  assumes "queue_rep q ms" "m \<noteq> []"
  shows "\<exists>ok q'. mg_tcpip_qwrite m q = Some (ok, q') \<and> queue_rep q' (if ok then ms @ [m] else ms)"
proof -
  obtain space q' where b: "mg_queue_book q (length m) = Some (space, head q' + 4, q')" "queue_rep q' ms"
      "space > 0 \<longrightarrow> space \<ge> length m \<and> head q' + 8 + space \<le> qsize q' \<and>
        (head q' < tail q' \<longrightarrow> head q' + 8 + space \<le> tail q')"
    using queue_book_spec [OF assms(1), of "length m"] by blast
  show ?thesis
  proof (cases "space \<ge> length m")
    case False
    with b show ?thesis by (intro exI [of _ False] exI [of _ q']) (simp add: mg_tcpip_qwrite_def)
  next
    case True
    then have "head q' + 8 + length (m @ []) \<le> qsize q'"
      "head q' < tail q' \<longrightarrow> head q' + 8 + length (m @ []) \<le> tail q'" using b(3) assms(2) by (cases m; auto)+
    from queue_add_spec [OF b(2) assms(2) this] obtain bb q'' where
      "blit (qbuf q') (head q' + 4) m = Some bb"
      "mg_queue_add (q'\<lparr>qbuf := bb\<rparr>) (length m) = Some q''" "queue_rep q'' (ms @ [m])" by auto
    with b(1) True show ?thesis
      by (intro exI [of _ True] exI [of _ q'']) (simp add: mg_tcpip_qwrite_def)
  qed
qed

text \<open>
  The formatting producer queues its text when the length reported first is the length of the
  text; when it is smaller, a message that was not written is queued.
\<close>

lemma mg_queue_vprintf_spec:
  assumes "queue_rep q ms" "m \<noteq> []"
  shows "\<exists>n q'. mg_queue_vprintf (length m) m q = Some (n, q') \<and>
     (n = length m \<and> queue_rep q' (ms @ [m]) \<or> n = 0 \<and> queue_rep q' ms)"
proof -
  obtain space q' where b: "mg_queue_book q (length m + 1) = Some (space, head q' + 4, q')" "queue_rep q' ms"
      "space > 0 \<longrightarrow> space \<ge> length m + 1 \<and> head q' + 8 + space \<le> qsize q' \<and>
        (head q' < tail q' \<longrightarrow> head q' + 8 + space \<le> tail q')"
    using queue_book_spec [OF assms(1), of "length m + 1"] by blast
  show ?thesis
  proof (cases "space < length m + 1")
    case True
    with b assms(2) show ?thesis by (intro exI [of _ 0] exI [of _ q']) (simp add: mg_queue_vprintf_def)
  next
    case False
    then have "head q' + 8 + length (m @ [0]) \<le> qsize q'"
      "head q' < tail q' \<longrightarrow> head q' + 8 + length (m @ [0]) \<le> tail q'" using b(3) by auto
    from queue_add_spec [OF b(2) assms(2) this] obtain bb q'' where
      "blit (qbuf q') (head q' + 4) (m @ [0]) = Some bb"
      "mg_queue_add (q'\<lparr>qbuf := bb\<rparr>) (length m) = Some q''" "queue_rep q'' (ms @ [m])" by auto
    with b(1) False assms(2) show ?thesis
      by (intro exI [of _ "length m"] exI [of _ q'']) (simp add: mg_queue_vprintf_def)
  qed
qed

theorem mg_queue_vprintf_short:
  "map_option (\<lambda>(n, q). (n, map_option fst (queue_pop q)))
     (mg_queue_vprintf 1 [65, 66, 67] (mg_queue_init (replicate 32 7) 32)) =
   Some (3, Some (Some [65, 0, 7]))"
  by code_simp

subsection \<open>The consumer\<close>

lemma read_len_at:
  assumes "tail q + 4 \<le> length (qbuf q)" "span (qbuf q) (tail q) 4 = le32 (word_of_nat n)" "n < 2 ^ 32"
    "tail q + n + 4 \<le> qsize q"
  shows "mg_queue_read_len q = Some n"
  using assms by (simp add: mg_queue_read_len_def Let_def unat_of_nat take_bit_nat_eq_self)

lemma msgs_at_head:
  assumes "msgs_at b p (m # ms)" "p + msgs_len (m # ms) \<le> length b"
  shows "span b p 4 = le32 (word_of_nat (length m))" "span b (p + 4) (length m) = m"
proof -
  have "span b p 4 @ span b (p + 4) (length m) = le32 (word_of_nat (length m)) @ m"
    using assms(1) by (simp add: span_append_len)
  moreover have "length (span b p 4) = length (le32 (word_of_nat (length m)))" using assms(2) by simp
  ultimately show "span b p 4 = le32 (word_of_nat (length m))" "span b (p + 4) (length m) = m"
    using append_eq_append_conv by blast+
qed

lemma pop_front:
  assumes "msgs_at (qbuf q) (tail q) (m # ms)" "tail q + msgs_len (m # ms) + 4 \<le> qsize q"
    "length (qbuf q) = qsize q"
  shows "mg_queue_read_len q = Some (length m)" "m \<noteq> []"
    "mg_queue_del q (length m) = Some (q\<lparr>tail := tail q + (length m + 4)\<rparr>)"
    "span (qbuf q) (tail q + 4) (length m) = m"
  using assms msgs_at_head [of "qbuf q" "tail q" m ms]
  by (auto simp: mg_queue_del_def Let_def intro!: read_len_at)

text \<open>Where the next message is: nowhere, ahead, ahead with a wrap behind it, or behind a wrap marker.\<close>

lemma queue_rep_cases:
  assumes "queue_rep q ms"
  obtains (empty) "ms = []" "tail q = head q"
    | (lin) m r where "ms = m # r" "tail q < head q" "msgs_at (qbuf q) (tail q) ms" "head q = tail q + msgs_len ms"
    | (wrap) m r c where "ms = (m # r) @ c" "head q < tail q" "msgs_at (qbuf q) (tail q) (m # r)"
        "tail q + msgs_len (m # r) + 4 \<le> qsize q" "span (qbuf q) (tail q + msgs_len (m # r)) 4 = le32 0"
        "msgs_at (qbuf q) 0 c" "head q = msgs_len c"
    | (mark) "head q < tail q" "tail q + 4 \<le> qsize q" "span (qbuf q) (tail q) 4 = le32 0"
        "msgs_at (qbuf q) 0 ms" "head q = msgs_len ms"
proof -
  consider "tail q \<le> head q \<and> msgs_at (qbuf q) (tail q) ms \<and> head q = tail q + msgs_len ms"
    | a c where "head q < tail q" "ms = a @ c" "msgs_at (qbuf q) (tail q) a"
      "tail q + msgs_len a + 4 \<le> qsize q" "span (qbuf q) (tail q + msgs_len a) 4 = le32 0"
      "msgs_at (qbuf q) 0 c" "head q = msgs_len c"
    using assms unfolding queue_rep_def by blast
  then show thesis
  proof cases
    case 1
    then show thesis using that(1,2) by (cases ms) auto
  next
    case 2
    then show thesis using that(3,4) by (cases a) auto
  qed
qed

lemma queue_pop_spec:
  assumes "queue_rep q ms"
  shows "\<exists>q'. queue_pop q = Some (case ms of [] \<Rightarrow> None | m # _ \<Rightarrow> Some m, q') \<and> queue_rep q' (tl ms)"
proof -
  have l: "length (qbuf q) = qsize q" "qsize q < 2 ^ 32" "head q + 4 \<le> qsize q"
    using assms by (auto simp: queue_rep_def)
  note d = queue_pop_def mg_queue_next_def Let_def
  from assms show ?thesis
  proof (cases rule: queue_rep_cases)
    case empty
    then show ?thesis using assms l by (auto simp: d)
  next
    case (lin m r)
    have p: "msgs_at (qbuf q) (tail q) (m # r)" "tail q + msgs_len (m # r) + 4 \<le> qsize q"
      using lin l by auto
    note f = pop_front [OF p l(1)]
    have "queue_pop q = Some (Some m, q\<lparr>tail := tail q + (length m + 4)\<rparr>)"
      using f lin(2) p(2) l by (simp add: d)
    moreover have "queue_rep (q\<lparr>tail := tail q + (length m + 4)\<rparr>) r"
      using lin l p by (simp add: queue_rep_def ac_simps)
    ultimately show ?thesis using lin(1) by auto
  next
    case (wrap m r c)
    note f = pop_front [OF wrap(3,4) l(1)]
    have "queue_pop q = Some (Some m, q\<lparr>tail := tail q + (length m + 4)\<rparr>)"
      using f wrap(2,4) l by (simp add: d)
    moreover have "queue_rep (q\<lparr>tail := tail q + (length m + 4)\<rparr>) (r @ c)"
      using wrap l by (intro queue_rep_wrapI) (simp_all add: ac_simps)
    ultimately show ?thesis using wrap(1) by auto
  next
    case mark
    define q0 where "q0 = q\<lparr>tail := 0\<rparr>"
    have z: "mg_queue_read_len q = Some 0"
      using mark l by (intro read_len_at) auto
    have r0: "queue_rep q0 ms" using mark l by (simp add: queue_rep_def q0_def)
    show ?thesis
    proof (cases ms)
      case Nil
      then show ?thesis using mark z r0 by (auto simp: d q0_def)
    next
      case (Cons m r)
      have p: "msgs_at (qbuf q0) (tail q0) (m # r)" "tail q0 + msgs_len (m # r) + 4 \<le> qsize q0" "length (qbuf q0) = qsize q0"
        using mark l Cons by (auto simp: q0_def)
      note f = pop_front [OF p]
      have "queue_pop q = Some (Some m, q0\<lparr>tail := tail q0 + (length m + 4)\<rparr>)"
        using f z p mark Cons by (simp add: d q0_def)
      moreover have "queue_rep (q0\<lparr>tail := tail q0 + (length m + 4)\<rparr>) r"
        using p mark Cons l by (simp add: queue_rep_def q0_def ac_simps)
      ultimately show ?thesis using Cons by auto
    qed
  qed
qed

section \<open>The queue contract\<close>

text \<open>
  A queue that may refuse a message.  \<open>rep s xs\<close> relates a state to the messages waiting in it.
\<close>

datatype 'a queue_op = Push 'a | Pop

locale fifo =
  fixes rep :: "'s \<Rightarrow> 'a list \<Rightarrow> bool"
    and fit :: "'a \<Rightarrow> bool"
    and push :: "'a \<Rightarrow> 's \<Rightarrow> (bool \<times> 's) option"
    and pop :: "'s \<Rightarrow> ('a option \<times> 's) option"
  assumes push_law: "rep s xs \<Longrightarrow> fit x \<Longrightarrow> \<exists>ok s'. push x s = Some (ok, s') \<and> rep s' (if ok then xs @ [x] else xs)"
    and pop_law: "rep s xs \<Longrightarrow> \<exists>s'. pop s = Some (case xs of [] \<Rightarrow> None | x # _ \<Rightarrow> Some x, s') \<and> rep s' (tl xs)"
begin

text \<open>A run: the messages received, the messages accepted, the last state.\<close>

fun run :: "'s \<Rightarrow> 'a queue_op list \<Rightarrow> ('a list \<times> 'a list \<times> 's) option" where
  "run s [] = Some ([], [], s)"
| "run s (Push x # ops) = do {
     (ok, s') \<leftarrow> push x s;
     (got, acc, s'') \<leftarrow> run s' ops;
     Some (got, (if ok then [x] else []) @ acc, s'') }"
| "run s (Pop # ops) = do {
     (r, s') \<leftarrow> pop s;
     (got, acc, s'') \<leftarrow> run s' ops;
     Some ((case r of None \<Rightarrow> [] | Some x \<Rightarrow> [x]) @ got, acc, s'') }"

lemma run_fifo:
  "rep s xs \<Longrightarrow> \<forall>x. Push x \<in> set ops \<longrightarrow> fit x \<Longrightarrow> \<exists>got acc s' rest. run s ops = Some (got, acc, s') \<and> rep s' rest \<and> got @ rest = xs @ acc"
proof (induction ops arbitrary: s xs)
  case (Cons p ops)
  show ?case
  proof (cases p)
    case (Push x)
    obtain ok s' where s': "push x s = Some (ok, s')" "rep s' (if ok then xs @ [x] else xs)"
      using push_law [OF Cons.prems(1), of x] Cons.prems(2) Push by auto
    obtain got acc s'' rest where "run s' ops = Some (got, acc, s'')" "rep s'' rest"
        "got @ rest = (if ok then xs @ [x] else xs) @ acc"
      using Cons.IH [OF s'(2)] Cons.prems(2) by auto
    with s'(1) show ?thesis by (cases ok) (auto simp: Push)
  next
    case Pop
    obtain s' where s': "pop s = Some (case xs of [] \<Rightarrow> None | x # _ \<Rightarrow> Some x, s')" "rep s' (tl xs)"
      using pop_law [OF Cons.prems(1)] by blast
    obtain got acc s'' rest where "run s' ops = Some (got, acc, s'')" "rep s'' rest"
        "got @ rest = tl xs @ acc"
      using Cons.IH [OF s'(2)] Cons.prems(2) by auto
    with s'(1) show ?thesis by (cases xs) (auto simp: Pop)
  qed
qed auto

end

interpretation mq: fifo queue_rep "\<lambda>m. m \<noteq> []" mg_tcpip_qwrite queue_pop
  using mg_tcpip_qwrite_spec queue_pop_spec by unfold_locales blast+

text \<open>
  The queue accepts a message whenever the free space ahead of the producer holds its
  header, its bytes and the wrap mark.
\<close>

theorem mg_queue_accepts:
  assumes "queue_rep q ms" "m \<noteq> []" "tail q \<le> head q" "head q + length m + 8 \<le> qsize q"
  shows "\<exists>q'. mg_tcpip_qwrite m q = Some (True, q') \<and> queue_rep q' (ms @ [m])"
proof -
  have b: "mg_queue_book q (length m) = Some (qsize q - head q - 8, head q + 4, q)"
    using assms(3,4) by (simp add: mg_queue_book_def Let_def)
  have pre: "head q + 8 + length (m @ []) \<le> qsize q" "head q < tail q \<longrightarrow> head q + 8 + length (m @ []) \<le> tail q"
    using assms(3,4) by auto
  from queue_add_spec [OF assms(1,2) pre] b assms(2,4) show ?thesis
    by (auto simp: mg_tcpip_qwrite_def)
qed

theorem mg_queue_accepts_witness:
  "\<exists>q'. mg_tcpip_qwrite [7] (mg_queue_init (replicate 20 0) 20) = Some (True, q') \<and> queue_rep q' [[7]]"
  using mg_queue_accepts [of "mg_queue_init (replicate 20 0) 20" "[]" "[7]"]
  by (simp add: queue_rep_def mg_queue_init_def)

end
