(* ===== verification/Mg_Queue_Steps.thy ===== *)
theory Mg_Queue_Steps
  imports Mg_Queue "HOL-Library.Sublist"
begin

text \<open>
  The message queue shared by two threads, or by an interrupt and the polling loop: \<open>mg_tcpip_qwrite\<close> with
  \<open>mg_queue_book\<close> and \<open>mg_queue_add\<close> on one side, \<open>mg_queue_next\<close> and \<open>mg_queue_del\<close> on the
  other, cut at every access to the state they share.  A step is one read of the other side's
  index, one write of an own index, or one \<open>memcpy\<close>; the memory is sequentially consistent,
  which is what the barriers are for.
\<close>

section \<open>The code, one shared access at a time\<close>

text \<open>
  The producer: before the two tests of \<open>head \<ge> tail\<close>, the test of \<open>tail\<close> against the header
  size, the wrap mark and the wrap, the test for the space behind the consumer, the second read of
  \<open>tail\<close> that gives this space, the test of the result, then the copy, the length and the new
  head of \<open>mg_queue_add\<close>.
\<close>

datatype producer = PIdle | PAhead bytes | PBehind bytes | PUsed bytes | PMark bytes | PWrap bytes
  | PFree bytes nat | PSpace bytes | PBooked bytes nat | PCopy bytes | PLen bytes | PHead bytes

datatype consumer = CIdle | CRead | CReset | CAgain | CReread | CUse nat | CDel nat

record spsc =
  ring :: mg_queue
  producer :: producer
  consumer :: consumer
  todo :: "bytes list"
  accepted :: "bytes list"
  received :: "bytes list"

definition spsc_init :: "bytes \<Rightarrow> nat \<Rightarrow> bytes list \<Rightarrow> spsc" where
  "spsc_init b sz ms = \<lparr>ring = mg_queue_init b sz, producer = PIdle, consumer = CIdle, todo = ms,
     accepted = [], received = []\<rparr>"

text \<open>\<open>space\<close> is a 64-bit \<open>size_t\<close>: the second read of \<open>tail\<close> may already see it reset.\<close>

definition producer_step :: "spsc \<Rightarrow> spsc option" where
  "producer_step s = (let q = ring s in case producer s of
     PIdle \<Rightarrow> Some (case todo s of [] \<Rightarrow> s | m # r \<Rightarrow> s\<lparr>producer := PAhead m, todo := r\<rparr>)
   | PAhead m \<Rightarrow>
       Some (if head q \<ge> tail q \<and> head q + length m + 8 \<le> qsize q
             then s\<lparr>producer := PFree m (qsize q - head q - 8)\<rparr> else s\<lparr>producer := PBehind m\<rparr>)
   | PBehind m \<Rightarrow> Some (s\<lparr>producer := (if head q \<ge> tail q then PUsed m else PFree m 0)\<rparr>)
   | PUsed m \<Rightarrow> Some (s\<lparr>producer := (if tail q > 8 then PMark m else PFree m 0)\<rparr>)
   | PMark m \<Rightarrow> do { q \<leftarrow> mg_queue_write_len q 0; Some (s\<lparr>ring := q, producer := PWrap m\<rparr>) }
   | PWrap m \<Rightarrow> Some (s\<lparr>ring := q\<lparr>head := 0\<rparr>, producer := PFree m 0\<rparr>)
   | PFree m space \<Rightarrow>
       Some (s\<lparr>producer := (if head q + 8 + length m < tail q then PSpace m else PBooked m space)\<rparr>)
   | PSpace m \<Rightarrow> Some (s\<lparr>producer := PBooked m (nat ((int (tail q) - int (head q) - 8) mod 2 ^ 64))\<rparr>)
   | PBooked m space \<Rightarrow> Some (s\<lparr>producer := (if space \<ge> length m then PCopy m else PIdle)\<rparr>)
   | PCopy m \<Rightarrow> do { b \<leftarrow> blit (qbuf q) (head q + 4) m; Some (s\<lparr>ring := q\<lparr>qbuf := b\<rparr>, producer := PLen m\<rparr>) }
   | PLen m \<Rightarrow>
       if m = [] then None
       else do {
         q \<leftarrow> mg_queue_write_len q (length m);
         if head q + 8 + length m \<le> qsize q then Some (s\<lparr>ring := q, producer := PHead m\<rparr>) else None }
   | PHead m \<Rightarrow>
       Some (s\<lparr>ring := q\<lparr>head := head q + (length m + 4)\<rparr>, producer := PIdle, accepted := accepted s @ [m]\<rparr>))"

text \<open>
  The consumer: before the test of \<open>tail \<noteq> head\<close>, the read of a length, the reset of \<open>tail\<close> at a
  wrap mark, the second test and read, the use of a message of length \<open>n\<close> and its deletion.
\<close>

definition next_end :: "spsc \<Rightarrow> nat \<Rightarrow> spsc option" where
  "next_end s n =
     (if tail (ring s) + n \<le> qsize (ring s)
      then Some (s\<lparr>consumer := (if n = 0 then CIdle else CUse n)\<rparr>) else None)"

definition consumer_step :: "spsc \<Rightarrow> spsc option" where
  "consumer_step s = (let q = ring s in case consumer s of
     CIdle \<Rightarrow> if tail q \<noteq> head q then Some (s\<lparr>consumer := CRead\<rparr>) else next_end s 0
   | CRead \<Rightarrow> do {
       n \<leftarrow> mg_queue_read_len q;
       if n = 0 then Some (s\<lparr>consumer := CReset\<rparr>) else next_end s n }
   | CReset \<Rightarrow> Some (s\<lparr>ring := q\<lparr>tail := 0\<rparr>, consumer := CAgain\<rparr>)
   | CAgain \<Rightarrow> if head q > tail q then Some (s\<lparr>consumer := CReread\<rparr>) else next_end s 0
   | CReread \<Rightarrow> do { n \<leftarrow> mg_queue_read_len q; next_end s n }
   | CUse n \<Rightarrow>
       if tail q + 4 + n \<le> length (qbuf q)
       then Some (s\<lparr>consumer := CDel n, received := received s @ [span (qbuf q) (tail q + 4) n]\<rparr>)
       else None
   | CDel n \<Rightarrow> do { q \<leftarrow> mg_queue_del q n; Some (s\<lparr>ring := q, consumer := CIdle\<rparr>) })"

text \<open>A schedule says which side moves next: \<open>True\<close> the producer, \<open>False\<close> the consumer.\<close>

fun spsc_run :: "spsc \<Rightarrow> bool list \<Rightarrow> spsc option" where
  "spsc_run s [] = Some s"
| "spsc_run s (p # ps) = do { s' \<leftarrow> (if p then producer_step s else consumer_step s); spsc_run s' ps }"

section \<open>The invariant\<close>

text \<open>
  The messages \<open>a\<close> stand from \<open>tail\<close>; when the producer has wrapped (\<open>w\<close>), a mark follows
  them and the messages \<open>c\<close> stand from the start of the buffer.
\<close>

definition ring_of :: "mg_queue \<Rightarrow> bool \<Rightarrow> bytes list \<Rightarrow> bytes list \<Rightarrow> bool" where
  "ring_of q w a c \<longleftrightarrow> length (qbuf q) = qsize q \<and> qsize q < 2 ^ 32 \<and> head q + 4 \<le> qsize q \<and>
     msgs_at (qbuf q) (tail q) a \<and>
     (if w then head q < tail q \<and> tail q + msgs_len a + 4 \<le> qsize q \<and>
        span (qbuf q) (tail q + msgs_len a) 4 = le32 0 \<and> msgs_at (qbuf q) 0 c \<and> head q = msgs_len c
      else c = [] \<and> head q = tail q + msgs_len a)"

lemma queue_rep_ring: "queue_rep q ms \<longleftrightarrow> (\<exists>w a c. ring_of q w a c \<and> ms = a @ c)"
  by (auto simp: queue_rep_def ring_of_def ex_bool_eq)

text \<open>The room the producer has found for a message.\<close>

definition room :: "mg_queue \<Rightarrow> bytes \<Rightarrow> bool" where
  "room q m \<longleftrightarrow> head q + 8 + length m \<le> qsize q \<and> (head q < tail q \<longrightarrow> head q + 8 + length m \<le> tail q)"

fun producer_ok :: "mg_queue \<Rightarrow> producer \<Rightarrow> bool" where
  "producer_ok q PIdle = True"
| "producer_ok q (PAhead m) = (m \<noteq> [])"
| "producer_ok q (PBehind m) = (m \<noteq> [])"
| "producer_ok q (PUsed m) = (m \<noteq> [] \<and> tail q \<le> head q)"
| "producer_ok q (PMark m) = (m \<noteq> [] \<and> tail q \<le> head q \<and> 8 < tail q)"
| "producer_ok q (PWrap m) = (m \<noteq> [] \<and> tail q \<le> head q \<and> 8 < tail q \<and> span (qbuf q) (head q) 4 = le32 0)"
| "producer_ok q (PFree m space) = (m \<noteq> [] \<and> (space = 0 \<or> room q m))"
| "producer_ok q (PSpace m) = (m \<noteq> [] \<and> room q m)"
| "producer_ok q (PBooked m space) = (m \<noteq> [] \<and> (space = 0 \<or> room q m))"
| "producer_ok q (PCopy m) = (m \<noteq> [] \<and> room q m)"
| "producer_ok q (PLen m) = (m \<noteq> [] \<and> room q m \<and> span (qbuf q) (head q + 4) (length m) = m)"
| "producer_ok q (PHead m) =
     (m \<noteq> [] \<and> room q m \<and> msgs_at (qbuf q) (head q) [m])"

fun consumer_ok :: "mg_queue \<Rightarrow> bool \<Rightarrow> bytes list \<Rightarrow> consumer \<Rightarrow> bool" where
  "consumer_ok q w a CIdle = True"
| "consumer_ok q w a CRead = (a \<noteq> [] \<or> w)"
| "consumer_ok q w a CReset = (a = [] \<and> w)"
| "consumer_ok q w a CAgain = (\<not> w \<and> tail q = 0)"
| "consumer_ok q w a CReread = (\<not> w \<and> tail q = 0 \<and> a \<noteq> [])"
| "consumer_ok q w a (CUse n) = (a \<noteq> [] \<and> n = length (hd a))"
| "consumer_ok q w a (CDel n) = (a \<noteq> [] \<and> n = length (hd a))"

text \<open>The messages accepted and not yet received; one in use is still in the buffer.\<close>

definition undelivered :: "consumer \<Rightarrow> bytes list \<Rightarrow> bytes list" where
  "undelivered k ms = (case k of CDel n \<Rightarrow> tl ms | _ \<Rightarrow> ms)"

fun pending :: "producer \<Rightarrow> bytes list" where
  "pending PIdle = []"
| "pending (PAhead m) = [m]"
| "pending (PBehind m) = [m]"
| "pending (PUsed m) = [m]"
| "pending (PMark m) = [m]"
| "pending (PWrap m) = [m]"
| "pending (PFree m _) = [m]"
| "pending (PSpace m) = [m]"
| "pending (PBooked m _) = [m]"
| "pending (PCopy m) = [m]"
| "pending (PLen m) = [m]"
| "pending (PHead m) = [m]"

definition spsc_inv :: "spsc \<Rightarrow> bool \<Rightarrow> bytes list \<Rightarrow> bytes list \<Rightarrow> bool" where
  "spsc_inv s w a c \<longleftrightarrow> ring_of (ring s) w a c \<and> producer_ok (ring s) (producer s) \<and>
     consumer_ok (ring s) w a (consumer s) \<and> [] \<notin> set (todo s) \<and>
     accepted s = received s @ undelivered (consumer s) (a @ c)"

section \<open>Every step keeps it\<close>

lemma ring_of_wr:
  assumes "ring_of q w a c" "blit (qbuf q) ofs src = Some b"
    "head q \<le> ofs" "w \<Longrightarrow> ofs + length src \<le> tail q"
  shows "ring_of (q\<lparr>qbuf := b\<rparr>) w a c"
proof -
  note r = assms(1) [unfolded ring_of_def]
  have l: "length b = length (qbuf q)" by (rule length_blit [OF assms(2)])
  show ?thesis
  proof (cases w)
    case True
    then have o: "ofs + length src \<le> tail q" by (rule assms(4))
    have "span b (tail q + msgs_len a) 4 = span (qbuf q) (tail q + msgs_len a) 4"
      by (rule span_blit_out [OF assms(2)]) (use o in simp)
    moreover have "msgs_at b (tail q) a" "msgs_at b 0 c"
      using r True o assms(3) by (auto intro!: msgs_at_blit [OF _ assms(2)])
    ultimately show ?thesis using r l True by (simp add: ring_of_def)
  next
    case False
    then have "msgs_at b (tail q) a" using r assms(3) by (auto intro!: msgs_at_blit [OF _ assms(2)])
    then show ?thesis using r l False by (simp add: ring_of_def)
  qed
qed

lemma consumer_ok_qbuf [simp]: "consumer_ok (q\<lparr>qbuf := b\<rparr>) w a k = consumer_ok q w a k"
  by (cases k) auto

lemma ring_of_tail_le: "ring_of q w a c \<Longrightarrow> tail q \<le> head q \<longleftrightarrow> \<not> w"
  by (auto simp: ring_of_def)

lemma producer_wr:
  assumes "ring_of q w a c" "head q + n \<le> qsize q"
    "w \<Longrightarrow> head q + n \<le> tail q" "d + length src \<le> n"
  shows "\<exists>b. blit (qbuf q) (head q + d) src = Some b \<and> ring_of (q\<lparr>qbuf := b\<rparr>) w a c"
proof -
  obtain b where b: "blit (qbuf q) (head q + d) src = Some b"
    using assms(1,2,4) by (auto simp: blit_def ring_of_def)
  have "ring_of (q\<lparr>qbuf := b\<rparr>) w a c"
    by (rule ring_of_wr [OF assms(1) b]) (use assms(3,4) in auto)
  with b show ?thesis by blast
qed

lemma room_wr:
  assumes "ring_of q w a c" "room q m" "d + length src \<le> 8 + length m"
  shows "\<exists>b. blit (qbuf q) (head q + d) src = Some b \<and> ring_of (q\<lparr>qbuf := b\<rparr>) w a c"
  by (rule producer_wr [OF assms(1), where n = "8 + length m"])
     (use assms in \<open>auto simp: room_def ring_of_def\<close>)

text \<open>The second read of \<open>tail\<close> is safe: reset or advanced, it still gives room enough.\<close>

lemma space_ge:
  assumes "ring_of q w a c" "room q m"
  shows "length m \<le> nat ((int (tail q) - int (head q) - 8) mod 2 ^ 64)"
proof -
  have sz: "qsize q < 2 ^ 32" "tail q \<le> qsize q" "head q \<le> qsize q"
    using assms(1) by (auto simp: ring_of_def split: if_splits)
  show ?thesis
  proof (cases "head q < tail q")
    case True
    then have "(int (tail q) - int (head q) - 8) mod 2 ^ 64 = int (tail q) - int (head q) - 8"
      using assms(2) sz by (intro mod_pos_pos_trivial) (auto simp: room_def)
    then show ?thesis using True assms(2) by (auto simp: room_def)
  next
    case False
    have "(int (tail q) - int (head q) - 8) mod 2 ^ 64 = (int (tail q) - int (head q) - 8 + 2 ^ 64) mod 2 ^ 64"
      by (rule mod_add_self2 [symmetric])
    also have "\<dots> = int (tail q) - int (head q) - 8 + 2 ^ 64"
      using False sz by (intro mod_pos_pos_trivial) auto
    finally have "(int (tail q) - int (head q) - 8) mod 2 ^ 64 = int (tail q) - int (head q) - 8 + 2 ^ 64" .
    then show ?thesis using False sz assms(2) by (simp add: room_def)
  qed
qed

definition spsc_ok :: "spsc \<Rightarrow> bool" where
  "spsc_ok s \<longleftrightarrow> (\<exists>w a c. spsc_inv s w a c)"

lemma okI: "spsc_inv s w a c \<Longrightarrow> spsc_ok s"
  by (auto simp: spsc_ok_def)

lemma subseq_refused: "subseq (x @ y @ t) (x @ y @ m # t)"
  by (simp add: subseq_append' list_emb_Cons)

lemma producer_step_ok:
  assumes "spsc_inv s w a c"
  shows "\<exists>s'. producer_step s = Some s' \<and> spsc_ok s' \<and>
     subseq (accepted s' @ pending (producer s') @ todo s') (accepted s @ pending (producer s) @ todo s)"
proof -
  note d = producer_step_def Let_def spsc_inv_def
  have r: "ring_of (ring s) w a c" and p: "producer_ok (ring s) (producer s)"
    and k: "consumer_ok (ring s) w a (consumer s)" and t: "[] \<notin> set (todo s)"
    and acc: "accepted s = received s @ undelivered (consumer s) (a @ c)"
    using assms by (auto simp: spsc_inv_def)
  define q where "q = ring s"
  note r = r [folded q_def] and p = p [folded q_def] and k = k [folded q_def]
  have le: "tail q \<le> head q \<longleftrightarrow> \<not> w" using r by (rule ring_of_tail_le)
  show ?thesis
  proof (cases "producer s")
    case PIdle
    then show ?thesis using r p k t acc
      by (cases "todo s") (auto simp: d q_def intro!: okI [where w = w and a = a and c = c])
  next
    case (PAhead m)
    then show ?thesis using r p k t acc
      by (auto simp: d q_def room_def intro!: okI [where w = w and a = a and c = c])
  next
    case (PBehind m)
    then show ?thesis using r p k t acc
      by (auto simp: d q_def intro!: okI [where w = w and a = a and c = c])
  next
    case (PUsed m)
    then show ?thesis using r p k t acc
      by (auto simp: d q_def intro!: okI [where w = w and a = a and c = c])
  next
    case (PMark m)
    have "\<exists>b. blit (qbuf q) (head q + 0) (le32 0) = Some b \<and> ring_of (q\<lparr>qbuf := b\<rparr>) w a c"
      by (rule producer_wr [OF r, where n = 4]) (use p PMark le r in \<open>auto simp: ring_of_def\<close>)
    then obtain b where b: "blit (qbuf q) (head q) (le32 0) = Some b" "ring_of (q\<lparr>qbuf := b\<rparr>) w a c" by auto
    then show ?thesis using PMark p k t acc span_blit_in [OF b(1)]
      by (auto simp: d q_def mg_queue_write_len_def intro!: okI [where w = w and a = a and c = c])
  next
    case (PWrap m)
    have "ring_of (q\<lparr>head := 0\<rparr>) True a []" using r p PWrap le by (auto simp: ring_of_def)
    moreover have "consumer_ok (q\<lparr>head := 0\<rparr>) True a (consumer s)"
      using k p PWrap le by (cases "consumer s") auto
    moreover have "c = []" using r p PWrap le by (auto simp: ring_of_def)
    ultimately show ?thesis using PWrap p t acc
      by (auto simp: d q_def intro!: okI [where w = True and a = a and c = "[]"])
  next
    case (PFree m space)
    have "head q + 8 + length m < tail q \<Longrightarrow> room q m"
      using r by (auto simp: room_def ring_of_def split: if_splits)
    then show ?thesis using PFree r p k t acc
      by (auto simp: d q_def intro!: okI [where w = w and a = a and c = c])
  next
    case (PSpace m)
    then show ?thesis using r p k t acc
      by (auto simp: d q_def intro!: okI [where w = w and a = a and c = c])
  next
    case (PBooked m space)
    then show ?thesis using r p k t acc
      by (auto simp: d q_def intro!: subseq_refused okI [where w = w and a = a and c = c])
  next
    case (PCopy m)
    have "\<exists>b. blit (qbuf q) (head q + 4) m = Some b \<and> ring_of (q\<lparr>qbuf := b\<rparr>) w a c"
      by (rule room_wr [OF r]) (use p PCopy in auto)
    then obtain b where b: "blit (qbuf q) (head q + 4) m = Some b" "ring_of (q\<lparr>qbuf := b\<rparr>) w a c" by auto
    then show ?thesis using PCopy p k t acc span_blit_in [OF b(1)]
      by (auto simp: d q_def room_def intro!: okI [where w = w and a = a and c = c])
  next
    case (PLen m)
    have "\<exists>b. blit (qbuf q) (head q + 0) (le32 (word_of_nat (length m))) = Some b \<and> ring_of (q\<lparr>qbuf := b\<rparr>) w a c"
      by (rule room_wr [OF r]) (use p PLen in auto)
    then obtain b where b: "blit (qbuf q) (head q) (le32 (word_of_nat (length m))) = Some b"
        "ring_of (q\<lparr>qbuf := b\<rparr>) w a c" by auto
    have "span b (head q + 4) (length m) = span (qbuf q) (head q + 4) (length m)"
      by (rule span_blit_out [OF b(1)]) simp
    then have "msgs_at b (head q) [m]"
      using span_blit_in [OF b(1)] p PLen r by (auto simp: span_append_len room_def ring_of_def)
    then show ?thesis using b PLen p k t acc
      by (auto simp: d q_def room_def mg_queue_write_len_def intro!: okI [where w = w and a = a and c = c])
  next
    case (PHead m)
    define q' where "q' = q\<lparr>head := head q + (length m + 4)\<rparr>"
    have m: "m \<noteq> []" "room q m" "msgs_at (qbuf q) (head q) [m]" using p PHead by auto
    show ?thesis
    proof (cases w)
      case True
      have "ring_of q' True a (c @ [m])"
        using r m True by (auto simp: ring_of_def q'_def room_def msgs_at_append)
      moreover have "consumer_ok q' True a (consumer s)" using k True by (cases "consumer s") (auto simp: q'_def)
      moreover have "undelivered (consumer s) (a @ c @ [m]) = undelivered (consumer s) (a @ c) @ [m]"
        using k True by (cases "consumer s") (auto simp: undelivered_def)
      ultimately show ?thesis using PHead t acc
        by (auto simp: d q_def [symmetric] q'_def intro!: okI [where w = True and a = a and c = "c @ [m]"])
    next
      case False
      then have c: "c = []" using r by (simp add: ring_of_def)
      have "ring_of q' False (a @ [m]) []"
        using r m False by (auto simp: ring_of_def q'_def room_def msgs_at_append)
      moreover have "consumer_ok q' False (a @ [m]) (consumer s)"
        using k False by (cases "consumer s") (auto simp: q'_def)
      moreover have "undelivered (consumer s) (a @ [m]) = undelivered (consumer s) a @ [m]"
        using k False by (cases "consumer s") (auto simp: undelivered_def)
      ultimately show ?thesis using PHead t acc c
        by (auto simp: d q_def [symmetric] q'_def intro!: okI [where w = False and a = "a @ [m]" and c = "[]"])
    qed
  qed
qed


lemma producer_ok_tail:
  assumes "producer_ok q k" "tail q \<le> head q \<Longrightarrow> tail q \<le> t \<and> t \<le> head q"
    "head q < tail q \<Longrightarrow> tail q \<le> t \<or> t \<le> head q"
  shows "producer_ok (q\<lparr>tail := t\<rparr>) k"
  using assms by (cases k) (auto simp: room_def)

lemma front_len:
  assumes "ring_of q w a c" "a \<noteq> []"
  shows "mg_queue_read_len q = Some (length (hd a))" "hd a \<noteq> []"
    "mg_queue_del q (length (hd a)) = Some (q\<lparr>tail := tail q + (length (hd a) + 4)\<rparr>)"
    "span (qbuf q) (tail q + 4) (length (hd a)) = hd a"
    "tail q + 4 + length (hd a) \<le> qsize q" "tail q \<noteq> head q"
proof -
  obtain m r where a: "a = m # r" using assms(2) by (cases a) auto
  have p: "msgs_at (qbuf q) (tail q) (m # r)" "tail q + msgs_len (m # r) + 4 \<le> qsize q"
      "length (qbuf q) = qsize q"
    using assms(1) a by (auto simp: ring_of_def split: if_splits)
  from pop_front [OF p] a p show "mg_queue_read_len q = Some (length (hd a))" "hd a \<noteq> []"
    "mg_queue_del q (length (hd a)) = Some (q\<lparr>tail := tail q + (length (hd a) + 4)\<rparr>)"
    "span (qbuf q) (tail q + 4) (length (hd a)) = hd a"
    "tail q + 4 + length (hd a) \<le> qsize q" by simp_all
  show "tail q \<noteq> head q" using assms(1) a by (auto simp: ring_of_def split: if_splits)
qed

lemma msgs_len_0: "msgs_len ms = 0 \<longleftrightarrow> ms = []"
  by (cases ms) auto

lemma read_mark:
  assumes "ring_of q True [] c"
  shows "mg_queue_read_len q = Some 0"
  using assms by (intro read_len_at) (auto simp: ring_of_def)

fun consumer_rank :: "consumer \<Rightarrow> nat" where
  "consumer_rank CIdle = 6"
| "consumer_rank CRead = 5"
| "consumer_rank CReset = 4"
| "consumer_rank CAgain = 6"
| "consumer_rank CReread = 5"
| "consumer_rank (CUse _) = 4"
| "consumer_rank (CDel _) = 3"

definition work_left :: "bool \<Rightarrow> bytes list \<Rightarrow> bytes list \<Rightarrow> consumer \<Rightarrow> nat" where
  "work_left w a c k = 8 * length (a @ c) + (if w then 8 else 0) + consumer_rank k"

definition spsc_near :: "spsc \<Rightarrow> nat \<Rightarrow> bool" where
  "spsc_near s n \<longleftrightarrow> (\<exists>w a c. spsc_inv s w a c \<and> work_left w a c (consumer s) < n)"

lemma nearI: "spsc_inv s w a c \<Longrightarrow> work_left w a c (consumer s) < n \<Longrightarrow> spsc_near s n"
  by (auto simp: spsc_near_def)

lemma consumer_step_inv:
  assumes "spsc_inv s w a c"
  shows "\<exists>s'. consumer_step s = Some s' \<and> spsc_ok s' \<and>
     (a @ c = [] \<or> spsc_near s' (work_left w a c (consumer s))) \<and>
     accepted s' = accepted s \<and> producer s' = producer s \<and> todo s' = todo s"
proof -
  note d = consumer_step_def Let_def spsc_inv_def next_end_def work_left_def
  have r: "ring_of (ring s) w a c" and p: "producer_ok (ring s) (producer s)"
    and k: "consumer_ok (ring s) w a (consumer s)" and t: "[] \<notin> set (todo s)"
    and acc: "accepted s = received s @ undelivered (consumer s) (a @ c)"
    using assms by (auto simp: spsc_inv_def)
  define q where "q = ring s"
  note r = r [folded q_def] and p = p [folded q_def] and k = k [folded q_def]
  have le: "tail q \<le> head q \<longleftrightarrow> \<not> w" using r by (rule ring_of_tail_le)
  have sz: "tail q \<le> qsize q" using r by (auto simp: ring_of_def split: if_splits)
  show ?thesis
  proof (cases "consumer s")
    case CIdle
    have "tail q \<noteq> head q \<Longrightarrow> a \<noteq> [] \<or> w" using r by (auto simp: ring_of_def split: if_splits)
    moreover have "tail q = head q \<Longrightarrow> a = [] \<and> c = []"
      using r by (auto simp: ring_of_def msgs_len_0 split: if_splits)
    ultimately show ?thesis using CIdle r p k t acc sz
      by (auto simp: d q_def undelivered_def intro!: okI [where w = w and a = a and c = c] nearI [where w = w and a = a and c = c])
  next
    case CRead
    show ?thesis
    proof (cases "a = []")
      case False
      then show ?thesis using CRead front_len [OF r] r p k t acc
        by (auto simp: d q_def undelivered_def intro!: okI [where w = w and a = a and c = c] nearI [where w = w and a = a and c = c])
    next
      case True
      then have "w" using k CRead by auto
      then show ?thesis using True CRead r p t acc read_mark [of q c]
        by (auto simp: d q_def undelivered_def intro!: okI [where w = w and a = a and c = c] nearI [where w = w and a = a and c = c])
    qed
  next
    case CReset
    then have a: "a = []" "w" using k by auto
    have "ring_of (q\<lparr>tail := 0\<rparr>) False c []" using r a by (auto simp: ring_of_def)
    moreover have "producer_ok (q\<lparr>tail := 0\<rparr>) (producer s)"
      by (rule producer_ok_tail [OF p]) (use le a in auto)
    ultimately show ?thesis using a CReset t acc
      by (auto simp: d q_def undelivered_def intro!: okI [where w = False and a = c and c = "[]"] nearI [where w = False and a = c and c = "[]"])
  next
    case CAgain
    have "head q > tail q \<Longrightarrow> a \<noteq> []" using r k CAgain by (auto simp: ring_of_def)
    moreover have "\<not> head q > tail q \<Longrightarrow> a = [] \<and> c = []"
      using r k CAgain by (auto simp: ring_of_def msgs_len_0 split: if_splits)
    ultimately show ?thesis using CAgain r p k t acc sz
      by (auto simp: d q_def undelivered_def intro!: okI [where w = w and a = a and c = c] nearI [where w = w and a = a and c = c])
  next
    case CReread
    then show ?thesis using front_len [OF r] r p k t acc
      by (auto simp: d q_def undelivered_def intro!: okI [where w = w and a = a and c = c] nearI [where w = w and a = a and c = c])
  next
    case (CUse n)
    then obtain m l where a: "a = m # l" "n = length m" using k by (cases a) auto
    have "length (qbuf q) = qsize q" using r by (simp add: ring_of_def)
    then show ?thesis using CUse a front_len [OF r] r p k t acc
      by (auto simp: d q_def undelivered_def intro!: okI [where w = w and a = a and c = c] nearI [where w = w and a = a and c = c])
  next
    case (CDel n)
    then obtain m l where a: "a = m # l" "n = length m" using k by (cases a) auto
    define q' where "q' = q\<lparr>tail := tail q + (length m + 4)\<rparr>"
    have "ring_of q' w l c" using r a by (auto simp: ring_of_def q'_def ac_simps split: if_splits)
    moreover have "producer_ok q' (producer s)"
      unfolding q'_def by (rule producer_ok_tail [OF p]) (use r a in \<open>auto simp: ring_of_def split: if_splits\<close>)
    moreover have "mg_queue_del q n = Some q'" using front_len(3) [OF r] a by (simp add: q'_def)
    ultimately show ?thesis using CDel a t acc
      by (auto simp: d q_def [symmetric] undelivered_def intro!: okI [where w = w and a = l and c = c] nearI [where w = w and a = l and c = c])
  qed
qed


lemma spsc_run_append: "spsc_run s (p @ p') = Option.bind (spsc_run s p) (\<lambda>s'. spsc_run s' p')"
  by (induction s p rule: spsc_run.induct) (auto split: Option.bind_split)

lemma spsc_run_ok:
  "spsc_ok s \<Longrightarrow> \<exists>s'. spsc_run s ps = Some s' \<and> spsc_ok s' \<and>
     subseq (accepted s' @ pending (producer s') @ todo s') (accepted s @ pending (producer s) @ todo s)"
proof (induction ps arbitrary: s)
  case (Cons p ps)
  obtain w a c where i: "spsc_inv s w a c" using Cons.prems by (auto simp: spsc_ok_def)
  obtain s1 where s1: "(if p then producer_step s else consumer_step s) = Some s1" "spsc_ok s1"
      "subseq (accepted s1 @ pending (producer s1) @ todo s1) (accepted s @ pending (producer s) @ todo s)"
    using producer_step_ok [OF i] consumer_step_inv [OF i] by (cases p) auto
  obtain s2 where "spsc_run s1 ps = Some s2" "spsc_ok s2"
      "subseq (accepted s2 @ pending (producer s2) @ todo s2) (accepted s1 @ pending (producer s1) @ todo s1)"
    using Cons.IH [OF s1(2)] by blast
  then show ?case using s1 subseq_order.order_trans by (auto simp del: if_split)
qed simp

lemma spsc_drain:
  "spsc_inv s w a c \<Longrightarrow> \<exists>n s'. spsc_run s (replicate n False) = Some s' \<and>
     accepted s' = accepted s \<and> received s' = accepted s"
proof (induction "work_left w a c (consumer s)" arbitrary: s w a c rule: less_induct)
  case less
  show ?case
  proof (cases "a @ c = []")
    case True
    then show ?thesis using less.prems
      by (intro exI [of _ 0] exI [of _ s]) (auto simp: spsc_inv_def undelivered_def split: consumer.splits)
  next
    case False
    obtain s1 where s1: "consumer_step s = Some s1" "accepted s1 = accepted s"
        "spsc_near s1 (work_left w a c (consumer s))"
      using consumer_step_inv [OF less.prems] False by auto
    then obtain w' a' c' where i: "spsc_inv s1 w' a' c'"
        "work_left w' a' c' (consumer s1) < work_left w a c (consumer s)" by (auto simp: spsc_near_def)
    from less.hyps [OF i(2,1)] obtain n s2 where "spsc_run s1 (replicate n False) = Some s2"
        "accepted s2 = accepted s1" "received s2 = accepted s1" by blast
    then show ?thesis using s1 by (intro exI [of _ "Suc n"] exI [of _ s2]) simp
  qed
qed

section \<open>The sequential operations\<close>

lemma run_Suc [simp]: "spsc_run s (replicate (Suc n) p) =
    Option.bind (if p then producer_step s else consumer_step s) (\<lambda>s'. spsc_run s' (replicate n p))"
  by simp

lemma producer_from_free:
  assumes "producer s = PFree m space" "tail (ring s) < 2 ^ 64"
   "space' = (if head (ring s) + 8 + length m < tail (ring s) then tail (ring s) - head (ring s) - 8 else space)"
  shows "\<exists>n. spsc_run s (replicate n True) =
    map_option (\<lambda>(ok, q). s\<lparr>ring := q, producer := PIdle, accepted := accepted s @ (if ok then [m] else [])\<rparr>)
    (if space' \<ge> length m then
      do { b \<leftarrow> blit (qbuf (ring s)) (head (ring s) + 4) m;
           q \<leftarrow> mg_queue_add ((ring s)\<lparr>qbuf := b\<rparr>) (length m);
           Some (True, q) }
    else Some (False, ring s))"
proof -
  define n1 :: nat where "n1 = (if head (ring s) + 8 + length m < tail (ring s) then 3 else 2)"
  have "spsc_run s (replicate n1 True) = Some (s\<lparr>producer := (if space' \<ge> length m then PCopy m else PIdle)\<rparr>)"
  proof (cases "head (ring s) + 8 + length m < tail (ring s)")
    case True
    have "(int (tail (ring s)) - int (head (ring s)) - 8) mod 2 ^ 64 = int (tail (ring s)) - int (head (ring s)) - 8"
      using True assms(2) by (intro mod_pos_pos_trivial) simp_all
    with True assms show ?thesis by (simp add: n1_def producer_step_def Let_def numeral_3_eq_3 numeral_2_eq_2)
  next
    case False
    with assms show ?thesis by (simp add: n1_def producer_step_def Let_def numeral_3_eq_3 numeral_2_eq_2)
  qed
  then have "spsc_run s (replicate (n1 + n) True) = spsc_run (s\<lparr>producer := (if space' \<ge> length m then PCopy m else PIdle)\<rparr>) (replicate n True)" for n
    by (simp add: replicate_add spsc_run_append)
  note n1 = this
  have "spsc_run (s\<lparr>producer := PCopy m\<rparr>) (replicate 3 True) = 
      do { b \<leftarrow> blit (qbuf (ring s)) (head (ring s) + 4) m;
           q \<leftarrow> mg_queue_add ((ring s)\<lparr>qbuf := b\<rparr>) (length m);
           Some (s\<lparr>ring := q, producer := PIdle, accepted := accepted s @ [m]\<rparr>) }"
   by (cases s) (auto simp: numeral_3_eq_3 producer_step_def Let_def mg_queue_add_def mg_queue_write_len_def split: Option.bind_splits)
  note copy = this
  show ?thesis
  proof (cases "space' \<ge> length m")
    case True
    then show ?thesis using n1 [of 3] copy
      by (intro exI [of _ "n1 + 3"]) (auto simp: map_option_case split: Option.bind_splits option.splits)
  next
    case False
    then show ?thesis using n1 [of 0] by (intro exI [of _ n1]) (cases s, simp)
  qed
qed


text \<open>Alone, the steps of the two sides are the operations of the sequential model.\<close>

lemma run_split: "spsc_run s (replicate k p) = Some s1 \<Longrightarrow> \<exists>n. spsc_run s1 (replicate n p) = r \<Longrightarrow>
    \<exists>n. spsc_run s (replicate n p) = r"
  by (metis bind.bind_lunit replicate_add spsc_run_append)

lemma run_split_None: "spsc_run s (replicate k p) = None \<Longrightarrow> \<exists>n. spsc_run s (replicate n p) = None"
  by blast

lemma book_steps:
  assumes "producer s = PIdle" "todo s = m # r"
  shows "(\<exists>k. spsc_run s (replicate k True) = None) \<and> mg_queue_book (ring s) (length m) = None \<or>
    (\<exists>k sp q. spsc_run s (replicate k True) = Some (s\<lparr>ring := q, producer := PFree m sp, todo := r\<rparr>) \<and>
      tail q = tail (ring s) \<and>
      mg_queue_book (ring s) (length m) =
        Some (if head q + 8 + length m < tail q then tail q - head q - 8 else sp, head q + 4, q))"
proof -
  define q where "q = ring s"
  note e = numeral_eq_Suc producer_step_def Let_def q_def mg_queue_book_def
  consider (ahead) "tail q \<le> head q" "head q + length m + 8 \<le> qsize q"
    | (behind) "\<not> tail q \<le> head q"
    | (used) "tail q \<le> head q" "\<not> head q + length m + 8 \<le> qsize q" "\<not> tail q > 8"
    | (mark) "tail q \<le> head q" "\<not> head q + length m + 8 \<le> qsize q" "tail q > 8" by linarith
  then show ?thesis
  proof cases
    case ahead
    then show ?thesis using assms
      by (intro disjI2 exI [of _ 2] exI [of _ "qsize q - head q - 8"] exI [of _ q]) (cases s, simp add: e)
  next
    case behind
    then show ?thesis using assms
      by (intro disjI2 exI [of _ 3] exI [of _ 0] exI [of _ q]) (cases s, simp add: e)
  next
    case used
    then show ?thesis using assms
      by (intro disjI2 exI [of _ 4] exI [of _ 0] exI [of _ q]) (cases s, simp add: e)
  next
    case mark
    show ?thesis
    proof (cases "mg_queue_write_len q 0")
      case None
      then have "spsc_run s (replicate 5 True) = None" "mg_queue_book (ring s) (length m) = None"
        using mark assms by (cases s, simp add: e)+
      then show ?thesis by blast
    next
      case (Some q1)
      then have "head q1 = head q" "tail q1 = tail q" by (auto simp: mg_queue_write_len_def split: bind_splits)
      with Some mark assms show ?thesis
        by (intro disjI2 exI [of _ 6] exI [of _ 0] exI [of _ "q1\<lparr>head := 0\<rparr>"]) (cases s, simp add: e)
    qed
  qed
qed

lemma producer_alone:
  assumes "producer s = PIdle" "todo s = m # r" "tail (ring s) < 2 ^ 64"
  shows "\<exists>n. spsc_run s (replicate n True) =
     map_option (\<lambda>(ok, q). s\<lparr>ring := q, producer := PIdle, todo := r,
       accepted := accepted s @ (if ok then [m] else [])\<rparr>) (mg_tcpip_qwrite m (ring s))"
  using book_steps [OF assms(1,2)]
proof (elim disjE exE conjE)
  fix k assume "spsc_run s (replicate k True) = None" "mg_queue_book (ring s) (length m) = None"
  then show ?thesis by (intro exI [of _ k]) (simp add: mg_tcpip_qwrite_def)
next
  fix k sp q
  assume k: "spsc_run s (replicate k True) = Some (s\<lparr>ring := q, producer := PFree m sp, todo := r\<rparr>)"
    and t: "tail q = tail (ring s)"
    and b: "mg_queue_book (ring s) (length m) =
        Some (if head q + 8 + length m < tail q then tail q - head q - 8 else sp, head q + 4, q)"
  define s1 where "s1 = s\<lparr>ring := q, producer := PFree m sp, todo := r\<rparr>"
  have s1: "ring s1 = q" "producer s1 = PFree m sp"
    "s1\<lparr>ring := q', producer := PIdle, accepted := accepted s1 @ x\<rparr> =
     s\<lparr>ring := q', producer := PIdle, todo := r, accepted := accepted s @ x\<rparr>" for q' x
    by (cases s; simp add: s1_def)+
  define sp' where "sp' = (if head q + 8 + length m < tail q then tail q - head q - 8 else sp)"
  have "mg_tcpip_qwrite m (ring s) = (if length m \<le> sp' then
      do { b \<leftarrow> blit (qbuf q) (head q + 4) m; q \<leftarrow> mg_queue_add (q\<lparr>qbuf := b\<rparr>) (length m); Some (True, q) }
      else Some (False, q))"
    using b by (simp add: mg_tcpip_qwrite_def sp'_def)
  moreover have "tail (ring s1) < 2 ^ 64" using t assms(3) s1(1) by simp
  ultimately show ?thesis
    using run_split [OF k [folded s1_def]] producer_from_free [OF s1(2), where space' = sp']
    by (simp only: s1 sp'_def)
qed

definition pop_end :: "mg_queue \<Rightarrow> nat \<Rightarrow> (bytes option \<times> mg_queue) option" where
  "pop_end q n =
     (if tail q + n \<le> qsize q then
        if n = 0 then Some (None, q)
        else if tail q + 4 + n \<le> length (qbuf q) then do {
          q' \<leftarrow> mg_queue_del q n; Some (Some (span (qbuf q) (tail q + 4) n), q') }
        else None
      else None)"

lemma next_end_run:
  assumes "spsc_run s (replicate k False) = next_end s1 n" "ring s1 = q"
    "s1\<lparr>consumer := CIdle\<rparr> = s\<lparr>ring := q, consumer := CIdle\<rparr>" "received s1 = received s"
  shows "\<exists>n'. spsc_run s (replicate n' False) =
     map_option (\<lambda>(r, q). s\<lparr>ring := q, consumer := CIdle,
       received := received s @ (case r of None \<Rightarrow> [] | Some m \<Rightarrow> [m])\<rparr>)
     (pop_end q n)"
proof (cases "tail q + n \<le> qsize q \<and> n \<noteq> 0")
  case False
  then show ?thesis using assms by (intro exI [of _ k]) (cases s, auto simp: next_end_def pop_end_def)
next
  case True
  have u: "s1\<lparr>consumer := k, received := x\<rparr> = s\<lparr>ring := q, consumer := k, received := x\<rparr>" for k x
    using assms(3) by (cases s; cases s1) auto
  have "spsc_run s (replicate k False) = Some (s1\<lparr>consumer := CUse n\<rparr>)"
    using assms(1,2) True by (simp add: next_end_def)
  then show ?thesis
    by (rule run_split)
      (use True assms in \<open>intro exI [of _ 2], auto simp: numeral_2_eq_2 consumer_step_def Let_def pop_end_def u split: Option.bind_splits\<close>)
qed

lemma consumer_alone:
  assumes "consumer s = CIdle"
  shows "\<exists>n. spsc_run s (replicate n False) =
     map_option (\<lambda>(r, q). s\<lparr>ring := q, consumer := CIdle,
       received := received s @ (case r of None \<Rightarrow> [] | Some m \<Rightarrow> [m])\<rparr>) (queue_pop (ring s))"
proof -
  define q where "q = ring s"
  define q0 where "q0 = q\<lparr>tail := 0\<rparr>"
  note e = numeral_eq_Suc consumer_step_def Let_def q_def q0_def assms
  note d = queue_pop_def mg_queue_next_def Let_def
  consider (empty) "tail q = head q"
    | (bad) "tail q \<noteq> head q" "mg_queue_read_len q = None"
    | (msg) n where "tail q \<noteq> head q" "mg_queue_read_len q = Some n" "n \<noteq> 0"
    | (last) "tail q \<noteq> head q" "mg_queue_read_len q = Some 0" "head q = 0"
    | (bad2) "tail q \<noteq> head q" "mg_queue_read_len q = Some 0" "head q \<noteq> 0" "mg_queue_read_len q0 = None"
    | (mark) n where "tail q \<noteq> head q" "mg_queue_read_len q = Some 0" "head q \<noteq> 0" "mg_queue_read_len q0 = Some n"
    by (metis option.exhaust)
  then show ?thesis
  proof cases
    case empty
    have r: "spsc_run s (replicate 1 False) = next_end s 0" using empty by (simp add: e)
    have p: "queue_pop (ring s) = pop_end q 0" using empty by (simp add: d pop_end_def q_def q0_def)
    show ?thesis unfolding p by (rule next_end_run [OF r]) (cases s, simp add: q_def q0_def)+
  next
    case bad
    then have "spsc_run s (replicate 2 False) = None" by (simp add: e)
    then show ?thesis using bad by (intro exI [of _ 2]) (simp add: d q_def)
  next
    case (msg n)
    then have r: "spsc_run s (replicate 2 False) = next_end (s\<lparr>consumer := CRead\<rparr>) n" by (simp add: e)
    have p: "queue_pop (ring s) = pop_end q n" using msg by (simp add: d pop_end_def q_def q0_def)
    show ?thesis unfolding p by (rule next_end_run [OF r]) (cases s, simp add: q_def q0_def)+
  next
    case last
    then have r: "spsc_run s (replicate 4 False) = next_end (s\<lparr>ring := q0, consumer := CAgain\<rparr>) 0" by (simp add: e)
    have p: "queue_pop (ring s) = pop_end q0 0" using last by (simp add: d pop_end_def q_def q0_def)
    show ?thesis unfolding p by (rule next_end_run [OF r]) (cases s, simp add: q_def q0_def)+
  next
    case bad2
    then have "spsc_run s (replicate 5 False) = None" by (simp add: e)
    then show ?thesis using bad2 by (intro exI [of _ 5]) (simp add: d q_def q0_def)
  next
    case (mark n)
    then have r: "spsc_run s (replicate 5 False) = next_end (s\<lparr>ring := q0, consumer := CReread\<rparr>) n" by (simp add: e)
    have p: "queue_pop (ring s) = pop_end q0 n" using mark by (simp add: d pop_end_def q_def q0_def)
    show ?thesis unfolding p by (rule next_end_run [OF r]) (cases s, simp add: q_def q0_def)+
  qed
qed

section \<open>The queue is a FIFO\<close>

text \<open>
  C32.  The message queue is a FIFO.  Let the two sides run concurrently from an initialised
  buffer, interleaved in any way at every access to the state they share.  No assertion
  fails and no memory outside the buffer is touched; the messages received so far are, in
  order and byte for byte, a prefix of the messages accepted, and these are messages of the
  producer in the producer's order; when the consumer goes on alone, it receives all that were accepted.
  (The producer's messages are not empty: \<open>mg_queue_add\<close> asserts this.)
\<close>

theorem mg_queue_fifo:
  assumes "length b = sz" "4 \<le> sz" "sz < 2 ^ 32" "[] \<notin> set ms"
  shows "\<exists>s n s'. spsc_run (spsc_init b sz ms) schedule = Some s \<and>
     prefix (received s) (accepted s) \<and> subseq (accepted s) ms \<and>
     spsc_run s (replicate n False) = Some s' \<and> accepted s' = accepted s \<and> received s' = accepted s"
proof -
  have "spsc_inv (spsc_init b sz ms) False [] []"
    using assms by (simp add: spsc_inv_def spsc_init_def mg_queue_init_def ring_of_def undelivered_def)
  from spsc_run_ok [OF okI [OF this], of schedule] obtain s where
    s: "spsc_run (spsc_init b sz ms) schedule = Some s" "spsc_ok s"
      "subseq (accepted s @ pending (producer s) @ todo s) ms" by (auto simp: spsc_init_def)
  obtain w a c where i: "spsc_inv s w a c" using s(2) by (auto simp: spsc_ok_def)
  have "subseq (accepted s) ms" by (rule subseq_order.order_trans [OF prefix_imp_subseq s(3)]) simp
  moreover have "prefix (received s) (accepted s)" using i by (auto simp: spsc_inv_def)
  ultimately show ?thesis using s(1) spsc_drain [OF i] by blast
qed

theorem mg_queue_fifo_witness:
  "\<exists>s n s'. spsc_run (spsc_init (replicate 40 0) 40 [[1, 2], [3]])
       (concat (replicate 20 [True, False, True])) = Some s \<and>
     prefix (received s) (accepted s) \<and> subseq (accepted s) [[1, 2], [3]] \<and>
     spsc_run s (replicate n False) = Some s' \<and> accepted s' = accepted s \<and> received s' = accepted s"
  by (rule mg_queue_fifo) simp_all

end
