(* ===== verification/Mg_Resolve.thy ===== *)
theory Mg_Resolve
  imports Mg_Dns
begin

text \<open>
  The requests under way (\<open>src/mongoose.c\<close>, \<open>dns.c\<close>): the list \<open>active_dns_requests\<close>, newest first, what the handler
  \<open>dns_cb\<close> of a server connection does with it, and how requests are made and given up.  Connections are numbered;
  \<open>None\<close> is a request whose connection is gone.  What \<open>mg_connect_resolved\<close> and a user's handler of an error make of a
  connection, the connection to a server, the clock, \<open>calloc\<close> and \<open>mg_send\<close> are parameters; they do not change the list.
\<close>

section \<open>The state\<close>

record dns_conn =
  cn_rem :: mg_addr
  cn_is_resolving :: bool
  cn_is_closing :: bool

record dns_data =
  d_c :: nat
  d_expire :: u64
  d_txnid :: u16

record mg_dns =
  dns_url :: "bytes option"
  dns_c :: "nat option"

datatype dns_event = Failed nat | Connected nat | Sent nat bytes

text \<open>The manager with its connections, the bytes received from the server, and what was done so far.\<close>

record resolver =
  active_dns_requests :: "dns_data list"
  conns :: "nat \<rightharpoonup> dns_conn"
  dns4 :: mg_dns
  dns6 :: mg_dns
  use_dns6 :: bool
  dnstimeout :: u32
  dns_recv :: bytes
  events :: "dns_event list"

text \<open>The world outside.\<close>

record world =
  w_resolved :: "dns_conn \<Rightarrow> dns_conn"
  w_error :: "dns_conn \<Rightarrow> dns_conn"
  w_connect :: "bytes \<Rightarrow> nat option"
  w_calloc :: bool
  w_now :: u64
  w_send :: "nat \<Rightarrow> bytes \<Rightarrow> bool"

definition on_conn :: "nat \<Rightarrow> (dns_conn \<Rightarrow> dns_conn) \<Rightarrow> dns_event list \<Rightarrow> resolver \<Rightarrow> resolver option" where
  "on_conn c f evs rs = do {
     x \<leftarrow> conns rs c;
     Some (rs\<lparr>conns := (conns rs)(c \<mapsto> f x), events := events rs @ evs\<rparr>) }"

definition mg_error :: "world \<Rightarrow> nat \<Rightarrow> resolver \<Rightarrow> resolver option" where
  "mg_error w c rs = on_conn c (\<lambda>x. w_error w (x\<lparr>cn_is_closing := True\<rparr>)) [Failed c] rs"

definition connect_resolved :: "world \<Rightarrow> nat \<Rightarrow> resolver \<Rightarrow> resolver option" where
  "connect_resolved w c rs = on_conn c (w_resolved w) [Connected c] rs"

section \<open>The handler of a server connection\<close>

fun resolve_cancel_loop :: "nat \<Rightarrow> dns_data list \<Rightarrow> dns_data list" where
  "resolve_cancel_loop c [] = []"
| "resolve_cancel_loop c (d # ds) =
     (if d_c d = c then resolve_cancel_loop c ds else d # resolve_cancel_loop c ds)"

definition mg_resolve_cancel :: "nat \<Rightarrow> resolver \<Rightarrow> resolver" where
  "mg_resolve_cancel c rs =
     rs\<lparr>active_dns_requests := resolve_cancel_loop c (active_dns_requests rs)\<rparr>"

fun dns_poll_loop :: "world \<Rightarrow> u64 \<Rightarrow> dns_data list \<Rightarrow> resolver \<Rightarrow> resolver option" where
  "dns_poll_loop w now [] rs = Some rs"
| "dns_poll_loop w now (d # ds) rs = do {
     rs \<leftarrow> (if now > d_expire d then mg_error w (d_c d) rs else Some rs);
     dns_poll_loop w now ds rs }"

definition dns_answer :: "world \<Rightarrow> mg_dns_message \<Rightarrow> dns_data \<Rightarrow> resolver \<Rightarrow> resolver option" where
  "dns_answer w dm d rs = do {
     x \<leftarrow> conns rs (d_c d);
     if cn_is_resolving x then
       if dm_resolved dm then do {
         rs \<leftarrow> on_conn (d_c d) (\<lambda>x. x\<lparr>cn_rem := (dm_addr dm)\<lparr>ad_port := ad_port (cn_rem x)\<rparr>\<rparr>) [] rs;
         connect_resolved w (d_c d) rs }
       else mg_error w (d_c d) rs
     else Some rs }"

text \<open>The loop over the requests on a reply; the requests that are left come first.\<close>

fun dns_read_loop :: "world \<Rightarrow> mg_dns_message \<Rightarrow> dns_data list \<Rightarrow> resolver \<Rightarrow> (dns_data list \<times> resolver) option" where
  "dns_read_loop w dm [] rs = Some ([], rs)"
| "dns_read_loop w dm (d # ds) rs =
     (if dm_txnid dm \<noteq> d_txnid d then do {
        (left, rs) \<leftarrow> dns_read_loop w dm ds rs;
        Some (d # left, rs) }
      else do {
        rs \<leftarrow> dns_answer w dm d rs;
        dns_read_loop w dm ds rs })"

fun dns_close_loop :: "world \<Rightarrow> dns_data list \<Rightarrow> resolver \<Rightarrow> resolver option" where
  "dns_close_loop w [] rs = Some rs"
| "dns_close_loop w (d # ds) rs = do {
     rs \<leftarrow> mg_error w (d_c d) rs;
     dns_close_loop w ds rs }"

datatype dns_ev = Dns_poll u64 | Dns_read | Dns_close

fun dns_cb :: "world \<Rightarrow> dns_ev \<Rightarrow> resolver \<Rightarrow> resolver option" where
  "dns_cb w (Dns_poll now) rs = dns_poll_loop w now (active_dns_requests rs) rs"
| "dns_cb w Dns_read rs = do {
     (ok, dm) \<leftarrow> mg_dns_parse (dns_recv rs);
     (left, rs) \<leftarrow>
       (if ok then dns_read_loop w dm (active_dns_requests rs) rs else Some (active_dns_requests rs, rs));
     Some (rs\<lparr>active_dns_requests := left, dns_recv := []\<rparr>) }"
| "dns_cb w Dns_close rs = do {
     rs \<leftarrow> dns_close_loop w (active_dns_requests rs) rs;
     Some (rs\<lparr>active_dns_requests := []\<rparr>) }"

section \<open>Requests\<close>

text \<open>
  \<open>mg_sendnsreq\<close> for the name of \<open>l\<close> bytes at the memory \<open>m\<close>; \<open>six\<close> says which server and which kind of query.
\<close>

definition dns_server :: "world \<Rightarrow> nat \<Rightarrow> mg_dns \<Rightarrow> resolver \<Rightarrow> (mg_dns \<times> resolver) option" where
  "dns_server w c dnsc rs =
     (case dns_url dnsc of
        None \<Rightarrow> do { rs \<leftarrow> mg_error w c rs; Some (dnsc, rs) }
      | Some u \<Rightarrow> Some (if dns_c dnsc = None then dnsc\<lparr>dns_c := w_connect w u\<rparr> else dnsc, rs))"

definition dns_request :: "world \<Rightarrow> nat \<Rightarrow> resolver \<Rightarrow> resolver" where
  "dns_request w c rs =
     (let reqs = active_dns_requests rs;
          id = (case reqs of [] \<Rightarrow> 1 | d # _ \<Rightarrow> d_txnid d + 1)
      in rs\<lparr>active_dns_requests := \<lparr>d_c = c, d_expire = w_now w + scast (dnstimeout rs), d_txnid = id\<rparr> # reqs\<rparr>)"

definition mg_sendnsreq :: "world \<Rightarrow> nat \<Rightarrow> bytes \<Rightarrow> nat \<Rightarrow> bool \<Rightarrow> resolver \<Rightarrow> resolver option" where
  "mg_sendnsreq w c m l six rs = do {
     (dnsc, rs) \<leftarrow> dns_server w c (if six then dns6 rs else dns4 rs) rs;
     let rs = (if six then rs\<lparr>dns6 := dnsc\<rparr> else rs\<lparr>dns4 := dnsc\<rparr>);
     case dns_c dnsc of
       None \<Rightarrow> mg_error w c rs
     | Some s \<Rightarrow>
         if \<not> w_calloc w then mg_error w c rs
         else do {
           let rs = dns_request w c rs;
           rs \<leftarrow> on_conn c (\<lambda>x. x\<lparr>cn_is_resolving := True\<rparr>) [] rs;
           p \<leftarrow> mg_dns_send m l (d_txnid (hd (active_dns_requests rs))) six;
           if w_send w s p then Some (rs\<lparr>events := events rs @ [Sent s p]\<rparr>)
           else mg_error w s rs } }"

text \<open>\<open>url\<close> is a string without its terminating zero.\<close>

definition mg_resolve :: "world \<Rightarrow> nat \<Rightarrow> bytes \<Rightarrow> resolver \<Rightarrow> resolver option" where
  "mg_resolve w c url rs = do {
     let (o', n) = mg_url_host url;
     host \<leftarrow> slice url o' n;
     prt \<leftarrow> mg_url_port url;
     rs \<leftarrow> on_conn c (\<lambda>x. x\<lparr>cn_rem := (cn_rem x)\<lparr>ad_port := mg_ntohs prt\<rparr>\<rparr>) [] rs;
     x \<leftarrow> conns rs c;
     (ok, rem) \<leftarrow> mg_aton host (cn_rem x);
     rs \<leftarrow> on_conn c (\<lambda>x. x\<lparr>cn_rem := rem\<rparr>) [] rs;
     if ok then connect_resolved w c rs
     else mg_sendnsreq w c (drop o' (url @ [0])) n (use_dns6 rs) rs }"

end
