(* ===== verification/Mg_Resolve_Answers.thy ===== *)
theory Mg_Resolve_Answers
  imports Mg_Dns_Packets Mg_Resolve
begin

text \<open>
  The requests under way: their identifiers differ, an answer goes to the request it belongs to, and a connection to a host name is
  connected to the address that the server answers.
\<close>

section \<open>Identifiers of requests\<close>

text \<open>Newer requests come first and have greater identifiers.\<close>

definition ids_descend :: "resolver \<Rightarrow> bool" where
  "ids_descend rs \<longleftrightarrow> sorted_wrt (\<lambda>d e. unat (d_txnid e) < unat (d_txnid d)) (active_dns_requests rs)"

text \<open>The identifier of the next request does not wrap.\<close>

definition ids_left :: "resolver \<Rightarrow> bool" where
  "ids_left rs \<longleftrightarrow> (case active_dns_requests rs of [] \<Rightarrow> True | d # _ \<Rightarrow> d_txnid d \<noteq> 65535)"

definition next_id :: "resolver \<Rightarrow> u16" where
  "next_id rs = (case active_dns_requests rs of [] \<Rightarrow> 1 | d # _ \<Rightarrow> d_txnid d + 1)"

lemma unat_next: "(v :: u16) \<noteq> 65535 \<Longrightarrow> unat (v + 1) = unat v + 1"
proof -
  assume v: "v \<noteq> 65535"
  have "unat v < 2 ^ 16" using unsigned_less [of v, where ?'a = nat] by simp
  moreover have "unat v \<noteq> 65535" using v word_unat_eq_iff [of v 65535] by simp
  ultimately show ?thesis by (simp add: unat_word_ariths)
qed

lemma next_id_greater:
  assumes "ids_descend rs" "ids_left rs" "d \<in> set (active_dns_requests rs)"
  shows "unat (d_txnid d) < unat (next_id rs)"
proof (cases "active_dns_requests rs")
  case (Cons e es)
  then have "unat (next_id rs) = unat (d_txnid e) + 1" using assms(2) by (simp add: next_id_def ids_left_def unat_next)
  then show ?thesis using assms(1,3) Cons by (auto simp: ids_descend_def)
qed (use assms in simp)

lemma dns_request_ids:
  assumes "ids_descend rs" "ids_left rs"
  shows "ids_descend (dns_request w c rs)"
  using assms next_id_greater [OF assms] by (auto simp: ids_descend_def dns_request_def next_id_def Let_def)

lemma resolve_cancel_loop_filter: "resolve_cancel_loop c ds = filter (\<lambda>d. d_c d \<noteq> c) ds"
  by (induction ds) auto

lemma sorted_wrt_sublist: "sorted_wrt R xs \<Longrightarrow> sorted_wrt R (filter P xs)"
  by (induction xs) auto

lemma on_conn_requests: "on_conn c f evs rs = Some rs' \<Longrightarrow> active_dns_requests rs' = active_dns_requests rs"
  by (auto simp: on_conn_def split: bind_splits)

lemma mg_error_requests: "mg_error w c rs = Some rs' \<Longrightarrow> active_dns_requests rs' = active_dns_requests rs"
  by (simp add: mg_error_def on_conn_requests)

lemma dns_poll_requests:
  "dns_poll_loop w now ds rs = Some rs' \<Longrightarrow> active_dns_requests rs' = active_dns_requests rs"
  by (induction ds arbitrary: rs) (auto split: bind_splits if_splits dest: mg_error_requests)

lemma dns_read_left:
  "dns_read_loop w dm ds rs = Some (left, rs') \<Longrightarrow> left = filter (\<lambda>d. d_txnid d \<noteq> dm_txnid dm) ds"
  by (induction ds arbitrary: rs left) (auto split: bind_splits if_splits)

lemma dns_cb_ids:
  assumes "ids_descend rs" "dns_cb w ev rs = Some rs'"
  shows "ids_descend rs'"
proof (cases ev)
  case (Dns_poll now)
  then show ?thesis using assms dns_poll_requests by (auto simp: ids_descend_def)
next
  case Dns_read
  then show ?thesis
    using assms by (auto simp: ids_descend_def sorted_wrt_sublist split: bind_splits if_splits dest!: dns_read_left)
next
  case Dns_close
  then show ?thesis using assms by (auto simp: ids_descend_def split: bind_splits)
qed

lemma dns_server_requests: "dns_server w c sv rs = Some (sv', rs') \<Longrightarrow> active_dns_requests rs' = active_dns_requests rs"
  by (auto simp: dns_server_def split: option.splits bind_splits dest: mg_error_requests)

lemma mg_sendnsreq_ids:
  assumes "ids_descend rs" "ids_left rs" "mg_sendnsreq w c m l six rs = Some rs'"
  shows "ids_descend rs'"
proof -
  obtain sv rs1 where s: "dns_server w c (if six then dns6 rs else dns4 rs) rs = Some (sv, rs1)"
    using assms(3) by (auto simp: mg_sendnsreq_def split: bind_splits)
  let ?rs2 = "if six then rs1\<lparr>dns6 := sv\<rparr> else rs1\<lparr>dns4 := sv\<rparr>"
  have r2: "active_dns_requests ?rs2 = active_dns_requests rs" using dns_server_requests [OF s] by simp
  then have i: "ids_descend ?rs2" "ids_left ?rs2" using assms(1,2) by (auto simp: ids_descend_def ids_left_def split: if_splits)
  have e: "mg_error w c' r = Some rs' \<Longrightarrow> ids_descend r \<Longrightarrow> ids_descend rs'" for c' r
    using mg_error_requests by (auto simp: ids_descend_def)
  have o: "on_conn c' f evs r = Some r' \<Longrightarrow> ids_descend r \<Longrightarrow> ids_descend r'" for c' f evs r r'
    using on_conn_requests by (auto simp: ids_descend_def)
  have v: "ids_descend (r\<lparr>events := evs\<rparr>) = ids_descend r" for r evs by (simp add: ids_descend_def)
  show ?thesis
    using assms(3) s i dns_request_ids [OF i, of w c] e o v
    by (auto simp: mg_sendnsreq_def Let_def split: bind_splits option.splits if_splits)
qed

lemma mg_resolve_ids:
  assumes "ids_descend rs" "ids_left rs" "mg_resolve w c url rs = Some rs'"
  shows "ids_descend rs'"
proof -
  have o: "on_conn c' f evs r = Some r' \<Longrightarrow> ids_descend r \<and> ids_left r \<Longrightarrow> ids_descend r' \<and> ids_left r'" for c' f evs r r'
    using on_conn_requests [of c' f evs r r'] by (simp add: ids_descend_def ids_left_def)
  obtain o' n where u: "mg_url_host url = (o', n)" by fastforce
  obtain prt rs1 where prt: "mg_url_port url = Some prt" and 1: "on_conn c (\<lambda>x. x\<lparr>cn_rem := (cn_rem x)\<lparr>ad_port := mg_ntohs prt\<rparr>\<rparr>) [] rs = Some rs1"
    using assms(3) u by (auto simp: mg_resolve_def split: bind_splits)
  then obtain rem rs2 ok where 2: "on_conn c (\<lambda>x. x\<lparr>cn_rem := rem\<rparr>) [] rs1 = Some rs2"
      "(if ok then connect_resolved w c rs2 else mg_sendnsreq w c (drop o' (url @ [0])) n (use_dns6 rs2) rs2) = Some rs'"
    using assms(3) u prt by (auto simp: mg_resolve_def split: bind_splits)
  then have "ids_descend rs2 \<and> ids_left rs2" using o [OF 2(1)] o [OF 1] assms(1,2) by blast
  note i = this
  show ?thesis
  proof (cases ok)
    case True
    then have "on_conn c (w_resolved w) [Connected c] rs2 = Some rs'" using 2(2) by (simp add: connect_resolved_def)
    then show ?thesis using o i by blast
  next
    case False
    then have "mg_sendnsreq w c (drop o' (url @ [0])) n (use_dns6 rs2) rs2 = Some rs'" using 2(2) by simp
    then show ?thesis using mg_sendnsreq_ids i by blast
  qed
qed

text \<open>
  What happens to a resolver: an event on the connection to a server, bytes received from it, a connection that is closed
  and gives up its request, and a new request while identifiers are left.
\<close>

inductive dns_step :: "world \<Rightarrow> resolver \<Rightarrow> resolver \<Rightarrow> bool" for w where
  handle: "dns_cb w ev rs = Some rs' \<Longrightarrow> dns_step w rs rs'"
| receive: "dns_step w rs (rs\<lparr>dns_recv := dns_recv rs @ b\<rparr>)"
| cancel: "dns_step w rs (mg_resolve_cancel c rs)"
| resolve: "ids_left rs \<Longrightarrow> mg_resolve w c url rs = Some rs' \<Longrightarrow> dns_step w rs rs'"

lemma dns_step_ids: "dns_step w rs rs' \<Longrightarrow> ids_descend rs \<Longrightarrow> ids_descend rs'"
proof (induction rule: dns_step.induct)
  case (receive rs b)
  then show ?case by (simp add: ids_descend_def)
next
  case (cancel rs c)
  then show ?case by (simp add: ids_descend_def mg_resolve_cancel_def resolve_cancel_loop_filter sorted_wrt_sublist)
qed (blast intro: dns_cb_ids mg_resolve_ids)+

lemma dns_steps_ids: "(dns_step w)\<^sup>*\<^sup>* rs rs' \<Longrightarrow> ids_descend rs \<Longrightarrow> ids_descend rs'"
  by (induction rule: rtranclp_induct) (auto dest: dns_step_ids)

lemma sorted_ids_distinct:
  "sorted_wrt (\<lambda>d e. unat (d_txnid e) < unat (d_txnid d)) ds \<Longrightarrow> distinct (map d_txnid ds)"
  by (induction ds) fastforce+

text \<open>So the identifiers of the requests under way differ, in every state a resolver without requests can come to.\<close>

theorem dns_ids_distinct:
  assumes "(dns_step w)\<^sup>*\<^sup>* rs rs'" "active_dns_requests rs = []"
  shows "distinct (map d_txnid (active_dns_requests rs'))"
proof -
  have "ids_descend rs'" using dns_steps_ids [OF assms(1)] assms(2) by (simp add: ids_descend_def)
  then show ?thesis by (simp add: ids_descend_def sorted_ids_distinct)
qed

section \<open>Answers\<close>

text \<open>A reply with an address, whatever name it is about, goes to the request with its identifier.\<close>

lemma dns_read_loop_other:
  "\<forall>d \<in> set ds. d_txnid d \<noteq> dm_txnid dm \<Longrightarrow> dns_read_loop w dm ds rs = Some (ds, rs)"
  by (induction ds arbitrary: rs) auto

definition answer_conn :: "mg_addr \<Rightarrow> dns_conn \<Rightarrow> dns_conn" where
  "answer_conn a x = x\<lparr>cn_rem := a\<lparr>ad_port := ad_port (cn_rem x)\<rparr>\<rparr>"

lemma dns_reply_taken:
  assumes "active_dns_requests rs = d # ds" "\<forall>e \<in> set ds. d_txnid e \<noteq> d_txnid d"
    "conns rs (d_c d) = Some x" "cn_is_resolving x"
    "mg_dns_parse (dns_recv rs) = Some (True, dm)" "dm_txnid dm = d_txnid d" "dm_resolved dm"
  shows "dns_cb w Dns_read rs = Some (rs\<lparr>active_dns_requests := ds, dns_recv := [],
    conns := (conns rs)(d_c d \<mapsto> w_resolved w (answer_conn (dm_addr dm) x)), events := events rs @ [Connected (d_c d)]\<rparr>)"
proof -
  have "dns_answer w dm d rs = Some (rs\<lparr>
      conns := (conns rs)(d_c d \<mapsto> w_resolved w (answer_conn (dm_addr dm) x)), events := events rs @ [Connected (d_c d)]\<rparr>)"
    using assms(3,4,7) by (simp add: dns_answer_def on_conn_def connect_resolved_def answer_conn_def)
  then show ?thesis using assms dns_read_loop_other by simp
qed

section \<open>A request from its URL to its answer\<close>

definition dns_server_conn :: "world \<Rightarrow> mg_dns \<Rightarrow> nat \<Rightarrow> bool" where
  "dns_server_conn w sv s \<longleftrightarrow>
     (\<exists>u. dns_url sv = Some u \<and> (if dns_c sv = None then w_connect w u else dns_c sv) = Some s)"

lemma mg_sendnsreq_sent:
  assumes "conns rs c = Some x" "dns_server_conn w (if six then dns6 rs else dns4 rs) s" "w_calloc w" "\<And>p. w_send w s p"
    "length name \<le> 250"
  shows "\<exists>rs'. mg_sendnsreq w c (name @ y # r) (length name) six rs = Some rs' \<and>
    active_dns_requests rs' =
      \<lparr>d_c = c, d_expire = w_now w + scast (dnstimeout rs), d_txnid = next_id rs\<rparr> # active_dns_requests rs \<and>
    conns rs' = (conns rs)(c \<mapsto> x\<lparr>cn_is_resolving := True\<rparr>) \<and>
    events rs' = events rs @ [Sent s (dns_query name (next_id rs) six)]"
proof -
  obtain u where u: "dns_url (if six then dns6 rs else dns4 rs) = Some u"
      "(if dns_c (if six then dns6 rs else dns4 rs) = None then w_connect w u else dns_c (if six then dns6 rs else dns4 rs)) = Some s"
    using assms(2) by (auto simp: dns_server_conn_def)
  then obtain sv where sv: "dns_server w c (if six then dns6 rs else dns4 rs) rs = Some (sv, rs)" "dns_c sv = Some s"
    by (cases "dns_c (if six then dns6 rs else dns4 rs)") (auto simp: dns_server_def)
  let ?rs = "if six then rs\<lparr>dns6 := sv\<rparr> else rs\<lparr>dns4 := sv\<rparr>"
  have q: "active_dns_requests (dns_request w c ?rs) =
        \<lparr>d_c = c, d_expire = w_now w + scast (dnstimeout rs), d_txnid = next_id rs\<rparr> # active_dns_requests rs"
      "conns (dns_request w c ?rs) = conns rs" "events (dns_request w c ?rs) = events rs"
    by (simp_all add: dns_request_def next_id_def Let_def)
  have on: "on_conn c (\<lambda>x. x\<lparr>cn_is_resolving := True\<rparr>) [] (dns_request w c ?rs) =
      Some ((dns_request w c ?rs)\<lparr>conns := (conns rs)(c \<mapsto> x\<lparr>cn_is_resolving := True\<rparr>)\<rparr>)"
    using assms(1) q by (simp add: on_conn_def)
  show ?thesis
    using sv on assms(3,4) mg_dns_send_query [OF assms(5), of y r "next_id rs" six] q
    by (simp add: mg_sendnsreq_def Let_def)
qed

lemma mg_resolve_asks:
  assumes "conns rs c = Some x" "length (ad_ip (cn_rem x)) = 16"
    and "dns_server_conn w (if use_dns6 rs then dns6 rs else dns4 rs) s" "w_calloc w" "\<And>p. w_send w s p"
    and "mg_url_host url = (o', n)" "slice url o' n = Some name" "length name \<le> 250"
    and "mg_aton name ((cn_rem x)\<lparr>ad_port := mg_ntohs prt\<rparr>) = Some (False, a)"
    and "mg_url_port url = Some prt"
  shows "\<exists>rs'. mg_resolve w c url rs = Some rs' \<and>
    active_dns_requests rs' =
      \<lparr>d_c = c, d_expire = w_now w + scast (dnstimeout rs), d_txnid = next_id rs\<rparr> # active_dns_requests rs \<and>
    conns rs' = (conns rs)(c \<mapsto> x\<lparr>cn_rem := a, cn_is_resolving := True\<rparr>) \<and>
    events rs' = events rs @ [Sent s (dns_query name (next_id rs) (use_dns6 rs))]"
proof -
  let ?x = "x\<lparr>cn_rem := (cn_rem x)\<lparr>ad_port := mg_ntohs prt\<rparr>\<rparr>"
  let ?rs = "rs\<lparr>conns := (conns rs)(c \<mapsto> ?x\<lparr>cn_rem := a\<rparr>)\<rparr>"
  have n: "length name = n" "name @ drop n (drop o' url) @ [0] = drop o' (url @ [0])"
    using assms(7) append_take_drop_id [of n "drop o' url"] by (auto simp: slice_def span_def simp del: drop_drop append_take_drop_id split: if_splits)
  obtain y r where yr: "drop n (drop o' url) @ [0] = y # r" by (cases "drop n (drop o' url) @ [0]") auto
  have "mg_resolve w c url rs = mg_sendnsreq w c (name @ y # r) (length name) (use_dns6 rs) ?rs"
    using assms(1,6,7,9,10) n yr by (simp add: mg_resolve_def on_conn_def)
  moreover have "next_id ?rs = next_id rs" by (simp add: next_id_def)
  moreover have sv: "dns_server_conn w (if use_dns6 rs then dns6 ?rs else dns4 ?rs) s"
    using assms(3) by (cases "use_dns6 rs") simp_all
  moreover have "conns ?rs c = Some (?x\<lparr>cn_rem := a\<rparr>)" by simp
  ultimately show ?thesis
    using mg_sendnsreq_sent [OF _ sv assms(4,5,8), of c "?x\<lparr>cn_rem := a\<rparr>" y r] by simp
qed

text \<open>
  C12.  A connection to a host name is resolved.  When identifiers are left and a server can be reached, \<open>mg_resolve\<close>
  sends a query for the host of the URL; when the server's answer to it arrives, \<open>dns_cb\<close> takes the request off the list,
  leaves the others alone, and connects that connection, and no other, to the address of the answer and the port of the URL (a number of type \<open>int\<close>).
\<close>

theorem mg_resolve_answered:
  assumes "ids_descend rs" "ids_left rs" "conns rs c = Some x" "length (ad_ip (cn_rem x)) = 16"
    and "dns_server_conn w (if use_dns6 rs then dns6 rs else dns4 rs) s" "w_calloc w" "\<And>p. w_send w s p"
    and "mg_url_host url = (o', n)" "slice url o' n = Some name" "host_name name"
    and "mg_aton name ((cn_rem x)\<lparr>ad_port := mg_ntohs prt\<rparr>) = Some (False, a)"
    and "length flags = 2" "length counts = 4" "length ttl = 4" "length ip = 4 \<or> length ip = 16"
    and "length name + length ip + length rest \<le> 478" "mg_url_port url = Some prt"
  shows "\<exists>rs' p rs''. mg_resolve w c url rs = Some rs' \<and> events rs' = events rs @ [Sent s p] \<and>
    dns_cb w Dns_read (rs'\<lparr>dns_recv := dns_reply p flags counts ttl ip rest\<rparr>) = Some rs'' \<and>
    events rs'' = events rs' @ [Connected c] \<and> active_dns_requests rs'' = active_dns_requests rs \<and>
    conns rs'' = (conns rs)(c \<mapsto> w_resolved w (x\<lparr>cn_is_resolving := True,
      cn_rem := \<lparr>ad_ip = ip @ replicate (16 - length ip) 0, ad_port = mg_ntohs prt, ad_is_ip6 = (length ip = 16)\<rparr>\<rparr>))"
proof -
  have l: "length name \<le> 250" using assms(10) by (simp add: host_name_def)
  obtain rs' where r: "mg_resolve w c url rs = Some rs'"
      "active_dns_requests rs' =
        \<lparr>d_c = c, d_expire = w_now w + scast (dnstimeout rs), d_txnid = next_id rs\<rparr> # active_dns_requests rs"
      "conns rs' = (conns rs)(c \<mapsto> x\<lparr>cn_rem := a, cn_is_resolving := True\<rparr>)"
      "events rs' = events rs @ [Sent s (dns_query name (next_id rs) (use_dns6 rs))]"
    using mg_resolve_asks [OF assms(3-9) l assms(11,17)] by blast
  let ?p = "dns_query name (next_id rs) (use_dns6 rs)"
  let ?rs = "rs'\<lparr>dns_recv := dns_reply ?p flags counts ttl ip rest\<rparr>"
  have len: "length (dns_reply ?p flags counts ttl ip rest) \<le> 512"
    using assms(12-16) by (simp add: dns_reply_def dns_query_def be16_def length_wire_name)
  obtain z where z: "mg_dns_parse (dns_recv ?rs) = Some (True, \<lparr>dm_txnid = next_id rs, dm_resolved = True,
      dm_addr = \<lparr>ad_ip = ip @ replicate (16 - length ip) 0, ad_port = 0, ad_is_ip6 = (length ip = 16)\<rparr>, dm_name = name @ 0 # z\<rparr>)"
    using mg_dns_parse_reply [OF assms(10,12-15) refl len] by auto
  have ids: "\<forall>e \<in> set (active_dns_requests rs). d_txnid e \<noteq> next_id rs"
    using next_id_greater [OF assms(1,2)] by (metis less_irrefl)
  have port: "ad_port a = mg_ntohs prt"
    using mg_aton_ok [of "(cn_rem x)\<lparr>ad_port := mg_ntohs prt\<rparr>" name] assms(4,11) l by (auto simp: aton_ok_def)
  let ?d = "\<lparr>d_c = c, d_expire = w_now w + scast (dnstimeout rs), d_txnid = next_id rs\<rparr>"
  let ?x = "x\<lparr>cn_rem := a, cn_is_resolving := True\<rparr>"
  have t: "active_dns_requests ?rs = ?d # active_dns_requests rs" "\<forall>e \<in> set (active_dns_requests rs). d_txnid e \<noteq> d_txnid ?d"
    "conns ?rs (d_c ?d) = Some ?x" "cn_is_resolving ?x" using r(2,3) ids by simp_all
  show ?thesis
    using r(1,4) dns_reply_taken [OF t z, of w] r(3) port
    by (simp add: answer_conn_def del: dns_cb.simps)
qed

text \<open>A manager with one IPv4 server at connection 9, and connection 1, new, that another request is older than.\<close>

definition sample_conn :: dns_conn where
  "sample_conn = \<lparr>cn_rem = zero_addr, cn_is_resolving = False, cn_is_closing = False\<rparr>"

definition sample_world :: world where
  "sample_world = \<lparr>w_resolved = (\<lambda>x. x\<lparr>cn_is_resolving := False\<rparr>), w_error = (\<lambda>x. x), w_connect = (\<lambda>u. None),
     w_calloc = True, w_now = 1000, w_send = (\<lambda>s p. True)\<rparr>"

definition sample_resolver :: resolver where
  "sample_resolver = \<lparr>active_dns_requests = [\<lparr>d_c = 5, d_expire = 2000, d_txnid = 3\<rparr>],
     conns = [1 \<mapsto> sample_conn, 5 \<mapsto> sample_conn\<lparr>cn_is_resolving := True\<rparr>, 9 \<mapsto> sample_conn],
     dns4 = \<lparr>dns_url = Some (bs ''udp://8.8.8.8:53''), dns_c = Some 9\<rparr>, dns6 = \<lparr>dns_url = None, dns_c = None\<rparr>,
     use_dns6 = False, dnstimeout = 3000, dns_recv = [], events = []\<rparr>"

definition resolve_url :: bytes where
  "resolve_url = bs ''http://a.io:80/x''"

lemma sample_facts:
  "ids_descend sample_resolver" "ids_left sample_resolver"
  "mg_url_host resolve_url = (7, 4)" "slice resolve_url 7 4 = Some (bs ''a.io'')" "host_name (bs ''a.io'')"
  "mg_aton (bs ''a.io'') (zero_addr\<lparr>ad_port := mg_ntohs 80\<rparr>) =
    Some (False, zero_addr\<lparr>ad_port := mg_ntohs 80, ad_ip := [0, 10] @ replicate 14 0\<rparr>)"
  "mg_ntohs 80 = 20480" "mg_url_port resolve_url = Some 80"
proof -
  show "ids_descend sample_resolver" "ids_left sample_resolver"
    by (simp_all add: ids_descend_def ids_left_def sample_resolver_def)
  show "mg_url_host resolve_url = (7, 4)" "slice resolve_url 7 4 = Some (bs ''a.io'')"
    by code_simp+
  show "host_name (bs ''a.io'')" by (simp add: host_name_def dns_label_def)
  show "mg_aton (bs ''a.io'') (zero_addr\<lparr>ad_port := mg_ntohs 80\<rparr>) =
      Some (False, zero_addr\<lparr>ad_port := mg_ntohs 80, ad_ip := [0, 10] @ replicate 14 0\<rparr>)"
    "mg_ntohs 80 = 20480" "mg_url_port resolve_url = Some 80"
    by code_simp+
qed

theorem mg_resolve_answered_witness:
  "\<exists>rs' p rs''. mg_resolve sample_world 1 resolve_url sample_resolver = Some rs' \<and> events rs' = [Sent 9 p] \<and>
     dns_cb sample_world Dns_read (rs'\<lparr>dns_recv := dns_reply p [129, 128] [0, 0, 0, 0] [0, 0, 1, 0] [10, 0, 0, 7] []\<rparr>) = Some rs'' \<and>
     events rs'' = events rs' @ [Connected 1] \<and> active_dns_requests rs'' = [\<lparr>d_c = 5, d_expire = 2000, d_txnid = 3\<rparr>] \<and>
     conns rs'' 1 = Some (sample_conn\<lparr>cn_rem := \<lparr>ad_ip = [10, 0, 0, 7] @ replicate 12 0, ad_port = 20480, ad_is_ip6 = False\<rparr>\<rparr>)"
proof -
  have c: "conns sample_resolver 1 = Some sample_conn" "length (ad_ip (cn_rem sample_conn)) = 16" "cn_rem sample_conn = zero_addr"
    by (simp_all add: sample_resolver_def sample_conn_def zero_addr_def)
  have s: "dns_server_conn sample_world (if use_dns6 sample_resolver then dns6 sample_resolver else dns4 sample_resolver) 9"
    by (simp add: dns_server_conn_def sample_resolver_def)
  have w: "w_calloc sample_world" "\<And>p. w_send sample_world 9 p" by (simp_all add: sample_world_def)
  obtain rs' p rs'' where "mg_resolve sample_world 1 resolve_url sample_resolver = Some rs'" "events rs' = events sample_resolver @ [Sent 9 p]"
      "dns_cb sample_world Dns_read (rs'\<lparr>dns_recv := dns_reply p [129, 128] [0, 0, 0, 0] [0, 0, 1, 0] [10, 0, 0, 7] []\<rparr>) = Some rs''"
      "events rs'' = events rs' @ [Connected 1]" "active_dns_requests rs'' = active_dns_requests sample_resolver"
      "conns rs'' = (conns sample_resolver)(1 \<mapsto> w_resolved sample_world (sample_conn\<lparr>cn_is_resolving := True,
        cn_rem := \<lparr>ad_ip = [10, 0, 0, 7] @ replicate (16 - length [10, 0, 0, 7]) 0, ad_port = mg_ntohs 80,
          ad_is_ip6 = (length [10, 0, 0, 7] = 16)\<rparr>\<rparr>))"
    using mg_resolve_answered [OF sample_facts(1,2) c(1,2) s w sample_facts(3-5), unfolded c(3), OF sample_facts(6),
        of "[129, 128]" "[0, 0, 0, 0]" "[0, 0, 1, 0]" "[10, 0, 0, 7]" "[]"] sample_facts(8) by auto
  then show ?thesis
    by (intro exI [of _ rs'] exI [of _ p] exI [of _ rs'']) (simp add: sample_facts(7) sample_world_def, simp add: sample_resolver_def sample_conn_def)
qed

section \<open>What the resolver gets wrong\<close>

text \<open>
  The name of a reply is not compared with the name that was asked for, and with no request under way identifiers start
  again at 1, so the late answer to a request that was given up is taken as the answer to the next one.
\<close>

lemma next_id_restarts: "active_dns_requests rs = [] \<Longrightarrow> next_id rs = 1"
  by (simp add: next_id_def)

lemma dns_reply_other_name:
  assumes "active_dns_requests rs = [d]" "conns rs (d_c d) = Some x" "cn_is_resolving x"
    and "host_name other" "length flags = 2" "length counts = 4" "length ttl = 4" "length ip = 4 \<or> length ip = 16"
    and "dns_recv rs = dns_reply (dns_query other (d_txnid d) six) flags counts ttl ip rest" "length (dns_recv rs) \<le> 512"
  shows "\<exists>rs'. dns_cb w Dns_read rs = Some rs' \<and> events rs' = events rs @ [Connected (d_c d)]"
proof -
  obtain dm where dm: "mg_dns_parse (dns_recv rs) = Some (True, dm)" "dm_txnid dm = d_txnid d" "dm_resolved dm"
    using mg_dns_parse_reply [OF assms(4-9,10)] by auto
  have o: "\<forall>e \<in> set []. d_txnid e \<noteq> d_txnid d" by simp
  show ?thesis using dns_reply_taken [OF assms(1) o assms(2,3) dm, of w] by (simp del: dns_cb.simps)
qed

text \<open>
  A name with a dot at the end is followed by two zeros, so that the type of the question is read one byte too early; a name of
  more than 250 bytes loses its last label.
\<close>

lemma mg_dns_send_trailing_dot:
  "mg_dns_send (bs ''a.'' @ [0]) 2 1 False = Some ([0, 1, 1, 0, 0, 1, 0, 0, 0, 0, 0, 0] @ [1, 97, 0] @ [0, 0, 1, 0, 1])"
  by code_simp

lemma mg_dns_send_long_name:
  "mg_dns_send (bs ''b.'' @ replicate 249 97 @ [0]) 251 1 False = mg_dns_send (bs ''b'' @ [0]) 1 1 False"
  by code_simp

end
