(* ===== verification/Mg_Timer.thy ===== *)
theory Mg_Timer
  imports Prelude
begin

text \<open>
  \<open>src/timer.c\<close>: the list of software timers of an event manager.  Expiration times are 64-bit
  milliseconds with wrap-around.  A timer is identified by \<open>addr\<close>, its address; the callback is a
  user function, so a poll returns the timers whose callbacks it runs, in order (callbacks that
  edit the list themselves are outside the model).
\<close>

section \<open>The code\<close>

definition MG_TIMER_REPEAT :: u32 where "MG_TIMER_REPEAT = 1"
definition MG_TIMER_RUN_NOW :: u32 where "MG_TIMER_RUN_NOW = 2"
definition MG_TIMER_CALLED :: u32 where "MG_TIMER_CALLED = 4"

record mg_timer =
  addr :: nat
  period_ms :: u64
  expire :: u64
  flags :: u32

definition mg_timer_init :: "mg_timer list \<Rightarrow> nat \<Rightarrow> u64 \<Rightarrow> u32 \<Rightarrow> mg_timer list" where
  "mg_timer_init head a ms fl = \<lparr>addr = a, period_ms = ms, expire = 0, flags = fl\<rparr> # head"

fun mg_timer_free :: "mg_timer list \<Rightarrow> nat \<Rightarrow> mg_timer list" where
  "mg_timer_free [] a = []"
| "mg_timer_free (t # ts) a = (if addr t \<noteq> a then t # mg_timer_free ts a else ts)"

definition mg_timer_expired :: "u64 \<Rightarrow> u64 \<Rightarrow> u64 \<Rightarrow> bool \<times> u64" where
  "mg_timer_expired t prd now =
     (let t = (if now + prd < t then 0 else t);
          t = (if t = 0 then now + prd else t)
      in if t > now then (False, t)
         else (True, if now - t > prd then now + prd else t + prd))"

text \<open>One timer of a poll: whether its callback runs, and the timer afterwards.\<close>

definition poll_one :: "u64 \<Rightarrow> mg_timer \<Rightarrow> bool \<times> mg_timer" where
  "poll_one now t =
     (let once = expire t = 0 \<and> flags t AND MG_TIMER_RUN_NOW \<noteq> 0 \<and> flags t AND MG_TIMER_CALLED = 0;
          (expired, e) = mg_timer_expired (expire t) (period_ms t) now;
          t = t\<lparr>expire := e\<rparr>
      in if \<not> once \<and> \<not> expired then (False, t)
         else (flags t AND MG_TIMER_REPEAT \<noteq> 0 \<or> flags t AND MG_TIMER_CALLED = 0,
               t\<lparr>flags := flags t OR MG_TIMER_CALLED\<rparr>))"

fun mg_timer_poll :: "mg_timer list \<Rightarrow> u64 \<Rightarrow> nat list \<times> mg_timer list" where
  "mg_timer_poll [] now = ([], [])"
| "mg_timer_poll (t # ts) now =
     (let (fired, t') = poll_one now t;
          (calls, ts') = mg_timer_poll ts now
      in ((if fired then [addr t] else []) @ calls, t' # ts'))"

section \<open>Expiration\<close>

lemma expired_cases:
  assumes "t \<noteq> 0" "unat t \<le> unat now + unat prd" "unat now + 2 * unat prd < 2 ^ 64"
  shows "fst (mg_timer_expired t prd now) \<longleftrightarrow> t \<le> now"
    and "\<not> t \<le> now \<Longrightarrow> snd (mg_timer_expired t prd now) = t"
    and "t \<le> now \<Longrightarrow> unat (snd (mg_timer_expired t prd now)) =
           (if unat now - unat t > unat prd then unat now + unat prd else unat t + unat prd)"
proof -
  have s: "unat (now + prd) = unat now + unat prd" using assms(3) by (simp add: unat_plus_if')
  have nw: "\<not> now + prd < t" using assms(2) s by (simp add: word_less_nat_alt)
  have e: "mg_timer_expired t prd now = (if t > now then (False, t)
      else (True, if now - t > prd then now + prd else t + prd))"
    using assms(1) nw by (simp add: mg_timer_expired_def Let_def)
  show "fst (mg_timer_expired t prd now) \<longleftrightarrow> t \<le> now" by (auto simp: e not_less)
  show "\<not> t \<le> now \<Longrightarrow> snd (mg_timer_expired t prd now) = t" by (simp add: e not_less)
  assume le: "t \<le> now"
  then have d: "unat (now - t) = unat now - unat t" by (simp add: unat_sub)
  have p: "unat (t + prd) = unat t + unat prd"
    using assms(3) le by (simp add: unat_plus_if' word_le_nat_alt)
  show "unat (snd (mg_timer_expired t prd now)) =
      (if unat now - unat t > unat prd then unat now + unat prd else unat t + unat prd)"
    using le d s p by (auto simp: e word_less_nat_alt word_le_nat_alt)
qed

text \<open>The polls of a timer at the times of a list: how often it expires, and where it ends.\<close>

fun polls :: "u64 \<Rightarrow> u64 \<Rightarrow> u64 list \<Rightarrow> nat \<times> u64" where
  "polls t prd [] = (0, t)"
| "polls t prd (now # nows) =
     (let (b, t) = mg_timer_expired t prd now; (n, t) = polls t prd nows
      in ((if b then 1 else 0) + n, t))"

lemma polls_rate:
  assumes "t \<noteq> 0" "\<forall>now \<in> set nows. unat now + 2 * unat prd < 2 ^ 64 \<and> unat now \<le> T"
    "unat t \<le> hd (map unat nows @ [T]) + unat prd" "sorted (map unat nows)"
  shows "unat t + fst (polls t prd nows) * unat prd \<le> max (unat t) (T + unat prd) \<and>
         unat (snd (polls t prd nows)) \<ge> unat t + fst (polls t prd nows) * unat prd"
  using assms
proof (induction nows arbitrary: t)
  case (Cons now nows)
  define r where "r = mg_timer_expired t prd now"
  note ex = expired_cases [of t now prd, folded r_def]
  have pre: "unat t \<le> unat now + unat prd" "unat now + 2 * unat prd < 2 ^ 64" "unat now \<le> T"
    using Cons.prems by auto
  have next_le: "unat now \<le> hd (map unat nows @ [T])"
    using Cons.prems(4) pre(3) by (cases nows) auto
  show ?case
  proof (cases "t \<le> now")
    case False
    then have "fst r = False" "snd r = t" using ex Cons.prems(1) pre by auto
    moreover have "unat t \<le> hd (map unat nows @ [T]) + unat prd" using pre next_le by linarith
    ultimately show ?thesis
      using Cons.IH [of t] Cons.prems by (auto simp: r_def [symmetric] split: prod.splits)
  next
    case True
    let ?t = "snd r"
    have "fst r" using True ex Cons.prems(1) pre by auto
    moreover have t': "unat ?t = (if unat now - unat t > unat prd then unat now + unat prd else unat t + unat prd)"
      using True ex Cons.prems(1) pre by auto
    have le: "unat t \<le> unat now" using True by (simp add: word_le_nat_alt)
    have pos: "0 < unat t" using Cons.prems(1) by (simp add: unat_gt_0)
    then have "?t \<noteq> 0" using t' le by (auto split: if_splits)
    moreover have "unat ?t \<le> hd (map unat nows @ [T]) + unat prd"
      using t' le next_le by (auto split: if_splits)
    ultimately have IH: "unat ?t + fst (polls ?t prd nows) * unat prd \<le> max (unat ?t) (T + unat prd)"
        "unat ?t + fst (polls ?t prd nows) * unat prd \<le> unat (snd (polls ?t prd nows))"
      using Cons.IH [of ?t] Cons.prems by auto
    have "unat t + unat prd \<le> unat ?t" "unat ?t \<le> T + unat prd" using t' le pre by (auto split: if_splits)
    with IH \<open>fst r\<close> show ?thesis
      by (auto simp: r_def [symmetric] algebra_simps split: prod.splits)
  qed
qed simp

text \<open>The calls of one timer over a sequence of polls.\<close>

fun poll_calls :: "mg_timer \<Rightarrow> u64 list \<Rightarrow> nat" where
  "poll_calls t [] = 0"
| "poll_calls t (now # nows) =
     (let (b, t) = poll_one now t in (if b then 1 else 0) + poll_calls t nows)"

lemma flag_set: "(f OR MG_TIMER_CALLED) AND MG_TIMER_CALLED \<noteq> (0 :: u32)"
  "(f OR MG_TIMER_CALLED) AND MG_TIMER_REPEAT = f AND MG_TIMER_REPEAT"
proof -
  have "bit ((f OR MG_TIMER_CALLED) AND MG_TIMER_CALLED) 2"
    by (simp add: MG_TIMER_CALLED_def bit_simps)
  then show "(f OR MG_TIMER_CALLED) AND MG_TIMER_CALLED \<noteq> (0 :: u32)"
    by (metis bit_0_eq bot_apply bot_bool_def)
  show "(f OR MG_TIMER_CALLED) AND MG_TIMER_REPEAT = f AND MG_TIMER_REPEAT"
    by (rule bit_word_eqI) (auto simp: MG_TIMER_CALLED_def MG_TIMER_REPEAT_def bit_simps)
qed

lemma polls_exact:
  assumes "unat prev < unat t" "unat t \<le> unat prev + unat prd" "0 < unat prd"
    "sorted (map unat (prev # nows))" "successively (\<lambda>x y. unat y \<le> unat x + unat prd) (prev # nows)"
    "\<forall>now \<in> set nows. unat now + 2 * unat prd < 2 ^ 64"
  shows "fst (polls t prd nows) = (unat (last (prev # nows)) + unat prd - unat t) div unat prd"
  using assms
proof (induction nows arbitrary: t prev)
  case (Cons now nows)
  define r where "r = mg_timer_expired t prd now"
  have "t \<noteq> 0" using Cons.prems(1) by auto
  note ex = expired_cases [of t now prd, folded r_def, OF this]
  have pre: "unat t \<le> unat now + unat prd" "unat now + 2 * unat prd < 2 ^ 64" "unat now \<le> unat prev + unat prd"
      "unat prev \<le> unat now" using Cons.prems by auto
  have later: "sorted (map unat (now # nows))" "successively (\<lambda>x y. unat y \<le> unat x + unat prd) (now # nows)"
      "\<forall>now \<in> set nows. unat now + 2 * unat prd < 2 ^ 64" using Cons.prems by auto
  have last: "unat now \<le> unat (last (now # nows))"
    using later(1) by (cases nows rule: rev_cases) auto
  show ?case
  proof (cases "t \<le> now")
    case False
    then have "fst r = False" "snd r = t" using ex pre by auto
    moreover have "unat now < unat t" using False by (simp add: word_le_nat_alt)
    ultimately show ?thesis
      using Cons.IH [of now t] pre(1) Cons.prems(3) later
      by (auto simp: r_def [symmetric] split: prod.splits)
  next
    case True
    have le: "unat t \<le> unat now" using True by (simp add: word_le_nat_alt)
    have f: "fst r" "unat (snd r) = unat t + unat prd"
      using True ex pre Cons.prems(1) by auto
    have "fst (polls (snd r) prd nows) = (unat (last (now # nows)) + unat prd - unat (snd r)) div unat prd"
      by (rule Cons.IH) (use f le pre Cons.prems(1,3) later in auto)
    then have n: "fst (polls (snd r) prd nows) = (unat (last (now # nows)) - unat t) div unat prd"
      using f by simp
    have "(unat (last (now # nows)) + unat prd - unat t) div unat prd = Suc ((unat (last (now # nows)) - unat t) div unat prd)"
    proof -
      have "unat (last (now # nows)) + unat prd - unat t = (unat (last (now # nows)) - unat t) + unat prd"
        using last le by linarith
      then show ?thesis using Cons.prems(3) by (simp only: div_add_self2)
    qed
    then show ?thesis using n f by (auto simp: r_def [symmetric] split: prod.splits)
  qed
qed simp

text \<open>The callbacks of a list of timers, polled at the times of a list.\<close>

fun timer_polls :: "mg_timer list \<Rightarrow> u64 list \<Rightarrow> nat list" where
  "timer_polls ts [] = []"
| "timer_polls ts (now # nows) = (let (calls, ts) = mg_timer_poll ts now in calls @ timer_polls ts nows)"

lemma poll_addr: "addr (snd (poll_one now t)) = addr t" "period_ms (snd (poll_one now t)) = period_ms t"
  by (auto simp: poll_one_def Let_def split: prod.splits)

lemma poll_keeps: "map addr (snd (mg_timer_poll ts now)) = map addr ts"
  by (induction ts) (auto simp: poll_one_def Let_def split: prod.splits)

lemma poll_calls_in: "set (fst (mg_timer_poll ts now)) \<subseteq> addr ` set ts"
  by (induction ts) (auto split: prod.splits if_splits)

lemma timer_polls_head:
  "addr t \<notin> addr ` set ts \<Longrightarrow> count_list (timer_polls (t # ts) nows) (addr t) = poll_calls t nows"
proof (induction nows arbitrary: t ts)
  case (Cons now nows)
  have "addr ` set (snd (mg_timer_poll ts now)) = addr ` set ts"
    using arg_cong [OF poll_keeps, of set ts now] by simp
  moreover have "count_list (fst (mg_timer_poll ts now)) (addr t) = 0"
    using poll_calls_in [of ts now] Cons.prems by (auto simp: count_list_0_iff)
  ultimately show ?case
    using Cons.IH [of "snd (poll_one now t)" "snd (mg_timer_poll ts now)"] Cons.prems poll_addr [of now t]
    by (auto simp: split: prod.splits)
qed simp

lemma poll_one_repeat:
  assumes "flags t AND MG_TIMER_REPEAT \<noteq> 0" "expire t \<noteq> 0"
  shows "fst (poll_one now t) = fst (mg_timer_expired (expire t) (period_ms t) now)"
    "expire (snd (poll_one now t)) = snd (mg_timer_expired (expire t) (period_ms t) now)"
    "flags (snd (poll_one now t)) AND MG_TIMER_REPEAT \<noteq> 0"
  using assms flag_set by (auto simp: poll_one_def Let_def split: prod.splits)

lemma poll_calls_repeat:
  assumes "flags t AND MG_TIMER_REPEAT \<noteq> 0" "expire t \<noteq> 0"
    "unat (expire t) \<le> hd (map unat nows @ [unat (expire t)]) + unat (period_ms t)" "sorted (map unat nows)"
    "\<forall>now \<in> set nows. unat now + 2 * unat (period_ms t) < 2 ^ 64"
  shows "poll_calls t nows = fst (polls (expire t) (period_ms t) nows)"
  using assms
proof (induction nows arbitrary: t)
  case (Cons now nows)
  define t' where "t' = snd (poll_one now t)"
  let ?r = "mg_timer_expired (expire t) (period_ms t) now"
  note one = poll_one_repeat [OF Cons.prems(1,2), of now, folded t'_def]
  have p: "period_ms t' = period_ms t" by (simp add: t'_def poll_addr)
  have pre: "unat (expire t) \<le> unat now + unat (period_ms t)" "unat now + 2 * unat (period_ms t) < 2 ^ 64"
    using Cons.prems by auto
  note ex = expired_cases [OF Cons.prems(2) pre]
  have nxt: "unat now \<le> hd (map unat nows @ [unat now])" using Cons.prems(4) by (cases nows) auto
  have e: "expire t' \<noteq> 0 \<and> unat (expire t') \<le> unat now + unat (period_ms t)"
  proof (cases "expire t \<le> now")
    case True
    have "0 < unat (expire t)" using Cons.prems(2) by (simp add: unat_gt_0)
    then have "0 < unat (snd ?r)" "unat (snd ?r) \<le> unat now + unat (period_ms t)"
      using ex(3) [OF True] True by (auto simp: word_le_nat_alt split: if_splits)
    then show ?thesis using one(2) by (auto simp: unat_gt_0)
  next
    case False
    then show ?thesis using ex(2) [OF False] one(2) Cons.prems(2) pre by simp
  qed
  have "poll_calls t' nows = fst (polls (expire t') (period_ms t') nows)"
  proof (rule Cons.IH)
    show "unat (expire t') \<le> hd (map unat nows @ [unat (expire t')]) + unat (period_ms t')"
      using e p nxt by (cases nows) auto
  qed (use one e p Cons.prems in auto)
  then show ?case using one(1,2) p by (auto simp: t'_def split: prod.splits)
qed simp

lemma first_poll:
  assumes "unat now + unat ms < 2 ^ 64" "0 < unat ms"
    "t = \<lparr>addr = a, period_ms = ms, expire = 0, flags = fl\<rparr>"
  shows "fst (poll_one now t) \<longleftrightarrow> fl AND MG_TIMER_RUN_NOW \<noteq> 0 \<and> fl AND MG_TIMER_CALLED = 0"
    "expire (snd (poll_one now t)) = now + ms"
    "flags (snd (poll_one now t)) AND MG_TIMER_REPEAT = fl AND MG_TIMER_REPEAT"
proof -
  have "now < now + ms" using assms(1,2) by (simp add: word_less_nat_alt unat_plus_if')
  then have "mg_timer_expired 0 ms now = (False, now + ms)"
    by (auto simp: mg_timer_expired_def Let_def)
  then show "fst (poll_one now t) \<longleftrightarrow> fl AND MG_TIMER_RUN_NOW \<noteq> 0 \<and> fl AND MG_TIMER_CALLED = 0"
    "expire (snd (poll_one now t)) = now + ms"
    "flags (snd (poll_one now t)) AND MG_TIMER_REPEAT = fl AND MG_TIMER_REPEAT"
    using assms(3) flag_set by (auto simp: poll_one_def Let_def)
qed

text \<open>
  C40.  A periodic timer runs at its rate.  A repeating timer is created among others and the list is
  polled at non-decreasing times (with no wrap-around of the clock).  Its callback runs at the first
  poll if the run-now flag asks for it, and then at most once for every whole period since
  the first poll, however late or bursty the polls are; if consecutive polls are at most a period
  apart, it runs exactly as often as whole periods have elapsed.
\<close>

theorem mg_timer_rate:
  assumes "a \<notin> addr ` set ts" "fl AND MG_TIMER_REPEAT \<noteq> 0" "0 < ms" "sorted (map unat (now # nows))"
    "unat (last (now # nows)) + 2 * unat ms < 2 ^ 64"
  shows "\<exists>n. count_list (timer_polls (mg_timer_init ts a ms fl) (now # nows)) a =
       (if fl AND MG_TIMER_RUN_NOW \<noteq> 0 \<and> fl AND MG_TIMER_CALLED = 0 then 1 else 0) + n \<and>
     n \<le> (unat (last (now # nows)) - unat now) div unat ms \<and>
     (successively (\<lambda>x y. unat y \<le> unat x + unat ms) (now # nows) \<longrightarrow>
        n = (unat (last (now # nows)) - unat now) div unat ms)"
proof -
  define t where "t = \<lparr>addr = a, period_ms = ms, expire = 0, flags = fl\<rparr>"
  define L where "L = unat (last (now # nows))"
  have ms: "0 < unat ms" using assms(3) by (simp add: word_less_nat_alt)
  have upto: "\<forall>x \<in> set (now # nows). unat x \<le> L"
    using assms(4) by (cases nows rule: rev_cases) (auto simp: L_def sorted_append)
  then have lim: "\<forall>x \<in> set (now # nows). unat x + 2 * unat ms < 2 ^ 64 \<and> unat x \<le> L"
    using assms(5) unfolding L_def [symmetric] by force
  define t' where "t' = snd (poll_one now t)"
  have f: "fst (poll_one now t) \<longleftrightarrow> fl AND MG_TIMER_RUN_NOW \<noteq> 0 \<and> fl AND MG_TIMER_CALLED = 0"
      "expire t' = now + ms" "flags t' AND MG_TIMER_REPEAT \<noteq> 0" "period_ms t' = ms"
    using first_poll [of now ms t a fl] lim ms assms(2) by (auto simp: t_def t'_def poll_addr)
  have u: "unat (now + ms) = unat now + unat ms" using lim ms by (simp add: unat_plus_if')
  then have e: "expire t' \<noteq> 0" using f(2) ms by (metis add_is_0 less_irrefl unat_0)
  have hd: "unat (now + ms) \<le> hd (map unat nows @ [x]) + unat ms" if "unat now \<le> x" for x
    using assms(4) u that by (cases nows) auto
  define n where "n = fst (polls (now + ms) ms nows)"
  have "count_list (timer_polls (mg_timer_init ts a ms fl) (now # nows)) a = poll_calls t (now # nows)"
    using timer_polls_head [of t ts "now # nows"] assms(1) by (simp add: mg_timer_init_def t_def)
  moreover have "poll_calls t' nows = n"
    using poll_calls_repeat [OF f(3) e, of nows] f(2,4) hd [of "unat (now + ms)"] u assms(4) lim by (simp add: n_def)
  moreover have "n \<le> (L - unat now) div unat ms"
  proof -
    have "unat (now + ms) + n * unat ms \<le> max (unat (now + ms)) (L + unat ms)"
      using polls_rate [of "now + ms" nows ms L] e f(2) hd [of L] assms(4) lim by (simp add: n_def)
    then have "n * unat ms \<le> L - unat now" using u by (auto simp: max_def split: if_splits)
    then show ?thesis using ms by (simp add: less_eq_div_iff_mult_less_eq)
  qed
  moreover have "n = (L - unat now) div unat ms" if "successively (\<lambda>x y. unat y \<le> unat x + unat ms) (now # nows)"
    using polls_exact [of now "now + ms" ms nows] that ms u assms(4) lim by (simp add: n_def L_def)
  moreover have "poll_calls t (now # nows) = (if fst (poll_one now t) then 1 else 0) + poll_calls t' nows"
    by (simp add: t'_def split: prod.splits)
  ultimately show ?thesis unfolding L_def [symmetric] f(1) [symmetric] by (intro exI [of _ n]) simp
qed

definition spare_timer :: mg_timer where
  "spare_timer = \<lparr>addr = 2, period_ms = 7, expire = 0, flags = 0\<rparr>"

theorem mg_timer_rate_witness:
  "\<exists>n. count_list (timer_polls (mg_timer_init [spare_timer] 1 50 3) [100, 120, 160, 201]) 1 = 1 + n \<and> n = 2"
proof -
  have "successively (\<lambda>x y. unat y \<le> unat x + unat (50 :: u64)) [100, 120, 160, 201 :: u64]" by simp
  then show ?thesis
    using mg_timer_rate [of 1 "[spare_timer]" 3 50 100 "[120, 160, 201]"]
    by (auto simp: spare_timer_def MG_TIMER_REPEAT_def MG_TIMER_RUN_NOW_def MG_TIMER_CALLED_def
        simp del: timer_polls.simps)
qed

section \<open>One-shot timers\<close>

lemma called_timer_silent:
  "flags t AND MG_TIMER_REPEAT = 0 \<Longrightarrow> flags t AND MG_TIMER_CALLED \<noteq> 0 \<Longrightarrow> poll_calls t nows = 0"
proof (induction nows arbitrary: t)
  case (Cons now nows)
  have f: "\<not> fst (poll_one now t)"
    using Cons.prems by (auto simp: poll_one_def Let_def split: prod.splits)
  have "flags (snd (poll_one now t)) = flags t \<or> flags (snd (poll_one now t)) = flags t OR MG_TIMER_CALLED"
    by (auto simp: poll_one_def Let_def split: prod.splits)
  then have "poll_calls (snd (poll_one now t)) nows = 0"
    using Cons.prems flag_set by (intro Cons.IH) (auto)
  with f show ?case by (cases "poll_one now t") simp
qed simp

text \<open>
  A timer without the repeat flag calls its function at most once over any sequence of
  polls, with or without the run-now flag and however the clock moves, and polling never adds,
  drops or reorders timers.
\<close>

theorem mg_timer_once:
  "(flags t AND MG_TIMER_REPEAT = 0 \<longrightarrow> poll_calls t nows \<le> 1) \<and>
   map addr (snd (mg_timer_poll ts now)) = map addr ts"
proof
  show "flags t AND MG_TIMER_REPEAT = 0 \<longrightarrow> poll_calls t nows \<le> 1"
  proof (induction nows arbitrary: t)
    case (Cons n nows)
    show ?case
    proof
      assume r: "flags t AND MG_TIMER_REPEAT = 0"
      obtain b t' where bt: "poll_one n t = (b, t')" by (cases "poll_one n t")
      have "\<not> b \<Longrightarrow> flags t' AND MG_TIMER_REPEAT = 0"
        using bt r flag_set by (auto simp: poll_one_def Let_def split: prod.splits if_splits)
      moreover have "b \<Longrightarrow> flags t' = flags t OR MG_TIMER_CALLED"
        using bt by (auto simp: poll_one_def Let_def split: prod.splits if_splits)
      ultimately show "poll_calls t (n # nows) \<le> 1"
        using Cons.IH called_timer_silent [of t' nows] flag_set r by (cases b) (auto simp: bt)
    qed
  qed simp
  show "map addr (snd (mg_timer_poll ts now)) = map addr ts"
    by (induction ts) (auto simp: poll_one_def Let_def split: prod.splits)
qed

theorem mg_timer_once_witness:
  "poll_calls \<lparr>addr = 1, period_ms = 10, expire = 0, flags = 2\<rparr> [5, 20, 40] \<le> 1"
  using mg_timer_once [of "\<lparr>addr = 1, period_ms = 10, expire = 0, flags = 2\<rparr>" "[5, 20, 40]" "[]" 0]
  by (simp add: MG_TIMER_REPEAT_def)

end
