(* ===== verification/Mg_Ws.thy ===== *)
theory Mg_Ws
  imports Stream_Reader Mg_Sha1 Mg_Base64 Mg_Url Mg_Http_Reply
begin

text \<open>
  WebSockets (\<open>src/mongoose.c\<close>, \<open>ws.c\<close>): the frame reader \<open>ws_process\<close>, the frame writers
  \<open>mg_ws_send\<close> and \<open>mg_ws_wrap\<close>, the two handshakes and the event handler \<open>mg_ws_cb\<close>, which
  answers pings and closes and puts fragmented messages together inside the receive buffer.
  The receive and send buffers are their contents (\<open>Mg_Iobuf\<close> refines byte streams); allocation
  succeeds, and the bytes behind the contents of a buffer are zero, as \<open>calloc\<close> and
  \<open>mg_iobuf_del\<close> leave them.  The random source is an infinite sequence of bytes, the user's
  handler a function on the connection, and formatted text an argument.
\<close>

section \<open>Frames\<close>

record ws_msg =
  ws_flags :: u8
  ws_header_len :: nat
  ws_data_len :: nat

text \<open>The loop \<open>for (i = 0; i < n; i++) p[i] ^= m[i & 3]\<close> on one buffer.\<close>

fun mask_loop :: "nat \<Rightarrow> nat \<Rightarrow> nat \<Rightarrow> nat \<Rightarrow> bytes \<Rightarrow> bytes option" where
  "mask_loop 0 i p m mem = Some mem"
| "mask_loop (Suc n) i p m mem = do {
     a \<leftarrow> rd mem (p + i);
     k \<leftarrow> rd mem (m + (i AND 3));
     mem \<leftarrow> wr mem (p + i) (a XOR k);
     mask_loop n (i + 1) p m mem }"

text \<open>The C \<open>be32\<close> of the bytes at \<open>p\<close>.\<close>

definition be32_at :: "bytes \<Rightarrow> nat \<Rightarrow> u32 option" where
  "be32_at mem p = do {
     a \<leftarrow> rd mem p; b \<leftarrow> rd mem (p + 1); c \<leftarrow> rd mem (p + 2); d \<leftarrow> rd mem (p + 3);
     Some (ucast d OR push_bit 8 (ucast c) OR push_bit 16 (ucast b) OR push_bit 24 (ucast a)) }"

text \<open>The header and data lengths the first bytes announce, with the length of the mask.\<close>

definition ws_lengths :: "bytes \<Rightarrow> (nat \<times> ws_msg) option" where
  "ws_lengths mem =
     (let dlen = length mem; msg = \<lparr>ws_flags = 0, ws_header_len = 0, ws_data_len = 0\<rparr> in
      if dlen \<ge> 2 then do {
        b1 \<leftarrow> rd mem 1;
        b0 \<leftarrow> rd mem 0;
        let n = unat (b1 AND 0x7f);
        let mask_len = (if b1 AND 128 \<noteq> 0 then 4 else 0);
        let msg = msg\<lparr>ws_flags := b0\<rparr>;
        msg \<leftarrow>
          (if n < 126 \<and> dlen \<ge> mask_len then Some (msg\<lparr>ws_data_len := n, ws_header_len := 2 + mask_len\<rparr>)
           else if n = 126 \<and> dlen \<ge> 4 + mask_len then do {
             b2 \<leftarrow> rd mem 2;
             b3 \<leftarrow> rd mem 3;
             Some (msg\<lparr>ws_header_len := 4 + mask_len, ws_data_len := push_bit 8 (unat b2) OR unat b3\<rparr>) }
           else if dlen \<ge> 10 + mask_len then do {
             hi \<leftarrow> be32_at mem 2;
             lo \<leftarrow> be32_at mem 6;
             Some (msg\<lparr>ws_header_len := 10 + mask_len,
                       ws_data_len := unat (push_bit 32 (ucast hi) + ucast lo :: u64)\<rparr>) }
           else Some msg);
        Some (mask_len, msg) }
      else Some (0, msg))"

text \<open>The buffer with the data unmasked, the length of the frame (0: not complete) and its parts.\<close>

definition ws_process :: "bytes \<Rightarrow> (bytes \<times> nat \<times> ws_msg) option" where
  "ws_process mem = do {
     (mask_len, msg) \<leftarrow> ws_lengths mem;
     if ws_data_len msg > 1024 * 1024 * 1024 then Some (mem, 0, msg)
     else if ws_header_len msg + ws_data_len msg > length mem then Some (mem, 0, msg)
     else do {
       mem \<leftarrow> (if mask_len > 0
               then mask_loop (ws_data_len msg) 0 (ws_header_len msg) (ws_header_len msg - mask_len) mem
               else Some mem);
       Some (mem, ws_header_len msg + ws_data_len msg, msg) } }"

text \<open>\<open>rnd\<close> is what \<open>mg_random\<close> writes into the header, \<open>mem\<close> the header array.\<close>

definition mkhdr :: "nat \<Rightarrow> int \<Rightarrow> bool \<Rightarrow> bytes \<Rightarrow> bytes \<Rightarrow> (nat \<times> bytes) option" where
  "mkhdr dlen op client rnd mem = do {
     mem \<leftarrow> wr mem 0 (word_of_int (op OR 128));
     (n, mem) \<leftarrow>
       (if dlen < 126 then do {
          mem \<leftarrow> wr mem 1 (word_of_nat dlen);
          Some (2, mem) }
        else if dlen < 65536 then do {
          mem \<leftarrow> wr mem 1 126;
          mem \<leftarrow> blit mem 2 (be16 (word_of_nat dlen));
          Some (4, mem) }
        else do {
          mem \<leftarrow> wr mem 1 127;
          mem \<leftarrow> blit mem 2 (be32 (ucast (drop_bit 32 (word_of_nat dlen :: u64))));
          mem \<leftarrow> blit mem 6 (be32 (ucast (word_of_nat dlen AND 0xffffffff :: u64)));
          Some (10, mem) });
     if client then do {
       b \<leftarrow> rd mem 1;
       mem \<leftarrow> wr mem 1 (b OR push_bit 7 1);
       mem \<leftarrow> blit mem n rnd;
       Some (n + 4, mem) }
     else Some (n, mem) }"

section \<open>Connections\<close>

datatype ws_ev =
    Ws_open bytes
  | Ws_ctl u8 bytes
  | Ws_msg u8 bytes
  | Ws_error

record ws_conn =
  ws_recv :: bytes
  ws_sent :: bytes
  ws_frag :: nat
  is_client :: bool
  is_websocket :: bool
  is_draining :: bool
  ws_closing :: bool
  ws_is_resp :: bool
  entropy :: "nat \<Rightarrow> u8"
  ws_trace :: "ws_ev list"

type_synonym ws_handler = "ws_ev \<Rightarrow> ws_conn \<Rightarrow> ws_conn"

definition ws_call :: "ws_handler \<Rightarrow> ws_ev \<Rightarrow> ws_conn \<Rightarrow> ws_conn" where
  "ws_call h ev c = h ev (c\<lparr>ws_trace := ws_trace c @ [ev]\<rparr>)"

definition ws_error :: "ws_handler \<Rightarrow> ws_conn \<Rightarrow> ws_conn" where
  "ws_error h c = ws_call h Ws_error (c\<lparr>ws_closing := True\<rparr>)"

definition take_random :: "nat \<Rightarrow> ws_conn \<Rightarrow> bytes \<times> ws_conn" where
  "take_random n c = (map (entropy c) [0..<n], c\<lparr>entropy := \<lambda>i. entropy c (i + n)\<rparr>)"

definition ws_header :: "nat \<Rightarrow> int \<Rightarrow> ws_conn \<Rightarrow> (bytes \<times> ws_conn) option" where
  "ws_header dlen op c =
     (let (rnd, c) = (if is_client c then take_random 4 c else ([], c)) in do {
        (n, mem) \<leftarrow> mkhdr dlen op (is_client c) rnd (replicate 14 0);
        h \<leftarrow> slice mem 0 n;
        Some (h, c) })"

definition mg_ws_mask :: "nat \<Rightarrow> ws_conn \<Rightarrow> ws_conn option" where
  "mg_ws_mask dlen c =
     (if is_client c then do {
        s \<leftarrow> mask_loop dlen 0 (length (ws_sent c) - dlen) (length (ws_sent c) - dlen - 4) (ws_sent c);
        Some (c\<lparr>ws_sent := s\<rparr>) }
      else Some c)"

definition mg_ws_send :: "bytes \<Rightarrow> int \<Rightarrow> ws_conn \<Rightarrow> (nat \<times> ws_conn) option" where
  "mg_ws_send data op c = do {
     (h, c) \<leftarrow> ws_header (length data) op c;
     let c = c\<lparr>ws_sent := ws_sent c @ h\<rparr>;
     let c = c\<lparr>ws_sent := ws_sent c @ data\<rparr>;
     c \<leftarrow> mg_ws_mask (length data) c;
     Some (length h + length data, c) }"

text \<open>\<open>mg_ws_wrap\<close> turns the last \<open>dlen\<close> bytes of the send buffer into a frame.\<close>

definition mg_ws_wrap :: "nat \<Rightarrow> int \<Rightarrow> ws_conn \<Rightarrow> (nat \<times> ws_conn) option" where
  "mg_ws_wrap dlen op c = do {
     (h, c) \<leftarrow> ws_header dlen op c;
     let s = ws_sent c @ replicate (length h) 0;
     let p = length s - dlen;
     d \<leftarrow> slice s (p - length h) dlen;
     s \<leftarrow> blit s p d;
     s \<leftarrow> blit s (p - length h) h;
     c \<leftarrow> mg_ws_mask dlen (c\<lparr>ws_sent := s\<rparr>);
     Some (length (ws_sent c), c) }"

text \<open>\<open>out\<close> is the formatted text.\<close>

definition mg_ws_vprintf :: "int \<Rightarrow> bytes \<Rightarrow> ws_conn \<Rightarrow> (nat \<times> ws_conn) option" where
  "mg_ws_vprintf op out c = do {
     let dlen = length (ws_sent c);
     let c = c\<lparr>ws_sent := ws_sent c @ out\<rparr>;
     (n, c) \<leftarrow> mg_ws_wrap (length (ws_sent c) - dlen) op c;
     Some (length out, c) }"

section \<open>Handshakes\<close>

text \<open>\<open>mem\<close> is what the stack holds in the context and the two arrays.\<close>

definition ws_accept_key :: "bytes \<Rightarrow> bytes \<Rightarrow> bytes option" where
  "ws_accept_key mem wskey = do {
     c \<leftarrow> mg_sha1_update (mg_sha1_init mem) wskey;
     c \<leftarrow> mg_sha1_update c (bs ''258EAFA5-E914-47DA-95CA-C5AB0DC85B11'');
     sha \<leftarrow> mg_sha1_final c;
     (b64_sha, n) \<leftarrow> mg_base64_encode sha (replicate 30 0);
     Some b64_sha }"

text \<open>\<open>extra\<close> is the text printed for the caller's format, if there is one.\<close>

definition ws_handshake :: "bytes \<Rightarrow> bytes \<Rightarrow> bytes option \<Rightarrow> bytes option \<Rightarrow> ws_conn \<Rightarrow> ws_conn option" where
  "ws_handshake mem wskey wsproto extra c = do {
     b64_sha \<leftarrow> ws_accept_key mem wskey;
     s \<leftarrow> mg_printf (bs ''HTTP/1.1 101 Switching Protocols'' @ CRLF @ bs ''Upgrade: websocket'' @ CRLF @
            bs ''Connection: Upgrade'' @ CRLF @ bs ''Sec-WebSocket-Accept: %s'' @ CRLF) [Str (Some b64_sha)] (ws_sent c);
     let s = (case extra of None \<Rightarrow> s | Some t \<Rightarrow> s @ t);
     s \<leftarrow> (case wsproto of
            None \<Rightarrow> Some s
          | Some p \<Rightarrow> mg_printf (bs ''Sec-WebSocket-Protocol: %.*s'' @ CRLF) [Int32 (word_of_nat (length p)), Str (Some p)] s);
     Some (c\<lparr>ws_sent := s @ CRLF\<rparr>) }"

definition mg_ws_upgrade :: "ws_handler \<Rightarrow> bytes \<Rightarrow> http_message \<Rightarrow> bytes option \<Rightarrow> ws_conn \<Rightarrow> ws_conn option" where
  "mg_ws_upgrade h mem hm extra c =
     (let c = c\<lparr>ws_frag := 0\<rparr> in
      case mg_http_get_header hm (bs ''Sec-WebSocket-Key'') of
        None \<Rightarrow> do {
          r \<leftarrow> mg_http_reply 426 (Some []) (bs ''WS upgrade expected'' @ [10]) \<lparr>out_send = ws_sent c, out_resp = ws_is_resp c\<rparr>;
          Some (c\<lparr>ws_sent := out_send r, ws_is_resp := out_resp r, is_draining := True\<rparr>) }
      | Some wskey \<Rightarrow> do {
          c \<leftarrow> ws_handshake mem wskey (mg_http_get_header hm (bs ''Sec-WebSocket-Protocol'')) extra c;
          let c = c\<lparr>is_websocket := True, ws_is_resp := False\<rparr>;
          Some (ws_call h (Ws_open (req_method hm)) c) })"

text \<open>The request of a client; \<open>c\<close> is the connection that \<open>mg_connect\<close> returned.\<close>

definition mg_ws_connect :: "bytes \<Rightarrow> bytes option \<Rightarrow> ws_conn \<Rightarrow> ws_conn option" where
  "mg_ws_connect url_text extra c = do {
     let (nonce, c) = take_random 16 c;
     (key, n) \<leftarrow> mg_base64_encode nonce (replicate 30 0);
     let (ofs, k) = mg_url_host url_text;
     hst \<leftarrow> slice url_text ofs k;
     s \<leftarrow> mg_printf (bs ''GET %s HTTP/1.1'' @ CRLF @ bs ''Upgrade: websocket'' @ CRLF @ bs ''Host: %.*s'' @ CRLF @
            bs ''Connection: Upgrade'' @ CRLF @ bs ''Sec-WebSocket-Version: 13'' @ CRLF @ bs ''Sec-WebSocket-Key: %s'' @ CRLF)
          [Str (Some (mg_url_uri url_text @ [0])), Int32 (word_of_nat k), Str (Some hst), Str (Some key)] (ws_sent c);
     let s = (case extra of None \<Rightarrow> s | Some t \<Rightarrow> s @ t);
     Some (c\<lparr>ws_sent := s @ CRLF, ws_frag := 0\<rparr>) }"

section \<open>The event handler\<close>

definition ws_recv_del :: "nat \<Rightarrow> nat \<Rightarrow> ws_conn \<Rightarrow> ws_conn" where
  "ws_recv_del ofs n c = c\<lparr>ws_recv := take ofs (ws_recv c) @ drop (ofs + n) (ws_recv c)\<rparr>"

text \<open>The result says whether the caller returns at once: the answer has not arrived yet.\<close>

definition mg_ws_client_handshake :: "ws_handler \<Rightarrow> ws_conn \<Rightarrow> (bool \<times> ws_conn) option" where
  "mg_ws_client_handshake h c = do {
     n \<leftarrow> mg_http_get_request_len (ws_recv c);
     Some (if n < 0 then (False, ws_error h c)
      else if n > 0 then
        let c = (if n < 15 \<or> span (ws_recv c) 9 3 \<noteq> bs ''101'' then ws_error h c
                 else ws_call h (Ws_open (take (nat n) (ws_recv c))) (c\<lparr>is_websocket := True\<rparr>))
        in (False, ws_recv_del 0 (nat n) c)
      else (True, c)) }"

text \<open>
  The switch on the operation of a complete frame.  A close is answered with its own payload.
\<close>

definition ws_dispatch :: "ws_handler \<Rightarrow> u8 \<Rightarrow> bytes \<Rightarrow> ws_conn \<Rightarrow> ws_conn option" where
  "ws_dispatch h flags data c =
     (let op = flags AND 15 in
      if op = 0 then Some (ws_call h (Ws_ctl flags data) c)
      else if op = 9 then do {
        (n, c) \<leftarrow> mg_ws_send data 10 c;
        Some (ws_call h (Ws_ctl flags data) c) }
      else if op = 10 then Some (ws_call h (Ws_ctl flags data) c)
      else if op = 1 \<or> op = 2 then Some (if flags AND 128 \<noteq> 0 then ws_call h (Ws_msg flags data) c else c)
      else if op = 8 then do {
        let c = ws_call h (Ws_ctl flags data) c;
        (n, c) \<leftarrow> mg_ws_send data 8 c;
        Some (c\<lparr>is_draining := True\<rparr>) }
      else Some (ws_error h c))"

text \<open>
  One round of the loop: whether a frame was complete, the offset of the next one, the connection.
  A fragment loses its header, but the first keeps the byte with its flags; the last delivers the
  message, whose length is computed in \<open>size_t\<close>.
\<close>

definition ws_round :: "ws_handler \<Rightarrow> nat \<Rightarrow> ws_conn \<Rightarrow> (bool \<times> nat \<times> ws_conn) option" where
  "ws_round h ofs c = do {
     b \<leftarrow> slice (ws_recv c) ofs (length (ws_recv c) - ofs);
     (b, r, msg) \<leftarrow> ws_process b;
     let c = c\<lparr>ws_recv := take ofs (ws_recv c) @ b\<rparr>;
     if r = 0 then Some (False, ofs, c)
     else do {
       let flags = ws_flags msg;
       data \<leftarrow> slice (ws_recv c) (ofs + ws_header_len msg) (ws_data_len msg);
       let dlen = ws_header_len msg + ws_data_len msg;
       let final = (flags AND 128 \<noteq> 0);
       let op = flags AND 15;
       c \<leftarrow> ws_dispatch h flags data c;
       let (ofs, dlen, hl) = (if \<not> final \<or> op = 0 then if op \<noteq> 0 then (ofs + 1, dlen - 1, ws_header_len msg - 1)
                                                    else (ofs, dlen, ws_header_len msg)
                            else (ofs, dlen, ws_header_len msg));
       let c = (if \<not> final \<or> op = 0 then ws_recv_del ofs hl c else c);
       let (ofs, dlen) = (if \<not> final \<or> op = 0 then (ofs + (dlen - hl), dlen - hl) else (ofs, dlen));
       let c = (if \<not> final \<or> op = 0 then c\<lparr>ws_frag := ofs\<rparr> else c);
       let c = (if final \<and> op \<noteq> 0 then ws_recv_del ofs dlen c else c);
       if final \<and> op = 0 then do {
         flags \<leftarrow> rd (ws_recv c) 0;
         data \<leftarrow> slice (ws_recv c) 1 (unat (word_of_nat ofs - 1 :: u64));
         let c = ws_call h (Ws_msg flags data) c;
         let c = ws_recv_del 0 ofs c;
         Some (True, 0, c\<lparr>ws_frag := 0\<rparr>) }
       else Some (True, ofs, c) } }"

partial_function (option) ws_loop :: "ws_handler \<Rightarrow> nat \<Rightarrow> ws_conn \<Rightarrow> ws_conn option" where
  "ws_loop h ofs c = do {
     (more, ofs, c) \<leftarrow> ws_round h ofs c;
     if more then ws_loop h ofs c else Some c }"

text \<open>\<open>mg_ws_cb\<close> on \<open>MG_EV_READ\<close>, the only event it handles.\<close>

definition mg_ws_cb :: "ws_handler \<Rightarrow> ws_conn \<Rightarrow> ws_conn option" where
  "mg_ws_cb h c = do {
     let ofs = ws_frag c;
     (stop, c) \<leftarrow> (if is_client c \<and> \<not> is_websocket c then mg_ws_client_handshake h c else Some (False, c));
     if stop then Some c else ws_loop h ofs c }"

section \<open>The frames of RFC 6455\<close>

text \<open>A frame: its first byte (FIN, reserved bits, operation), its masking key and its data.\<close>

record ws_frame =
  fr_flags :: u8
  fr_mask :: "u32 option"
  fr_data :: bytes

fun xor_from :: "nat \<Rightarrow> bytes \<Rightarrow> bytes \<Rightarrow> bytes" where
  "xor_from i k [] = []"
| "xor_from i k (c # cs) = (c XOR k ! (i mod 4)) # xor_from (i + 1) k cs"

definition len_bytes :: "bool \<Rightarrow> nat \<Rightarrow> bytes" where
  "len_bytes masked n =
     (let m = (if masked then 128 else 0) in
      if n < 126 then [word_of_nat n OR m]
      else if n < 65536 then (126 OR m) # be16 (word_of_nat n)
      else (127 OR m) # be32 (word_of_nat (n div 2 ^ 32)) @ be32 (word_of_nat n))"

definition ws_head :: "ws_frame \<Rightarrow> bytes" where
  "ws_head f = fr_flags f # len_bytes (fr_mask f \<noteq> None) (length (fr_data f)) @
     (case fr_mask f of None \<Rightarrow> [] | Some k \<Rightarrow> be32 k)"

definition ws_payload :: "ws_frame \<Rightarrow> bytes" where
  "ws_payload f = (case fr_mask f of None \<Rightarrow> fr_data f | Some k \<Rightarrow> xor_from 0 (be32 k) (fr_data f))"

definition ws_enc :: "ws_frame \<Rightarrow> bytes" where
  "ws_enc f = ws_head f @ ws_payload f"

definition frame_ok :: "ws_frame \<Rightarrow> bool" where
  "frame_ok f \<longleftrightarrow> length (fr_data f) \<le> 1024 * 1024 * 1024"

lemma length_xor_from [simp]: "length (xor_from i k d) = length d"
  by (induction i k d rule: xor_from.induct) auto

lemma xor_from_twice [simp]: "xor_from i k (xor_from i k d) = d"
  by (induction d arbitrary: i) (simp_all add: xor.assoc)

lemma length_payload [simp]: "length (ws_payload f) = length (fr_data f)"
  by (simp add: ws_payload_def split: option.split)

lemma and_3: "(i :: nat) AND 3 = i mod 4"
  using take_bit_eq_mask [of 2 i] by (simp add: mask_eq_exp_minus_1 take_bit_eq_mod)

lemma mask_loop_spec:
  assumes "length pre = m" "length key = 4" "p = m + 4"
  shows "length done = i \<Longrightarrow>
    mask_loop (length todo) i p m (pre @ key @ done @ todo @ post) = Some (pre @ key @ done @ xor_from i key todo @ post)"
proof (induction todo arbitrary: "done" i)
  case (Cons c todo)
  have "rd (pre @ key @ done @ (c # todo) @ post) (p + i) = Some c"
    using Cons.prems assms by (simp add: nth_append)
  moreover have k: "i mod 4 < length key" using assms(2) by simp
  then have "rd (pre @ key @ done @ (c # todo) @ post) (m + (i AND 3)) = Some (key ! (i mod 4))"
    using assms(1) by (simp add: nth_append and_3)
  moreover have "wr (pre @ key @ done @ (c # todo) @ post) (p + i) v = Some (pre @ key @ (done @ [v]) @ todo @ post)" for v
    using Cons.prems assms by (simp add: list_update_append)
  ultimately show ?case
    using Cons.IH [of "done @ [c XOR key ! (i mod 4)]" "i + 1"] Cons.prems by simp
qed simp

section \<open>Reading the lengths\<close>

abbreviation mask_len :: "bool \<Rightarrow> nat" where "mask_len mk \<equiv> (if mk then 4 else 0)"
abbreviation mask_bit :: "bool \<Rightarrow> u8" where "mask_bit mk \<equiv> (if mk then 128 else 0)"

lemma len_byte:
  assumes "n < 128"
  shows "unat ((word_of_nat n OR mask_bit mk) AND 0x7f :: u8) = n"
    "((word_of_nat n OR mask_bit mk) AND 128 \<noteq> (0 :: u8)) = mk"
proof -
  have n: "unat (word_of_nat n :: u8) = n" using assms by (intro unat_small) simp
  have b: "\<not> bit (word_of_nat n :: u8) 7"
    using assms bit_unsigned_iff [of "word_of_nat n :: u8" 7, where ?'a = nat] by (simp add: n bit_iff_odd)
  have "(word_of_nat n OR mask_bit mk) AND 0x7f = (word_of_nat n :: u8)"
    by (rule byte_eqI) (use b in \<open>auto simp: bit_simps\<close>)
  then show "unat ((word_of_nat n OR mask_bit mk) AND 0x7f :: u8) = n" by (simp add: n)
  have "(word_of_nat n OR mask_bit mk) AND 128 = (mask_bit mk :: u8)"
    by (rule byte_eqI) (use b in \<open>auto simp: bit_simps\<close>)
  then show "((word_of_nat n OR mask_bit mk) AND 128 \<noteq> (0 :: u8)) = mk" by simp
qed

lemma ws_lengths_short: "length b < 2 \<Longrightarrow> ws_lengths b = Some (0, \<lparr>ws_flags = 0, ws_header_len = 0, ws_data_len = 0\<rparr>)"
  by (simp add: ws_lengths_def)

lemma rd01: "2 \<le> length b \<Longrightarrow> rd b 0 = Some (b ! 0) \<and> rd b (Suc 0) = Some (b ! Suc 0)"
  by (cases b) (auto simp: rd_def)

lemma unat_up: "unat (ucast (x :: u32) :: u64) = unat x"
  using unsigned_less [of x, where ?'a = nat] by (simp add: unsigned_ucast_eq take_bit_nat_eq_self)

lemma ws_lengths_small:
  assumes "2 \<le> length b" "b ! 1 = word_of_nat n OR mask_bit mk" "n < 126"
  shows "ws_lengths b = Some (mask_len mk, if mask_len mk \<le> length b
    then \<lparr>ws_flags = b ! 0, ws_header_len = 2 + mask_len mk, ws_data_len = n\<rparr>
    else \<lparr>ws_flags = b ! 0, ws_header_len = 0, ws_data_len = 0\<rparr>)"
  using assms len_byte [of n mk] rd01 [OF assms(1)] by (auto simp: ws_lengths_def Let_def)

lemma ws_lengths_mid:
  assumes "2 \<le> length b" "b ! 1 = 126 OR mask_bit mk"
    "4 + mask_len mk \<le> length b \<Longrightarrow> span b 2 2 = be16 (word_of_nat n)" "n < 65536"
  shows "ws_lengths b = Some (mask_len mk, if 4 + mask_len mk \<le> length b
    then \<lparr>ws_flags = b ! 0, ws_header_len = 4 + mask_len mk, ws_data_len = n\<rparr>
    else \<lparr>ws_flags = b ! 0, ws_header_len = 0, ws_data_len = 0\<rparr>)"
proof -
  note n = len_byte [of 126 mk, simplified]
  show ?thesis
  proof (cases "4 + mask_len mk \<le> length b")
    case True
    let ?w = "word_of_nat n :: u16"
    have l: "4 \<le> length b" using True by (cases mk) auto
    have "b ! 2 = span b 2 2 ! 0" "b ! 3 = span b 2 2 ! 1" using l by simp_all
    then have b: "b ! 2 = ucast (drop_bit 8 ?w)" "b ! 3 = ucast ?w"
      using assms(3) [OF True] by (simp_all add: be16_def)
    have "push_bit 8 (unat (ucast (drop_bit 8 ?w) :: u8)) OR unat (ucast ?w :: u8) = unat ?w"
      by (rule bit_eqI) (auto simp: bit_simps dest: bit_imp_le_length)
    then have "push_bit 8 (unat (b ! 2)) OR unat (b ! 3) = n" using b assms(4) by (simp add: unat_small)
    then show ?thesis using True l assms(1,2) n rd01 [OF assms(1)] by (cases mk) (auto simp: ws_lengths_def Let_def)
  next
    case False
    then show ?thesis using assms(1,2) n rd01 [OF assms(1)] by (cases mk) (auto simp: ws_lengths_def Let_def)
  qed
qed

lemma be32_at_span: "p + 4 \<le> length b \<Longrightarrow> span b p 4 = be32 w \<Longrightarrow> be32_at b p = Some w"
proof -
  assume l: "p + 4 \<le> length b" and s: "span b p 4 = be32 w"
  have "b ! p = span b p 4 ! 0" "b ! (p + 1) = span b p 4 ! 1" "b ! (p + 2) = span b p 4 ! 2" "b ! (p + 3) = span b p 4 ! 3"
    using l by simp_all
  then have "be32_at b p = Some (unbe32 (be32 w))"
    using l unfolding s by (simp add: be32_at_def unbe32_def ac_simps)
  then show ?thesis by simp
qed

lemma ws_lengths_big:
  assumes "2 \<le> length b" "b ! 1 = 127 OR mask_bit mk"
    "10 + mask_len mk \<le> length b \<Longrightarrow> span b 2 8 = be32 (word_of_nat (n div 2 ^ 32)) @ be32 (word_of_nat n)" "n < 2 ^ 64"
  shows "ws_lengths b = Some (mask_len mk, if 10 + mask_len mk \<le> length b
    then \<lparr>ws_flags = b ! 0, ws_header_len = 10 + mask_len mk, ws_data_len = n\<rparr>
    else \<lparr>ws_flags = b ! 0, ws_header_len = 0, ws_data_len = 0\<rparr>)"
proof -
  note n = len_byte [of 127 mk, simplified]
  show ?thesis
  proof (cases "10 + mask_len mk \<le> length b")
    case True
    let ?h = "word_of_nat (n div 2 ^ 32) :: u32" and ?l = "word_of_nat n :: u32"
    have l: "10 \<le> length b" using True by (cases mk) auto
    have "span b 2 4 = take 4 (span b 2 8)" "span b 6 4 = drop 4 (span b 2 8)"
      by (simp_all add: span_def take_drop drop_drop add.commute)
    then have "be32_at b 2 = Some ?h" "be32_at b 6 = Some ?l"
      using l assms(3) [OF True] by (auto intro!: be32_at_span)
    moreover have "unat (push_bit 32 (ucast ?h) + ucast ?l :: u64) = n"
    proof -
      have "n div 2 ^ 32 < 2 ^ 32" using assms(4) by (simp add: less_mult_imp_div_less)
      then have h: "unat ?h = n div 2 ^ 32" by (intro unat_small) simp
      have "unat ?l = n mod 2 ^ 32" by (simp add: unat_of_nat take_bit_eq_mod)
      then have "unat ?h * 2 ^ 32 + unat ?l = n" unfolding h by simp
      moreover have "unat (push_bit 32 (ucast ?h) + ucast ?l :: u64) = (unat ?h * 2 ^ 32 + unat ?l) mod 2 ^ 64"
        by (simp add: push_bit_eq_mult unat_word_ariths mod_simps unat_up)
      ultimately show ?thesis using assms(4) by simp
    qed
    ultimately show ?thesis using True l assms(1,2) n rd01 [OF assms(1)] by (cases mk) (auto simp: ws_lengths_def Let_def)
  next
    case False
    then show ?thesis using assms(1,2) n rd01 [OF assms(1)] by (cases mk) (auto simp: ws_lengths_def Let_def)
  qed
qed

text \<open>Reading the lengths of a frame of which \<open>length b\<close> bytes have arrived.\<close>

definition ws_full :: "ws_frame \<Rightarrow> ws_msg" where
  "ws_full f = \<lparr>ws_flags = fr_flags f, ws_header_len = length (ws_head f), ws_data_len = length (fr_data f)\<rparr>"

lemma length_len_bytes: "length (len_bytes mk n) = (if n < 126 then 1 else if n < 65536 then 3 else 9)"
  by (simp add: len_bytes_def Let_def)

lemma length_head: "length (ws_head f) = 1 + length (len_bytes (fr_mask f \<noteq> None) (length (fr_data f))) + mask_len (fr_mask f \<noteq> None)"
  by (auto simp: ws_head_def split: option.split)

lemma ws_lengths_enc:
  assumes "b = take k (ws_enc f @ rest)" "2 \<le> k" "length (fr_data f) < 2 ^ 64"
  shows "\<exists>msg. ws_lengths b = Some (mask_len (fr_mask f \<noteq> None), msg) \<and>
     (msg = ws_full f \<or> ws_header_len msg = 0 \<and> ws_data_len msg = 0 \<and> length b < length (ws_head f))"
proof -
  let ?n = "length (fr_data f)" and ?mk = "fr_mask f \<noteq> None"
  obtain tl where e: "ws_enc f @ rest = fr_flags f # len_bytes ?mk ?n @ tl" "length (ws_head f) = 1 + length (len_bytes ?mk ?n) + mask_len ?mk"
    using length_head [of f] by (auto simp: ws_enc_def ws_head_def)
  have hl: "length (ws_head f) \<le> length (ws_enc f @ rest)" by (simp add: ws_enc_def)
  have l2: "2 \<le> length b"
    using assms(1,2) e(1) by (simp add: length_len_bytes)
  have b0: "b ! 0 = fr_flags f" using assms(1,2) e(1) by simp
  have b1: "b ! 1 = len_bytes ?mk ?n ! 0" using assms(1,2) e(1) by (simp add: nth_append length_len_bytes)
  have sp: "span b 2 j = take j (tl')" if "len_bytes ?mk ?n = x # tl'" "j \<le> length tl'" "2 + j \<le> length b" for x tl' j
  proof -
    have "2 + j \<le> k" using that(3) assms(1) by simp
    then have "j \<le> k - 2" by simp
    then show ?thesis using that(1,2) assms(1) e(1) by (simp add: span_def drop_take numeral_2_eq_2 min_absorb1)
  qed
  show ?thesis
  proof (cases "?n < 126")
    case True
    then have "b ! 1 = word_of_nat ?n OR mask_bit ?mk" using b1 by (simp add: len_bytes_def Let_def)
    from ws_lengths_small [OF l2 this True] show ?thesis
      using True e(2) b0 by (cases "mask_len ?mk \<le> length b") (auto simp: ws_full_def length_len_bytes)
  next
    case big: False
    show ?thesis
    proof (cases "?n < 65536")
      case True
      then have lb: "len_bytes ?mk ?n = (126 OR mask_bit ?mk) # be16 (word_of_nat ?n)" using big by (simp add: len_bytes_def Let_def)
      then have "b ! 1 = 126 OR mask_bit ?mk" using b1 by simp
      moreover have "4 + mask_len ?mk \<le> length b \<Longrightarrow> span b 2 2 = be16 (word_of_nat ?n)"
        using sp [OF lb, of 2] by simp
      ultimately show ?thesis
        using ws_lengths_mid [OF l2, of ?mk ?n] True big e(2) b0
        by (cases "4 + mask_len ?mk \<le> length b") (auto simp: ws_full_def length_len_bytes)
    next
      case False
      then have lb: "len_bytes ?mk ?n = (127 OR mask_bit ?mk) # be32 (word_of_nat (?n div 2 ^ 32)) @ be32 (word_of_nat ?n)"
        using big by (simp add: len_bytes_def Let_def)
      then have "b ! 1 = 127 OR mask_bit ?mk" using b1 by simp
      moreover have "10 + mask_len ?mk \<le> length b \<Longrightarrow> span b 2 8 = be32 (word_of_nat (?n div 2 ^ 32)) @ be32 (word_of_nat ?n)"
        using sp [OF lb, of 8] by simp
      ultimately show ?thesis
        using ws_lengths_big [OF l2, of ?mk ?n] False big e(2) b0 assms(3)
        by (cases "10 + mask_len ?mk \<le> length b") (auto simp: ws_full_def length_len_bytes)
    qed
  qed
qed

lemma ws_process_partial:
  assumes "frame_ok f" "k < length (ws_enc f)"
  shows "\<exists>msg. ws_process (take k (ws_enc f)) = Some (take k (ws_enc f), 0, msg)"
proof (cases "2 \<le> k")
  case False
  then show ?thesis by (simp add: ws_process_def ws_lengths_short)
next
  case True
  let ?b = "take k (ws_enc f)"
  have n: "length (fr_data f) < 2 ^ 64" using assms(1) by (simp add: frame_ok_def)
  obtain msg where m: "ws_lengths ?b = Some (mask_len (fr_mask f \<noteq> None), msg)"
    "msg = ws_full f \<or> ws_header_len msg = 0 \<and> ws_data_len msg = 0"
    using ws_lengths_enc [of ?b k f "[]"] True n by auto
  from m(2) show ?thesis
  proof
    assume "msg = ws_full f"
    moreover have "length ?b < length (ws_head f) + length (fr_data f)" using assms(2) by (simp add: ws_enc_def)
    ultimately show ?thesis using m(1) by (simp add: ws_process_def ws_full_def)
  qed (use m(1) in \<open>simp add: ws_process_def\<close>)
qed

lemma ws_process_frame:
  assumes "frame_ok f"
  shows "ws_process (ws_enc f @ rest) = Some (ws_head f @ fr_data f @ rest, length (ws_enc f), ws_full f)"
proof -
  have l: "2 \<le> length (ws_enc f @ rest)" by (simp add: ws_enc_def ws_head_def length_len_bytes)
  have n: "length (fr_data f) < 2 ^ 64" using assms by (simp add: frame_ok_def)
  obtain msg where "ws_lengths (ws_enc f @ rest) = Some (mask_len (fr_mask f \<noteq> None), msg)"
    "msg = ws_full f \<or> length (ws_enc f @ rest) < length (ws_head f)"
    using ws_lengths_enc [of "ws_enc f @ rest" "length (ws_enc f @ rest)" f rest] l n by auto
  then have m: "ws_lengths (ws_enc f @ rest) = Some (mask_len (fr_mask f \<noteq> None), ws_full f)"
    by (simp add: ws_enc_def)
  show ?thesis
  proof (cases "fr_mask f")
    case None
    then show ?thesis using m assms by (simp add: ws_process_def ws_full_def ws_enc_def ws_payload_def frame_ok_def)
  next
    case (Some k)
    obtain pre where pre: "ws_head f = pre @ be32 k" using Some by (simp add: ws_head_def)
    have "mask_loop (length (fr_data f)) 0 (length (ws_head f)) (length (ws_head f) - 4) (ws_enc f @ rest) =
        Some (ws_head f @ fr_data f @ rest)"
      using mask_loop_spec [of pre "length pre" "be32 k" "length pre + 4" "[]" 0 "ws_payload f" rest] pre Some
      by (simp add: ws_enc_def ws_payload_def)
    then show ?thesis using m Some assms by (simp add: ws_process_def ws_full_def ws_enc_def frame_ok_def)
  qed
qed

lemma head_nonempty: "2 \<le> length (ws_head f)" "ws_enc f \<noteq> []"
  by (simp_all add: ws_enc_def ws_head_def length_len_bytes)

section \<open>Writing frames\<close>

lemma be32_unbe32:
  assumes "length b = 4"
  shows "be32 (unbe32 b) = b"
proof -
  obtain x y z w where b: "b = [x, y, z, w]"
    using assms by (auto simp: length_Suc_conv eval_nat_numeral)
  have "ucast (drop_bit 24 (unbe32 b)) = x" "ucast (drop_bit 16 (unbe32 b)) = y"
      "ucast (drop_bit 8 (unbe32 b)) = z" "ucast (unbe32 b) = w"
    by (rule byte_eqI; simp add: b unbe32_def bit_simps byte_bits)+
  then show ?thesis by (simp add: be32_def b)
qed

lemma split_halves:
  "be32 (ucast (drop_bit 32 (word_of_nat n :: u64))) = be32 (word_of_nat (n div 2 ^ 32))"
  "be32 (ucast (word_of_nat n AND 0xffffffff :: u64)) = be32 (word_of_nat n)"
proof -
  have "(ucast (drop_bit 32 (word_of_nat n :: u64)) :: u32) = word_of_nat (n div 2 ^ 32)"
    unfolding drop_bit_eq_div [of 32 n, symmetric] by (rule bit_word_eqI) (simp add: bit_simps)
  then show "be32 (ucast (drop_bit 32 (word_of_nat n :: u64))) = be32 (word_of_nat (n div 2 ^ 32))" by simp
  have m: "(0xffffffff :: u64) = mask 32" by (simp add: mask_eq_exp_minus_1)
  have "(ucast (word_of_nat n AND 0xffffffff :: u64) :: u32) = word_of_nat n"
    unfolding m by (rule bit_word_eqI) (simp add: bit_simps)
  then show "be32 (ucast (word_of_nat n AND 0xffffffff :: u64)) = be32 (word_of_nat n)" by simp
qed


definition head_bytes :: "u8 \<Rightarrow> u32 option \<Rightarrow> nat \<Rightarrow> bytes" where
  "head_bytes fl k n = fl # len_bytes (k \<noteq> None) n @ (case k of None \<Rightarrow> [] | Some k \<Rightarrow> be32 k)"

lemma ws_head_bytes: "ws_head f = head_bytes (fr_flags f) (fr_mask f) (length (fr_data f))"
  by (simp add: ws_head_def head_bytes_def)

lemma mkhdr_spec:
  assumes "if client then k = Some (unbe32 rnd) \<and> length rnd = 4 else k = None"
  shows "\<exists>rest. mkhdr n op client rnd (replicate 14 0) =
    Some (length (head_bytes (word_of_int (op OR 128)) k n), head_bytes (word_of_int (op OR 128)) k n @ rest)"
proof -
  let ?fl = "word_of_int (op OR 128) :: u8"
  have z: "replicate 14 (0 :: u8) = [0, 0, 0, 0, 0, 0, 0, 0, 0, 0, 0, 0, 0, 0]" by (simp add: eval_nat_numeral)
  have c: "be32 (unbe32 rnd) = rnd" if client using assms that by (simp add: be32_unbe32)
  consider (s) "n < 126" | (m) "\<not> n < 126" "n < 65536" | (b) "\<not> n < 126" "\<not> n < 65536" by blast
  then show ?thesis
  proof cases
    case s
    then show ?thesis using assms c
      by (cases client) (auto simp: mkhdr_def z head_bytes_def len_bytes_def Let_def blit_def)
  next
    case m
    then show ?thesis using assms c
      by (cases client) (auto simp: mkhdr_def z head_bytes_def len_bytes_def Let_def blit_def)
  next
    case b
    then show ?thesis using assms c split_halves [of n]
      by (cases client) (auto simp: mkhdr_def z head_bytes_def len_bytes_def Let_def blit_def)
  qed
qed

text \<open>The frame a connection sends, and the connection after it has drawn the masking key.\<close>

definition sent_frame :: "int \<Rightarrow> bytes \<Rightarrow> ws_conn \<Rightarrow> ws_frame" where
  "sent_frame op d c =
     \<lparr>fr_flags = word_of_int (op OR 128),
      fr_mask = (if is_client c then Some (unbe32 (fst (take_random 4 c))) else None), fr_data = d\<rparr>"

definition drawn :: "ws_conn \<Rightarrow> ws_conn" where
  "drawn c = (if is_client c then snd (take_random 4 c) else c)"

lemma drawn_simps [simp]:
  "ws_recv (drawn c) = ws_recv c" "ws_sent (drawn c) = ws_sent c" "ws_frag (drawn c) = ws_frag c"
  "is_client (drawn c) = is_client c" "is_websocket (drawn c) = is_websocket c" "ws_trace (drawn c) = ws_trace c"
  "is_draining (drawn c) = is_draining c" "ws_closing (drawn c) = ws_closing c"
  by (simp_all add: drawn_def take_random_def)

lemma ws_header_spec: "ws_header (length d) op c = Some (ws_head (sent_frame op d c), drawn c)"
proof -
  let ?r = "if is_client c then fst (take_random 4 c) else []"
  let ?h = "ws_head (sent_frame op d c)"
  have h: "?h = head_bytes (word_of_int (op OR 128)) (fr_mask (sent_frame op d c)) (length d)"
    by (simp add: ws_head_bytes sent_frame_def)
  have cond: "if is_client c then fr_mask (sent_frame op d c) = Some (unbe32 ?r) \<and> length ?r = 4
      else fr_mask (sent_frame op d c) = None"
    by (simp add: sent_frame_def take_random_def)
  obtain rest where "mkhdr (length d) op (is_client c) ?r (replicate 14 0) = Some (length ?h, ?h @ rest)"
    using mkhdr_spec [OF cond, of "length d" op] unfolding h by blast
  then show ?thesis
    by (cases "is_client c") (auto simp: ws_header_def drawn_def Let_def slice_def take_random_def)
qed

lemma ws_mask_spec:
  assumes "f = sent_frame op d c0" "is_client c = is_client c0" "ws_sent c = pre @ ws_head f @ d"
  shows "mg_ws_mask (length d) c = Some (c\<lparr>ws_sent := pre @ ws_enc f\<rparr>)"
proof (cases "is_client c0")
  case True
  then obtain k h where "ws_head f = h @ be32 k" "fr_mask f = Some k" using assms(1) by (auto simp: ws_head_def sent_frame_def)
  then show ?thesis
    using mask_loop_spec [of "pre @ h" "length (pre @ h)" "be32 k" "length (pre @ h) + 4" "[]" 0 d "[]"] assms True
    by (auto simp: mg_ws_mask_def ws_enc_def ws_payload_def sent_frame_def add.assoc)
next
  case False
  then show ?thesis using assms
    by (cases c) (auto simp: mg_ws_mask_def ws_enc_def ws_payload_def sent_frame_def)
qed

lemma mg_ws_send_spec:
  "mg_ws_send d op c =
    Some (length (ws_enc (sent_frame op d c)), (drawn c)\<lparr>ws_sent := ws_sent c @ ws_enc (sent_frame op d c)\<rparr>)"
proof -
  let ?f = "sent_frame op d c"
  have "mg_ws_mask (length d) ((drawn c)\<lparr>ws_sent := ws_sent c @ ws_head ?f @ d\<rparr>) =
      Some ((drawn c)\<lparr>ws_sent := ws_sent c @ ws_enc ?f\<rparr>)"
    using ws_mask_spec [of ?f op d c "(drawn c)\<lparr>ws_sent := ws_sent c @ ws_head ?f @ d\<rparr>" "ws_sent c"] by simp
  then show ?thesis
    by (simp add: mg_ws_send_def ws_header_spec Let_def) (simp add: ws_enc_def sent_frame_def)
qed

text \<open>Wrapping the end of the send buffer is the same as sending it.\<close>

lemma mg_ws_wrap_spec:
  assumes "ws_sent c = pre @ d"
  shows "mg_ws_wrap (length d) op c =
    Some (length (pre @ ws_enc (sent_frame op d c)), (drawn c)\<lparr>ws_sent := pre @ ws_enc (sent_frame op d c)\<rparr>)"
proof -
  let ?f = "sent_frame op d c"
  obtain h where h: "h = ws_head ?f" by blast
  have m: "mg_ws_mask (length d) ((drawn c)\<lparr>ws_sent := pre @ h @ d\<rparr>) = Some ((drawn c)\<lparr>ws_sent := pre @ ws_enc ?f\<rparr>)"
    using ws_mask_spec [of ?f op d c "(drawn c)\<lparr>ws_sent := pre @ h @ d\<rparr>" pre] by (simp add: h)
  have s: "slice (pre @ d @ replicate (length h) 0) (length pre) (length d) = Some d"
    using span_mid [of pre d] by (simp add: slice_def)
  obtain s1 where s1: "pre @ d @ replicate (length h) 0 = pre @ s1" "length s1 = length h + length d" by simp
  have b: "blit (pre @ s1) (length pre + length h) d = Some (pre @ take (length h) s1 @ d)"
    using s1(2) by (simp add: blit_def)
  have b2: "blit (pre @ take (length h) s1 @ d) (length pre) h = Some (pre @ h @ d)"
    using s1(2) by (simp add: blit_def)
  have e: "length pre + length d + length h - length d - length h = length pre" "length pre + length d + length h - length d = length pre + length h"
    by simp_all
  have "mg_ws_wrap (length d) op c = do {
      c \<leftarrow> mg_ws_mask (length d) ((drawn c)\<lparr>ws_sent := pre @ h @ d\<rparr>);
      Some (length (ws_sent c), c) }"
    unfolding mg_ws_wrap_def ws_header_spec h [symmetric]
    using s b b2 s1(1) by (simp add: Let_def assms)
  then show ?thesis using m by simp
qed

section \<open>Receiving a stream of frames\<close>

definition quiet :: ws_handler where "quiet ev c = c"

definition opcode :: "ws_frame \<Rightarrow> u8" where "opcode f = fr_flags f AND 15"
definition is_final :: "ws_frame \<Rightarrow> bool" where "is_final f \<longleftrightarrow> fr_flags f AND 128 \<noteq> 0"

text \<open>
  What a server owes for each frame: the events, the answer, and the fragments it keeps (the flags
  of the first one, then the data so far).
\<close>

definition frame_events :: "bytes \<Rightarrow> ws_frame \<Rightarrow> ws_ev list" where
  "frame_events kept f =
     (let op = opcode f; fl = fr_flags f; d = fr_data f in
      if op = 0 then Ws_ctl fl d # (if is_final f then [Ws_msg (hd (kept @ d)) (tl (kept @ d))] else [])
      else if op = 1 \<or> op = 2 then (if is_final f then [Ws_msg fl d] else [])
      else if op = 8 \<or> op = 9 \<or> op = 10 then [Ws_ctl fl d]
      else [Ws_error])"

definition frame_answer :: "ws_frame \<Rightarrow> bytes" where
  "frame_answer f =
     (if opcode f = 9 then ws_enc \<lparr>fr_flags = 138, fr_mask = None, fr_data = fr_data f\<rparr>
      else if opcode f = 8 then ws_enc \<lparr>fr_flags = 136, fr_mask = None, fr_data = fr_data f\<rparr>
      else [])"

definition frame_kept :: "bytes \<Rightarrow> ws_frame \<Rightarrow> bytes" where
  "frame_kept kept f =
     (if is_final f then (if opcode f = 0 then [] else kept)
      else if opcode f = 0 then kept @ fr_data f else kept @ fr_flags f # fr_data f)"

definition known_op :: "ws_frame \<Rightarrow> bool" where
  "known_op f \<longleftrightarrow> opcode f \<in> {0, 1, 2, 8, 9, 10}"

definition srv :: "(nat \<Rightarrow> u8) \<Rightarrow> bytes \<Rightarrow> bytes \<Rightarrow> bytes \<Rightarrow> bool \<Rightarrow> bool \<Rightarrow> ws_ev list \<Rightarrow> ws_conn" where
  "srv e kept pend sent dr cl tr =
     \<lparr>ws_recv = kept @ pend, ws_sent = sent, ws_frag = length kept, is_client = False, is_websocket = True,
      is_draining = dr, ws_closing = cl, ws_is_resp = False, entropy = e, ws_trace = tr\<rparr>"

lemma srv_send: "mg_ws_send d op (srv e kept pend sent dr cl tr) =
  Some (length (ws_enc \<lparr>fr_flags = word_of_int (op OR 128), fr_mask = None, fr_data = d\<rparr>),
    srv e kept pend (sent @ ws_enc \<lparr>fr_flags = word_of_int (op OR 128), fr_mask = None, fr_data = d\<rparr>) dr cl tr)"
  by (simp add: mg_ws_send_spec sent_frame_def drawn_def srv_def)

lemma srv_dispatch:
  "ws_dispatch quiet (fr_flags f) (fr_data f) (srv e kept pend sent dr cl tr) =
   Some (srv e kept pend (sent @ frame_answer f) (dr \<or> opcode f = 8) (cl \<or> \<not> known_op f)
     (tr @ (if opcode f = 0 then [Ws_ctl (fr_flags f) (fr_data f)] else frame_events kept f)))"
proof -
  have call: "ws_call quiet ev (srv e kept pend sent dr cl tr) = srv e kept pend sent dr cl (tr @ [ev])" for ev sent tr cl
    by (simp add: ws_call_def quiet_def srv_def)
  have err: "ws_error quiet (srv e kept pend sent dr cl tr) = srv e kept pend sent dr True (tr @ [Ws_error])"
    by (simp add: ws_error_def ws_call_def quiet_def srv_def)
  have dr: "(srv e kept pend s dr cl t)\<lparr>is_draining := True\<rparr> = srv e kept pend s True cl t" for s t
    by (simp add: srv_def)
  show ?thesis
    using srv_send [of _ 10] srv_send [of _ 8]
    by (auto simp: ws_dispatch_def opcode_def [symmetric] is_final_def [symmetric] known_op_def frame_answer_def
        frame_events_def Let_def call err dr)
qed

lemma srv_process:
  assumes "frame_ok f"
  shows "ws_round quiet (length kept) (srv e kept (ws_enc f @ rest) sent dr cl tr) =
    (let c = srv e kept (ws_head f @ fr_data f @ rest) (sent @ frame_answer f) (dr \<or> opcode f = 8) (cl \<or> \<not> known_op f)
         (tr @ (if opcode f = 0 then [Ws_ctl (fr_flags f) (fr_data f)] else frame_events kept f));
         hl = length (ws_head f); dl = length (fr_data f); k = length kept in
     if is_final f \<and> opcode f \<noteq> 0 then Some (True, k, ws_recv_del k (hl + dl) c)
     else if opcode f \<noteq> 0 then Some (True, k + 1 + dl, (ws_recv_del (k + 1) (hl - 1) c)\<lparr>ws_frag := k + 1 + dl\<rparr>)
     else let c = (ws_recv_del k hl c)\<lparr>ws_frag := k + dl\<rparr> in
       if is_final f then do {
         fl \<leftarrow> rd (ws_recv c) 0;
         d \<leftarrow> slice (ws_recv c) 1 (unat (word_of_nat (k + dl) - 1 :: u64));
         Some (True, 0, (ws_recv_del 0 (k + dl) (ws_call quiet (Ws_msg fl d) c))\<lparr>ws_frag := 0\<rparr>) }
       else Some (True, k + dl, c))"
proof -
  let ?c = "srv e kept (ws_enc f @ rest) sent dr cl tr"
  have r: "ws_recv (srv e kept p sent dr cl tr) = kept @ p" for p by (simp add: srv_def)
  have u: "?c\<lparr>ws_recv := take (length kept) (kept @ p) @ q\<rparr> = srv e kept q sent dr cl tr" for p q by (simp add: srv_def)
  have 1: "slice (kept @ p) (length kept) (length (kept @ p) - length kept) = Some p" for p
    by (simp add: slice_def span_def)
  have 2: "slice (kept @ ws_head f @ fr_data f @ rest) (length kept + length (ws_head f)) (length (fr_data f)) = Some (fr_data f)"
    by (simp add: slice_def span_def)
  have h: "2 \<le> length (ws_head f)" by (rule head_nonempty)
  have e: "length (ws_enc f) \<noteq> 0" using head_nonempty(2) [of f] by simp
  have full: "ws_flags (ws_full f) = fr_flags f" "ws_header_len (ws_full f) = length (ws_head f)"
      "ws_data_len (ws_full f) = length (fr_data f)" by (simp_all add: ws_full_def)
  have len: "Suc (length kept) + (length (ws_head f) + length (fr_data f) - 1 - (length (ws_head f) - 1)) = length kept + 1 + length (fr_data f)"
    using h by simp
  show ?thesis
    unfolding ws_round_def r 1 bind.bind_lunit ws_process_frame [OF assms] prod.case u full Let_def 2 srv_dispatch
    using e h len by (simp add: opcode_def [symmetric] is_final_def [symmetric])
qed

lemma srv_del: "ws_recv_del n k (srv e kept pend sent dr cl tr) = (srv e kept pend sent dr cl tr)\<lparr>ws_recv := take n (kept @ pend) @ drop (n + k) (kept @ pend)\<rparr>"
  by (simp add: ws_recv_del_def srv_def)

lemma round_frame:
  assumes "frame_ok f" "opcode f = 0 \<and> is_final f \<longrightarrow> kept @ fr_data f \<noteq> []" "length kept + length (fr_data f) < 2 ^ 64"
  shows "ws_round quiet (length kept) (srv e kept (ws_enc f @ rest) sent dr cl tr) =
    Some (True, length (frame_kept kept f), srv e (frame_kept kept f) rest (sent @ frame_answer f) (dr \<or> opcode f = 8)
      (cl \<or> \<not> known_op f) (tr @ frame_events kept f))"
proof -
  obtain h' where h: "ws_head f = fr_flags f # h'" by (simp add: ws_head_def)
  consider (whole) "is_final f" "opcode f \<noteq> 0" | (first) "\<not> is_final f" "opcode f \<noteq> 0"
    | (middle) "\<not> is_final f" "opcode f = 0" | (last) "is_final f" "opcode f = 0" by blast
  then show ?thesis
  proof cases
    case whole
    then show ?thesis
      unfolding srv_process [OF assms(1)] Let_def by (simp add: srv_del frame_kept_def) (simp add: srv_def)
  next
    case first
    then show ?thesis
      unfolding srv_process [OF assms(1)] Let_def
      by (simp add: srv_del frame_kept_def h) (simp add: srv_def)
  next
    case middle
    then show ?thesis
      unfolding srv_process [OF assms(1)] Let_def
      by (simp add: srv_del frame_kept_def frame_events_def) (simp add: srv_def)
  next
    case last
    let ?k = "kept @ fr_data f"
    have k: "?k \<noteq> []" using assms(2) last by blast
    have "word_of_nat (length ?k) - 1 = (word_of_nat (length ?k - 1) :: u64)"
      using k by (simp add: of_nat_diff Suc_leI)
    then have n: "unat (word_of_nat (length kept + length (fr_data f)) - 1 :: u64) = length ?k - 1"
      using assms(3) by (simp add: unat_small)
    have s: "slice (?k @ rest) 1 (length ?k - 1) = Some (tl ?k)" "rd (?k @ rest) 0 = Some (hd ?k)"
      using k by (cases ?k; simp add: slice_def span_def)+
    show ?thesis
      unfolding srv_process [OF assms(1)] Let_def n
      using last s by (simp add: srv_del frame_kept_def frame_events_def Let_def) (simp add: srv_def ws_call_def quiet_def ws_recv_del_def)
  qed
qed

lemma round_waits:
  assumes "ws_process p = Some (p, 0, msg)"
  shows "ws_round quiet (length kept) (srv e kept p sent dr cl tr) = Some (False, length kept, srv e kept p sent dr cl tr)"
  using assms by (simp add: ws_round_def srv_def slice_def span_def)

abbreviation frames_bytes :: "ws_frame list \<Rightarrow> bytes" where
  "frames_bytes fs \<equiv> concat (map ws_enc fs)"

fun kept_after :: "bytes \<Rightarrow> ws_frame list \<Rightarrow> bytes" where
  "kept_after kept [] = kept"
| "kept_after kept (f # fs) = kept_after (frame_kept kept f) fs"

fun stream_events :: "bytes \<Rightarrow> ws_frame list \<Rightarrow> ws_ev list" where
  "stream_events kept [] = []"
| "stream_events kept (f # fs) = frame_events kept f @ stream_events (frame_kept kept f) fs"

text \<open>A last fragment only ends a message that has begun.\<close>

fun well_sequenced :: "bytes \<Rightarrow> ws_frame list \<Rightarrow> bool" where
  "well_sequenced kept [] = True"
| "well_sequenced kept (f # fs) =
     (frame_ok f \<and> (opcode f = 0 \<and> is_final f \<longrightarrow> kept @ fr_data f \<noteq> []) \<and> well_sequenced (frame_kept kept f) fs)"

lemma frame_kept_length: "length (frame_kept kept f) \<le> length kept + length (ws_enc f)"
  using head_nonempty(1) [of f] by (simp add: frame_kept_def ws_enc_def)

definition ws_arrive :: "ws_handler \<Rightarrow> bytes \<Rightarrow> ws_conn \<Rightarrow> ws_conn option" where
  "ws_arrive h x c = mg_ws_cb h (c\<lparr>ws_recv := ws_recv c @ x\<rparr>)"

text \<open>The server in a state, which is all but the unread bytes, and the state after a frame.\<close>

type_synonym srv_state = "(nat \<Rightarrow> u8) \<times> bytes \<times> bytes \<times> bool \<times> bool \<times> ws_ev list"

fun srv_conn :: "srv_state \<Rightarrow> bytes \<Rightarrow> ws_conn" where
  "srv_conn (e, kept, sent, dr, cl, tr) p = srv e kept p sent dr cl tr"

fun srv_good :: "srv_state \<Rightarrow> ws_frame \<Rightarrow> bool" where
  "srv_good (e, kept, sent, dr, cl, tr) f =
     (frame_ok f \<and> (opcode f = 0 \<and> is_final f \<longrightarrow> kept @ fr_data f \<noteq> []) \<and> length kept + length (fr_data f) < 2 ^ 64)"

fun srv_after :: "srv_state \<Rightarrow> ws_frame \<Rightarrow> srv_state" where
  "srv_after (e, kept, sent, dr, cl, tr) f =
     (e, frame_kept kept f, sent @ frame_answer f, dr \<or> opcode f = 8, cl \<or> \<not> known_op f, tr @ frame_events kept f)"

lemma srv_frag [simp]: "ws_frag (srv e kept p sent dr cl tr) = length kept"
  by (simp add: srv_def)

lemma srv_loop_waits:
  "ws_process p = Some (p, 0, msg) \<Longrightarrow>
   ws_loop quiet (length kept) (srv e kept p sent dr cl tr) = Some (srv e kept p sent dr cl tr)"
  by (subst ws_loop.simps) (simp add: round_waits)

interpretation srv: stream_reader ws_enc srv_good srv_after srv_conn "\<lambda>c. ws_loop quiet (ws_frag c) c" "ws_arrive quiet"
proof unfold_locales
  show "ws_enc f \<noteq> []" for f using head_nonempty(2) by simp
  show "ws_loop quiet (ws_frag (srv_conn s (ws_enc f @ rest))) (srv_conn s (ws_enc f @ rest)) =
      ws_loop quiet (ws_frag (srv_conn (srv_after s f) rest)) (srv_conn (srv_after s f) rest)" if "srv_good s f" for s f rest
    using that by (cases s) (subst ws_loop.simps, simp add: round_frame)
  show "ws_loop quiet (ws_frag (srv_conn s (take k (ws_enc f)))) (srv_conn s (take k (ws_enc f))) = Some (srv_conn s (take k (ws_enc f)))"
    if "srv_good s f" "k < length (ws_enc f)" for s f k
    using that ws_process_partial [of f k] by (cases s) (auto intro: srv_loop_waits)
  show "ws_loop quiet (ws_frag (srv_conn s [])) (srv_conn s []) = Some (srv_conn s [])" for s
    by (cases s) (simp add: srv_loop_waits ws_process_def ws_lengths_short)
  show "ws_arrive quiet x (srv_conn s p) = ws_loop quiet (ws_frag (srv_conn s (p @ x))) (srv_conn s (p @ x))" for x s p
    by (cases s) (simp add: ws_arrive_def mg_ws_cb_def srv_def)
qed

lemma goods_frames:
  "well_sequenced kept fs \<Longrightarrow> length kept + length (frames_bytes fs) < 2 ^ 64 \<Longrightarrow> srv.goods (e, kept, sent, dr, cl, tr) fs"
proof (induction fs arbitrary: kept sent dr cl tr)
  case (Cons f fs)
  have "length (fr_data f) \<le> length (ws_enc f)" by (simp add: ws_enc_def)
  then show ?case using Cons frame_kept_length [of kept f] by simp
qed simp

lemma after_frames:
  "foldl srv_after (e, kept, sent, dr, cl, tr) fs = (e, kept_after kept fs, sent @ concat (map frame_answer fs),
     dr \<or> (\<exists>f \<in> set fs. opcode f = 8), cl \<or> (\<exists>f \<in> set fs. \<not> known_op f), tr @ stream_events kept fs)"
  by (induction fs arbitrary: kept sent dr cl tr) (simp_all add: disj_assoc)

lemma arrive_frames:
  assumes "well_sequenced kept fs" "concat xs = frames_bytes fs" "length kept + length (frames_bytes fs) < 2 ^ 64"
  shows "feed_all (ws_arrive quiet) xs (srv e kept [] sent dr cl tr) =
    Some (srv e (kept_after kept fs) [] (sent @ concat (map frame_answer fs)) (dr \<or> (\<exists>f \<in> set fs. opcode f = 8))
      (cl \<or> (\<exists>f \<in> set fs. \<not> known_op f)) (tr @ stream_events kept fs))"
  using srv.feed_all_stream [OF goods_frames [OF assms(1,3)] assms(2)] by (simp add: after_frames)

text \<open>
  C2.  A WebSocket server reads what was sent: the frames of a stream, masked or not, of any sizes up
  to a gigabyte, fragmented and interleaved with control frames, and cut by the network into any
  pieces, are each handled once and in order: whole messages and the fragments put together are
  delivered with their flags, pings are answered by pongs and closes echoed with the same data, an
  unknown operation is an error, and at the end only unfinished fragments are in the buffer.
  The handler never indexes outside a buffer and every loop ends.
\<close>

theorem ws_stream_delivered:
  assumes "well_sequenced [] fs" "concat xs = concat (map ws_enc fs)" "length (concat xs) < 2 ^ 64"
  shows "feed_all (ws_arrive quiet) xs (srv e [] [] [] False False []) =
    Some (srv e (kept_after [] fs) [] (concat (map frame_answer fs)) (\<exists>f \<in> set fs. opcode f = 8)
      (\<exists>f \<in> set fs. \<not> known_op f) (stream_events [] fs))"
  using arrive_frames [OF assms(1,2), of e "[]" False False "[]"] assms(2,3) by simp

definition sample_frames :: "ws_frame list" where
  "sample_frames =
     [\<lparr>fr_flags = 1, fr_mask = Some 0x37fa213d, fr_data = bs ''Hel''\<rparr>,
      \<lparr>fr_flags = 137, fr_mask = None, fr_data = bs ''?''\<rparr>,
      \<lparr>fr_flags = 128, fr_mask = None, fr_data = bs ''lo''\<rparr>]"

theorem ws_stream_delivered_witness:
  "feed_all (ws_arrive quiet) (map (\<lambda>b. [b]) (concat (map ws_enc sample_frames))) (srv (\<lambda>_. 0) [] [] [] False False []) =
     Some (srv (\<lambda>_. 0) [] [] (138 # 1 # bs ''?'') False False
       [Ws_ctl 137 (bs ''?''), Ws_ctl 128 (bs ''lo''), Ws_msg 1 (bs ''Hello'')])"
proof -
  have o: "map opcode sample_frames = [1, 9, 0]" "map is_final sample_frames = [False, True, True]"
    by (simp_all add: sample_frames_def opcode_def is_final_def)
  have w: "well_sequenced [] sample_frames"
    by (simp add: sample_frames_def frame_ok_def frame_kept_def opcode_def is_final_def)
  have c: "concat (map (\<lambda>b. [b]) b) = b" for b :: bytes by (induction b) auto
  have l: "length (concat (map ws_enc sample_frames)) < 2 ^ 64"
    by (simp add: sample_frames_def ws_enc_def ws_head_def length_len_bytes)
  have r: "kept_after [] sample_frames = []" "concat (map frame_answer sample_frames) = 138 # 1 # bs ''?''"
      "stream_events [] sample_frames = [Ws_ctl 137 (bs ''?''), Ws_ctl 128 (bs ''lo''), Ws_msg 1 (bs ''Hello'')]"
      "(\<exists>f \<in> set sample_frames. opcode f = 8) = False" "(\<exists>f \<in> set sample_frames. \<not> known_op f) = False"
    by (simp_all add: sample_frames_def frame_kept_def frame_answer_def frame_events_def opcode_def is_final_def known_op_def
        ws_enc_def ws_head_def ws_payload_def len_bytes_def Let_def)
  show ?thesis
    using ws_stream_delivered [OF w c, of "\<lambda>_. 0"] l unfolding r c by simp
qed

text \<open>
  An empty last fragment that continues nothing makes the handler report a message of
  \<open>SIZE_MAX\<close> bytes: the length \<open>ofs - 1\<close> wraps around.
\<close>

lemma ws_stray_continuation:
  "mg_ws_cb quiet (srv e [] [128, 0] [] False False []) = None"
proof -
  let ?f = "\<lparr>fr_flags = 128, fr_mask = None, fr_data = []\<rparr>"
  have f: "frame_ok ?f" by (simp add: frame_ok_def)
  have e: "ws_enc ?f = [128, 0]" "opcode ?f = 0" "is_final ?f" "fr_data ?f = []"
    by (simp_all add: ws_enc_def ws_head_def ws_payload_def len_bytes_def opcode_def is_final_def)
  have "ws_round quiet 0 (srv e [] [128, 0] [] False False []) = None"
    using srv_process [OF f, of "[]" e "[]" "[]" False False "[]"] e
    by (simp add: Let_def srv_del rd_def)
  then have "ws_loop quiet 0 (srv e [] [128, 0] [] False False []) = None"
    by (subst ws_loop.simps) simp
  then show ?thesis by (simp add: mg_ws_cb_def srv_def)
qed

section \<open>Frames as a prefix codec\<close>

text \<open>The flags and the data of the first frame, whatever its masking key.\<close>

definition ws_decode :: "bytes \<Rightarrow> ((u8 \<times> bytes) \<times> nat) option" where
  "ws_decode b =
     (case ws_process b of
        None \<Rightarrow> None
      | Some (b, n, msg) \<Rightarrow>
          if n = 0 then None
          else Some ((ws_flags msg, span b (ws_header_len msg) (ws_data_len msg)), n))"

interpretation ws: prefix_codec
  "\<lambda>(fl, d). ws_enc \<lparr>fr_flags = fl, fr_mask = key, fr_data = d\<rparr>" ws_decode
  "\<lambda>(fl, d). length d \<le> 1024 * 1024 * 1024" for key
proof unfold_locales
  fix x :: "u8 \<times> bytes" and rest
  obtain fl d where x: "x = (fl, d)" by (cases x)
  let ?f = "\<lparr>fr_flags = fl, fr_mask = key, fr_data = d\<rparr>"
  assume "case x of (fl, d) \<Rightarrow> length d \<le> 1024 * 1024 * 1024"
  then have "frame_ok ?f" by (simp add: x frame_ok_def)
  from ws_process_frame [OF this, of rest] head_nonempty(2) [of ?f]
  show "ws_decode ((case x of (fl, d) \<Rightarrow> ws_enc \<lparr>fr_flags = fl, fr_mask = key, fr_data = d\<rparr>) @ rest) =
      Some (x, length (case x of (fl, d) \<Rightarrow> ws_enc \<lparr>fr_flags = fl, fr_mask = key, fr_data = d\<rparr>))"
    by (simp add: ws_decode_def ws_full_def x span_mid)
qed

section \<open>From a client to a server\<close>

fun ws_send_all :: "(int \<times> bytes) list \<Rightarrow> ws_conn \<Rightarrow> ws_conn option" where
  "ws_send_all [] c = Some c"
| "ws_send_all ((op, d) # ms) c = do { (n, c) \<leftarrow> mg_ws_send d op c; ws_send_all ms c }"

fun sent_frames :: "(int \<times> bytes) list \<Rightarrow> ws_conn \<Rightarrow> ws_frame list" where
  "sent_frames [] c = []"
| "sent_frames ((op, d) # ms) c =
     sent_frame op d c # sent_frames ms ((drawn c)\<lparr>ws_sent := ws_sent c @ ws_enc (sent_frame op d c)\<rparr>)"

lemma ws_send_all_frames:
  "\<exists>c'. ws_send_all ms c = Some c' \<and> ws_sent c' = ws_sent c @ concat (map ws_enc (sent_frames ms c))"
proof (induction ms c rule: ws_send_all.induct)
  case (2 op d ms c)
  let ?c = "(drawn c)\<lparr>ws_sent := ws_sent c @ ws_enc (sent_frame op d c)\<rparr>"
  obtain c' where "ws_send_all ms ?c = Some c'" "ws_sent c' = ws_sent ?c @ concat (map ws_enc (sent_frames ms ?c))"
    using 2 [OF mg_ws_send_spec refl] by blast
  then show ?case by (simp add: mg_ws_send_spec)
qed simp

lemma sent_frames_stream:
  assumes "\<forall>(op, d) \<in> set ms. op \<in> {1, 2} \<and> length d \<le> 1024 * 1024 * 1024"
  shows "well_sequenced kept (sent_frames ms c) \<and> kept_after kept (sent_frames ms c) = kept \<and>
    stream_events kept (sent_frames ms c) = map (\<lambda>(op, d). Ws_msg (word_of_int (op OR 128)) d) ms \<and>
    concat (map frame_answer (sent_frames ms c)) = [] \<and>
    (\<forall>f \<in> set (sent_frames ms c). opcode f \<noteq> 8 \<and> known_op f)"
  using assms
proof (induction ms c rule: sent_frames.induct)
  case (2 op d ms c)
  let ?f = "sent_frame op d c"
  have op: "op = 1 \<or> op = 2" "frame_ok ?f" using 2(2) by (auto simp: frame_ok_def sent_frame_def)
  then have o: "opcode ?f = word_of_int op" "is_final ?f" "fr_flags ?f = word_of_int (op OR 128)" "fr_data ?f = d"
    by (auto simp: opcode_def is_final_def sent_frame_def)
  then have "frame_kept kept ?f = kept" "frame_events kept ?f = [Ws_msg (word_of_int (op OR 128)) d]" "frame_answer ?f = []"
      "opcode ?f \<noteq> 0" "opcode ?f \<noteq> 8" "known_op ?f"
    using op(1) by (auto simp: frame_kept_def frame_events_def frame_answer_def known_op_def Let_def)
  then show ?case using 2 op(2) by simp
qed simp

text \<open>
  C3.  End to end: whatever text and binary messages a client sends with \<open>mg_ws_send\<close>, under whatever
  masking keys its random source yields, a server that receives the client's send buffer in any
  pieces delivers exactly these messages, in order, and is left with an empty buffer.
\<close>

theorem ws_client_to_server:
  assumes "\<forall>(op, d) \<in> set ms. op \<in> {1, 2} \<and> length d \<le> 1024 * 1024 * 1024" "ws_sent c = []"
  shows "\<exists>c'. ws_send_all ms c = Some c' \<and>
    (\<forall>xs. concat xs = ws_sent c' \<and> length (concat xs) < 2 ^ 64 \<longrightarrow>
       feed_all (ws_arrive quiet) xs (srv e [] [] [] False False []) =
         Some (srv e [] [] [] False False (map (\<lambda>(op, d). Ws_msg (word_of_int (op OR 128)) d) ms)))"
proof -
  note s = sent_frames_stream [OF assms(1), of "[]" c]
  obtain c' where c': "ws_send_all ms c = Some c'" "ws_sent c' = concat (map ws_enc (sent_frames ms c))"
    using ws_send_all_frames [of ms c] assms(2) by auto
  show ?thesis
  proof (intro exI [of _ c'] conjI allI impI)
    fix xs assume x: "concat xs = ws_sent c' \<and> length (concat xs) < 2 ^ 64"
    let ?f = "sent_frames ms c"
    have none: "(\<exists>f \<in> set ?f. opcode f = 8) = False" "(\<exists>f \<in> set ?f. \<not> known_op f) = False" using s by blast+
    have "feed_all (ws_arrive quiet) xs (srv e [] [] [] False False []) =
        Some (srv e (kept_after [] ?f) [] ([] @ concat (map frame_answer ?f)) (False \<or> (\<exists>f \<in> set ?f. opcode f = 8))
          (False \<or> (\<exists>f \<in> set ?f. \<not> known_op f)) ([] @ stream_events [] ?f))"
      using s x c'(2) by (intro arrive_frames) auto
    then show "feed_all (ws_arrive quiet) xs (srv e [] [] [] False False []) =
         Some (srv e [] [] [] False False (map (\<lambda>(op, d). Ws_msg (word_of_int (op OR 128)) d) ms))"
      unfolding none using s by simp
  qed (rule c'(1))
qed

definition sample_client :: ws_conn where
  "sample_client = (srv (\<lambda>i. word_of_nat i) [] [] [] False False [])\<lparr>is_client := True\<rparr>"

theorem ws_client_to_server_witness:
  "\<exists>c'. ws_send_all [(1, bs ''hi''), (2, [0, 255])] sample_client = Some c' \<and>
    feed_all (ws_arrive quiet) [ws_sent c'] (srv (\<lambda>_. 0) [] [] [] False False []) =
      Some (srv (\<lambda>_. 0) [] [] [] False False [Ws_msg 129 (bs ''hi''), Ws_msg 130 [0, 255]])"
proof -
  let ?ms = "[(1, bs ''hi''), (2, [0, 255])] :: (int \<times> bytes) list"
  have c: "ws_sent sample_client = []" by (simp add: sample_client_def srv_def)
  have m: "\<forall>(op, d) \<in> set ?ms. op \<in> {1, 2} \<and> length d \<le> 1024 * 1024 * 1024" by simp
  obtain c' where c': "ws_send_all ?ms sample_client = Some c'"
    "\<And>xs. concat xs = ws_sent c' \<Longrightarrow> length (concat xs) < 2 ^ 64 \<Longrightarrow>
       feed_all (ws_arrive quiet) xs (srv (\<lambda>_. 0) [] [] [] False False []) =
         Some (srv (\<lambda>_. 0) [] [] [] False False (map (\<lambda>(op, d). Ws_msg (word_of_int (op OR 128)) d) ?ms))"
    using ws_client_to_server [OF m c, of "\<lambda>_. 0"] by blast
  have "length (ws_sent c') < 2 ^ 64"
    using ws_send_all_frames [of ?ms sample_client] c'(1) c
    by (auto simp: ws_enc_def length_head length_len_bytes sent_frame_def)
  then show ?thesis using c'(1) c'(2) [of "[ws_sent c']"] by simp
qed

end
