(* ===== verification/Gb_Buffers.thy ===== *)
theory Gb_Buffers
  imports Mg_Queue "HOL-Library.Sublist"
begin

text \<open>
  The buffers between the media threads: \<open>LineBuffer\<close> (\<open>src/tools/lineBuf.cpp\<close>), the locked
  \<open>SafeQueue\<close> (\<open>src/tools/SafeQueue.h\<close>), the ring with an overflow list \<open>unLockQueue\<close>
  (\<open>src/tools/unLockQueue.h\<close>) and the same ring inside \<open>H264FileReader\<close>
  (\<open>src/media/h264-file-reader.cpp\<close>), which never drops a frame.  The rings are given by the
  laws of a frame queue that keeps the order of what it does not drop.
\<close>

section \<open>LineBuffer\<close>

record line_buf =
  pBuf :: "bytes option"
  bufLen :: int
  wPos :: int
  rPos :: int

definition LineBuffer :: "int \<Rightarrow> bytes \<Rightarrow> line_buf" where
  "LineBuffer n mem = \<lparr>pBuf = (if n > 0 then Some mem else None), bufLen = n, wPos = 0, rPos = 0\<rparr>"

text \<open>Pointers into the buffer are offsets.\<close>

definition lb_writePos :: "line_buf \<Rightarrow> int option" where
  "lb_writePos b = (if pBuf b \<noteq> None \<and> wPos b < bufLen b then Some (wPos b) else None)"

definition lb_data :: "line_buf \<Rightarrow> int option" where
  "lb_data b = (if pBuf b \<noteq> None \<and> wPos b > rPos b then Some (rPos b) else None)"

definition lb_dataSize :: "line_buf \<Rightarrow> int" where "lb_dataSize b = wPos b - rPos b"
definition lb_tailSize :: "line_buf \<Rightarrow> int" where "lb_tailSize b = bufLen b - wPos b"
definition lb_freeSize :: "line_buf \<Rightarrow> int" where "lb_freeSize b = bufLen b - (wPos b - rPos b)"

definition lb_DataForward :: "line_buf \<Rightarrow> line_buf option" where
  "lb_DataForward b =
     (case pBuf b of
        None \<Rightarrow> Some b
      | Some m \<Rightarrow>
          if 0 \<le> rPos b \<and> rPos b \<le> wPos b \<and> wPos b \<le> int (length m) then do {
            m \<leftarrow> blit m 0 (span m (nat (rPos b)) (nat (wPos b - rPos b)));
            Some (b\<lparr>pBuf := Some m, wPos := wPos b - rPos b, rPos := 0\<rparr>) }
          else None)"

text \<open>\<open>realloc\<close>: \<open>fresh\<close> is what a larger block holds behind the old bytes, \<open>None\<close> a failure.\<close>

definition lb_resetBuf :: "int \<Rightarrow> bytes option \<Rightarrow> line_buf \<Rightarrow> line_buf" where
  "lb_resetBuf n fresh b =
     (case (pBuf b, fresh) of
        (Some m, Some f) \<Rightarrow> b\<lparr>pBuf := Some (take (nat n) (m @ f)), bufLen := n\<rparr>
      | _ \<Rightarrow> b)"

definition lb_setReadSize :: "int \<Rightarrow> line_buf \<Rightarrow> line_buf" where
  "lb_setReadSize n b =
     (let b = (if rPos b + n \<le> wPos b then b\<lparr>rPos := rPos b + n\<rparr> else b)
      in if rPos b = wPos b then b\<lparr>rPos := 0, wPos := 0\<rparr> else b)"

definition lb_setWriteSize :: "int \<Rightarrow> line_buf \<Rightarrow> line_buf" where
  "lb_setWriteSize n b = (if wPos b + n \<le> bufLen b then b\<lparr>wPos := wPos b + n\<rparr> else b)"

definition lb_writeBuf :: "bytes \<Rightarrow> line_buf \<Rightarrow> (bool \<times> line_buf) option" where
  "lb_writeBuf d b =
     (if d \<noteq> [] then
        case pBuf b of
          Some m \<Rightarrow>
            if wPos b + int (length d) < bufLen b then
              (if 0 \<le> wPos b then do {
                 m \<leftarrow> blit m (nat (wPos b)) d;
                 Some (True, b\<lparr>pBuf := Some m, wPos := wPos b + int (length d)\<rparr>) }
               else None)
            else Some (False, b)
        | None \<Rightarrow> Some (False, b)
      else Some (False, b))"

definition lb_clear :: "line_buf \<Rightarrow> line_buf" where "lb_clear b = b\<lparr>wPos := 0, rPos := 0\<rparr>"

section \<open>SafeQueue\<close>

text \<open>The mutex makes every method one step.\<close>

definition sq_empty :: "'a list \<Rightarrow> bool" where "sq_empty q \<longleftrightarrow> q = []"
definition sq_size :: "'a list \<Rightarrow> nat" where "sq_size q = length q"
definition sq_enqueue :: "'a \<Rightarrow> 'a list \<Rightarrow> 'a list" where "sq_enqueue x q = q @ [x]"
definition sq_dequeue :: "'a list \<Rightarrow> 'a option \<times> 'a list" where
  "sq_dequeue q = (case q of [] \<Rightarrow> (None, []) | x # r \<Rightarrow> (Some x, r))"

section \<open>unLockQueue\<close>

record 'a ulq =
  mVector :: "'a list"
  cacheQueue :: "'a list"
  MAX_SIZE :: nat
  writeI :: nat
  readI :: nat

definition unLockQueue :: "nat \<Rightarrow> 'a \<Rightarrow> 'a ulq" where
  "unLockQueue count dflt = \<lparr>mVector = replicate count dflt, cacheQueue = [], MAX_SIZE = count, writeI = 0, readI = 0\<rparr>"

text \<open>\<open>(write - read + MAX_SIZE) % MAX_SIZE\<close> on \<open>size_t\<close>.\<close>

definition ulq_count :: "'a ulq \<Rightarrow> nat \<Rightarrow> nat" where
  "ulq_count q r = nat ((int (writeI q) - int r + int (MAX_SIZE q)) mod 2 ^ 64) mod MAX_SIZE q"

definition ulq_full :: "'a ulq \<Rightarrow> bool" where
  "ulq_full q \<longleftrightarrow> (writeI q + 1) mod MAX_SIZE q = readI q"

definition ulq_store :: "'a \<Rightarrow> 'a ulq \<Rightarrow> 'a ulq option" where
  "ulq_store x q = do {
     v \<leftarrow> wr (mVector q) (writeI q) x;
     Some (q\<lparr>mVector := v, writeI := (writeI q + 1) mod MAX_SIZE q\<rparr>) }"

text \<open>\<open>dump\<close>: whether the ring filled up before the overflow list was empty.\<close>

function ulq_dump :: "'a ulq \<Rightarrow> (bool \<times> 'a ulq) option" where
  "ulq_dump q =
     (case cacheQueue q of
        [] \<Rightarrow> Some (False, q)
      | x # r \<Rightarrow>
          if ulq_full q then Some (True, q)
          else do { q' \<leftarrow> ulq_store x q; ulq_dump (q'\<lparr>cacheQueue := r\<rparr>) })"
  by pat_completeness auto
termination by (relation "measure (\<lambda>q. length (cacheQueue q))") auto

declare ulq_dump.simps [simp del]

definition ulq_front :: "'a ulq \<Rightarrow> 'a option option" where
  "ulq_front q =
     (if ulq_count q (readI q) \<ge> 1 then do { x \<leftarrow> rd (mVector q) (readI q); Some (Some x) } else Some None)"

definition ulq_front_at :: "nat \<Rightarrow> 'a ulq \<Rightarrow> 'a option option" where
  "ulq_front_at i q =
     (if i \<ge> MAX_SIZE q then Some None
      else if ulq_count q i \<ge> 1 then do { x \<leftarrow> rd (mVector q) i; Some (Some x) } else Some None)"

definition ulq_pop :: "'a ulq \<Rightarrow> 'a ulq" where
  "ulq_pop q = (if ulq_count q (readI q) \<ge> 1 then q\<lparr>readI := (readI q + 1) mod MAX_SIZE q\<rparr> else q)"

definition ulq_push :: "'a \<Rightarrow> 'a ulq \<Rightarrow> 'a ulq option" where
  "ulq_push x q = do {
     (stuck, q) \<leftarrow> ulq_dump q;
     if \<not> stuck \<and> \<not> ulq_full q then ulq_store x q
     else Some (q\<lparr>readI := (readI q + 1) mod MAX_SIZE q, cacheQueue := cacheQueue q @ [x]\<rparr>) }"

text \<open>\<open>GetNext\<close>: the frame it copies out, if any.\<close>

definition ulq_GetNext :: "'a ulq \<Rightarrow> ('a option \<times> 'a ulq) option" where
  "ulq_GetNext q = do {
     f \<leftarrow> ulq_front q;
     case f of None \<Rightarrow> Some (None, q) | Some x \<Rightarrow> Some (Some x, ulq_pop q) }"

text \<open>The ring of \<open>H264FileReader\<close>: its \<open>push\<close> leaves \<open>read\<close> alone when the ring is full.\<close>

definition h264_push :: "'a \<Rightarrow> 'a ulq \<Rightarrow> 'a ulq option" where
  "h264_push x q = do {
     (stuck, q) \<leftarrow> ulq_dump q;
     if \<not> stuck \<and> \<not> ulq_full q then ulq_store x q
     else Some (q\<lparr>cacheQueue := cacheQueue q @ [x]\<rparr>) }"

section \<open>Queues that keep the order\<close>

locale frame_queue =
  fixes rep :: "'s \<Rightarrow> 'a list \<Rightarrow> bool"
    and push :: "'a \<Rightarrow> 's \<Rightarrow> 's option"
    and pop :: "'s \<Rightarrow> ('a option \<times> 's) option"
  assumes push_law: "rep s xs \<Longrightarrow> \<exists>s' ys. push x s = Some s' \<and> rep s' ys \<and> subseq ys (xs @ [x])"
    and pop_law: "rep s xs \<Longrightarrow> \<exists>r s' ys. pop s = Some (r, s') \<and> rep s' ys \<and>
           xs = (case r of None \<Rightarrow> ys | Some x \<Rightarrow> x # ys)"
begin

text \<open>A run of the two threads: the frames read, the last state.\<close>

fun run :: "'s \<Rightarrow> 'a queue_op list \<Rightarrow> ('a list \<times> 's) option" where
  "run s [] = Some ([], s)"
| "run s (Push x # ops) = do { s \<leftarrow> push x s; run s ops }"
| "run s (Pop # ops) = do {
     (r, s) \<leftarrow> pop s;
     (got, s) \<leftarrow> run s ops;
     Some ((case r of None \<Rightarrow> got | Some x \<Rightarrow> x # got), s) }"

fun pushed :: "'a queue_op list \<Rightarrow> 'a list" where
  "pushed [] = []"
| "pushed (Push x # ops) = x # pushed ops"
| "pushed (Pop # ops) = pushed ops"

lemma run_order:
  "rep s xs \<Longrightarrow> \<exists>got s' rest. run s ops = Some (got, s') \<and> rep s' rest \<and> subseq (got @ rest) (xs @ pushed ops)"
proof (induction ops arbitrary: s xs)
  case (Cons p ops)
  show ?case
  proof (cases p)
    case (Push x)
    obtain s1 ys where s1: "push x s = Some s1" "rep s1 ys" "subseq ys (xs @ [x])" using push_law [OF Cons.prems] by blast
    from Cons.IH [OF s1(2)] obtain got s' rest where
      r: "run s1 ops = Some (got, s')" "rep s' rest" "subseq (got @ rest) (ys @ pushed ops)" by blast
    have "subseq (ys @ pushed ops) ((xs @ [x]) @ pushed ops)" using s1(3) by (rule list_emb_append_mono) simp
    with r(3) have "subseq (got @ rest) (xs @ pushed (Push x # ops))" using subseq_order.trans by fastforce
    then show ?thesis using r s1(1) by (auto simp: Push)
  next
    case Pop
    obtain r s1 ys where s1: "pop s = Some (r, s1)" "rep s1 ys" "xs = (case r of None \<Rightarrow> ys | Some x \<Rightarrow> x # ys)"
      using pop_law [OF Cons.prems] by blast
    from Cons.IH [OF s1(2)] obtain got s' rest where
      "run s1 ops = Some (got, s')" "rep s' rest" "subseq (got @ rest) (ys @ pushed ops)" by blast
    then show ?thesis using s1 by (cases r) (auto simp: Pop)
  qed
qed auto

end

locale lossless_frame_queue = frame_queue +
  assumes push_keeps: "rep s xs \<Longrightarrow> push x s = Some s' \<Longrightarrow> rep s' ys \<Longrightarrow> ys = xs @ [x]"
begin

lemma run_lossless:
  "rep s xs \<Longrightarrow> \<exists>got s' rest. run s ops = Some (got, s') \<and> rep s' rest \<and> got @ rest = xs @ pushed ops"
proof (induction ops arbitrary: s xs)
  case (Cons p ops)
  show ?case
  proof (cases p)
    case (Push x)
    obtain s1 ys where s1: "push x s = Some s1" "rep s1 ys" using push_law [OF Cons.prems] by blast
    then have "ys = xs @ [x]" using push_keeps [OF Cons.prems] by blast
    with Cons.IH [OF s1(2)] s1(1) show ?thesis by (auto simp: Push)
  next
    case Pop
    obtain r s1 ys where s1: "pop s = Some (r, s1)" "rep s1 ys" "xs = (case r of None \<Rightarrow> ys | Some x \<Rightarrow> x # ys)"
      using pop_law [OF Cons.prems] by blast
    with Cons.IH [OF s1(2)] show ?thesis by (cases r) (auto simp: Pop)
  qed
qed auto

end

section \<open>The rings\<close>

definition ulq_wf :: "'a ulq \<Rightarrow> bool" where
  "ulq_wf q \<longleftrightarrow> 0 < MAX_SIZE q \<and> MAX_SIZE q < 2 ^ 63 \<and> length (mVector q) = MAX_SIZE q \<and>
     writeI q < MAX_SIZE q \<and> readI q < MAX_SIZE q"

definition frames_len :: "'a ulq \<Rightarrow> nat" where
  "frames_len q = (writeI q + MAX_SIZE q - readI q) mod MAX_SIZE q"

definition frames :: "'a ulq \<Rightarrow> 'a list" where
  "frames q = map (\<lambda>i. mVector q ! ((readI q + i) mod MAX_SIZE q)) [0..<frames_len q]"

definition ulq_rep :: "'a ulq \<Rightarrow> 'a list \<Rightarrow> bool" where
  "ulq_rep q xs \<longleftrightarrow> ulq_wf q \<and> xs = frames q @ cacheQueue q"

lemma ring_dist:
  fixes r w M :: nat
  assumes "r < M" "c < M"
  shows "((r + c) mod M + M - r) mod M = c" "(r + c + 1) mod M = r \<longleftrightarrow> Suc c = M"
    "i < M \<Longrightarrow> (r + i) mod M = (r + c) mod M \<longleftrightarrow> i = c"
proof -
  have m: "(r + k) mod M = (if r + k < M then r + k else r + k - M)" if "k \<le> M" for k
    using assms(1) that by (simp add: le_mod_geq)
  show "((r + c) mod M + M - r) mod M = c" using assms m [of c] by (auto simp: le_mod_geq)
  show "(r + c + 1) mod M = r \<longleftrightarrow> Suc c = M" using assms m [of "Suc c"] by auto
  show "i < M \<Longrightarrow> (r + i) mod M = (r + c) mod M \<longleftrightarrow> i = c" using assms m [of c] m [of i] by auto
qed

lemma ring_len_write: "ulq_wf q \<Longrightarrow> frames_len q < MAX_SIZE q \<and> writeI q = (readI q + frames_len q) mod MAX_SIZE q"
proof -
  assume w: "ulq_wf q"
  then have "(readI q + frames_len q) mod MAX_SIZE q = (readI q + (writeI q + MAX_SIZE q - readI q)) mod MAX_SIZE q"
    by (simp add: frames_len_def mod_add_right_eq)
  also have "readI q + (writeI q + MAX_SIZE q - readI q) = writeI q + MAX_SIZE q" using w by (simp add: ulq_wf_def)
  finally show ?thesis using w by (simp add: ulq_wf_def frames_len_def)
qed

lemma ring_lenI: "readI q < MAX_SIZE q \<Longrightarrow> c < MAX_SIZE q \<Longrightarrow> writeI q = (readI q + c) mod MAX_SIZE q \<Longrightarrow> frames_len q = c"
  using ring_dist(1) [of "readI q" "MAX_SIZE q" c] by (simp add: frames_len_def)

lemma ulq_count_ring: "ulq_wf q \<Longrightarrow> ulq_count q (readI q) = frames_len q"
proof -
  assume w: "ulq_wf q"
  then have "(int (writeI q) - int (readI q) + int (MAX_SIZE q)) mod 2 ^ 64 = int (writeI q) - int (readI q) + int (MAX_SIZE q)"
    by (intro mod_pos_pos_trivial) (auto simp: ulq_wf_def)
  moreover have "nat (int (writeI q) - int (readI q) + int (MAX_SIZE q)) = writeI q + MAX_SIZE q - readI q"
    using w by (auto simp: ulq_wf_def)
  ultimately show ?thesis by (simp add: ulq_count_def frames_len_def)
qed

lemma ulq_full_ring: "ulq_wf q \<Longrightarrow> ulq_full q \<longleftrightarrow> Suc (frames_len q) = MAX_SIZE q"
proof -
  assume w: "ulq_wf q"
  have "(writeI q + 1) mod MAX_SIZE q = (readI q + frames_len q + 1) mod MAX_SIZE q"
    using ring_len_write [OF w] by (metis mod_add_left_eq)
  then show ?thesis
    using ring_dist(2) [of "readI q" "MAX_SIZE q" "frames_len q"] ring_len_write [OF w] w by (simp add: ulq_full_def ulq_wf_def)
qed

lemma store_spec:
  assumes "ulq_wf q" "\<not> ulq_full q"
  shows "\<exists>q'. ulq_store x q = Some q' \<and> ulq_wf q' \<and> frames q' = frames q @ [x] \<and> cacheQueue q' = cacheQueue q"
proof -
  let ?M = "MAX_SIZE q" and ?c = "frames_len q"
  note l = ring_len_write [OF assms(1)]
  have c: "Suc ?c < ?M" using assms ulq_full_ring [OF assms(1)] l by linarith
  let ?q = "q\<lparr>mVector := (mVector q)[writeI q := x], writeI := (writeI q + 1) mod ?M\<rparr>"
  have w: "ulq_wf ?q" using assms(1) by (simp add: ulq_wf_def)
  have "(writeI q + 1) mod ?M = (readI q + Suc ?c) mod ?M" using l by (metis Suc_eq_plus1 add.assoc mod_add_left_eq)
  then have len: "frames_len ?q = Suc ?c" using c w by (intro ring_lenI) (auto simp: ulq_wf_def)
  have at: "(mVector q)[writeI q := x] ! ((readI q + i) mod ?M) = (if i = ?c then x else mVector q ! ((readI q + i) mod ?M))"
    if "i \<le> ?c" for i
    using ring_dist(3) [of "readI q" ?M ?c i] that c l assms(1) by (auto simp: ulq_wf_def nth_list_update)
  have "frames ?q = frames q @ [x]" unfolding frames_def len by (auto simp: at)
  then show ?thesis using assms(1) w by (simp add: ulq_store_def ulq_wf_def)
qed

lemma dump_spec:
  "ulq_wf q \<Longrightarrow> \<exists>stuck q'. ulq_dump q = Some (stuck, q') \<and> ulq_wf q' \<and> frames q' @ cacheQueue q' = frames q @ cacheQueue q \<and>
     (if stuck then ulq_full q' else cacheQueue q' = [])"
proof (induction q rule: ulq_dump.induct)
  case (1 q)
  show ?case
  proof (cases "cacheQueue q = [] \<or> ulq_full q")
    case True
    then show ?thesis using 1 by (cases "cacheQueue q") (auto simp: ulq_dump.simps [of q])
  next
    case False
    then obtain x r where x: "cacheQueue q = x # r" "\<not> ulq_full q" by (cases "cacheQueue q") auto
    obtain q1 where q1: "ulq_store x q = Some q1" "ulq_wf q1" "frames q1 = frames q @ [x]"
      using store_spec [OF "1.prems" x(2)] by blast
    have "ulq_wf (q1\<lparr>cacheQueue := r\<rparr>)" "frames (q1\<lparr>cacheQueue := r\<rparr>) = frames q1"
      using q1(2) by (simp_all add: ulq_wf_def frames_def frames_len_def)
    then show ?thesis using "1.IH" [OF x(1,2) q1(1)] x q1 by (auto simp: ulq_dump.simps [of q])
  qed
qed

lemma drop_oldest:
  assumes "ulq_wf q"
  shows "ulq_wf (q\<lparr>readI := (readI q + 1) mod MAX_SIZE q\<rparr>)"
    "1 \<le> frames_len q \<Longrightarrow> frames q = mVector q ! readI q # frames (q\<lparr>readI := (readI q + 1) mod MAX_SIZE q\<rparr>)"
    "ulq_full q \<Longrightarrow> frames (q\<lparr>readI := (readI q + 1) mod MAX_SIZE q\<rparr>) = tl (frames q)"
proof -
  let ?M = "MAX_SIZE q" and ?q = "q\<lparr>readI := (readI q + 1) mod MAX_SIZE q\<rparr>"
  show w: "ulq_wf ?q" using assms by (simp add: ulq_wf_def)
  note l = ring_len_write [OF assms]
  show step: "frames q = mVector q ! readI q # frames ?q" if le: "1 \<le> frames_len q"
  proof -
    from le obtain c where c: "frames_len q = Suc c" by (cases "frames_len q") auto
    have "writeI q = ((readI q + 1) mod ?M + c) mod ?M" using l c by (simp add: mod_add_left_eq)
    then have len: "frames_len ?q = c" using l c w by (intro ring_lenI) (auto simp: ulq_wf_def)
    have "((readI q + 1) mod ?M + i) mod ?M = (readI q + Suc i) mod ?M" for i by (simp add: mod_add_left_eq)
    then have "frames ?q = map (\<lambda>i. mVector q ! ((readI q + Suc i) mod ?M)) [0..<c]" using len by (simp add: frames_def)
    moreover have "[0..<Suc c] = 0 # map Suc [0..<c]" by (simp add: map_Suc_upt upt_conv_Cons)
    ultimately show ?thesis using assms unfolding frames_def [of q] c by (simp add: ulq_wf_def del: upt_Suc)
  qed
  show "frames ?q = tl (frames q)" if "ulq_full q"
  proof (cases "1 \<le> frames_len q")
    case False
    then have "?M = 1" using ulq_full_ring [OF assms] that by linarith
    then have "?q = q" using assms by (simp add: ulq_wf_def)
    then show ?thesis using False by (simp add: frames_def)
  qed (simp add: step)
qed

lemma ulq_pop_law:
  assumes "ulq_rep q xs"
  shows "\<exists>r q' ys. ulq_GetNext q = Some (r, q') \<and> ulq_rep q' ys \<and> xs = (case r of None \<Rightarrow> ys | Some x \<Rightarrow> x # ys)"
proof -
  have w: "ulq_wf q" "xs = frames q @ cacheQueue q" using assms by (simp_all add: ulq_rep_def)
  show ?thesis
  proof (cases "1 \<le> frames_len q")
    case True
    then show ?thesis
      using w drop_oldest [OF w(1)]
      by (auto simp: ulq_GetNext_def ulq_front_def ulq_pop_def ulq_count_ring ulq_rep_def rd_def ulq_wf_def)
  next
    case False
    then show ?thesis using assms w by (auto simp: ulq_GetNext_def ulq_front_def ulq_count_ring)
  qed
qed

lemma ulq_push_law:
  assumes "ulq_rep q xs"
  shows "\<exists>q' ys. ulq_push x q = Some q' \<and> ulq_rep q' ys \<and> subseq ys (xs @ [x])"
proof -
  obtain stuck q1 where d: "ulq_dump q = Some (stuck, q1)" "ulq_wf q1" "frames q1 @ cacheQueue q1 = xs"
      "if stuck then ulq_full q1 else cacheQueue q1 = []"
    using dump_spec [of q] assms by (auto simp: ulq_rep_def)
  show ?thesis
  proof (cases "\<not> stuck \<and> \<not> ulq_full q1")
    case True
    then obtain q2 where "ulq_store x q1 = Some q2" "ulq_wf q2" "frames q2 = frames q1 @ [x]" "cacheQueue q2 = cacheQueue q1"
      using store_spec [OF d(2)] by blast
    then show ?thesis using d True by (auto simp: ulq_push_def ulq_rep_def)
  next
    case False
    then have full: "ulq_full q1" using d(4) by (auto split: if_splits)
    let ?q = "q1\<lparr>readI := (readI q1 + 1) mod MAX_SIZE q1, cacheQueue := cacheQueue q1 @ [x]\<rparr>"
    have e: "ulq_wf (q\<lparr>cacheQueue := c\<rparr>) = ulq_wf q" "frames (q\<lparr>cacheQueue := c\<rparr>) = frames q" for q :: "'a ulq" and c
      by (simp_all add: ulq_wf_def frames_def frames_len_def)
    have "ulq_rep ?q (tl (frames q1) @ cacheQueue q1 @ [x])"
      using drop_oldest(1,3) [OF d(2)] full by (simp add: ulq_rep_def e)
    moreover have "subseq (tl (frames q1) @ cacheQueue q1 @ [x]) (xs @ [x])"
      unfolding d(3) [symmetric] by (cases "frames q1") auto
    ultimately show ?thesis using d(1) False by (auto simp: ulq_push_def)
  qed
qed

lemma h264_push_law:
  assumes "ulq_rep q xs"
  shows "\<exists>q'. h264_push x q = Some q' \<and> ulq_rep q' (xs @ [x])"
proof -
  obtain stuck q1 where d: "ulq_dump q = Some (stuck, q1)" "ulq_wf q1" "frames q1 @ cacheQueue q1 = xs"
      "if stuck then ulq_full q1 else cacheQueue q1 = []"
    using dump_spec [of q] assms by (auto simp: ulq_rep_def)
  show ?thesis
  proof (cases "\<not> stuck \<and> \<not> ulq_full q1")
    case True
    then obtain q2 where "ulq_store x q1 = Some q2" "ulq_wf q2" "frames q2 = frames q1 @ [x]" "cacheQueue q2 = cacheQueue q1"
      using store_spec [OF d(2)] by blast
    then show ?thesis using d True by (auto simp: h264_push_def ulq_rep_def)
  next
    case False
    then show ?thesis using d by (auto simp: h264_push_def ulq_rep_def ulq_wf_def frames_def frames_len_def)
  qed
qed

lemma ulq_rep_unique: "ulq_rep q xs \<Longrightarrow> ulq_rep q ys \<Longrightarrow> xs = ys"
  by (simp add: ulq_rep_def)

interpretation ulq: frame_queue ulq_rep ulq_push ulq_GetNext
  by unfold_locales (rule ulq_push_law ulq_pop_law, assumption)+

interpretation h264q: lossless_frame_queue ulq_rep h264_push ulq_GetNext
proof
  show "\<exists>s' ys. h264_push x s = Some s' \<and> ulq_rep s' ys \<and> subseq ys (xs @ [x])" if "ulq_rep s xs" for s x and xs :: "'a list"
    using h264_push_law [OF that, of x] by blast
  show "ys = xs @ [x]" if "ulq_rep s xs" "h264_push x s = Some s'" "ulq_rep s' ys" for s s' x and xs ys :: "'a list"
    using h264_push_law [OF that(1), of x] that(2,3) ulq_rep_unique by auto
qed (rule ulq_pop_law)

lemma ulq_start: "0 < n \<Longrightarrow> n < 2 ^ 63 \<Longrightarrow> ulq_rep (unLockQueue n d) []"
  by (simp add: ulq_rep_def ulq_wf_def unLockQueue_def frames_def frames_len_def)

text \<open>
  C26.  The frame rings keep the order: over any interleaving of pushes and reads the frames of
  \<open>unLockQueue\<close> never indexes outside its vector and what it delivers, followed by what it still
  holds, is a subsequence of what was pushed (it drops the oldest frame when it is full), and the
  ring of \<open>H264FileReader\<close> delivers everything: nothing is lost, repeated or reordered.
\<close>

theorem frame_rings_ordered:
  assumes "0 < n" "n < 2 ^ 63"
  shows "(\<exists>got q rest. ulq.run (unLockQueue n d) ops = Some (got, q) \<and> ulq_rep q rest \<and>
            subseq (got @ rest) (ulq.pushed ops)) \<and>
         (\<exists>got q rest. h264q.run (unLockQueue n d) ops = Some (got, q) \<and> ulq_rep q rest \<and>
            got @ rest = h264q.pushed ops)"
  using ulq.run_order [OF ulq_start [OF assms], of d ops] h264q.run_lossless [OF ulq_start [OF assms], of d ops] by simp

theorem frame_rings_ordered_witness:
  "\<exists>got q rest. ulq.run (unLockQueue 3 (0 :: nat)) [Push 1, Push 2, Push 3, Pop, Push 4, Pop] = Some (got, q) \<and>
     ulq_rep q rest \<and> subseq (got @ rest) [1, 2, 3, 4]"
  using frame_rings_ordered [of 3 "0 :: nat" "[Push 1, Push 2, Push 3, Pop, Push 4, Pop]"] by (auto simp del: ulq.run.simps h264q.run.simps)

text \<open>A full \<open>unLockQueue\<close> loses its oldest frame although the overflow list has room.\<close>

lemma unLockQueue_drops:
  "map_option fst (ulq.run (unLockQueue 3 (0 :: nat)) [Push 1, Push 2, Push 3, Pop, Pop]) = Some [2]"
  by (simp add: unLockQueue_def ulq_push_def ulq_dump.simps ulq_full_def ulq_store_def ulq_GetNext_def ulq_front_def
      ulq_count_def ulq_pop_def wr_def rd_def)

section \<open>LineBuffer holds a byte stream\<close>

definition lb_wf :: "line_buf \<Rightarrow> bool" where
  "lb_wf b \<longleftrightarrow> (\<exists>m. pBuf b = Some m \<and> int (length m) = bufLen b) \<and> 0 \<le> rPos b \<and> rPos b \<le> wPos b \<and> wPos b \<le> bufLen b"

definition lb_content :: "line_buf \<Rightarrow> bytes" where
  "lb_content b = (case pBuf b of None \<Rightarrow> [] | Some m \<Rightarrow> span m (nat (rPos b)) (nat (wPos b - rPos b)))"

lemma lb_write_spec:
  assumes "lb_wf b"
  shows "\<exists>ok b'. lb_writeBuf d b = Some (ok, b') \<and> lb_wf b' \<and> (ok \<longleftrightarrow> d \<noteq> [] \<and> int (length d) < lb_tailSize b) \<and>
     lb_content b' = lb_content b @ (if ok then d else [])"
proof -
  obtain m where m: "pBuf b = Some m" "int (length m) = bufLen b" "0 \<le> rPos b" "rPos b \<le> wPos b" "wPos b \<le> bufLen b"
    using assms by (auto simp: lb_wf_def)
  show ?thesis
  proof (cases "d \<noteq> [] \<and> int (length d) < lb_tailSize b")
    case False
    then show ?thesis using assms m by (auto simp: lb_writeBuf_def lb_tailSize_def)
  next
    case True
    define r w where rw: "r = nat (rPos b)" "w = nat (wPos b)"
    have n: "r \<le> w" "w + length d < length m" "wPos b = int w" "rPos b = int r"
      using True m by (auto simp: rw lb_tailSize_def)
    let ?m = "take w m @ d @ drop (w + length d) m"
    have "blit m w d = Some ?m" using n by (simp add: blit_def)
    moreover have "span ?m r (w + length d - r) = span m r (w - r) @ d"
      using n by (simp add: span_def take_drop min_def)
    ultimately show ?thesis
      using True m n assms
      by (auto simp: lb_writeBuf_def lb_content_def lb_wf_def lb_tailSize_def nat_diff_distrib nat_add_distrib)
  qed
qed

lemma lb_read_spec:
  assumes "lb_wf b" "0 \<le> n"
  shows "lb_wf (lb_setReadSize n b) \<and>
    lb_content (lb_setReadSize n b) = (if n \<le> lb_dataSize b then drop (nat n) (lb_content b) else lb_content b)"
proof -
  obtain m where m: "pBuf b = Some m" "int (length m) = bufLen b" "0 \<le> rPos b" "rPos b \<le> wPos b" "wPos b \<le> bufLen b"
    using assms by (auto simp: lb_wf_def)
  have s: "span m (nat (rPos b + n)) (nat (wPos b - (rPos b + n))) = drop (nat n) (span m (nat (rPos b)) (nat (wPos b - rPos b)))"
    if "rPos b + n \<le> wPos b"
    using that assms(2) m by (simp add: span_def drop_take nat_add_distrib add.commute nat_diff_distrib)
  show ?thesis
    using assms m s by (auto simp: lb_setReadSize_def lb_content_def lb_wf_def lb_dataSize_def Let_def)
qed

lemma lb_forward_spec:
  assumes "lb_wf b"
  shows "\<exists>b'. lb_DataForward b = Some b' \<and> lb_wf b' \<and> lb_content b' = lb_content b \<and> lb_tailSize b' = lb_freeSize b"
proof -
  obtain m where m: "pBuf b = Some m" "int (length m) = bufLen b" "0 \<le> rPos b" "rPos b \<le> wPos b" "wPos b \<le> bufLen b"
    using assms by (auto simp: lb_wf_def)
  let ?d = "span m (nat (rPos b)) (nat (wPos b - rPos b))"
  have l: "length ?d = nat (wPos b - rPos b)" using m by simp
  have "blit m 0 ?d = Some (?d @ drop (length ?d) m)" using m by (simp add: blit_def)
  then show ?thesis
    using m l by (auto simp: lb_DataForward_def lb_wf_def lb_content_def lb_tailSize_def lb_freeSize_def)
qed



text \<open>
  The callers enlarge the buffer when \<open>freeSize() < len\<close>; a frame that fits exactly is then refused by
  \<open>writeBuf\<close>, and the callers do not look at its result.
\<close>

lemma line_buffer_exact_fit_refused:
  assumes "lb_wf b" "rPos b = 0" "int (length d) = lb_freeSize b"
  shows "\<not> lb_freeSize b < int (length d) \<and> lb_writeBuf d b = Some (False, b)"
  using assms by (auto simp: lb_writeBuf_def lb_freeSize_def lb_wf_def)

end
