(* ===== verification/Gb_Video.thy ===== *)
theory Gb_Video
  imports Gb_Buffers
begin

text \<open>
  The H.264 file reader (\<open>src/media/h264-file-reader.cpp\<close>) with the NAL scanner of
  \<open>src/media/videoNalu.hpp\<close>: cutting an Annex-B byte stream into access units, from a file at once or
  from live input, and handing the frames out.  Memory is a heap of blocks, a pointer a block with an
  offset; a failed assertion, like an access outside a block, is \<open>None\<close>.  The frame ring is the
  one of \<open>Gb_Buffers\<close>.
\<close>

section \<open>NAL units\<close>

text \<open>The scan stops at \<open>ende\<close>, of which the code asks for three bytes more than it looks at.\<close>

function search_start_code :: "bytes \<Rightarrow> nat \<Rightarrow> nat \<Rightarrow> nat option" where
  "search_start_code mem p ende =
     (if p + 3 < ende then do {
        a \<leftarrow> rd mem p; b \<leftarrow> rd mem (p + 1); c \<leftarrow> rd mem (p + 2); d \<leftarrow> rd mem (p + 3);
        if a = 0 \<and> b = 0 \<and> (c = 1 \<or> c = 0 \<and> d = 1) then Some p else search_start_code mem (p + 1) ende }
      else Some ende)"
  by pat_completeness auto
termination by (relation "measure (\<lambda>(mem, p, ende). ende - p)") auto

declare search_start_code.simps [simp del]

text \<open>The index of the one that ends the start code at \<open>p\<close>.\<close>

definition start_code_end :: "bytes \<Rightarrow> nat \<Rightarrow> nat option" where
  "start_code_end mem p = do {
     a \<leftarrow> rd mem p; b \<leftarrow> rd mem (p + 1);
     if a = 0 \<and> b = 0 then do {
       c \<leftarrow> rd mem (p + 2);
       let i = (if c = 0 then p + 3 else p + 2);
       d \<leftarrow> rd mem i;
       if d = 1 then Some i else None }
     else None }"

definition h264_nal_type :: "bytes \<Rightarrow> nat \<Rightarrow> nat option" where
  "h264_nal_type mem p = do {
     i \<leftarrow> start_code_end mem p;
     h \<leftarrow> rd mem (i + 1);
     Some (unat (h AND 0x1F)) }"

definition h264_nal_new_access :: "bytes \<Rightarrow> nat \<Rightarrow> nat \<Rightarrow> bool option" where
  "h264_nal_new_access mem p ende =
     (if ende - p < 4 then Some True
      else do {
        i \<leftarrow> start_code_end mem p;
        h \<leftarrow> rd mem (i + 1);
        let t = unat (h AND 0x1F);
        if t < 1 \<or> t > 5 then Some True
        else if i + 2 > ende then Some True
        else do { s \<leftarrow> rd mem (i + 2); Some (s AND 0x80 \<noteq> 0) } })"

section \<open>The reader\<close>

record vframe =
  fr_block :: nat
  fr_nalu :: nat
  fr_bytes :: nat
  fr_time :: int
  fr_idr :: bool

record h264_reader =
  h_ring :: "vframe ulq"
  m_vit :: nat
  spspps2 :: bool
  m_sps :: "(nat \<times> nat \<times> nat) list"
  m_duration :: int
  m_ptr :: "nat option"
  bm_ptr :: "nat option"
  m_capacity :: nat
  h_rPos :: nat
  h_wPos :: nat
  frPos :: nat
  fwPos :: nat
  oneFrame :: "nat \<times> nat"
  oneFrameSize :: nat
  h_heap :: "nat \<Rightarrow> bytes option"
  h_next :: nat

text \<open>The vector of the frames is the one under the ring.\<close>

abbreviation m_videos :: "h264_reader \<Rightarrow> vframe list" where
  "m_videos r \<equiv> mVector (h_ring r)"

abbreviation set_videos :: "vframe list \<Rightarrow> h264_reader \<Rightarrow> h264_reader" where
  "set_videos vs r \<equiv> r\<lparr>h_ring := (h_ring r)\<lparr>mVector := vs\<rparr>\<rparr>"

definition IsOpened :: "h264_reader \<Rightarrow> bool" where
  "IsOpened r \<longleftrightarrow> m_videos r \<noteq> []"

text \<open>\<open>malloc\<close>: a new block, whose bytes the argument gives.\<close>

definition h_malloc :: "bytes \<Rightarrow> h264_reader \<Rightarrow> nat \<times> h264_reader" where
  "h_malloc b r = (h_next r, r\<lparr>h_heap := (h_heap r)(h_next r \<mapsto> b), h_next := h_next r + 1\<rparr>)"

text \<open>\<open>free\<close> of a block that is not allocated is an error.\<close>

definition h_free :: "nat \<Rightarrow> h264_reader \<Rightarrow> h264_reader option" where
  "h_free b r = (case h_heap r b of None \<Rightarrow> None | Some _ \<Rightarrow> Some (r\<lparr>h_heap := (h_heap r)(b := None)\<rparr>))"

text \<open>The loop of \<open>Init\<close> over the file in the block \<open>blk\<close>; \<open>count\<close> frames have been found.\<close>

function init_loop :: "nat \<Rightarrow> bytes \<Rightarrow> nat \<Rightarrow> nat \<Rightarrow> nat \<Rightarrow> nat \<Rightarrow> bool \<Rightarrow> h264_reader \<Rightarrow> (nat \<times> h264_reader) option" where
  "init_loop blk mem ende nalu p count spspps r =
     (if p < ende then do {
        pn \<leftarrow> search_start_code mem (p + 4) ende;
        let bytes = pn - nalu;
        t \<leftarrow> h264_nal_type mem p;
        if t = 0 then None
        else do {
          new \<leftarrow> (if t \<le> 5 then h264_nal_new_access mem pn ende else Some False);
          if p < pn then
            if t \<le> 5 \<and> new then
              init_loop blk mem ende pn pn (count + 1) (if m_sps r \<noteq> [] then False else spspps)
                (set_videos (m_videos r @ [\<lparr>fr_block = blk, fr_nalu = nalu, fr_bytes = bytes, fr_time = 40 * int count,
                                           fr_idr = (t = 5)\<rparr>]) r)
            else if t = 7 \<or> t = 8 then do {
              c \<leftarrow> rd mem (p + 2);
              let n = (if c = 1 then 3 else 4);
              init_loop blk mem ende nalu pn count spspps
                (if spspps then r\<lparr>m_sps := m_sps r @ [(blk, p + n, bytes)]\<rparr> else r) }
            else init_loop blk mem ende nalu pn count spspps r
          else None } }
      else Some (count, r))"
  by pat_completeness auto
termination by (relation "measure (\<lambda>(blk, mem, ende, nalu, p, count, spspps, r). ende - p)") auto

declare init_loop.simps [simp del]

definition h264_Init :: "h264_reader \<Rightarrow> h264_reader option" where
  "h264_Init r = do {
     blk \<leftarrow> m_ptr r;
     mem \<leftarrow> h_heap r blk;
     nalu \<leftarrow> search_start_code mem 0 (m_capacity r);
     (count, r) \<leftarrow> init_loop blk mem (m_capacity r) nalu nalu 0 True r;
     Some (r\<lparr>m_duration := 40 * int count\<rparr>) }"

text \<open>A frame cut off in \<open>Init2\<close>: it is pushed, and the read position of the buffer it came from moves.\<close>

definition h264_advance :: "nat \<Rightarrow> h264_reader \<Rightarrow> h264_reader" where
  "h264_advance bytes r =
     (if fwPos r \<noteq> 0 then
        let r = r\<lparr>frPos := frPos r + bytes\<rparr>
        in if frPos r = fwPos r then r\<lparr>fwPos := 0, frPos := 0\<rparr> else r
      else r\<lparr>h_rPos := h_rPos r + bytes\<rparr>)"

definition h264_emit :: "vframe \<Rightarrow> h264_reader \<Rightarrow> h264_reader option" where
  "h264_emit f r = do {
     let r = (if m_sps r \<noteq> [] then r\<lparr>spspps2 := False\<rparr> else r);
     q \<leftarrow> h264_push f (h_ring r);
     Some (h264_advance (fr_bytes f) (r\<lparr>h_ring := q\<rparr>)) }"

text \<open>
  The loop of \<open>Init2\<close>, which hands its frames to the ring and moves the read position over them.
\<close>

function init2_loop :: "nat \<Rightarrow> bytes \<Rightarrow> nat \<Rightarrow> nat \<Rightarrow> nat \<Rightarrow> nat \<Rightarrow> h264_reader \<Rightarrow> (nat \<times> h264_reader) option" where
  "init2_loop blk mem ende nalu p count r =
     (if p < ende then do {
        pn \<leftarrow> search_start_code mem (p + 4) ende;
        let bytes = pn - nalu;
        t \<leftarrow> h264_nal_type mem p;
        if t = 0 then None
        else do {
          new \<leftarrow> (if t \<le> 5 then h264_nal_new_access mem pn ende else Some False);
          if p < pn then
            if t \<le> 5 \<and> new then do {
              r \<leftarrow> h264_emit \<lparr>fr_block = blk, fr_nalu = nalu, fr_bytes = bytes, fr_time = 40 * int count, fr_idr = (t = 5)\<rparr> r;
              init2_loop blk mem ende pn pn (count + 1) r }
            else if t = 7 \<or> t = 8 then do {
              c \<leftarrow> rd mem (p + 2);
              let n = (if c = 1 then 3 else 4);
              init2_loop blk mem ende nalu pn count
                (if spspps2 r then r\<lparr>m_sps := m_sps r @ [(blk, p + n, bytes)]\<rparr> else r) }
            else init2_loop blk mem ende nalu pn count r
          else None } }
      else Some (count, r))"
  by pat_completeness auto
termination by (relation "measure (\<lambda>(blk, mem, ende, nalu, p, count, r). ende - p)") auto

declare init2_loop.simps [simp del]

definition h264_Init2 :: "h264_reader \<Rightarrow> h264_reader option" where
  "h264_Init2 r = do {
     let (blk, ofs) = oneFrame r;
     mem \<leftarrow> h_heap r blk;
     let ende = ofs + oneFrameSize r;
     nalu \<leftarrow> search_start_code mem ofs ende;
     (count, r) \<leftarrow> init2_loop blk mem ende nalu nalu 0 r;
     Some (r\<lparr>m_duration := 40 * int count\<rparr>) }"

text \<open>The size of the buffer for live input.\<close>

definition live_capacity :: nat where
  "live_capacity = 10 * 1024 * 1024"

text \<open>
  The constructor: \<open>file\<close> is the file's content, if it could be opened; \<open>junk\<close> gives the bytes of new
  memory and the frames and the flag that are not initialized.
\<close>

definition h264_new :: "bytes option \<Rightarrow> (nat \<Rightarrow> u8) \<Rightarrow> vframe \<Rightarrow> bool \<Rightarrow> h264_reader option" where
  "h264_new file junk frame flag = do {
     let r = \<lparr>h_ring = \<lparr>mVector = [], cacheQueue = [], MAX_SIZE = 128, writeI = 0, readI = 0\<rparr>, m_vit = 0, spspps2 = flag,
              m_sps = [], m_duration = 0, m_ptr = None, bm_ptr = None, m_capacity = 0, h_rPos = 0, h_wPos = 0, frPos = 0,
              fwPos = 0, oneFrame = (0, 0), oneFrameSize = 0, h_heap = (\<lambda>_. None), h_next = 0\<rparr>;
     r \<leftarrow> (case file of
             Some content \<Rightarrow>
               let r = r\<lparr>m_capacity := length content\<rparr>;
                   (b, r) = h_malloc content r
               in h264_Init (r\<lparr>m_ptr := Some b\<rparr>)
           | None \<Rightarrow>
               let r = r\<lparr>m_capacity := live_capacity\<rparr>;
                   (b, r) = h_malloc (map junk [0..<m_capacity r]) r
               in Some ((set_videos (replicate 128 frame) r)\<lparr>m_ptr := Some b, spspps2 := True\<rparr>));
     Some (r\<lparr>h_rPos := 0, h_wPos := 0, frPos := 0, fwPos := 0, m_vit := 0\<rparr>) }"

definition h264_delete :: "h264_reader \<Rightarrow> h264_reader option" where
  "h264_delete r = do {
     r \<leftarrow> (case m_ptr r of None \<Rightarrow> Some r | Some b \<Rightarrow> if m_capacity r > 0 then h_free b r else None);
     (case bm_ptr r of None \<Rightarrow> Some r | Some b \<Rightarrow> h_free b r) }"

section \<open>Handing out frames\<close>

text \<open>The frame and what the call leaves of the reader; no frame is the result -1.\<close>

definition h264_GetNextFrame :: "h264_reader \<Rightarrow> (vframe option \<times> h264_reader) option" where
  "h264_GetNextFrame r =
     (if m_vit r = length (m_videos r) then Some (None, r)
      else do {
        f \<leftarrow> rd (m_videos r) (m_vit r);
        let r = r\<lparr>m_vit := m_vit r + 1\<rparr>;
        Some (Some f, set_videos (butlast (m_videos r)) r) })"

definition h264_GetNextFrameEx :: "h264_reader \<Rightarrow> (vframe option \<times> h264_reader) option" where
  "h264_GetNextFrameEx r = do {
     (f, q) \<leftarrow> ulq_GetNext (h_ring r);
     Some (f, r\<lparr>h_ring := q\<rparr>) }"

text \<open>The walk back to a key frame, which does not look at the first one.\<close>

fun seek_back :: "vframe list \<Rightarrow> nat \<Rightarrow> nat option" where
  "seek_back vs 0 = None"
| "seek_back vs (Suc i) = (if fr_idr (vs ! Suc i) then Some (Suc i) else seek_back vs i)"

text \<open>\<open>std::lower_bound\<close> on the frames, which are sorted by time.\<close>

definition lower_bound :: "vframe list \<Rightarrow> int \<Rightarrow> nat" where
  "lower_bound vs dts = length (takeWhile (\<lambda>v. fr_time v < dts) vs)"

definition h264_Seek :: "int \<Rightarrow> h264_reader \<Rightarrow> int \<times> h264_reader" where
  "h264_Seek dts r =
     (let it = lower_bound (m_videos r) dts in
      if it = length (m_videos r) then (-1, r)
      else case seek_back (m_videos r) it of
             Some i \<Rightarrow> (0, r\<lparr>m_vit := i\<rparr>)
           | None \<Rightarrow> (0, r))"

section \<open>Live input\<close>

definition h264_store :: "bytes \<Rightarrow> h264_reader \<Rightarrow> h264_reader option" where
  "h264_store data r = do {
     b \<leftarrow> m_ptr r;
     mem \<leftarrow> h_heap r b;
     mem \<leftarrow> blit mem (h_wPos r) data;
     Some (r\<lparr>h_heap := (h_heap r)(b \<mapsto> mem), h_wPos := h_wPos r + length data\<rparr>) }"

text \<open>A buffer that fits: it is stored, and unless it begins with a parameter set what waits is cut into frames.\<close>

definition h264_take :: "bytes \<Rightarrow> h264_reader \<Rightarrow> h264_reader option" where
  "h264_take data r = do {
     t \<leftarrow> h264_nal_type data 0;
     r \<leftarrow> h264_store data r;
     if t = 7 \<or> t = 8 then Some r
     else if fwPos r \<noteq> 0 then do {
       b \<leftarrow> bm_ptr r;
       h264_Init2 (r\<lparr>oneFrame := (b, frPos r), oneFrameSize := fwPos r - frPos r\<rparr>) }
     else do {
       b \<leftarrow> m_ptr r;
       h264_Init2 (r\<lparr>oneFrame := (b, h_rPos r), oneFrameSize := h_wPos r - h_rPos r\<rparr>) } }"

text \<open>The change of the two buffers.\<close>

definition h264_switch :: "(nat \<Rightarrow> u8) \<Rightarrow> h264_reader \<Rightarrow> h264_reader" where
  "h264_switch junk r =
     (let r = r\<lparr>frPos := h_rPos r, fwPos := h_wPos r\<rparr>;
          r = r\<lparr>h_wPos := 0, h_rPos := 0\<rparr>;
          tmpe = bm_ptr r;
          r = r\<lparr>bm_ptr := m_ptr r\<rparr>
      in case tmpe of
           None \<Rightarrow> r
         | Some _ \<Rightarrow> let (b, r) = h_malloc (map junk [0..<m_capacity r]) r in r\<lparr>m_ptr := Some b\<rparr>)"

partial_function (option) h264_Input :: "(nat \<Rightarrow> u8) \<Rightarrow> bytes \<Rightarrow> h264_reader \<Rightarrow> h264_reader option" where
  "h264_Input junk data r =
     (if m_capacity r - h_wPos r \<ge> length data then h264_take data r
      else h264_Input junk data (h264_switch junk r))"

end
