(* ===== verification/Gb_Access_Units.thy ===== *)
theory Gb_Access_Units
  imports Gb_Video
begin

text \<open>
  What the H.264 reader of \<open>Gb_Video\<close> does on streams of NAL units: the access units of a stream, a file cut
  into them, live input that reaches the sender as frames, and where the code fails.
\<close>

section \<open>Streams of NAL units\<close>

text \<open>A NAL unit: whether its start code is the long one, and its bytes.\<close>

record nal =
  nal_long :: bool
  nal_payload :: bytes

definition nal_pre :: "nal \<Rightarrow> bytes" where
  "nal_pre n = (if nal_long n then [0, 0, 0, 1] else [0, 0, 1])"

definition nal_bytes :: "nal \<Rightarrow> bytes" where
  "nal_bytes n = nal_pre n @ nal_payload n"

definition annexb :: "nal list \<Rightarrow> bytes" where
  "annexb ns = concat (map nal_bytes ns)"

definition nal_type :: "nal \<Rightarrow> nat" where
  "nal_type n = unat (hd (nal_payload n) AND 0x1F)"

fun has_code :: "bytes \<Rightarrow> bool" where
  "has_code (a # b # c # r) \<longleftrightarrow> a = 0 \<and> b = 0 \<and> c = 1 \<or> has_code (b # c # r)"
| "has_code _ \<longleftrightarrow> False"

text \<open>What H.264 guarantees of a unit: no start code inside, no zero at the end, a type, and for a slice its header.\<close>

definition nal_ok :: "nal \<Rightarrow> bool" where
  "nal_ok n \<longleftrightarrow> nal_payload n \<noteq> [] \<and> nal_type n \<noteq> 0 \<and> (nal_type n \<le> 5 \<longrightarrow> 2 \<le> length (nal_payload n)) \<and>
     last (nal_payload n) \<noteq> 0 \<and> \<not> has_code (nal_payload n)"

text \<open>Slices, parameter sets, and where a picture ends: before anything that is not a slice, and before a first slice.\<close>

definition is_slice :: "nal \<Rightarrow> bool" where
  "is_slice n \<longleftrightarrow> nal_type n \<le> 5"

definition is_params :: "nal \<Rightarrow> bool" where
  "is_params n \<longleftrightarrow> nal_type n = 7 \<or> nal_type n = 8"

fun picture_ends :: "nal list \<Rightarrow> bool" where
  "picture_ends [] \<longleftrightarrow> True"
| "picture_ends (n # _) \<longleftrightarrow> \<not> is_slice n \<or> nal_payload n ! 1 AND 0x80 \<noteq> 0"

text \<open>The access units of a stream after the units \<open>cur\<close>, and what is left behind the last one.\<close>

fun access_units :: "nal list \<Rightarrow> nal list \<Rightarrow> nal list list" where
  "access_units cur [] = []"
| "access_units cur (n # ns) =
     (if is_slice n \<and> picture_ends ns then (cur @ [n]) # access_units [] ns else access_units (cur @ [n]) ns)"

fun leftover :: "nal list \<Rightarrow> nal list \<Rightarrow> nal list" where
  "leftover cur [] = cur"
| "leftover cur (n # ns) = (if is_slice n \<and> picture_ends ns then leftover [] ns else leftover (cur @ [n]) ns)"

lemma units_partition: "concat (access_units cur ns) @ leftover cur ns = cur @ ns"
  by (induction cur ns rule: access_units.induct) auto

lemma units_nonempty: "u \<in> set (access_units cur ns) \<Longrightarrow> u \<noteq> []"
  by (induction cur ns rule: access_units.induct) (auto split: if_splits)

lemma annexb_simps [simp]: "annexb [] = []" "annexb (n # ns) = nal_bytes n @ annexb ns" "annexb (a @ b) = annexb a @ annexb b"
  by (simp_all add: annexb_def)

lemma has_code_iff: "has_code b \<longleftrightarrow> (\<exists>i. i + 2 < length b \<and> b ! i = 0 \<and> b ! (i + 1) = 0 \<and> b ! (i + 2) = 1)"
proof (induction b rule: has_code.induct)
  case (1 a b c r)
  show ?case (is "?l = (\<exists>i. ?P i)")
  proof
    assume ?l
    then show "\<exists>i. ?P i" using 1 by (force intro: exI [of _ 0] exI [of _ "Suc i" for i])
  next
    assume "\<exists>i. ?P i"
    then obtain i where i: "?P i" by blast
    show ?l
    proof (cases i)
      case 0
      with i show ?thesis by simp
    next
      case (Suc j)
      with i show ?thesis using 1 by auto
    qed
  qed
qed auto

section \<open>The scanner on a stream\<close>

definition code_at :: "bytes \<Rightarrow> nat \<Rightarrow> bool" where
  "code_at mem k \<longleftrightarrow> mem ! k = 0 \<and> mem ! (k + 1) = 0 \<and> (mem ! (k + 2) = 1 \<or> mem ! (k + 2) = 0 \<and> mem ! (k + 3) = 1)"

lemma search_finds:
  assumes "p \<le> q" "q + 3 < ende" "ende \<le> length mem" "code_at mem q" "\<And>k. p \<le> k \<Longrightarrow> k < q \<Longrightarrow> \<not> code_at mem k"
  shows "search_start_code mem p ende = Some q"
  using assms
proof (induction "q - p" arbitrary: p)
  case 0
  then show ?case by (subst search_start_code.simps) (simp add: code_at_def)
next
  case (Suc d)
  then have "\<not> code_at mem p" by auto
  with Suc show ?case by (subst search_start_code.simps) (auto simp: code_at_def)
qed

lemma search_ends:
  assumes "ende \<le> length mem" "\<And>k. p \<le> k \<Longrightarrow> k + 3 < ende \<Longrightarrow> \<not> code_at mem k"
  shows "search_start_code mem p ende = Some ende"
  using assms
proof (induction "ende - p" arbitrary: p rule: less_induct)
  case less
  show ?case
  proof (cases "p + 3 < ende")
    case True
    then have "\<not> code_at mem p" using less.prems by simp
    moreover have "search_start_code mem (p + 1) ende = Some ende" using True less by auto
    ultimately show ?thesis using True less.prems(1) by (subst search_start_code.simps) (auto simp: code_at_def)
  qed (subst search_start_code.simps, simp)
qed

lemma nal_pre_length: "length (nal_pre n) = (if nal_long n then 4 else 3)"
  by (simp add: nal_pre_def)

lemma nal_last:
  assumes "nal_ok n"
  shows "nal_bytes n ! (length (nal_bytes n) - 1) \<noteq> 0"
  using assms by (cases "nal_payload n" rule: rev_cases) (auto simp: nal_ok_def nal_bytes_def nth_append)

text \<open>No start code begins inside a unit.\<close>

lemma no_code_inside:
  assumes "nal_ok n" "mem = pre @ nal_bytes n @ rest" "length pre + 4 \<le> k" "k < length pre + length (nal_bytes n)"
  shows "\<not> code_at mem k"
proof
  assume c: "code_at mem k"
  let ?B = "nal_bytes n" and ?P = "nal_payload n"
  let ?e = "length ?B - 1"
  define j where "j = k - length pre"
  have j: "k = length pre + j" "j < length ?B" using assms(3,4) by (simp_all add: j_def)
  have at: "mem ! (k + i) = ?B ! (j + i)" if "j + i < length ?B" for i
    using that by (simp add: assms(2) j nth_append)
  have l: "length ?B = length (nal_pre n) + length ?P" by (simp add: nal_bytes_def)
  have js: "length (nal_pre n) \<le> j" using assms(3) by (simp add: j nal_pre_length)
  have pay: "?B ! i = ?P ! (i - length (nal_pre n))" if "length (nal_pre n) \<le> i" for i
    using that by (simp add: nal_bytes_def nth_append)
  have none: "\<not> (?B ! i = 0 \<and> ?B ! (i + 1) = 0 \<and> ?B ! (i + 2) = 1)" if "length (nal_pre n) \<le> i" "i + 2 < length ?B" for i
    using assms(1) that has_code_iff [of ?P] by (auto simp: nal_ok_def pay l Suc_diff_le dest!: spec [of _ "i - length (nal_pre n)"])
  have last: "?B ! ?e \<noteq> 0" using nal_last [OF assms(1)] .
  consider "j = ?e" | "j + 1 = ?e" | "j + 2 = ?e" | "j + 3 < length ?B" using j(2) by linarith
  then show False
  proof cases
    case 1
    then show ?thesis using c last at [of 0] j(2) by (simp add: code_at_def)
  next
    case 2
    then have "j + 1 < length ?B" using j(2) by linarith
    then show ?thesis using c last at [of 1] 2 by (simp add: code_at_def)
  next
    case 3
    then have "j + 2 < length ?B" using j(2) by linarith
    then show ?thesis using c last at [of 0] at [of 1] at [of 2] none [OF js] 3 by (auto simp: code_at_def)
  next
    case 4
    then show ?thesis using c at [of 0] at [of 1] at [of 2] at [of 3] none [OF js] none [of "j + 1"] js
      by (auto simp: code_at_def numeral_3_eq_3 numeral_2_eq_2)
  qed
qed

lemma code_at_nal: "mem = pre @ nal_bytes n @ rest \<Longrightarrow> code_at mem (length pre)"
  by (cases "nal_long n") (simp_all add: code_at_def nal_bytes_def nal_pre_def nth_append)

lemma nal_bytes_length: "nal_ok n \<Longrightarrow> 4 \<le> length (nal_bytes n)"
  by (cases "nal_payload n") (simp_all add: nal_bytes_def nal_pre_length nal_ok_def)

lemma start_code_end_nal:
  assumes "mem = pre @ nal_bytes n @ rest"
  shows "start_code_end mem (length pre) = Some (length pre + length (nal_pre n) - 1)"
  using assms by (cases "nal_long n") (simp_all add: start_code_end_def nal_bytes_def nal_pre_def nth_append rd_def Let_def)

lemma header_nal:
  assumes "mem = pre @ nal_bytes n @ rest" "nal_ok n"
  shows "rd mem (length pre + length (nal_pre n)) = Some (hd (nal_payload n))"
  using assms by (cases "nal_payload n") (simp_all add: nal_bytes_def nth_append nal_ok_def rd_def)

lemma slice_header_nal:
  assumes "mem = pre @ nal_bytes n @ rest" "2 \<le> length (nal_payload n)"
  shows "rd mem (length pre + length (nal_pre n) + 1) = Some (nal_payload n ! 1)"
  using assms by (simp add: nal_bytes_def nth_append rd_def)

lemma nal_pre_pos: "\<exists>k. length (nal_pre n) = Suc k"
  by (simp add: nal_pre_length)

lemma h264_nal_type_nal:
  assumes "mem = pre @ nal_bytes n @ rest" "nal_ok n"
  shows "h264_nal_type mem (length pre) = Some (nal_type n)"
  using start_code_end_nal [OF assms(1)] header_nal [OF assms] nal_pre_pos [of n]
  by (auto simp: h264_nal_type_def nal_type_def)

lemma h264_nal_new_access_nal:
  assumes "mem = pre @ annexb ns @ post" "\<forall>n \<in> set ns. nal_ok n" "ende = length pre + length (annexb ns)"
  shows "h264_nal_new_access mem (length pre) ende = Some (picture_ends ns)"
proof (cases ns)
  case Nil
  then show ?thesis using assms by (simp add: h264_nal_new_access_def)
next
  case (Cons n ms)
  have n: "nal_ok n" "mem = pre @ nal_bytes n @ (annexb ms @ post)" using assms Cons by simp_all
  obtain k where k: "length (nal_pre n) = Suc k" using nal_pre_pos by blast
  have h: "start_code_end mem (length pre) = Some (length pre + k)" "rd mem (length pre + k + 1) = Some (hd (nal_payload n))"
    using start_code_end_nal [OF n(2)] header_nal [OF n(2,1)] k by simp_all
  have l: "\<not> ende - length pre < 4" using nal_bytes_length [OF n(1)] assms(3) Cons by simp
  have t: "nal_type n \<noteq> 0" using n(1) by (simp add: nal_ok_def)
  show ?thesis
  proof (cases "is_slice n")
    case True
    then have p: "2 \<le> length (nal_payload n)" using n(1) by (simp add: nal_ok_def is_slice_def)
    then have "length pre + k + 2 \<le> ende" using assms(3) Cons k by (simp add: nal_bytes_def)
    then show ?thesis using h l t True slice_header_nal [OF n(2) p] k
      by (simp add: h264_nal_new_access_def Let_def nal_type_def Cons is_slice_def)
  next
    case False
    then show ?thesis using h l by (simp add: h264_nal_new_access_def Let_def nal_type_def Cons is_slice_def)
  qed
qed

text \<open>From the start of a unit the search finds the next one, or the end.\<close>

lemma search_next_nal:
  assumes "mem = pre @ nal_bytes n @ annexb ns @ post" "nal_ok n" "\<forall>n \<in> set ns. nal_ok n"
    "ende = length pre + length (nal_bytes n) + length (annexb ns)"
  shows "search_start_code mem (length pre + 4) ende = Some (length pre + length (nal_bytes n))"
proof -
  have inside: "\<not> code_at mem k" if "length pre + 4 \<le> k" "k < length pre + length (nal_bytes n)" for k
    using no_code_inside [OF assms(2) _ that] assms(1) by blast
  have l: "ende \<le> length mem" using assms(1,4) by simp
  show ?thesis
  proof (cases ns)
    case Nil
    then show ?thesis using search_ends [OF l] inside assms(4) by simp
  next
    case (Cons m ms)
    have "mem = (pre @ nal_bytes n) @ nal_bytes m @ (annexb ms @ post)" using assms(1) Cons by simp
    then have c: "code_at mem (length (pre @ nal_bytes n))" by (rule code_at_nal)
    have "4 \<le> length (nal_bytes m)" using assms(3) Cons by (simp add: nal_bytes_length)
    then show ?thesis using search_finds [OF _ _ l, of "length pre + 4" "length pre + length (nal_bytes n)"] c inside
        nal_bytes_length [OF assms(2)] assms(4) Cons by simp
  qed
qed

lemma search_first_nal:
  assumes "mem = pre @ annexb ns @ post" "\<forall>n \<in> set ns. nal_ok n" "ende = length pre + length (annexb ns)"
  shows "search_start_code mem (length pre) ende = Some (length pre)"
proof (cases ns)
  case Nil
  then show ?thesis using assms by (subst search_start_code.simps) simp
next
  case (Cons m ms)
  have "mem = pre @ nal_bytes m @ (annexb ms @ post)" using assms(1) Cons by simp
  then have "code_at mem (length pre)" by (rule code_at_nal)
  moreover have "4 \<le> length (nal_bytes m)" using assms(2) Cons by (simp add: nal_bytes_length)
  ultimately show ?thesis using search_finds [of "length pre" "length pre" ende mem] assms Cons by simp
qed

section \<open>A file is cut into its access units\<close>

fun unit_frames :: "nat \<Rightarrow> nat \<Rightarrow> nat \<Rightarrow> nal list list \<Rightarrow> vframe list" where
  "unit_frames blk pos count [] = []"
| "unit_frames blk pos count (u # us) =
     \<lparr>fr_block = blk, fr_nalu = pos, fr_bytes = length (annexb u), fr_time = 40 * int count, fr_idr = (nal_type (last u) = 5)\<rparr> #
     unit_frames blk (pos + length (annexb u)) (count + 1) us"

text \<open>What a loop over a stream knows at the unit \<open>n\<close>.\<close>

lemma stream_step:
  assumes "mem = pre @ annexb cur @ annexb (n # ns) @ post" "\<forall>n \<in> set (n # ns). nal_ok n"
    "nalu = length pre" "p = nalu + length (annexb cur)" "ende = p + length (annexb (n # ns))"
  shows "p < ende" "search_start_code mem (p + 4) ende = Some (p + length (nal_bytes n))"
    "h264_nal_type mem p = Some (nal_type n)" "nal_type n \<noteq> 0" "p < p + length (nal_bytes n)"
    "h264_nal_new_access mem (p + length (nal_bytes n)) ende = Some (picture_ends ns)"
    "\<exists>c. rd mem (p + 2) = Some c" "p + length (nal_bytes n) - nalu = length (annexb (cur @ [n]))"
proof -
  have n: "nal_ok n" "\<forall>n \<in> set ns. nal_ok n" using assms(2) by simp_all
  have l: "4 \<le> length (nal_bytes n)" using n(1) by (rule nal_bytes_length)
  have e: "p = length (pre @ annexb cur)" "mem = (pre @ annexb cur) @ nal_bytes n @ annexb ns @ post"
    using assms(1,3,4) by simp_all
  have e2: "p + length (nal_bytes n) = length (pre @ annexb cur @ nal_bytes n)"
    "mem = (pre @ annexb cur @ nal_bytes n) @ annexb ns @ post"
    "ende = length (pre @ annexb cur @ nal_bytes n) + length (annexb ns)"
    using assms by simp_all
  show "p < ende" "p < p + length (nal_bytes n)" using l assms(5) by auto
  show "search_start_code mem (p + 4) ende = Some (p + length (nal_bytes n))"
    using search_next_nal [OF e(2) n, of ende] assms(5) e(1) by simp
  show "h264_nal_type mem p = Some (nal_type n)" using h264_nal_type_nal [OF e(2) n(1)] e(1) by simp
  show "nal_type n \<noteq> 0" using n(1) by (simp add: nal_ok_def)
  show "h264_nal_new_access mem (p + length (nal_bytes n)) ende = Some (picture_ends ns)"
    using h264_nal_new_access_nal [OF e2(2) n(2) e2(3)] e2(1) by (simp add: add.assoc)
  show "\<exists>c. rd mem (p + 2) = Some c" using l e by (simp add: rd_def)
  show "p + length (nal_bytes n) - nalu = length (annexb (cur @ [n]))" using assms(4) by simp
qed

lemma init_loop_units:
  assumes "mem = pre @ annexb cur @ annexb ns @ post" "\<forall>n \<in> set ns. nal_ok n"
    "nalu = length pre" "p = nalu + length (annexb cur)" "ende = p + length (annexb ns)"
  shows "\<exists>sps. init_loop blk mem ende nalu p count sp r =
    Some (count + length (access_units cur ns),
      (set_videos (m_videos r @ unit_frames blk nalu count (access_units cur ns)) r)\<lparr>m_sps := sps\<rparr>)"
  using assms
proof (induction ns arbitrary: cur pre nalu p count sp r)
  case Nil
  then show ?case by (subst init_loop.simps) (auto intro: exI [of _ "m_sps r"])
next
  case (Cons n ns)
  note st = stream_step [OF Cons.prems]
  let ?q = "p + length (nal_bytes n)"
  show ?case
  proof (cases "is_slice n \<and> picture_ends ns")
    case True
    let ?f = "\<lparr>fr_block = blk, fr_nalu = nalu, fr_bytes = length (annexb (cur @ [n])), fr_time = 40 * int count,
      fr_idr = (nal_type n = 5)\<rparr>"
    have "init_loop blk mem ende nalu p count sp r =
      init_loop blk mem ende ?q ?q (count + 1) (if m_sps r \<noteq> [] then False else sp) (set_videos (m_videos r @ [?f]) r)"
      using True st by (subst init_loop.simps) (simp add: Let_def is_slice_def)
    moreover have "mem = (pre @ annexb (cur @ [n])) @ annexb [] @ annexb ns @ post" using Cons.prems(1) by simp
    ultimately show ?thesis
      using Cons.IH [of "pre @ annexb (cur @ [n])" "[]" ?q ?q "count + 1" "if m_sps r \<noteq> [] then False else sp" "set_videos (m_videos r @ [?f]) r"]
        Cons.prems True by (auto simp: add.assoc)
  next
    case False
    obtain c where c: "rd mem (p + 2) = Some c" using st(7) by blast
    let ?r = "if is_params n \<and> sp then r\<lparr>m_sps := m_sps r @ [(blk, p + (if c = 1 then 3 else 4), length (annexb (cur @ [n])))]\<rparr> else r"
    have "init_loop blk mem ende nalu p count sp r = init_loop blk mem ende nalu ?q count sp ?r"
      using False st c by (subst init_loop.simps) (auto simp: Let_def is_slice_def is_params_def)
    moreover have "mem = pre @ annexb (cur @ [n]) @ annexb ns @ post" using Cons.prems(1) by simp
    ultimately show ?thesis using Cons.IH [of pre "cur @ [n]" nalu ?q count sp ?r] Cons.prems False by auto
  qed
qed

text \<open>What a frame shows: its bytes, its time and whether it is a key frame.\<close>

definition frame_bytes :: "h264_reader \<Rightarrow> vframe \<Rightarrow> bytes option" where
  "frame_bytes r f = do { mem \<leftarrow> h_heap r (fr_block f); slice mem (fr_nalu f) (fr_bytes f) }"

lemma slice_mid: "slice (a @ x @ b) (length a) (length x) = Some x"
  by (simp add: slice_def span_mid)

lemma unit_frames_shown:
  assumes "h_heap r blk = Some (pre @ annexb (concat us) @ post)"
  shows "map (\<lambda>f. (frame_bytes r f, fr_time f, fr_idr f)) (unit_frames blk (length pre) count us) =
    map (\<lambda>(i, u). (Some (annexb u), 40 * int i, nal_type (last u) = 5)) (enumerate count us)"
  using assms
proof (induction us arbitrary: pre count)
  case (Cons u us)
  have "h_heap r blk = Some ((pre @ annexb u) @ annexb (concat us) @ post)" using Cons.prems by simp
  from Cons.IH [OF this, of "count + 1"] show ?case
    using Cons.prems by (simp add: frame_bytes_def slice_mid)
qed simp

lemma unit_frames_lossless:
  "f \<in> set (unit_frames blk pos count us) \<Longrightarrow> fr_block f = blk \<and> fr_nalu f + fr_bytes f \<le> pos + length (annexb (concat us))"
  by (induction us arbitrary: pos count) fastforce+

text \<open>
  C25.  Opening a file of NAL units finds exactly its access units: each ends with a slice that the next
  unit does not continue, the frames show their bytes, in order, at 40 milliseconds each, and key frames
  are the units that end with an IDR slice.  Nothing else than what follows the last access unit is left
  out, and the reader stays inside the file.
\<close>

theorem h264_file_frames:
  assumes "\<forall>n \<in> set ns. nal_ok n"
  shows "\<exists>r. h264_new (Some (annexb ns)) junk frame flag = Some r \<and>
    map (\<lambda>f. (frame_bytes r f, fr_time f, fr_idr f)) (m_videos r) =
      map (\<lambda>(i, u). (Some (annexb u), 40 * int i, nal_type (last u) = 5)) (enumerate 0 (access_units [] ns)) \<and>
    concat (access_units [] ns) @ leftover [] ns = ns \<and> m_duration r = 40 * int (length (access_units [] ns))"
proof -
  let ?us = "access_units [] ns" and ?mem = "annexb ns"
  have f: "search_start_code ?mem 0 (length ?mem) = Some 0"
    using search_first_nal [of ?mem "[]" ns "[]" "length ?mem"] assms by simp
  note l = init_loop_units [of ?mem "[]" "[]" ns "[]" 0 0 "length ?mem" 0 0 True, OF _ assms, simplified]
  have m: "?mem = annexb (concat ?us) @ annexb (leftover [] ns)"
    using arg_cong [OF units_partition [of "[]" ns], of annexb] by simp
  have view: "map (\<lambda>f. (frame_bytes r f, fr_time f, fr_idr f)) (unit_frames 0 0 0 ?us) =
      map (\<lambda>(i, u). (Some (annexb u), 40 * int i, nal_type (last u) = 5)) (enumerate 0 ?us)" if "h_heap r 0 = Some ?mem" for r
    using unit_frames_shown [of r 0 "[]" ?us "annexb (leftover [] ns)" 0] that m by simp
  define r0 where "r0 = \<lparr>h_ring = \<lparr>mVector = [], cacheQueue = [], MAX_SIZE = 128, writeI = 0, readI = 0\<rparr>,
    m_vit = 0, spspps2 = flag, m_sps = [], m_duration = 0, m_ptr = Some 0, bm_ptr = None, m_capacity = length ?mem,
    h_rPos = 0, h_wPos = 0, frPos = 0, fwPos = 0, oneFrame = (0, 0), oneFrameSize = 0,
    h_heap = (\<lambda>_. None)(0 \<mapsto> ?mem), h_next = 1\<rparr>"
  obtain sps where i: "init_loop 0 ?mem (length ?mem) 0 0 0 True r0 =
      Some (length ?us, (set_videos (m_videos r0 @ unit_frames 0 0 0 ?us) r0)\<lparr>m_sps := sps\<rparr>)"
    using l by blast
  have "h264_new (Some ?mem) junk frame flag =
      do { r \<leftarrow> h264_Init r0; Some (r\<lparr>h_rPos := 0, h_wPos := 0, frPos := 0, fwPos := 0, m_vit := 0\<rparr>) }"
    by (simp add: h264_new_def h_malloc_def r0_def Let_def)
  moreover have "h264_Init r0 = Some ((set_videos (unit_frames 0 0 0 ?us) r0)\<lparr>m_sps := sps, m_duration := 40 * int (length ?us)\<rparr>)"
    using f i by (simp add: h264_Init_def r0_def)
  ultimately show ?thesis using view units_partition [of "[]" ns] by (simp add: r0_def)
qed

section \<open>Live input\<close>

lemma init2_loop_units:
  assumes "mem = pre @ annexb cur @ annexb ns @ post" "\<forall>n \<in> set ns. nal_ok n"
    "nalu = length pre" "p = nalu + length (annexb cur)" "ende = p + length (annexb ns)"
    "ulq_rep (h_ring r) fs" "fwPos r = 0"
  shows "\<exists>q sps s2. init2_loop blk mem ende nalu p count r =
    Some (count + length (access_units cur ns),
      r\<lparr>h_ring := q, h_rPos := h_rPos r + length (annexb (concat (access_units cur ns))), m_sps := sps, spspps2 := s2\<rparr>) \<and>
    ulq_rep q (fs @ unit_frames blk nalu count (access_units cur ns))"
  using assms
proof (induction ns arbitrary: cur pre nalu p count r fs)
  case Nil
  then show ?case by (subst init2_loop.simps) (auto intro!: exI [of _ "h_ring r"] exI [of _ "m_sps r"] exI [of _ "spspps2 r"])
next
  case (Cons n ns)
  note st = stream_step [OF Cons.prems(1-5)]
  let ?q = "p + length (nal_bytes n)" and ?l = "length (annexb (cur @ [n]))"
  show ?case
  proof (cases "is_slice n \<and> picture_ends ns")
    case True
    let ?f = "\<lparr>fr_block = blk, fr_nalu = nalu, fr_bytes = ?l, fr_time = 40 * int count, fr_idr = (nal_type n = 5)\<rparr>"
    obtain q where q: "h264_push ?f (h_ring r) = Some q" "ulq_rep q (fs @ [?f])" using h264_push_law [OF Cons.prems(6)] by blast
    define r1 where "r1 = (if m_sps r \<noteq> [] then r\<lparr>spspps2 := False\<rparr> else r)\<lparr>h_ring := q, h_rPos := h_rPos r + ?l\<rparr>"
    have r1: "h_ring r1 = q" "fwPos r1 = 0" "h_rPos r1 = h_rPos r + ?l"
      "r1\<lparr>h_ring := q', h_rPos := x, m_sps := sps, spspps2 := s2\<rparr> = r\<lparr>h_ring := q', h_rPos := x, m_sps := sps, spspps2 := s2\<rparr>" for q' x sps s2
      using Cons.prems(7) by (simp_all add: r1_def)
    have s: "init2_loop blk mem ende nalu p count r = init2_loop blk mem ende ?q ?q (count + 1) r1"
      using True st q(1) Cons.prems(7) by (subst init2_loop.simps) (simp add: Let_def is_slice_def r1_def h264_emit_def h264_advance_def)
    have m: "mem = (pre @ annexb (cur @ [n])) @ annexb [] @ annexb ns @ post" using Cons.prems(1) by simp
    have ok: "\<forall>n \<in> set ns. nal_ok n" using Cons.prems(2) by simp
    have "?q = length (pre @ annexb (cur @ [n]))" "?q = ?q + length (annexb [])" "ende = ?q + length (annexb ns)"
      "ulq_rep (h_ring r1) (fs @ [?f])" using Cons.prems(3-5) q(2) r1(1) by simp_all
    from Cons.IH [OF m ok this r1(2), of "count + 1"]
    obtain q' sps s2 where "init2_loop blk mem ende ?q ?q (count + 1) r1 = Some (count + 1 + length (access_units [] ns),
        r\<lparr>h_ring := q', h_rPos := h_rPos r + ?l + length (annexb (concat (access_units [] ns))), m_sps := sps, spspps2 := s2\<rparr>)"
      "ulq_rep q' ((fs @ [?f]) @ unit_frames blk ?q (count + 1) (access_units [] ns))" unfolding r1 by blast
    then show ?thesis using s True Cons.prems(4)
      by (intro exI [of _ q'] exI [of _ sps] exI [of _ s2]) (simp add: add.assoc)
  next
    case False
    obtain c where c: "rd mem (p + 2) = Some c" using st(7) by blast
    define r1 where "r1 = (if is_params n \<and> spspps2 r then r\<lparr>m_sps := m_sps r @ [(blk, p + (if c = 1 then 3 else 4), ?l)]\<rparr> else r)"
    have r1: "h_ring r1 = h_ring r" "fwPos r1 = 0" "h_rPos r1 = h_rPos r"
      "r1\<lparr>h_ring := q', h_rPos := x, m_sps := sps, spspps2 := s2\<rparr> = r\<lparr>h_ring := q', h_rPos := x, m_sps := sps, spspps2 := s2\<rparr>" for q' x sps s2
      using Cons.prems(7) by (simp_all add: r1_def)
    have s: "init2_loop blk mem ende nalu p count r = init2_loop blk mem ende nalu ?q count r1"
      using False st c by (subst init2_loop.simps) (auto simp: Let_def is_slice_def is_params_def r1_def)
    have m: "mem = pre @ annexb (cur @ [n]) @ annexb ns @ post" using Cons.prems(1) by simp
    have ok: "\<forall>n \<in> set ns. nal_ok n" using Cons.prems(2) by simp
    have "?q = nalu + length (annexb (cur @ [n]))" "ende = ?q + length (annexb ns)" "ulq_rep (h_ring r1) fs"
      using Cons.prems(4-6) r1(1) by simp_all
    from Cons.IH [OF m ok Cons.prems(3) this r1(2), of count]
    obtain q' sps s2 where "init2_loop blk mem ende nalu ?q count r1 = Some (count + length (access_units (cur @ [n]) ns),
        r\<lparr>h_ring := q', h_rPos := h_rPos r + length (annexb (concat (access_units (cur @ [n]) ns))), m_sps := sps, spspps2 := s2\<rparr>)"
      "ulq_rep q' (fs @ unit_frames blk nalu count (access_units (cur @ [n]) ns))" unfolding r1 by blast
    then show ?thesis using s False by (intro exI [of _ q'] exI [of _ sps] exI [of _ s2]) auto
  qed
qed

lemma h264_Init2_units:
  assumes "h_heap r blk = Some (pre @ annexb ns @ post)" "\<forall>n \<in> set ns. nal_ok n" "oneFrame r = (blk, length pre)"
    "oneFrameSize r = length (annexb ns)" "ulq_rep (h_ring r) fs" "fwPos r = 0"
  shows "\<exists>q sps s2 d. h264_Init2 r =
      Some (r\<lparr>h_ring := q, h_rPos := h_rPos r + length (annexb (concat (access_units [] ns))), m_sps := sps, spspps2 := s2, m_duration := d\<rparr>) \<and>
    ulq_rep q (fs @ unit_frames blk (length pre) 0 (access_units [] ns))"
proof -
  let ?mem = "pre @ annexb ns @ post" and ?e = "length pre + length (annexb ns)"
  have f: "search_start_code ?mem (length pre) ?e = Some (length pre)" using search_first_nal [OF refl assms(2) refl] .
  have m: "?mem = pre @ annexb [] @ annexb ns @ post" by simp
  obtain q sps s2 where "init2_loop blk ?mem ?e (length pre) (length pre) 0 r = Some (0 + length (access_units [] ns),
      r\<lparr>h_ring := q, h_rPos := h_rPos r + length (annexb (concat (access_units [] ns))), m_sps := sps, spspps2 := s2\<rparr>)"
    "ulq_rep q (fs @ unit_frames blk (length pre) 0 (access_units [] ns))"
    using init2_loop_units [OF m assms(2) refl _ refl assms(5,6), of "length pre" blk 0] by auto
  then show ?thesis using f assms(1,3,4)
    by (intro exI [of _ q] exI [of _ sps] exI [of _ s2]) (auto simp: h264_Init2_def)
qed

text \<open>
  What holds between two calls: behind the frames that were cut off, the buffer holds the units that
  wait for their picture to end, and the frames of the ring lie before them.
\<close>

definition live_inv :: "h264_reader \<Rightarrow> nat \<Rightarrow> nal list \<Rightarrow> vframe list \<Rightarrow> bool" where
  "live_inv r b pend fs \<longleftrightarrow> m_ptr r = Some b \<and> fwPos r = 0 \<and> (\<forall>n \<in> set pend. nal_ok n) \<and> ulq_rep (h_ring r) fs \<and>
     (\<exists>old rest. h_heap r b = Some (old @ annexb pend @ rest) \<and> h_rPos r = length old \<and>
        h_wPos r = length (old @ annexb pend) \<and> length (old @ annexb pend @ rest) = m_capacity r \<and>
        (\<forall>f \<in> set fs. fr_block f = b \<and> fr_nalu f + fr_bytes f \<le> length old))"

lemma live_invI:
  assumes "m_ptr r = Some b" "fwPos r = 0" "\<forall>n \<in> set pend. nal_ok n" "ulq_rep (h_ring r) fs"
    "h_heap r b = Some (old @ annexb pend @ rest)" "h_rPos r = length old" "h_wPos r = length (old @ annexb pend)"
    "length (old @ annexb pend @ rest) = m_capacity r" "\<forall>f \<in> set fs. fr_block f = b \<and> fr_nalu f + fr_bytes f \<le> length old"
  shows "live_inv r b pend fs"
  unfolding live_inv_def using assms by blast

definition shown :: "h264_reader \<Rightarrow> vframe \<Rightarrow> bytes option \<times> bool" where
  "shown r f = (frame_bytes r f, fr_idr f)"

definition unit_shown :: "nal list \<Rightarrow> bytes option \<times> bool" where
  "unit_shown u = (Some (annexb u), nal_type (last u) = 5)"

lemma frame_bytes_prefix:
  assumes "h_heap r b = Some (old @ x)" "h_heap r' b = Some (old @ y)" "fr_block f = b" "fr_nalu f + fr_bytes f \<le> length old"
  shows "frame_bytes r f = frame_bytes r' f"
  using assms by (simp add: frame_bytes_def slice_def span_def)

lemma unit_frames_units:
  assumes "h_heap r blk = Some (pre @ annexb (concat us) @ post)"
  shows "map (shown r) (unit_frames blk (length pre) count us) = map unit_shown us"
  using assms
proof (induction us arbitrary: pre count)
  case (Cons u us)
  have "h_heap r blk = Some ((pre @ annexb u) @ annexb (concat us) @ post)" using Cons.prems by simp
  from Cons.IH [OF this, of "count + 1"] show ?case
    using Cons.prems by (simp add: shown_def unit_shown_def frame_bytes_def slice_mid)
qed simp

lemma h264_store_inv:
  assumes "live_inv r b pend fs" "\<forall>n \<in> set c. nal_ok n" "h_wPos r + length (annexb c) \<le> m_capacity r"
  shows "\<exists>r'. h264_store (annexb c) r = Some r' \<and> live_inv r' b (pend @ c) fs \<and> map (shown r') fs = map (shown r) fs \<and>
    h_wPos r' = h_wPos r + length (annexb c) \<and> m_capacity r' = m_capacity r"
proof -
  obtain old rest where i: "m_ptr r = Some b" "fwPos r = 0" "\<forall>n \<in> set pend. nal_ok n" "ulq_rep (h_ring r) fs"
    "h_heap r b = Some (old @ annexb pend @ rest)" "h_rPos r = length old" "h_wPos r = length (old @ annexb pend)"
    "length (old @ annexb pend @ rest) = m_capacity r" "\<forall>f \<in> set fs. fr_block f = b \<and> fr_nalu f + fr_bytes f \<le> length old"
    using assms(1) by (auto simp: live_inv_def)
  define rest' where "rest' = drop (length (annexb c)) rest"
  let ?mem = "old @ annexb pend @ annexb c @ rest'"
  have l: "length (annexb c) \<le> length rest" using assms(3) i(7,8) by simp
  have "blit (old @ annexb pend @ rest) (h_wPos r) (annexb c) = Some ?mem"
    using l i(7) by (simp add: blit_def rest'_def)
  then have s: "h264_store (annexb c) r = Some (r\<lparr>h_heap := (h_heap r)(b \<mapsto> ?mem), h_wPos := h_wPos r + length (annexb c)\<rparr>)" (is "_ = Some ?r")
    using i(1,5) by (simp add: h264_store_def)
  have "live_inv ?r b (pend @ c) fs"
    using i(1-4,6-9) assms(2) l by (intro live_invI [of _ _ _ _ old rest']) (auto simp: rest'_def)
  moreover have "shown ?r f = shown r f" if "f \<in> set fs" for f
    using frame_bytes_prefix [of r b old _ ?r _ f] i(5,9) that by (simp add: shown_def)
  ultimately show ?thesis using s by simp
qed

lemma h264_Input_inv:
  assumes "live_inv r b pend fs" "c \<noteq> []" "\<forall>n \<in> set c. nal_ok n" "h_wPos r + length (annexb c) \<le> m_capacity r"
  shows "\<exists>r' fs'. h264_Input junk (annexb c) r = Some r' \<and>
    live_inv r' b (if is_params (hd c) then pend @ c else leftover [] (pend @ c)) fs' \<and>
    map (shown r') fs' = map (shown r) fs @ (if is_params (hd c) then [] else map unit_shown (access_units [] (pend @ c))) \<and>
    h_wPos r' = h_wPos r + length (annexb c) \<and> m_capacity r' = m_capacity r"
proof -
  obtain n ms where c: "c = n # ms" "nal_ok n" using assms(2,3) by (cases c) auto
  have t: "h264_nal_type (annexb c) 0 = Some (nal_type n)" using h264_nal_type_nal [of "annexb c" "[]" n "annexb ms"] c by simp
  obtain r1 where s: "h264_store (annexb c) r = Some r1" "live_inv r1 b (pend @ c) fs" "map (shown r1) fs = map (shown r) fs"
    "h_wPos r1 = h_wPos r + length (annexb c)" "m_capacity r1 = m_capacity r"
    using h264_store_inv [OF assms(1,3,4)] by blast
  have fits: "length (annexb c) \<le> m_capacity r - h_wPos r" using assms(4) by simp
  show ?thesis
  proof (cases "is_params n")
    case True
    then have "h264_Input junk (annexb c) r = Some r1"
      using fits t s(1) by (subst h264_Input.simps) (simp add: h264_take_def is_params_def)
    then show ?thesis using s c(1) True by auto
  next
    case False
    let ?ns = "pend @ c" and ?us = "access_units [] (pend @ c)" and ?left = "leftover [] (pend @ c)"
    obtain old rest where i: "m_ptr r1 = Some b" "fwPos r1 = 0" "\<forall>n \<in> set ?ns. nal_ok n" "ulq_rep (h_ring r1) fs"
      "h_heap r1 b = Some (old @ annexb ?ns @ rest)" "h_rPos r1 = length old" "h_wPos r1 = length (old @ annexb ?ns)"
      "length (old @ annexb ?ns @ rest) = m_capacity r1" "\<forall>f \<in> set fs. fr_block f = b \<and> fr_nalu f + fr_bytes f \<le> length old"
      using s(2) unfolding live_inv_def by blast
    define r2 where "r2 = r1\<lparr>oneFrame := (b, length old), oneFrameSize := length (annexb ?ns)\<rparr>"
    have r2: "h_heap r2 = h_heap r1" "oneFrame r2 = (b, length old)" "oneFrameSize r2 = length (annexb ?ns)"
      "h_ring r2 = h_ring r1" "fwPos r2 = fwPos r1" "h_rPos r2 = h_rPos r1" by (simp_all add: r2_def)
    have "h264_Input junk (annexb c) r = h264_Init2 r2"
      using fits t s(1) i(1,2,6,7) False by (subst h264_Input.simps) (simp add: h264_take_def is_params_def r2_def)
    moreover obtain q sps s2 d where I: "h264_Init2 r2 = Some (r2\<lparr>h_ring := q, h_rPos := length old + length (annexb (concat ?us)),
        m_sps := sps, spspps2 := s2, m_duration := d\<rparr>)" (is "_ = Some ?r3")
      "ulq_rep q (fs @ unit_frames b (length old) 0 ?us)"
      using h264_Init2_units [of r2 b old ?ns rest fs] i r2 by auto
    have u: "annexb ?ns = annexb (concat ?us) @ annexb ?left" using arg_cong [OF units_partition [of "[]" ?ns], of annexb] by simp
    have ul: "length (annexb pend) + length (annexb c) = length (annexb (concat ?us)) + length (annexb ?left)"
      using arg_cong [OF u, of length] by simp
    have h3: "h_heap ?r3 b = Some (old @ annexb (concat ?us) @ annexb ?left @ rest)" using i(5) r2(1) u by simp
    have left: "\<forall>n \<in> set ?left. nal_ok n" using i(3) units_partition [of "[]" ?ns] by (metis Un_iff append_Nil set_append)
    have "live_inv ?r3 b ?left (fs @ unit_frames b (length old) 0 ?us)"
      using h3 left I(2) i(1,2,6-9) ul unit_frames_lossless [of _ b "length old" 0 ?us]
      by (intro live_invI [of _ _ _ _ "old @ annexb (concat ?us)" rest]) (auto simp: r2_def)
    moreover have "map (shown ?r3) fs = map (shown r1) fs"
      using frame_bytes_prefix [of ?r3 b old _ r1, OF h3 i(5)] i(9) by (simp add: shown_def)
    moreover have "map (shown ?r3) (unit_frames b (length old) 0 ?us) = map unit_shown ?us"
      using unit_frames_units [OF h3] .
    ultimately show ?thesis using I(1) s(3-5) c(1) False
      by (intro exI [of _ ?r3] exI [of _ "fs @ unit_frames b (length old) 0 ?us"]) (simp add: r2_def)
  qed
qed

text \<open>A run of the network thread, which inputs buffers, and of the sender, which takes frames: what the taken frames showed.\<close>

fun live_run :: "(nat \<Rightarrow> u8) \<Rightarrow> nal list queue_op list \<Rightarrow> h264_reader \<Rightarrow> ((bytes option \<times> bool) list \<times> h264_reader) option" where
  "live_run junk [] r = Some ([], r)"
| "live_run junk (Push c # ops) r = do { r \<leftarrow> h264_Input junk (annexb c) r; live_run junk ops r }"
| "live_run junk (Pop # ops) r = do {
     (f, r) \<leftarrow> h264_GetNextFrameEx r;
     (got, r') \<leftarrow> live_run junk ops r;
     Some ((case f of None \<Rightarrow> got | Some f \<Rightarrow> shown r f # got), r') }"

text \<open>
  The frames that buffers of units amount to: a buffer that begins with a parameter set waits for the next one;
  any other is cut together with what waited, and its end is the end of a picture.
\<close>

fun live_units :: "nal list \<Rightarrow> nal list list \<Rightarrow> nal list list" where
  "live_units pend [] = []"
| "live_units pend (c # cs) =
     (if is_params (hd c) then live_units (pend @ c) cs
      else access_units [] (pend @ c) @ live_units (leftover [] (pend @ c)) cs)"

lemma live_Pop_inv:
  assumes "live_inv r b pend fs"
  shows "\<exists>f q fs'. h264_GetNextFrameEx r = Some (f, r\<lparr>h_ring := q\<rparr>) \<and> live_inv (r\<lparr>h_ring := q\<rparr>) b pend fs' \<and>
    fs = (case f of None \<Rightarrow> fs' | Some x \<Rightarrow> x # fs')"
proof -
  obtain f q fs' where q: "ulq_GetNext (h_ring r) = Some (f, q)" "ulq_rep q fs'" "fs = (case f of None \<Rightarrow> fs' | Some x \<Rightarrow> x # fs')"
    using ulq_pop_law [of "h_ring r" fs] assms by (auto simp: live_inv_def)
  have "set fs' \<subseteq> set fs" using q(3) by (cases f) auto
  then have "live_inv (r\<lparr>h_ring := q\<rparr>) b pend fs'" using assms q(2) unfolding live_inv_def by fastforce
  then show ?thesis using q by (auto simp: h264_GetNextFrameEx_def)
qed

lemma live_run_units:
  assumes "live_inv r b pend fs" "\<forall>c \<in> set (h264q.pushed ops). c \<noteq> [] \<and> (\<forall>n \<in> set c. nal_ok n)"
    "h_wPos r + length (annexb (concat (h264q.pushed ops))) \<le> m_capacity r"
  shows "\<exists>got r' pend' fs'. live_run junk ops r = Some (got, r') \<and> live_inv r' b pend' fs' \<and>
    got @ map (shown r') fs' = map (shown r) fs @ map unit_shown (live_units pend (h264q.pushed ops))"
  using assms
proof (induction junk ops r arbitrary: pend fs rule: live_run.induct)
  case (1 junk r)
  then show ?case by (intro exI [of _ "[]"] exI [of _ r] exI [of _ pend] exI [of _ fs]) simp
next
  case (2 junk c ops r)
  let ?pend = "if is_params (hd c) then pend @ c else leftover [] (pend @ c)"
  have c: "c \<noteq> []" "\<forall>n \<in> set c. nal_ok n" "h_wPos r + length (annexb c) \<le> m_capacity r" using "2.prems"(2,3) by auto
  obtain r1 fs1 where s: "h264_Input junk (annexb c) r = Some r1" "live_inv r1 b ?pend fs1"
    "map (shown r1) fs1 = map (shown r) fs @ (if is_params (hd c) then [] else map unit_shown (access_units [] (pend @ c)))"
    "h_wPos r1 = h_wPos r + length (annexb c)" "m_capacity r1 = m_capacity r"
    using h264_Input_inv [OF "2.prems"(1) c] by blast
  have "\<forall>c \<in> set (h264q.pushed ops). c \<noteq> [] \<and> (\<forall>n \<in> set c. nal_ok n)" using "2.prems"(2) by simp
  from "2.IH" [OF s(1,2) this] s(4,5) "2.prems"(3)
  obtain got r' pend' fs' where "live_run junk ops r1 = Some (got, r')" "live_inv r' b pend' fs'"
    "got @ map (shown r') fs' = map (shown r1) fs1 @ map unit_shown (live_units ?pend (h264q.pushed ops))" by auto
  then show ?case using s(1,3)
    by (intro exI [of _ got] exI [of _ r'] exI [of _ pend'] exI [of _ fs']) auto
next
  case (3 junk ops r)
  obtain f q fs1 where s: "h264_GetNextFrameEx r = Some (f, r\<lparr>h_ring := q\<rparr>)" "live_inv (r\<lparr>h_ring := q\<rparr>) b pend fs1"
    "fs = (case f of None \<Rightarrow> fs1 | Some x \<Rightarrow> x # fs1)" using live_Pop_inv [OF "3.prems"(1)] by blast
  have "shown (r\<lparr>h_ring := q\<rparr>) = shown r" by (simp add: shown_def fun_eq_iff frame_bytes_def)
  moreover obtain got r' pend' fs' where "live_run junk ops (r\<lparr>h_ring := q\<rparr>) = Some (got, r')" "live_inv r' b pend' fs'"
    "got @ map (shown r') fs' = map (shown (r\<lparr>h_ring := q\<rparr>)) fs1 @ map unit_shown (live_units pend (h264q.pushed ops))"
    using "3.IH" [OF s(1) refl s(2)] "3.prems"(2,3) by auto
  ultimately show ?case using s(1,3)
    by (intro exI [of _ "case f of None \<Rightarrow> got | Some f \<Rightarrow> shown r f # got"] exI [of _ r'] exI [of _ pend'] exI [of _ fs']) (cases f; simp)
qed

lemma live_start:
  "\<exists>r. h264_new None junk frame flag = Some r \<and> live_inv r 0 [] [] \<and> h_wPos r = 0 \<and> m_capacity r = live_capacity"
proof -
  let ?r = "\<lparr>h_ring = \<lparr>mVector = replicate 128 frame, cacheQueue = [], MAX_SIZE = 128, writeI = 0, readI = 0\<rparr>,
    m_vit = 0, spspps2 = True, m_sps = [], m_duration = 0, m_ptr = Some 0, bm_ptr = None, m_capacity = live_capacity,
    h_rPos = 0, h_wPos = 0, frPos = 0, fwPos = 0, oneFrame = (0, 0), oneFrameSize = 0,
    h_heap = (\<lambda>_. None)(0 \<mapsto> map junk [0..<live_capacity]), h_next = 1\<rparr>"
  have "h264_new None junk frame flag = Some ?r" by (simp add: h264_new_def h_malloc_def Let_def)
  moreover have "ulq_rep (h_ring ?r) []" by (simp add: ulq_rep_def ulq_wf_def frames_def frames_len_def)
  then have "live_inv ?r 0 [] []" by (intro live_invI [of _ _ _ _ "[]"]) auto
  ultimately show ?thesis by auto
qed


definition no_frame :: vframe where
  "no_frame = \<lparr>fr_block = 0, fr_nalu = 0, fr_bytes = 0, fr_time = 0, fr_idr = False\<rparr>"


theorem h264_file_frames_witness:
  "let sps = \<lparr>nal_long = True, nal_payload = [0x67, 0x42, 1]\<rparr>; idr = \<lparr>nal_long = True, nal_payload = [0x65, 0x88, 0x84]\<rparr>;
       p1 = \<lparr>nal_long = False, nal_payload = [0x41, 0x9A, 7]\<rparr>; p2 = \<lparr>nal_long = False, nal_payload = [0x41, 0x1A, 8]\<rparr>
   in \<exists>r. h264_new (Some (annexb [sps, idr, p1, p2])) (\<lambda>_. 0) no_frame False = Some r \<and>
     map (\<lambda>f. (frame_bytes r f, fr_time f, fr_idr f)) (m_videos r) =
       [(Some (annexb [sps, idr]), 0, True), (Some (annexb [p1, p2]), 40, False)] \<and> m_duration r = 80"
  unfolding Let_def
  using h264_file_frames [of "[\<lparr>nal_long = True, nal_payload = [0x67, 0x42, 1]\<rparr>, \<lparr>nal_long = True, nal_payload = [0x65, 0x88, 0x84]\<rparr>,
      \<lparr>nal_long = False, nal_payload = [0x41, 0x9A, 7]\<rparr>, \<lparr>nal_long = False, nal_payload = [0x41, 0x1A, 8]\<rparr>]" "\<lambda>_. 0" no_frame False]
  by (simp add: nal_ok_def nal_type_def is_params_def is_slice_def del: annexb_simps)

section \<open>Seeking\<close>

lemma seek_back_spec:
  "seek_back vs i = (if \<exists>k. 0 < k \<and> k \<le> i \<and> fr_idr (vs ! k) then Some (GREATEST k. 0 < k \<and> k \<le> i \<and> fr_idr (vs ! k)) else None)"
proof (induction i)
  case (Suc i)
  show ?case
  proof (cases "fr_idr (vs ! Suc i)")
    case True
    then have "(GREATEST k. 0 < k \<and> k \<le> Suc i \<and> fr_idr (vs ! k)) = Suc i" by (intro Greatest_equality) auto
    then show ?thesis using True by auto
  next
    case False
    then have "(0 < k \<and> k \<le> Suc i \<and> fr_idr (vs ! k)) \<longleftrightarrow> (0 < k \<and> k \<le> i \<and> fr_idr (vs ! k))" for k using le_Suc_eq by auto
    then show ?thesis using Suc False by (simp only: seek_back.simps if_False)
  qed
qed simp

text \<open>A seek to the first frame, although it is the first key frame, leaves the position where it was.\<close>

lemma h264_Seek_first: "m_videos r = f # fs \<Longrightarrow> dts \<le> fr_time f \<Longrightarrow> h264_Seek dts r = (0, r)"
  by (simp add: h264_Seek_def lower_bound_def Let_def)

section \<open>Where the code fails\<close>

text \<open>\<open>GetNextFrame\<close> takes a frame off each end: of two frames the second is lost, and after a single one it reads past the end.\<close>

lemma h264_GetNextFrame_loses:
  assumes "m_vit r = 0" "m_videos r = [f, g]"
  shows "\<exists>r1. h264_GetNextFrame r = Some (Some f, r1) \<and> h264_GetNextFrame r1 = Some (None, r1)"
  using assms by (simp add: h264_GetNextFrame_def)

lemma h264_GetNextFrame_overruns:
  assumes "m_vit r = 0" "m_videos r = [f]"
  shows "\<exists>r1. h264_GetNextFrame r = Some (Some f, r1) \<and> h264_GetNextFrame r1 = None"
  using assms by (simp add: h264_GetNextFrame_def rd_def)

lemma h264_nal_type_reads: "h264_nal_type mem p = Some t \<Longrightarrow> \<exists>c. rd mem (p + 2) = Some c"
  by (auto simp: h264_nal_type_def start_code_end_def Let_def bind_eq_Some_conv split: if_splits)

lemma init2_loop_step:
  assumes "init2_loop blk mem ende nalu p count r = Some (n, r')"
  shows "r' = r \<or> (\<exists>nalu' q count' r1. p < q \<and> p < ende \<and> init2_loop blk mem ende nalu' q count' r1 = Some (n, r') \<and>
    m_ptr r1 = m_ptr r \<and> bm_ptr r1 = bm_ptr r \<and> m_capacity r1 = m_capacity r)"
proof (cases "p < ende")
  case True
  then obtain pn t new where t: "search_start_code mem (p + 4) ende = Some pn" "h264_nal_type mem p = Some t" "t \<noteq> 0"
      "(if t \<le> 5 then h264_nal_new_access mem pn ende else Some False) = Some new" "p < pn"
    using assms by (subst (asm) init2_loop.simps) (auto simp: Let_def bind_eq_Some_conv split: if_splits)
  consider "t \<le> 5 \<and> new" | "\<not> (t \<le> 5 \<and> new)" "t = 7 \<or> t = 8" | "\<not> (t \<le> 5 \<and> new)" "\<not> (t = 7 \<or> t = 8)" by blast
  then show ?thesis
  proof cases
    case 1
    let ?f = "\<lparr>fr_block = blk, fr_nalu = nalu, fr_bytes = pn - nalu, fr_time = 40 * int count, fr_idr = (t = 5)\<rparr>"
    have "init2_loop blk mem ende nalu p count r = do { r \<leftarrow> h264_emit ?f r; init2_loop blk mem ende pn pn (count + 1) r }"
      using True t 1 by (subst init2_loop.simps) (simp add: Let_def)
    with assms obtain r1 where e: "h264_emit ?f r = Some r1" "init2_loop blk mem ende pn pn (count + 1) r1 = Some (n, r')"
      by (cases "h264_emit ?f r") auto
    moreover have "m_ptr r1 = m_ptr r" "bm_ptr r1 = bm_ptr r" "m_capacity r1 = m_capacity r"
      using e(1) by (auto simp: h264_emit_def h264_advance_def Let_def bind_eq_Some_conv)
    ultimately show ?thesis using t(5) True by blast
  next
    case 2
    obtain c where c: "rd mem (p + 2) = Some c" using h264_nal_type_reads [OF t(2)] by blast
    let ?r1 = "if spspps2 r then r\<lparr>m_sps := m_sps r @ [(blk, p + (if c = 1 then 3 else 4), pn - nalu)]\<rparr> else r"
    have "init2_loop blk mem ende nalu pn count ?r1 = Some (n, r')"
      using assms True t 2 c by (subst (asm) init2_loop.simps) (auto simp: Let_def)
    moreover have "m_ptr ?r1 = m_ptr r" "bm_ptr ?r1 = bm_ptr r" "m_capacity ?r1 = m_capacity r" by simp_all
    ultimately show ?thesis using t(5) True by blast
  next
    case 3
    then have "init2_loop blk mem ende nalu pn count r = Some (n, r')"
      using assms True t by (subst (asm) init2_loop.simps) (auto simp: Let_def)
    then show ?thesis using t(5) True by blast
  qed
next
  case False
  then show ?thesis using assms by (subst (asm) init2_loop.simps) auto
qed

lemma init2_loop_ptrs:
  "init2_loop blk mem ende nalu p count r = Some (n, r') \<Longrightarrow> m_ptr r' = m_ptr r \<and> bm_ptr r' = bm_ptr r \<and> m_capacity r' = m_capacity r"
proof (induction "ende - p" arbitrary: nalu p count r rule: less_induct)
  case less
  then show ?case using init2_loop_step [OF less.prems] by (metis diff_less_mono2)
qed

lemma h264_Init2_ptrs:
  "h264_Init2 r = Some r' \<Longrightarrow> m_ptr r' = m_ptr r \<and> bm_ptr r' = bm_ptr r \<and> m_capacity r' = m_capacity r"
  by (cases "oneFrame r") (auto simp: h264_Init2_def Let_def bind_eq_Some_conv dest!: init2_loop_ptrs)

lemma h264_take_ptrs:
  assumes "h264_take data r = Some r'"
  shows "m_ptr r' = m_ptr r \<and> bm_ptr r' = bm_ptr r \<and> m_capacity r' = m_capacity r"
proof -
  obtain r1 where r1: "h264_store data r = Some r1"
    "r' = r1 \<or> (\<exists>f n. h264_Init2 (r1\<lparr>oneFrame := f, oneFrameSize := n\<rparr>) = Some r')"
    using assms unfolding h264_take_def
    by (cases "h264_nal_type data 0"; cases "h264_store data r")
      (simp_all add: bind_eq_Some_conv split: if_splits, blast+)
  have "m_ptr r1 = m_ptr r" "bm_ptr r1 = bm_ptr r" "m_capacity r1 = m_capacity r"
    using r1(1) by (auto simp: h264_store_def bind_eq_Some_conv)
  then show ?thesis using r1(2) by (auto dest!: h264_Init2_ptrs)
qed

text \<open>
  The first change of buffers takes no new memory (the test of \<open>tmpe\<close> is the wrong way round): both pointers
  are the old block, live input overwrites frames that wait there, and the destructor frees it twice.
\<close>

lemma h264_first_change:
  assumes "m_capacity r - h_wPos r < length data" "length data \<le> m_capacity r" "m_ptr r = Some b" "bm_ptr r = None"
    "h264_Input junk data r = Some r'"
  shows "m_ptr r' = Some b" "bm_ptr r' = Some b" "h264_delete r' = None"
proof -
  let ?r = "r\<lparr>frPos := h_rPos r, fwPos := h_wPos r, h_wPos := 0, h_rPos := 0, bm_ptr := Some b\<rparr>"
  have "h264_switch junk r = ?r" using assms(3,4) by (simp add: h264_switch_def Let_def)
  then have "h264_take data ?r = Some r'"
    using assms(1,2,5) h264_Input.simps [of junk data r] h264_Input.simps [of junk data ?r] by simp
  from h264_take_ptrs [OF this] show p: "m_ptr r' = Some b" "bm_ptr r' = Some b" using assms(3) by simp_all
  then show "h264_delete r' = None"
    by (cases "h_heap r' b") (simp_all add: h264_delete_def h_free_def)
qed

text \<open>A buffer larger than the reader's memory makes \<open>Input\<close> call itself for ever.\<close>

lemma h264_switch_capacity: "m_capacity (h264_switch junk r) = m_capacity r"
  by (simp add: h264_switch_def h_malloc_def Let_def split: option.split)

lemma h264_Input_bounded:
  "h264_Input junk data r = Some r' \<Longrightarrow> length data \<le> m_capacity r"
proof (rule h264_Input.raw_induct [where P = "\<lambda>_ data r _. length data \<le> m_capacity r"])
  fix f :: "(nat \<Rightarrow> u8) \<Rightarrow> bytes \<Rightarrow> h264_reader \<Rightarrow> h264_reader option" and junk data r y
  assume ih: "\<And>junk data r y. f junk data r = Some y \<Longrightarrow> length data \<le> m_capacity r"
  assume step: "(if length data \<le> m_capacity r - h_wPos r then h264_take data r else f junk data (h264_switch junk r)) = Some y"
  show "length data \<le> m_capacity r"
  proof (cases "length data \<le> m_capacity r - h_wPos r")
    case False
    then show ?thesis using step ih [of junk data "h264_switch junk r" y] by (simp add: h264_switch_capacity)
  qed linarith
qed

lemma h264_Input_oversized: "m_capacity r < length data \<Longrightarrow> h264_Input junk data r = None"
  using h264_Input_bounded [of junk data r] by fastforce

text \<open>
  A start code at the very end of the file makes the scanner read one byte too far, in \<open>h264_nal_type\<close> and,
  for a slice, in \<open>h264_nal_new_access\<close>; a unit of type zero stops the program.
\<close>

lemmas scan_simps = h264_new_def h264_Init_def h_malloc_def Let_def search_start_code.simps init_loop.simps
  h264_nal_type_def start_code_end_def h264_nal_new_access_def rd_def

lemma h264_overruns:
  "h264_new (Some [0, 0, 0, 1]) junk frame flag = None"
  "h264_new (Some [0, 0, 1, 0x65, 0x88, 0, 0, 1, 0x41]) junk frame flag = None"
  "h264_new (Some [0, 0, 1, 0x80, 1]) junk frame flag = None"
  by (simp_all add: scan_simps)

text \<open>The sizes of the parameter sets are counted from the start of the frame: the second one overlaps what follows.\<close>

lemma h264_params_sizes:
  "map_option m_sps (h264_new (Some [0, 0, 1, 0x67, 0x42, 0, 0, 1, 0x68, 0xCE, 0, 0, 1, 0x65, 0x88]) junk frame flag) =
    Some [(0, 3, 5), (0, 8, 10)]"
  by (simp add: scan_simps)

end
