(* ===== verification/Gb_Ids.thy ===== *)
theory Gb_Ids
  imports Mg_Util
begin

text \<open>
  The GB28181 identifiers and RTP ports of the signaling server: \<open>src/IDManager.h\<close>,
  \<open>src/IDManager.cpp\<close>, the number readers of \<open>src/tools/TypeConversion.cpp\<close> they use and
  \<open>src/RtpPortManager.cpp\<close>.  Identifiers are byte strings, the registry a set of them, and the
  handle managers the values of a map from the device type in which a key may hold a null pointer,
  as \<open>operator[]\<close> leaves it.  Handles are natural numbers: the source keeps them in 64 bits and
  the ten-digit codes stay far below.
\<close>

section \<open>Numbers in strings\<close>

definition String2Ull :: "bytes \<Rightarrow> nat" where
  "String2Ull s =
     (case scan_int s of
        None \<Rightarrow> 0
      | Some (v, r) \<Rightarrow> if 2 ^ 64 \<le> \<bar>v\<bar> then 0 else nat (v mod 2 ^ 64))"

definition String2Int :: "bytes \<Rightarrow> int" where
  "String2Int s =
     (case scan_int s of
        None \<Rightarrow> 0
      | Some (v, r) \<Rightarrow> if v < - (2 ^ 31) \<or> 2 ^ 31 \<le> v then 0 else v)"

section \<open>Handle managers\<close>

record handle_mrg =
  uistart :: nat
  uiMax :: nat
  CurIncrHandle :: nat
  handlemap :: "nat set"

definition CHnaldeMrg :: "nat \<Rightarrow> nat \<Rightarrow> handle_mrg" where
  "CHnaldeMrg start mx = \<lparr>uistart = start, uiMax = mx, CurIncrHandle = start, handlemap = {}\<rparr>"

definition GetHandle :: "handle_mrg \<Rightarrow> nat \<times> handle_mrg" where
  "GetHandle m =
     (let c = CurIncrHandle m + 1; c = (if c \<ge> uiMax m then uistart m else c)
      in (c, m\<lparr>CurIncrHandle := c\<rparr>))"

text \<open>The search loop of \<open>GetHandle_R\<close> does not end when no handle is free: then it is \<open>None\<close>.\<close>

partial_function (option) handle_search :: "nat \<Rightarrow> nat \<Rightarrow> nat set \<Rightarrow> nat \<Rightarrow> nat option" where
  "handle_search start mx used c =
     (if c \<in> used then handle_search start mx used ((if c \<ge> mx then start else c) + 1) else Some c)"

definition GetHandle_R :: "handle_mrg \<Rightarrow> (nat \<times> handle_mrg) option" where
  "GetHandle_R m = do {
     c \<leftarrow> handle_search (uistart m) (uiMax m) (handlemap m) (CurIncrHandle m);
     Some (c, m\<lparr>CurIncrHandle := c, handlemap := insert c (handlemap m)\<rparr>) }"

text \<open>The loop of \<open>GetGBCodeSeq_R\<close>; \<open>None\<close> is its \<open>return 0\<close> when the codes above \<open>h\<close> are used up.\<close>

function code_search :: "nat set \<Rightarrow> nat \<Rightarrow> nat \<Rightarrow> nat option" where
  "code_search used h n =
     (if n \<in> used then if n > 0x98967E + h then None else code_search used h (n + 1) else Some n)"
  by pat_completeness auto
termination by (relation "measure (\<lambda>(used, h, n). 0x98967E + h + 1 - n)") auto

declare code_search.simps [simp del]

definition GetGBCodeSeq_R :: "nat \<Rightarrow> handle_mrg \<Rightarrow> nat \<times> handle_mrg" where
  "GetGBCodeSeq_R h m =
     (case code_search (handlemap m) h h of
        None \<Rightarrow> (0, m)
      | Some n \<Rightarrow> (n, m\<lparr>handlemap := insert n (handlemap m)\<rparr>))"

definition AddHandle_R :: "nat \<Rightarrow> handle_mrg \<Rightarrow> handle_mrg" where
  "AddHandle_R h m = m\<lparr>handlemap := insert h (handlemap m)\<rparr>"

definition ReleasHandle :: "nat \<Rightarrow> handle_mrg \<Rightarrow> handle_mrg" where
  "ReleasHandle h m =
     (let m = m\<lparr>handlemap := handlemap m - {h}\<rparr>
      in if CurIncrHandle m > h then m\<lparr>CurIncrHandle := h\<rparr> else m)"

section \<open>The registry of device codes\<close>

record dev_code_mng =
  gbid_list :: "bytes set"
  local_gbid :: bytes
  code_seq :: "int \<rightharpoonup> handle_mrg option"

text \<open>The device types; the last enumerator, one above them, bounds what \<open>CreateDevCode\<close> takes.\<close>

definition EM_Node_Type :: "int set" where
  "EM_Node_Type = {0, 111, 118, 132, 131, 200, 214, 216, 114, 113, 215, 117, 217}"

text \<open>The type ranges of the constructor: type \<open>t\<close> owns the codes from \<open>t\<close>0000001.\<close>

definition dev_ranges :: "(int \<times> nat \<times> nat) list" where
  "dev_ranges =
     [(118, 0x46555F00 + 1, 0x46EDF57F), (132, 0x4EAD9A00 + 1, 0x4F46307F), (214, 0x7F8DCF00 + 1, 0x8026657F),
      (200, 0x77359400 + 1, 0x77CE2A7F), (216, 0x80BEFC00 + 1, 0x8157927F), (111, 0x42294180 + 1, 0x42C1D7FF),
      (114, 0x43F30500 + 1, 0x448B9B7F), (113, 0x435A6E80 + 1, 0x43F304FF), (131, 0x4E150380 + 1, 0x4EAD99FF),
      (215, 0x80266580 + 1, 0x80BEFBFF), (117, 0x45BCC880 + 1, 0x46555EFF), (217, 0x81579280 + 1, 0x81F028FF)]"

definition CDevCodeMng :: dev_code_mng where
  "CDevCodeMng = \<lparr>gbid_list = {}, local_gbid = [],
     code_seq = map_of (map (\<lambda>(t, lo, hi). (t, Some (CHnaldeMrg lo hi))) dev_ranges)\<rparr>"

definition GetDeviceType :: "bytes \<Rightarrow> int" where
  "GetDeviceType g = (if length g = 20 then String2Int (span g 10 3) else -1)"

definition same_domain :: "bytes \<Rightarrow> bytes \<Rightarrow> bool" where
  "same_domain l g \<longleftrightarrow> length l = 20 \<and> length g = 20 \<and> take 10 l = take 10 g"

text \<open>\<open>if (mDevCodeSeq[t]) mDevCodeSeq[t]->f()\<close>: the subscript leaves a null pointer at a new key.\<close>

definition with_seq :: "int \<Rightarrow> (handle_mrg \<Rightarrow> handle_mrg) \<Rightarrow> dev_code_mng \<Rightarrow> dev_code_mng" where
  "with_seq t f s =
     (case code_seq s t of
        None \<Rightarrow> s\<lparr>code_seq := (code_seq s)(t \<mapsto> None)\<rparr>
      | Some None \<Rightarrow> s
      | Some (Some m) \<Rightarrow> s\<lparr>code_seq := (code_seq s)(t \<mapsto> Some (f m))\<rparr>)"

definition AddDevCodeID :: "bytes \<Rightarrow> dev_code_mng \<Rightarrow> dev_code_mng" where
  "AddDevCodeID g s =
     (if length g \<noteq> 20 then s
      else let s = s\<lparr>gbid_list := insert g (gbid_list s)\<rparr> in
        if same_domain (local_gbid s) g then
          let codeseq = String2Ull (span g 10 10); devType = GetDeviceType g
          in if devType > 0 then with_seq devType (AddHandle_R codeseq) s else s
        else s)"

definition DelDevCodeID :: "bytes \<Rightarrow> dev_code_mng \<Rightarrow> dev_code_mng" where
  "DelDevCodeID g s =
     (if length g \<noteq> 20 then s
      else let s = s\<lparr>gbid_list := gbid_list s - {g}\<rparr> in
        if same_domain (local_gbid s) g then
          let codeseq = String2Ull (span g 10 10); devType = GetDeviceType g
          in if devType > 0 then with_seq devType (ReleasHandle codeseq) s else s
        else s)"

definition IsDevCodeExist :: "bytes \<Rightarrow> dev_code_mng \<Rightarrow> bool" where
  "IsDevCodeExist g s = (if length g \<noteq> 20 then True else g \<in> gbid_list s)"

text \<open>The start code and the type that \<open>CreateDevCode\<close> uses for a requested device type.\<close>

definition create_range :: "int \<Rightarrow> nat \<times> int" where
  "create_range t =
     (if t = 118 then (0x46555F00 + 1, 118)
      else if t = 132 then (0x4EAD9A00 + 1, 132)
      else if t = 214 then (0x7F8DCF00 + 1, 214)
      else if t = 200 then (0x77359400 + 1, 200)
      else if t = 216 then (0x80BEFC00 + 1, 216)
      else if t = 111 then (0x42294180 + 1, 111)
      else if t = 114 then (0x43F30500 + 1, 114)
      else if t = 113 then (0x435A6E80 + 1, 113)
      else if t = 131 then (0x4E150380 + 1, 131)
      else if t = 215 then (0x80266580 + 1, 215)
      else (0x81579280 + 1, 217))"

definition CreateDevCode :: "int \<Rightarrow> dev_code_mng \<Rightarrow> bytes \<times> dev_code_mng" where
  "CreateDevCode t s =
     (if t \<le> 0 \<or> t \<ge> 218 then ([], s)
      else let (nCodeSeq, gbDevType) = create_range t;
               (nCode, s) =
                 (case code_seq s gbDevType of
                    None \<Rightarrow> (0, s\<lparr>code_seq := (code_seq s)(gbDevType \<mapsto> None)\<rparr>)
                  | Some None \<Rightarrow> (0, s)
                  | Some (Some m) \<Rightarrow>
                      let (n, m) = GetGBCodeSeq_R nCodeSeq m
                      in (n, s\<lparr>code_seq := (code_seq s)(gbDevType \<mapsto> Some m)\<rparr>))
           in if nCode > 0 \<and> length (local_gbid s) = 20 then
                let newGBID = take 10 (local_gbid s) @ dec_of nCode
                in (newGBID, s\<lparr>gbid_list := insert newGBID (gbid_list s)\<rparr>)
              else ([], s))"

definition SetLocalGBID :: "bytes \<Rightarrow> dev_code_mng \<Rightarrow> dev_code_mng" where
  "SetLocalGBID l s =
     (if l = [] \<or> length l \<noteq> 20 \<or> local_gbid s = l then s
      else
        let s = (if length (local_gbid s) = 20 then
                   let codeseq = String2Ull (span (local_gbid s) 10 10); devType = GetDeviceType (local_gbid s)
                   in if devType > 0 then with_seq devType (ReleasHandle codeseq) s else s
                 else s)
        in AddDevCodeID l (s\<lparr>local_gbid := l\<rparr>))"

section \<open>RTP ports\<close>

record rtp_ports =
  port_min :: nat
  port_max :: nat
  free_list :: "nat list"

text \<open>
  The constructor's loop, \<open>i <= mPortRangeMax\<close> by steps of two on an \<open>unsigned\<close> of 32 bits.  When
  the counter wraps around the loop does not end: then it is \<open>None\<close>.
\<close>

partial_function (option) port_loop :: "nat \<Rightarrow> nat \<Rightarrow> nat list option" where
  "port_loop i mx =
     (if i \<le> mx then do { xs \<leftarrow> port_loop ((i + 2) mod 2 ^ 32) mx; Some (i # xs) } else Some [])"

text \<open>The parameters are the values of the \<open>unsigned\<close> members.\<close>

definition RTPPortManager :: "nat \<Rightarrow> nat \<Rightarrow> rtp_ports option" where
  "RTPPortManager mn mx = do {
     ports \<leftarrow> port_loop mn mx;
     Some \<lparr>port_min = mn, port_max = mx, free_list = ports\<rparr> }"

definition allocateRTPPort :: "rtp_ports \<Rightarrow> nat \<times> rtp_ports" where
  "allocateRTPPort p = (case free_list p of [] \<Rightarrow> (0, p) | x # xs \<Rightarrow> (x, p\<lparr>free_list := xs\<rparr>))"

text \<open>\<open>None\<close> is the failed assertion.\<close>

definition freeRTPPort :: "nat \<Rightarrow> rtp_ports \<Rightarrow> rtp_ports option" where
  "freeRTPPort x p =
     (if port_min p \<le> x \<and> x \<le> port_max p then Some (p\<lparr>free_list := free_list p @ [x]\<rparr>) else None)"

section \<open>Ports are conserved\<close>

text \<open>The pool with the set of ports its clients hold; they free only what they hold.\<close>

datatype port_op = Alloc nat | Free nat

inductive port_step :: "rtp_ports \<times> nat set \<Rightarrow> port_op \<Rightarrow> rtp_ports \<times> nat set \<Rightarrow> bool" where
  step_alloc: "allocateRTPPort p = (x, p') \<Longrightarrow>
     port_step (p, held) (Alloc x) (p', if x = 0 then held else insert x held)"
| step_free: "x \<in> held \<Longrightarrow> freeRTPPort x p = Some p' \<Longrightarrow> port_step (p, held) (Free x) (p', held - {x})"

inductive_cases port_step_cases: "port_step (p, held) a s'"

inductive port_reach :: "nat \<Rightarrow> nat \<Rightarrow> rtp_ports \<times> nat set \<Rightarrow> bool" for mn mx where
  reach_start: "RTPPortManager mn mx = Some p \<Longrightarrow> port_reach mn mx (p, {})"
| reach_step: "port_reach mn mx s \<Longrightarrow> port_step s a s' \<Longrightarrow> port_reach mn mx s'"

definition pool :: "nat \<Rightarrow> nat \<Rightarrow> nat set" where
  "pool mn mx = {x. mn \<le> x \<and> x \<le> mx \<and> even (x - mn)}"

lemma pool_step:
  assumes "i \<le> mx"
  shows "pool i mx = insert i (pool (i + 2) mx)" "i \<notin> pool (i + 2) mx"
proof -
  show "pool i mx = insert i (pool (i + 2) mx)"
  proof (intro equalityI subsetI)
    fix x assume "x \<in> pool i mx"
    then show "x \<in> insert i (pool (i + 2) mx)" by (auto simp: pool_def; presburger)
  next
    fix x assume "x \<in> insert i (pool (i + 2) mx)"
    then show "x \<in> pool i mx" using assms by (auto simp: pool_def; presburger)
  qed
  show "i \<notin> pool (i + 2) mx" by (simp add: pool_def)
qed

lemma port_loop_raw:
  "port_loop i mx = Some xs \<Longrightarrow> distinct xs \<and> set xs = pool i mx \<and> (\<forall>x \<in> pool i mx. x + 2 < 2 ^ 32)"
proof (rule port_loop.raw_induct [of "\<lambda>i mx xs. distinct xs \<and> set xs = pool i mx \<and> (\<forall>x \<in> pool i mx. x + 2 < 2 ^ 32)"])
  fix f i mx xs
  assume IH: "\<And>i mx xs. f i mx = Some xs \<Longrightarrow> distinct xs \<and> set xs = pool i mx \<and> (\<forall>x \<in> pool i mx. x + 2 < 2 ^ 32)"
    and e: "(if i \<le> mx then do { xs \<leftarrow> f ((i + 2) mod 2 ^ 32) mx; Some (i # xs) } else Some []) = Some xs"
  show "distinct xs \<and> set xs = pool i mx \<and> (\<forall>x \<in> pool i mx. x + 2 < 2 ^ 32)"
  proof (cases "i \<le> mx")
    case True
    then obtain ys where ys: "f ((i + 2) mod 2 ^ 32) mx = Some ys" "xs = i # ys" using e by (auto split: bind_splits)
    note I = IH [OF ys(1)]
    have "i + 2 < 2 ^ 32"
    proof (rule ccontr)
      assume w: "\<not> i + 2 < 2 ^ 32"
      then have "(i + 2) mod 2 ^ 32 \<le> i" using mod_less_divisor [of "2 ^ 32" "i + 2"] by (cases "i < 2 ^ 32") (auto simp: le_mod_geq)
      moreover have "even (i + 2 - (i + 2) mod 2 ^ 32)" by (simp add: minus_mod_eq_mult_div)
      moreover have "even (i + 2 - w) \<Longrightarrow> w \<le> i \<Longrightarrow> even (i - w)" for w by presburger
      ultimately have "i \<in> pool ((i + 2) mod 2 ^ 32) mx" using True by (simp add: pool_def)
      with I w show False by blast
    qed
    then show ?thesis using I ys(2) pool_step [OF True] by auto
  qed (use e in \<open>auto simp: pool_def\<close>)
qed

text \<open>The constructor returns when two can be added to the highest port.\<close>

lemma port_loop_ends:
  assumes "mx + 2 < 2 ^ 32"
  shows "\<exists>xs. port_loop i mx = Some xs"
proof (induction "mx + 1 - i" arbitrary: i rule: less_induct)
  case less
  show ?case
  proof (cases "i \<le> mx")
    case True
    then have "mx + 1 - (i + 2) < mx + 1 - i" by simp
    then obtain xs where "port_loop (i + 2) mx = Some xs" using less by blast
    moreover have "(i + 2) mod 2 ^ 32 = i + 2" using True assms by (intro mod_less) simp
    ultimately show ?thesis using True by (subst port_loop.simps) simp
  qed (subst port_loop.simps, simp)
qed

lemma RTPPortManager_returns: "mx + 2 < 2 ^ 32 \<Longrightarrow> \<exists>p. RTPPortManager mn mx = Some p"
  using port_loop_ends [of mx mn] by (auto simp: RTPPortManager_def)

definition port_inv :: "nat \<Rightarrow> nat \<Rightarrow> rtp_ports \<times> nat set \<Rightarrow> bool" where
  "port_inv mn mx = (\<lambda>(p, held). port_min p = mn \<and> port_max p = mx \<and> distinct (free_list p) \<and>
     set (free_list p) \<inter> held = {} \<and> set (free_list p) \<union> held = pool mn mx)"

lemma alloc_inv:
  assumes "port_inv mn mx (p, held)" "0 < mn" "allocateRTPPort p = (x, p')"
  shows "port_inv mn mx (p', if x = 0 then held else insert x held)" "x \<notin> held" "x = 0 \<longleftrightarrow> held = pool mn mx"
proof -
  have z: "0 \<notin> pool mn mx" using assms(2) by (simp add: pool_def)
  show "port_inv mn mx (p', if x = 0 then held else insert x held)" "x \<notin> held" "x = 0 \<longleftrightarrow> held = pool mn mx"
    using assms(1,3) z by (cases "free_list p"; auto simp: port_inv_def allocateRTPPort_def)+
qed

lemma free_inv:
  "port_inv mn mx (p, held) \<Longrightarrow> x \<in> held \<Longrightarrow> freeRTPPort x p = Some p' \<Longrightarrow> port_inv mn mx (p', held - {x})"
  by (auto simp: port_inv_def freeRTPPort_def split: if_splits)

lemma port_reach_inv: "port_reach mn mx s \<Longrightarrow> 0 < mn \<Longrightarrow> port_inv mn mx s"
proof (induction rule: port_reach.induct)
  case (reach_start p)
  then show ?case using port_loop_raw [of mn mx] by (auto simp: port_inv_def RTPPortManager_def split: bind_splits)
next
  case (reach_step s a s')
  then have inv: "port_inv mn mx s" by simp
  from reach_step.hyps(2) show ?case
  proof (cases rule: port_step.cases)
    case (step_alloc p x p' held)
    then show ?thesis using alloc_inv(1) [of mn mx p held x p'] inv reach_step.prems by simp
  next
    case (step_free x held p p')
    then show ?thesis using free_inv inv by simp
  qed
qed

text \<open>
  C22.  RTP ports: as long as the calls free only ports they were given, over every sequence of
  allocations and releases the free list and the ports held partition the port range (the ports at
  even distance from its lower end), without duplicates; so an allocation returns a port that
  nobody holds, and returns 0 only when all of them are held.
\<close>

theorem rtp_ports_conserved:
  assumes "port_reach mn mx (p, held)" "0 < mn"
  shows "distinct (free_list p) \<and> set (free_list p) \<inter> held = {} \<and> set (free_list p) \<union> held = pool mn mx \<and>
     (fst (allocateRTPPort p) = 0 \<longleftrightarrow> held = pool mn mx) \<and> fst (allocateRTPPort p) \<notin> held"
proof -
  note inv = port_reach_inv [OF assms]
  obtain x p' where x: "allocateRTPPort p = (x, p')" by fastforce
  show ?thesis
    using inv alloc_inv(2,3) [OF inv assms(2) x] x by (simp add: port_inv_def)
qed

theorem rtp_ports_conserved_witness:
  "fst (allocateRTPPort \<lparr>port_min = 10, port_max = 15, free_list = [12, 14]\<rparr>) \<notin> {10}"
proof -
  let ?p = "\<lparr>port_min = 10, port_max = 15, free_list = [10, 12, 14]\<rparr>"
  have "RTPPortManager 10 15 = Some ?p" by (simp add: port_loop.simps RTPPortManager_def)
  note start = reach_start [OF this]
  have "port_step (?p, {}) (Alloc 10) (\<lparr>port_min = 10, port_max = 15, free_list = [12, 14]\<rparr>, {10})"
    using step_alloc [of ?p 10 _ "{}"] by (simp add: allocateRTPPort_def)
  from reach_step [OF start this]
  have "port_reach 10 15 (\<lparr>port_min = 10, port_max = 15, free_list = [12, 14]\<rparr>, {10})" .
  from rtp_ports_conserved [OF this] show ?thesis by simp
qed

text \<open>Freeing a port twice is accepted: the port is then handed out twice.\<close>

lemma rtp_double_free:
  assumes "port_min p \<le> x" "x \<le> port_max p" "free_list p = []"
  shows "\<exists>p1 p2 p3 p4. freeRTPPort x p = Some p1 \<and> freeRTPPort x p1 = Some p2 \<and>
    allocateRTPPort p2 = (x, p3) \<and> allocateRTPPort p3 = (x, p4)"
  using assms by (simp add: freeRTPPort_def allocateRTPPort_def)

section \<open>Handles\<close>

lemma code_search_Some:
  "code_search used h n = Some k \<Longrightarrow> n \<le> k \<and> k \<notin> used \<and> (\<forall>j. n \<le> j \<longrightarrow> j < k \<longrightarrow> j \<in> used)"
proof (induction used h n rule: code_search.induct)
  case (1 used h n)
  show ?case
  proof (cases "n \<in> used \<and> \<not> n > 0x98967E + h")
    case True
    then have "code_search used h (n + 1) = Some k" using "1.prems" by (simp add: code_search.simps [of used h n])
    with 1 True have "n + 1 \<le> k" "k \<notin> used" "\<forall>j. n + 1 \<le> j \<longrightarrow> j < k \<longrightarrow> j \<in> used" by auto
    moreover have "j = n \<or> n + 1 \<le> j" if "n \<le> j" for j using that by auto
    ultimately show ?thesis using True by auto
  next
    case False
    then have "n \<notin> used \<and> k = n" using "1.prems" by (auto simp: code_search.simps [of used h n] split: if_splits)
    then show ?thesis by auto
  qed
qed

lemma code_search_finds:
  "n \<le> k \<Longrightarrow> k \<le> h + 9999999 \<Longrightarrow> k \<notin> used \<Longrightarrow> (\<And>j. n \<le> j \<Longrightarrow> j < k \<Longrightarrow> j \<in> used) \<Longrightarrow> code_search used h n = Some k"
proof (induction used h n rule: code_search.induct)
  case (1 used h n)
  show ?case
  proof (cases "n = k")
    case True
    then show ?thesis using "1.prems"(3) by (subst code_search.simps) simp
  next
    case False
    then have n: "n \<in> used" "n < k" using 1 by auto
    then have "\<not> n > 0x98967E + h" using "1.prems"(2) by simp
    then show ?thesis using 1 n by (simp add: code_search.simps [of used h n])
  qed
qed

text \<open>What \<open>GetHandle_R\<close> returns was free, and it returns when the current handle is free or one ahead is.\<close>

lemma handle_search_Some: "handle_search start mx used c = Some k \<Longrightarrow> k \<notin> used"
proof (rule handle_search.raw_induct [of "\<lambda>start mx used c k. k \<notin> used"])
  fix f and start mx :: nat and used :: "nat set" and c k
  assume "\<And>start mx used c k. f start mx used c = Some k \<Longrightarrow> k \<notin> used"
    "(if c \<in> used then f start mx used ((if c \<ge> mx then start else c) + 1) else Some c) = Some k"
  then show "k \<notin> used" by (auto split: if_splits)
qed

lemma handle_search_ahead:
  "c \<le> k \<Longrightarrow> k \<le> mx \<Longrightarrow> k \<notin> used \<Longrightarrow> (\<And>j. c \<le> j \<Longrightarrow> j < k \<Longrightarrow> j \<in> used) \<Longrightarrow> handle_search start mx used c = Some k"
proof (induction "k - c" arbitrary: c)
  case 0
  then show ?case by (simp add: handle_search.simps)
next
  case (Suc d)
  then have "c \<in> used" "c < k" "\<not> c \<ge> mx" by auto
  then show ?case
    using Suc.hyps(1) [of "c + 1"] Suc.hyps(2) Suc.prems by (subst handle_search.simps) auto
qed

section \<open>Digit strings\<close>

lemma digit_val_less: "is_digit c \<Longrightarrow> digit_val c < 10"
  by (drule is_digit_cases) (auto simp: digit_val_def)

lemma digit_val_inject: "is_digit c \<Longrightarrow> is_digit d \<Longrightarrow> digit_val c = digit_val d \<longleftrightarrow> c = d"
  by (auto simp: digit_val_def is_digit_def word_le_nat_alt word_inject(3) [symmetric])

lemma digits_val_less: "\<forall>c \<in> set ds. is_digit c \<Longrightarrow> digits_val ds < 10 ^ length ds"
proof (induction ds rule: rev_induct)
  case (snoc c ds)
  then show ?case using digit_val_less [of c] by simp
qed (simp add: digits_val_def)

lemma digits_val_inject:
  "length xs = length ys \<Longrightarrow> \<forall>c \<in> set xs. is_digit c \<Longrightarrow> \<forall>c \<in> set ys. is_digit c \<Longrightarrow>
   digits_val xs = digits_val ys \<Longrightarrow> xs = ys"
proof (induction xs arbitrary: ys rule: rev_induct)
  case (snoc c xs)
  then obtain d zs where ys: "ys = zs @ [d]" by (cases ys rule: rev_cases) auto
  have "digit_val c < 10" "digit_val d < 10" using snoc.prems by (simp_all add: ys digit_val_less)
  moreover have "10 * digits_val xs + digit_val c = 10 * digits_val zs + digit_val d" using snoc.prems(4) by (simp add: ys)
  ultimately have "digits_val xs = digits_val zs" "digit_val c = digit_val d" by presburger+
  then show ?case using snoc ys digit_val_inject [of c d] by simp
qed simp

lemma scan_int_digits:
  assumes "ds \<noteq> []" "\<forall>c \<in> set ds. is_digit c"
  shows "scan_int ds = Some (int (digits_val ds), [])"
proof -
  obtain c t where ct: "ds = c # t" using assms(1) by (cases ds) auto
  then have "is_digit c" using assms(2) by simp
  then have "\<not> c_isspace c" "c \<noteq> 45" "c \<noteq> 43"
    by (auto simp: is_digit_def c_isspace_def word_le_nat_alt)
  moreover have "takeWhile is_digit ds = ds" using assms(2) by (simp add: takeWhile_eq_all_conv)
  ultimately show ?thesis using ct by (simp add: scan_int_def)
qed

lemma String2Ull_digits:
  assumes "ds \<noteq> []" "\<forall>c \<in> set ds. is_digit c" "length ds \<le> 19"
  shows "String2Ull ds = digits_val ds"
proof -
  have "digits_val ds < 10 ^ 19"
    using digits_val_less [OF assms(2)] power_increasing [OF assms(3), of "10 :: nat"] by simp
  then show ?thesis by (simp add: String2Ull_def scan_int_digits [OF assms(1,2)] zmod_trivial_iff nat_mod_as_int)
qed

lemma String2Int_digits:
  assumes "ds \<noteq> []" "\<forall>c \<in> set ds. is_digit c" "length ds \<le> 9"
  shows "String2Int ds = int (digits_val ds)"
proof -
  have "digits_val ds < 10 ^ 9"
    using digits_val_less [OF assms(2)] power_increasing [OF assms(3), of "10 :: nat"] by simp
  then show ?thesis by (simp add: String2Int_def scan_int_digits [OF assms(1,2)])
qed

lemma dec_of_split: "10 ^ k \<le> n \<Longrightarrow> \<exists>r. dec_of n = dec_of (n div 10 ^ k) @ r \<and> length r = k"
proof (induction k arbitrary: n)
  case (Suc k)
  then have "10 ^ k \<le> n div 10" "\<not> n < 10"
    using le_trans [OF _ Suc.prems, of 10] by (auto simp: less_eq_div_iff_mult_less_eq mult.commute)
  moreover obtain r where "dec_of (n div 10) = dec_of (n div 10 div 10 ^ k) @ r" "length r = k"
    using Suc.IH [OF calculation(1)] by blast
  moreover have "n div 10 div 10 ^ k = n div 10 ^ Suc k" by (simp add: div_mult2_eq)
  ultimately show ?case by (simp add: dec_of.simps [of n])
qed simp

lemma length_dec_of:
  assumes "10 ^ k \<le> n" "n < 10 ^ Suc k"
  shows "length (dec_of n) = Suc k"
proof -
  obtain r where r: "dec_of n = dec_of (n div 10 ^ k) @ r" "length r = k" using dec_of_split [OF assms(1)] by blast
  have "n div 10 ^ k < 10" using assms(2) by (simp add: less_mult_imp_div_less)
  then have "length (dec_of (n div 10 ^ k)) = 1" by (simp add: dec_of.simps)
  with r show ?thesis by simp
qed

section \<open>Identifiers\<close>

definition wf_id :: "bytes \<Rightarrow> bool" where
  "wf_id g \<longleftrightarrow> length g = 20 \<and> (\<forall>c \<in> set g. is_digit c)"

definition id_type :: "bytes \<Rightarrow> nat" where "id_type g = digits_val (span g 10 3)"
definition id_code :: "bytes \<Rightarrow> nat" where "id_code g = digits_val (span g 10 10)"

lemma span_digits: "wf_id g \<Longrightarrow> \<forall>c \<in> set (span g i n). is_digit c"
  unfolding wf_id_def span_def by (metis in_set_dropD in_set_takeD)

lemma wf_id_reads:
  assumes "wf_id g"
  shows "length g = 20" "String2Ull (span g 10 10) = id_code g" "GetDeviceType g = int (id_type g)"
proof -
  show l: "length g = 20" using assms by (simp add: wf_id_def)
  have "span g 10 10 \<noteq> []" "span g 10 3 \<noteq> []" using l by (auto simp: span_def)
  then show "String2Ull (span g 10 10) = id_code g" "GetDeviceType g = int (id_type g)"
    using l span_digits [OF assms] by (simp_all add: String2Ull_digits String2Int_digits id_code_def id_type_def GetDeviceType_def)
qed

lemma wf_id_inject:
  assumes "wf_id g" "wf_id h" "take 10 g = take 10 h" "id_code g = id_code h"
  shows "g = h"
proof -
  have l: "length g = 20" "length h = 20" using assms by (simp_all add: wf_id_def)
  have "span g 10 10 = span h 10 10"
    using digits_val_inject [of "span g 10 10" "span h 10 10"] span_digits [OF assms(1)] span_digits [OF assms(2)] assms(4) l
    by (simp add: id_code_def)
  then have "drop 10 g = drop 10 h" using l by (simp add: span_def)
  with assms(3) show ?thesis by (metis append_take_drop_id)
qed

lemma new_id:
  assumes "wf_id l" "100 \<le> t" "t < 1000" "n div 10 ^ 7 = t"
  shows "wf_id (take 10 l @ dec_of n)" "id_code (take 10 l @ dec_of n) = n" "id_type (take 10 l @ dec_of n) = t"
    "take 10 (take 10 l @ dec_of n) = take 10 l"
proof -
  have l: "length l = 20" using assms(1) by (simp add: wf_id_def)
  have n: "10 ^ 9 \<le> n" "n < 10 ^ Suc 9" "10 ^ 7 \<le> n" using assms(2-4) by auto
  obtain r where r: "dec_of n = dec_of t @ r" "length r = 7" using dec_of_split [OF n(3)] assms(4) by auto
  have t: "length (dec_of t) = 3" using length_dec_of [of 2 t] assms by simp
  have len: "length (dec_of n) = 10" using length_dec_of [OF n(1,2)] by simp
  show "wf_id (take 10 l @ dec_of n)" "take 10 (take 10 l @ dec_of n) = take 10 l"
    using l len assms(1) dec_of_props [of n] by (auto simp: wf_id_def dest: in_set_takeD)
  show "id_code (take 10 l @ dec_of n) = n" using l len dec_of_props [of n] by (simp add: id_code_def span_def)
  show "id_type (take 10 l @ dec_of n) = t" using l r t dec_of_props [of t] by (simp add: id_type_def span_def)
qed

section \<open>The registry invariant\<close>

definition dev_types :: "int set" where
  "dev_types = {118, 132, 214, 200, 216, 111, 114, 113, 131, 215, 117, 217}"

text \<open>
  Registered identifiers of the local domain have their code marked in the manager of their type;
  codes that end in seven zeros are left out: no range starts there, but an exhausted one ends there.
\<close>

definition dev_inv :: "bytes \<Rightarrow> dev_code_mng \<Rightarrow> bool" where
  "dev_inv l s \<longleftrightarrow> wf_id l \<and> local_gbid s = l \<and> (\<forall>g \<in> gbid_list s. wf_id g) \<and>
     (\<forall>g \<in> gbid_list s. take 10 g = take 10 l \<longrightarrow> id_code g mod 10 ^ 7 \<noteq> 0 \<longrightarrow>
        (\<forall>m. code_seq s (int (id_type g)) = Some (Some m) \<longrightarrow> id_code g \<in> handlemap m)) \<and>
     (\<forall>t. (\<exists>m. code_seq s t = Some (Some m)) \<longleftrightarrow> t \<in> dev_types)"

lemma with_seq_simps [simp]:
  "gbid_list (with_seq t f s) = gbid_list s" "local_gbid (with_seq t f s) = local_gbid s"
  "code_seq (with_seq t f s) = (code_seq s)(t \<mapsto> (case code_seq s t of Some (Some m) \<Rightarrow> Some (f m) | _ \<Rightarrow> None))"
  by (auto simp: with_seq_def fun_upd_idem split: option.splits)

lemma same_domain_wf: "wf_id l \<Longrightarrow> wf_id g \<Longrightarrow> same_domain l g \<longleftrightarrow> take 10 g = take 10 l"
  by (auto simp: same_domain_def wf_id_def)

lemma id_type_code: "wf_id g \<Longrightarrow> id_type g = id_code g div 10 ^ 7"
proof -
  assume g: "wf_id g"
  then have l: "length g = 20" by (simp add: wf_id_def)
  have s: "span g 10 10 = span g 10 3 @ span g 13 7" using l by (simp add: span_def take_add [of 3 7, simplified])
  have "digits_val (xs @ ys) div 10 ^ length ys = digits_val xs" if "\<forall>c \<in> set ys. is_digit c" for xs ys
    using that
  proof (induction ys rule: rev_induct)
    case (snoc c ys)
    have "digits_val (xs @ ys @ [c]) = 10 * digits_val (xs @ ys) + digit_val c"
      using digits_val_snoc [of "xs @ ys" c] by simp
    then have "digits_val (xs @ ys @ [c]) div 10 = digits_val (xs @ ys)" using digit_val_less [of c] snoc.prems by simp
    then show ?case using snoc by (simp add: div_mult2_eq)
  qed simp
  from this [of "span g 13 7" "span g 10 3"] show ?thesis
    using l span_digits [OF g, of 13 7] by (simp add: id_type_def id_code_def s)
qed

lemma dev_invI:
  assumes "wf_id l" "local_gbid s = l" "\<And>g. g \<in> gbid_list s \<Longrightarrow> wf_id g"
    "\<And>g m. g \<in> gbid_list s \<Longrightarrow> take 10 g = take 10 l \<Longrightarrow> id_code g mod 10 ^ 7 \<noteq> 0 \<Longrightarrow>
       code_seq s (int (id_type g)) = Some (Some m) \<Longrightarrow> id_code g \<in> handlemap m"
    "\<And>t. (\<exists>m. code_seq s t = Some (Some m)) \<longleftrightarrow> t \<in> dev_types"
  shows "dev_inv l s"
  using assms by (auto simp: dev_inv_def)

lemma dev_invD:
  assumes "dev_inv l s"
  shows "wf_id l" "local_gbid s = l" "g \<in> gbid_list s \<Longrightarrow> wf_id g"
    "g \<in> gbid_list s \<Longrightarrow> take 10 g = take 10 l \<Longrightarrow> id_code g mod 10 ^ 7 \<noteq> 0 \<Longrightarrow>
       code_seq s (int (id_type g)) = Some (Some m) \<Longrightarrow> id_code g \<in> handlemap m"
    "(\<exists>m. code_seq s t = Some (Some m)) \<longleftrightarrow> t \<in> dev_types"
  using assms by (auto simp: dev_inv_def)

lemma dev_types_pos: "t \<in> dev_types \<Longrightarrow> 0 < t"
  by (auto simp: dev_types_def)

lemma with_seq_types:
  "(\<exists>m. code_seq (with_seq t f s) k = Some (Some m)) \<longleftrightarrow> (\<exists>m. code_seq s k = Some (Some m))"
  by (auto split: option.splits)

lemma add_eq:
  assumes "dev_inv l s" "wf_id g"
  shows "AddDevCodeID g s = (let s = s\<lparr>gbid_list := insert g (gbid_list s)\<rparr> in
    if take 10 g = take 10 l \<and> 0 < int (id_type g) then with_seq (int (id_type g)) (AddHandle_R (id_code g)) s else s)"
  using wf_id_reads [OF assms(2)] same_domain_wf [OF _ assms(2)] dev_invD(1,2) [OF assms(1)]
  by (simp add: AddDevCodeID_def Let_def)

lemma add_inv:
  assumes "dev_inv l s" "wf_id g"
  shows "dev_inv l (AddDevCodeID g s)"
proof (rule dev_invI)
  note I = dev_invD [OF assms(1)]
  show "wf_id l" "local_gbid (AddDevCodeID g s) = l" using I by (simp_all add: add_eq [OF assms] Let_def)
  show "wf_id h" if "h \<in> gbid_list (AddDevCodeID g s)" for h
    using that I(3) assms(2) by (auto simp: add_eq [OF assms] Let_def split: if_splits)
  show "(\<exists>m. code_seq (AddDevCodeID g s) t = Some (Some m)) \<longleftrightarrow> t \<in> dev_types" for t
    using I(5) [of t] with_seq_types [of _ _ "s\<lparr>gbid_list := insert g (gbid_list s)\<rparr>" t]
    by (simp add: add_eq [OF assms] Let_def del: with_seq_simps(3))
  fix h m
  assume h: "h \<in> gbid_list (AddDevCodeID g s)" "take 10 h = take 10 l" "id_code h mod 10 ^ 7 \<noteq> 0"
    "code_seq (AddDevCodeID g s) (int (id_type h)) = Some (Some m)"
  have hg: "h = g \<or> h \<in> gbid_list s" using h(1) by (auto simp: add_eq [OF assms] Let_def split: if_splits)
  show "id_code h \<in> handlemap m"
  proof (cases "take 10 g = take 10 l \<and> 0 < int (id_type g) \<and> id_type h = id_type g")
    case True
    then obtain m0 where "code_seq s (int (id_type g)) = Some (Some m0)" "m = AddHandle_R (id_code g) m0"
      using h(4) by (auto simp: add_eq [OF assms] Let_def split: option.splits)
    then show ?thesis using hg I(4) [OF _ h(2,3)] True by (auto simp: AddHandle_R_def)
  next
    case False
    then have same: "code_seq s (int (id_type h)) = Some (Some m)"
      using h(4) by (auto simp: add_eq [OF assms] Let_def split: if_splits)
    then have "int (id_type h) \<in> dev_types" using I(5) by blast
    then have "0 < int (id_type h)" by (rule dev_types_pos)
    then have "h \<noteq> g" using False h(2) by auto
    then show ?thesis using hg I(4) [OF _ h(2,3) same] by blast
  qed
qed

lemma del_eq:
  assumes "dev_inv l s" "wf_id g"
  shows "DelDevCodeID g s = (let s = s\<lparr>gbid_list := gbid_list s - {g}\<rparr> in
    if take 10 g = take 10 l \<and> 0 < int (id_type g) then with_seq (int (id_type g)) (ReleasHandle (id_code g)) s else s)"
  using wf_id_reads [OF assms(2)] same_domain_wf [OF _ assms(2)] dev_invD(1,2) [OF assms(1)]
  by (simp add: DelDevCodeID_def Let_def)

lemma handlemap_Releas: "handlemap (ReleasHandle h m) = handlemap m - {h}"
  by (simp add: ReleasHandle_def Let_def)

lemma del_inv:
  assumes "dev_inv l s" "wf_id g"
  shows "dev_inv l (DelDevCodeID g s)"
proof (rule dev_invI)
  note I = dev_invD [OF assms(1)]
  show "wf_id l" "local_gbid (DelDevCodeID g s) = l" using I by (simp_all add: del_eq [OF assms] Let_def)
  show "wf_id h" if "h \<in> gbid_list (DelDevCodeID g s)" for h
    using that I(3) by (auto simp: del_eq [OF assms] Let_def split: if_splits)
  show "(\<exists>m. code_seq (DelDevCodeID g s) t = Some (Some m)) \<longleftrightarrow> t \<in> dev_types" for t
    using I(5) [of t] with_seq_types [of _ _ "s\<lparr>gbid_list := gbid_list s - {g}\<rparr>" t]
    by (simp add: del_eq [OF assms] Let_def del: with_seq_simps(3))
  fix h m
  assume h: "h \<in> gbid_list (DelDevCodeID g s)" "take 10 h = take 10 l" "id_code h mod 10 ^ 7 \<noteq> 0"
    "code_seq (DelDevCodeID g s) (int (id_type h)) = Some (Some m)"
  have hg: "h \<noteq> g" "h \<in> gbid_list s" using h(1) by (auto simp: del_eq [OF assms] Let_def split: if_splits)
  show "id_code h \<in> handlemap m"
  proof (cases "take 10 g = take 10 l \<and> 0 < int (id_type g) \<and> id_type h = id_type g")
    case True
    then obtain m0 where m0: "code_seq s (int (id_type g)) = Some (Some m0)" "m = ReleasHandle (id_code g) m0"
      using h(4) by (auto simp: del_eq [OF assms] Let_def split: option.splits)
    have "id_code h \<noteq> id_code g" using wf_id_inject [OF I(3) [OF hg(2)] assms(2)] hg(1) h(2) True by auto
    then show ?thesis using hg(2) I(4) [OF _ h(2,3)] True m0 by (auto simp: handlemap_Releas)
  next
    case False
    then have "code_seq s (int (id_type h)) = Some (Some m)"
      using h(4) by (auto simp: del_eq [OF assms] Let_def split: if_splits)
    then show ?thesis using hg(2) I(4) [OF _ h(2,3)] by blast
  qed
qed

lemma create_range_base:
  obtains ty where "create_range t = (ty * 10 ^ 7 + 1, int ty)" "int ty \<in> dev_types" "100 \<le> ty" "ty < 218"
proof (rule that)
  let ?ty = "nat (snd (create_range t))"
  show "create_range t = (?ty * 10 ^ 7 + 1, int ?ty)" "int ?ty \<in> dev_types" "100 \<le> ?ty" "?ty < 218"
    by (simp_all add: create_range_def dev_types_def)
qed

lemma code_search_bound:
  "code_search used h n = Some k \<Longrightarrow> n \<le> h + 9999999 \<Longrightarrow> k \<le> h + 9999999"
proof (induction used h n rule: code_search.induct)
  case (1 used h n)
  then show ?case by (subst (asm) (2) code_search.simps) (auto split: if_splits)
qed

lemma create_eq:
  assumes "dev_inv l s" "0 < t" "t < 218" "create_range t = (h, ty)"
  obtains m where "code_seq s ty = Some (Some m)"
    "CreateDevCode t s =
       (case code_search (handlemap m) h h of
          None \<Rightarrow> ([], s)
        | Some n \<Rightarrow> (take 10 l @ dec_of n,
            s\<lparr>gbid_list := insert (take 10 l @ dec_of n) (gbid_list s),
              code_seq := (code_seq s)(ty \<mapsto> Some (m\<lparr>handlemap := insert n (handlemap m)\<rparr>))\<rparr>))"
proof -
  note I = dev_invD [OF assms(1)]
  obtain t' where "create_range t = (t' * 10 ^ 7 + 1, int t')" "int t' \<in> dev_types" by (rule create_range_base)
  then have h: "0 < h" "ty \<in> dev_types" using assms(4) by auto
  then obtain m where m: "code_seq s ty = Some (Some m)" using I(5) by blast
  have l: "length (local_gbid s) = 20" "local_gbid s = l" using I(1,2) by (simp_all add: wf_id_def)
  have t: "\<not> (t \<le> 0 \<or> t \<ge> 218)" using assms(2,3) by simp
  show ?thesis
  proof (rule that [OF m], cases "code_search (handlemap m) h h")
    case None
    then show "CreateDevCode t s = (case code_search (handlemap m) h h of None \<Rightarrow> ([], s)
        | Some n \<Rightarrow> (take 10 l @ dec_of n,
            s\<lparr>gbid_list := insert (take 10 l @ dec_of n) (gbid_list s),
              code_seq := (code_seq s)(ty \<mapsto> Some (m\<lparr>handlemap := insert n (handlemap m)\<rparr>))\<rparr>))"
      using t m by (simp add: CreateDevCode_def assms(4) GetGBCodeSeq_R_def fun_upd_idem)
  next
    case (Some n)
    then have "0 < n" using code_search_Some [OF Some] h(1) by simp
    then show "CreateDevCode t s = (case code_search (handlemap m) h h of None \<Rightarrow> ([], s)
        | Some n \<Rightarrow> (take 10 l @ dec_of n,
            s\<lparr>gbid_list := insert (take 10 l @ dec_of n) (gbid_list s),
              code_seq := (code_seq s)(ty \<mapsto> Some (m\<lparr>handlemap := insert n (handlemap m)\<rparr>))\<rparr>))"
      using t m l Some by (simp add: CreateDevCode_def assms(4) GetGBCodeSeq_R_def Let_def)
  qed
qed

lemma create_inv:
  assumes "dev_inv l s"
  shows "dev_inv l (snd (CreateDevCode t s))"
proof (cases "0 < t \<and> t < 218")
  case True
  note I = dev_invD [OF assms]
  obtain ty where ty: "create_range t = (ty * 10 ^ 7 + 1, int ty)" "int ty \<in> dev_types" "100 \<le> ty" "ty < 218"
    by (rule create_range_base)
  obtain m where m: "code_seq s (int ty) = Some (Some m)"
    "CreateDevCode t s =
       (case code_search (handlemap m) (ty * 10 ^ 7 + 1) (ty * 10 ^ 7 + 1) of
          None \<Rightarrow> ([], s)
        | Some n \<Rightarrow> (take 10 l @ dec_of n,
            s\<lparr>gbid_list := insert (take 10 l @ dec_of n) (gbid_list s),
              code_seq := (code_seq s)(int ty \<mapsto> Some (m\<lparr>handlemap := insert n (handlemap m)\<rparr>))\<rparr>))"
    by (rule create_eq [OF assms conjunct1 [OF True] conjunct2 [OF True] ty(1)])
  show ?thesis
  proof (cases "code_search (handlemap m) (ty * 10 ^ 7 + 1) (ty * 10 ^ 7 + 1)")
    case None
    then show ?thesis using m(2) assms by simp
  next
    case (Some n)
    have n: "ty * 10 ^ 7 + 1 \<le> n" "n \<le> ty * 10 ^ 7 + 1 + 9999999"
      using code_search_Some [OF Some] code_search_bound [OF Some] by auto
    let ?g = "take 10 l @ dec_of n" and ?s = "snd (CreateDevCode t s)"
    have d: "100 \<le> n div 10 ^ 7" "n div 10 ^ 7 < 1000" using n ty(3,4) by auto
    note g = new_id [OF I(1) d refl]
    have s: "?s = s\<lparr>gbid_list := insert ?g (gbid_list s),
        code_seq := (code_seq s)(int ty \<mapsto> Some (m\<lparr>handlemap := insert n (handlemap m)\<rparr>))\<rparr>"
      using m(2) Some by simp
    show ?thesis
      unfolding s
    proof (rule dev_invI)
      fix k assume "k \<in> gbid_list (s\<lparr>gbid_list := insert ?g (gbid_list s),
          code_seq := (code_seq s)(int ty \<mapsto> Some (m\<lparr>handlemap := insert n (handlemap m)\<rparr>))\<rparr>)"
      then show "wf_id k" using I(3) g(1) by auto
    next
      fix k m'
      assume k: "k \<in> gbid_list (s\<lparr>gbid_list := insert ?g (gbid_list s),
          code_seq := (code_seq s)(int ty \<mapsto> Some (m\<lparr>handlemap := insert n (handlemap m)\<rparr>))\<rparr>)"
        "take 10 k = take 10 l" "id_code k mod 10 ^ 7 \<noteq> 0"
        "code_seq (s\<lparr>gbid_list := insert ?g (gbid_list s),
          code_seq := (code_seq s)(int ty \<mapsto> Some (m\<lparr>handlemap := insert n (handlemap m)\<rparr>))\<rparr>) (int (id_type k)) = Some (Some m')"
      show "id_code k \<in> handlemap m'"
      proof (cases "k = ?g")
        case True
        then have "n mod 10 ^ 7 \<noteq> 0" using k(3) g(2) by simp
        then have "n \<noteq> (ty + 1) * 10 ^ 7" by auto
        then have "n div 10 ^ 7 = ty" using n by (intro div_nat_eqI) auto
        then have "id_type k = ty" using g(3) True by simp
        then show ?thesis using k(4) g(2) True by auto
      next
        case False
        then have "k \<in> gbid_list s" using k(1) by simp
        then show ?thesis using I(4) [of k] k(2-4) m(1) by (auto split: if_splits)
      qed
    qed (use I(1,2,5) ty(2) in auto)
  qed
qed (use assms in \<open>auto simp: CreateDevCode_def\<close>)

text \<open>The registry as the program runs it: the local id first, then ids added, deleted and created.\<close>

inductive dev_reach :: "bytes \<Rightarrow> dev_code_mng \<Rightarrow> bool" for l where
  dev_init: "wf_id l \<Longrightarrow> dev_reach l (SetLocalGBID l CDevCodeMng)"
| dev_add: "dev_reach l s \<Longrightarrow> wf_id g \<Longrightarrow> dev_reach l (AddDevCodeID g s)"
| dev_del: "dev_reach l s \<Longrightarrow> wf_id g \<Longrightarrow> dev_reach l (DelDevCodeID g s)"
| dev_create: "dev_reach l s \<Longrightarrow> CreateDevCode t s = (g, s') \<Longrightarrow> dev_reach l s'"

lemma start_inv: "wf_id l \<Longrightarrow> dev_inv l (SetLocalGBID l CDevCodeMng)"
proof -
  assume l: "wf_id l"
  have "dev_inv l (CDevCodeMng\<lparr>local_gbid := l\<rparr>)"
    using l by (intro dev_invI) (auto simp: CDevCodeMng_def dev_ranges_def dev_types_def)
  moreover have "SetLocalGBID l CDevCodeMng = AddDevCodeID l (CDevCodeMng\<lparr>local_gbid := l\<rparr>)"
    using l by (auto simp: SetLocalGBID_def CDevCodeMng_def wf_id_def)
  ultimately show ?thesis using add_inv l by simp
qed

lemma dev_reach_inv: "dev_reach l s \<Longrightarrow> dev_inv l s"
proof (induction rule: dev_reach.induct)
  case (dev_create s t g s')
  then show ?case using create_inv [of l s t] by simp
qed (auto intro: start_inv add_inv del_inv)

text \<open>
  The type that the code of a new identifier has: the requested one when it is a device type, but
  217 for a number that is none and for \<open>ALARMCONTROL_CODE\<close> (117).
\<close>

definition code_type :: "int \<Rightarrow> int" where
  "code_type t = (if t \<in> EM_Node_Type - {117} then t else 217)"

lemma create_range_type:
  assumes "0 < t" "t < 218"
  shows "create_range t = (nat (code_type t) * 10 ^ 7 + 1, code_type t)"
proof -
  have e: "t \<in> EM_Node_Type - {117} \<longleftrightarrow> t \<in> {118, 132, 214, 200, 216, 111, 114, 113, 131, 215, 217}"
    using assms by (auto simp: EM_Node_Type_def)
  show ?thesis
  proof (cases "t \<in> EM_Node_Type - {117}")
    case True
    then show ?thesis unfolding e insert_iff empty_iff
      by (elim disjE FalseE) (simp_all add: create_range_def code_type_def EM_Node_Type_def)
  next
    case False
    then have "t \<notin> {118, 132, 214, 200, 216, 111, 114, 113, 131, 215, 217}" using e by blast
    then show ?thesis using False by (simp add: create_range_def code_type_def)
  qed
qed

text \<open>
  C19.  Fresh device codes: in every state reached from the local identifier by adding, deleting and
  creating well-formed identifiers, \<open>CreateDevCode\<close> with a free code left returns an identifier that
  is not registered yet, of 20 digits, with the local domain and the number of its type, takes the
  least free code above the type's number and seven zeros, and leaves it registered.  The type is
  the one requested when that is an enumerator of \<open>EM_Node_Type\<close> other than \<open>ALARMCONTROL_CODE\<close>
  (117); an alarm host, like a number outside the enumeration, gets a code of type 217, although
  the registry keeps a range for 117 and the comment beside the code names it.
\<close>

theorem CreateDevCode_fresh:
  assumes "dev_reach l s" "0 < t" "t < 218" "ty = (if t \<in> EM_Node_Type - {117} then nat t else 217)"
    "code_seq s (int ty) = Some (Some m)" "ty * 10 ^ 7 < k" "k < (ty + 1) * 10 ^ 7" "k \<notin> handlemap m"
  shows "\<exists>g s'. CreateDevCode t s = (g, s') \<and> g \<notin> gbid_list s \<and> wf_id g \<and> take 10 g = take 10 l \<and>
     GetDeviceType g = int ty \<and> ty * 10 ^ 7 < id_code g \<and> id_code g \<notin> handlemap m \<and>
     (\<forall>j. ty * 10 ^ 7 < j \<and> j < id_code g \<longrightarrow> j \<in> handlemap m) \<and> id_code g \<le> k \<and> IsDevCodeExist g s'"
proof -
  have inv: "dev_inv l s" by (rule dev_reach_inv [OF assms(1)])
  note I = dev_invD [OF inv]
  define h where "h = ty * 10 ^ 7 + 1"
  have "code_type t = int ty" using assms(2,4) by (simp add: code_type_def)
  then have r: "create_range t = (h, int ty)" using create_range_type [OF assms(2,3)] by (simp add: h_def)
  then have ty: "100 \<le> ty" "ty < 218" using create_range_base [of t] by (metis prod.inject of_nat_eq_iff)+
  have k: "h \<le> k" "k \<le> h + 9999998" using assms(6,7) by (auto simp: h_def)
  obtain n where n: "code_search (handlemap m) h h = Some n" "n \<le> k"
  proof -
    let ?n = "LEAST n. h \<le> n \<and> n \<notin> handlemap m"
    have "h \<le> ?n \<and> ?n \<notin> handlemap m" by (rule LeastI [of _ k]) (use assms(8) k in simp)
    moreover have "?n \<le> k" by (rule Least_le) (use assms(8) k in simp)
    moreover have "j \<in> handlemap m" if "h \<le> j" "j < ?n" for j using not_less_Least [OF that(2)] that(1) by blast
    ultimately show ?thesis using that [of ?n] code_search_finds [of h ?n h "handlemap m"] k(2) by auto
  qed
  have s: "h \<le> n" "n \<notin> handlemap m" "\<And>j. h \<le> j \<Longrightarrow> j < n \<Longrightarrow> j \<in> handlemap m" using code_search_Some [OF n(1)] by auto
  have d: "n div 10 ^ 7 = ty" "n mod 10 ^ 7 \<noteq> 0"
  proof -
    have b: "ty * 10 ^ 7 < n" "n < (ty + 1) * 10 ^ 7" using s(1) n(2) k(2) by (auto simp: h_def)
    then show q: "n div 10 ^ 7 = ty" by (intro div_nat_eqI) auto
    have "n = ty * 10 ^ 7 + n mod 10 ^ 7" using div_mult_mod_eq [of n "10 ^ 7", symmetric] unfolding q .
    then show "n mod 10 ^ 7 \<noteq> 0" using b(1) by linarith
  qed
  let ?g = "take 10 l @ dec_of n"
  have g: "wf_id ?g" "id_code ?g = n" "id_type ?g = ty" "take 10 ?g = take 10 l"
    using new_id [OF I(1) _ _ d(1)] ty by auto
  have c0: "fst (CreateDevCode t s) = ?g \<and> ?g \<in> gbid_list (snd (CreateDevCode t s))"
  proof (rule create_eq [OF inv assms(2,3) r])
    fix m' assume m': "code_seq s (int ty) = Some (Some m')" "CreateDevCode t s =
       (case code_search (handlemap m') h h of
          None \<Rightarrow> ([], s)
        | Some n \<Rightarrow> (take 10 l @ dec_of n,
            s\<lparr>gbid_list := insert (take 10 l @ dec_of n) (gbid_list s),
              code_seq := (code_seq s)(int ty \<mapsto> Some (m'\<lparr>handlemap := insert n (handlemap m')\<rparr>))\<rparr>))"
    then show ?thesis using assms(5) n(1) by simp
  qed
  then obtain s' where c: "CreateDevCode t s = (?g, s')" "?g \<in> gbid_list s'" by (metis prod.collapse)
  have "?g \<notin> gbid_list s" using I(4) [OF _ g(4), of m] g(2,3) d(2) s(2) assms(5) by auto
  then show ?thesis
    using c g s n(2) wf_id_reads [OF g(1)] by (auto simp: IsDevCodeExist_def h_def)
qed

definition sample_gbid :: bytes where "sample_gbid = bs ''34020000002000000001''"

theorem CreateDevCode_fresh_witness:
  "\<exists>g s'. CreateDevCode 113 (SetLocalGBID sample_gbid CDevCodeMng) = (g, s') \<and> g \<noteq> sample_gbid \<and> wf_id g \<and>
     GetDeviceType g = 113 \<and> id_code g = 1130000001"
proof -
  let ?s = "SetLocalGBID sample_gbid CDevCodeMng"
  have wf: "wf_id sample_gbid" by (simp add: wf_id_def sample_gbid_def is_digit_def)
  have g: "sample_gbid \<in> gbid_list ?s" by (simp add: SetLocalGBID_def AddDevCodeID_def CDevCodeMng_def sample_gbid_def Let_def)
  have t: "GetDeviceType sample_gbid = 200"
    by (simp add: GetDeviceType_def sample_gbid_def span_def String2Int_def scan_int_def c_isspace_def is_digit_def digits_val_def digit_val_def)
  have m: "code_seq ?s (int 113) = Some (Some (CHnaldeMrg 1130000001 1139999999))"
    using wf t by (simp add: SetLocalGBID_def AddDevCodeID_def Let_def wf_id_def sample_gbid_def CDevCodeMng_def dev_ranges_def)
  have ty: "113 = (if (113 :: int) \<in> EM_Node_Type - {117} then nat 113 else 217)" by (simp add: EM_Node_Type_def)
  have k: "1130000001 \<notin> handlemap (CHnaldeMrg 1130000001 1139999999)" by (simp add: CHnaldeMrg_def)
  from CreateDevCode_fresh [OF dev_init [OF wf] _ _ ty m _ _ k]
  obtain g s' where "CreateDevCode 113 ?s = (g, s')" "g \<notin> gbid_list ?s" "wf_id g" "GetDeviceType g = 113"
    "1130000000 < id_code g" "id_code g \<le> 1130000001" by auto
  then show ?thesis using g by (intro exI [of _ g] exI [of _ s']) auto
qed

text \<open>
  C28.  The end of a range is off by one: when every code of a type up to its last one is taken, the
  next code is the first number of the following type (its comment says 9999999, the constant is
  9999998 and the test comes before the increment), so the identifier has the wrong type, and it is
  returned even when it is already registered.
\<close>

theorem CreateDevCode_overrun:
  assumes "dev_inv l s" "create_range t = (ty * 10 ^ 7 + 1, int ty)" "0 < t" "t < 218"
    "code_seq s (int ty) = Some (Some m)" "\<forall>k. ty * 10 ^ 7 + 1 \<le> k \<longrightarrow> k \<le> ty * 10 ^ 7 + 9999999 \<longrightarrow> k \<in> handlemap m"
    "(ty + 1) * 10 ^ 7 \<notin> handlemap m"
  shows "fst (CreateDevCode t s) = take 10 l @ dec_of ((ty + 1) * 10 ^ 7) \<and> GetDeviceType (fst (CreateDevCode t s)) = int ty + 1"
proof -
  note I = dev_invD [OF assms(1)]
  have ty: "100 \<le> ty" "ty < 218" using create_range_base [of t] assms(2) by (metis prod.inject of_nat_eq_iff)+
  have n: "code_search (handlemap m) (ty * 10 ^ 7 + 1) (ty * 10 ^ 7 + 1) = Some ((ty + 1) * 10 ^ 7)"
    using assms(6,7) by (intro code_search_finds) auto
  have c: "fst (CreateDevCode t s) = take 10 l @ dec_of ((ty + 1) * 10 ^ 7)"
  proof (rule create_eq [OF assms(1,3,4,2)])
    fix m' assume "code_seq s (int ty) = Some (Some m')" "CreateDevCode t s =
       (case code_search (handlemap m') (ty * 10 ^ 7 + 1) (ty * 10 ^ 7 + 1) of
          None \<Rightarrow> ([], s)
        | Some n \<Rightarrow> (take 10 l @ dec_of n,
            s\<lparr>gbid_list := insert (take 10 l @ dec_of n) (gbid_list s),
              code_seq := (code_seq s)(int ty \<mapsto> Some (m'\<lparr>handlemap := insert n (handlemap m')\<rparr>))\<rparr>))"
    then show ?thesis using assms(5) n by simp
  qed
  have "wf_id (take 10 l @ dec_of ((ty + 1) * 10 ^ 7))" "id_type (take 10 l @ dec_of ((ty + 1) * 10 ^ 7)) = ty + 1"
    using new_id [OF I(1), of "ty + 1" "(ty + 1) * 10 ^ 7"] ty by auto
  then show ?thesis using c wf_id_reads by simp
qed

theorem CreateDevCode_overrun_witness:
  "let m = CHnaldeMrg 1180000001 1189999999;
       s = CDevCodeMng\<lparr>local_gbid := sample_gbid,
         code_seq := (code_seq CDevCodeMng)(118 \<mapsto> Some (m\<lparr>handlemap := {1180000001..1189999999}\<rparr>))\<rparr>
   in GetDeviceType (fst (CreateDevCode 118 s)) = 119"
proof -
  let ?m = "(CHnaldeMrg 1180000001 1189999999)\<lparr>handlemap := {1180000001..1189999999}\<rparr>"
  let ?s = "CDevCodeMng\<lparr>local_gbid := sample_gbid, code_seq := (code_seq CDevCodeMng)(118 \<mapsto> Some ?m)\<rparr>"
  have "wf_id sample_gbid" by (simp add: wf_id_def sample_gbid_def is_digit_def)
  then have i: "dev_inv sample_gbid ?s"
    by (intro dev_invI) (auto simp: CDevCodeMng_def dev_ranges_def dev_types_def)
  have r: "create_range 118 = (118 * 10 ^ 7 + 1, int 118)" by (simp add: create_range_def)
  have c: "code_seq ?s (int 118) = Some (Some ?m)" by simp
  have "GetDeviceType (fst (CreateDevCode 118 ?s)) = int 118 + 1"
    by (rule conjunct2 [OF CreateDevCode_overrun [OF i r _ _ c]]) simp_all
  then show ?thesis by (simp only: Let_def)
qed

end
