(* ===== verification/Gb_Devices.thy ===== *)
theory Gb_Devices
  imports Gb_Ids "HOL-Library.RBT" "HOL-Library.List_Lexorder"
begin

text \<open>
  The registry of the devices, their channels and the virtual organizations
  (\<open>src/deviceMng/deviceMng.cpp\<close>, \<open>BaseDevice.cpp\<close>).  A \<open>std::map\<close> is a red-black tree over the order of
  \<open>std::string\<close>, the lexicographic one on unsigned bytes; its iteration is the list of its entries.
  Devices and channels are objects behind shared pointers: the state has a heap of each, the maps
  hold addresses, and a null pointer is \<open>None\<close>.  Each mutex protects whole operations.
\<close>

section \<open>Devices and channels\<close>

datatype devtype = JSON_NVR | SRC_DEVTYPE_GB28181

record base_device =
  devType :: devtype
  deviceId :: bytes
  mLoginId :: u64
  mIP :: bytes
  mPort :: u16
  mName :: bytes
  mUser :: bytes
  mPswd :: bytes
  mGBID :: bytes
  mUpdateTime :: bytes
  mProtocol :: bytes
  mDevType :: bytes
  bd_status :: int

definition setStatus :: "int \<Rightarrow> base_device \<Rightarrow> base_device" where "setStatus v d = d\<lparr>bd_status := v\<rparr>"
definition setIp :: "bytes \<Rightarrow> base_device \<Rightarrow> base_device" where "setIp v d = d\<lparr>mIP := v\<rparr>"
definition setPort :: "u16 \<Rightarrow> base_device \<Rightarrow> base_device" where "setPort v d = d\<lparr>mPort := v\<rparr>"
definition setUser :: "bytes \<Rightarrow> base_device \<Rightarrow> base_device" where "setUser v d = d\<lparr>mUser := v\<rparr>"
definition setPswd :: "bytes \<Rightarrow> base_device \<Rightarrow> base_device" where "setPswd v d = d\<lparr>mPswd := v\<rparr>"
definition setName :: "bytes \<Rightarrow> base_device \<Rightarrow> base_device" where "setName v d = d\<lparr>mName := v\<rparr>"
definition setGBID :: "bytes \<Rightarrow> base_device \<Rightarrow> base_device" where "setGBID v d = d\<lparr>mGBID := v\<rparr>"
definition setLastUpdate :: "bytes \<Rightarrow> base_device \<Rightarrow> base_device" where "setLastUpdate v d = d\<lparr>mUpdateTime := v\<rparr>"
definition setDevType :: "bytes \<Rightarrow> base_device \<Rightarrow> base_device" where "setDevType v d = d\<lparr>mDevType := v\<rparr>"
definition setProtocol :: "bytes \<Rightarrow> base_device \<Rightarrow> base_device" where "setProtocol v d = d\<lparr>mProtocol := v\<rparr>"

text \<open>The port is a signed \<open>short\<close>.  A null \<open>info\<close> is \<open>None\<close>.\<close>

definition updateDeviceInfo :: "base_device option \<Rightarrow> base_device \<Rightarrow> base_device" where
  "updateDeviceInfo info d =
     (case info of
        None \<Rightarrow> d
      | Some i \<Rightarrow>
          let d = (if mDevType i \<noteq> [] \<and> mDevType d \<noteq> mDevType i then d\<lparr>mDevType := mDevType i\<rparr> else d);
              d = (if mProtocol i \<noteq> [] \<and> mProtocol d \<noteq> mProtocol i then d\<lparr>mProtocol := mProtocol i\<rparr> else d);
              d = (if mIP i \<noteq> [] \<and> mIP d \<noteq> mIP i then d\<lparr>mIP := mIP i\<rparr> else d);
              d = (if sint (mPort i) > 0 \<and> mPort d \<noteq> mPort i then d\<lparr>mPort := mPort i\<rparr> else d);
              d = (if mUser i \<noteq> [] \<and> mUser d \<noteq> mUser i then d\<lparr>mUser := mUser i\<rparr> else d);
              d = (if mPswd i \<noteq> [] \<and> mPswd d \<noteq> mPswd i then d\<lparr>mPswd := mPswd i\<rparr> else d)
          in if mName i \<noteq> [] \<and> mName d \<noteq> mName i then d\<lparr>mName := mName i\<rparr> else d)"

record child_device =
  ch_deviceId :: bytes
  mParentDev :: "nat option"
  ch_name :: bytes
  ch_status :: int
  parentId :: bytes
  ChildIp :: bytes
  ch_GBID :: bytes
  ch_UpdateTime :: bytes
  ch_channel :: int
  ptzCmd :: int

definition ch_setId :: "bytes \<Rightarrow> child_device \<Rightarrow> child_device" where "ch_setId v d = d\<lparr>ch_deviceId := v\<rparr>"
definition ch_setName :: "bytes \<Rightarrow> child_device \<Rightarrow> child_device" where "ch_setName v d = d\<lparr>ch_name := v\<rparr>"
definition ch_setStatus :: "int \<Rightarrow> child_device \<Rightarrow> child_device" where "ch_setStatus v d = d\<lparr>ch_status := v\<rparr>"
definition ch_setParentId :: "bytes \<Rightarrow> child_device \<Rightarrow> child_device" where "ch_setParentId v d = d\<lparr>parentId := v\<rparr>"
definition ch_setChildIp :: "bytes \<Rightarrow> child_device \<Rightarrow> child_device" where "ch_setChildIp v d = d\<lparr>ChildIp := v\<rparr>"
definition ch_setGBID :: "bytes \<Rightarrow> child_device \<Rightarrow> child_device" where "ch_setGBID v d = d\<lparr>ch_GBID := v\<rparr>"
definition ch_setChannel :: "int \<Rightarrow> child_device \<Rightarrow> child_device" where "ch_setChannel v d = d\<lparr>ch_channel := v\<rparr>"
definition ch_setLastPtzCmd :: "int \<Rightarrow> child_device \<Rightarrow> child_device" where "ch_setLastPtzCmd v d = d\<lparr>ptzCmd := v\<rparr>"
definition ch_setLastUpdate :: "bytes \<Rightarrow> child_device \<Rightarrow> child_device" where "ch_setLastUpdate v d = d\<lparr>ch_UpdateTime := v\<rparr>"

text \<open>
  The catalog entry of a channel.  \<open>utf8ToGbk\<close> is \<open>Utf8ToGbk\<close>, which calls \<open>iconv\<close>; the two coordinates
  are floating-point zeros and left out.
\<close>

record catalog_item =
  ci_DeviceID :: bytes
  ci_Name :: bytes
  ci_Manufacturer :: bytes
  ci_Model :: bytes
  ci_Owner :: bytes
  ci_CivilCode :: bytes
  ci_Block :: bytes
  ci_Address :: bytes
  ci_Parental :: int
  ci_ParentID :: bytes
  ci_SafetyWay :: int
  ci_RegisterWay :: int
  ci_CertNum :: int
  ci_Certifiable :: int
  ci_ErrCode :: int
  ci_EndTime :: bytes
  ci_Secrecy :: int
  ci_IPAddress :: bytes
  ci_Port :: int
  ci_Password :: bytes
  ci_Status :: bytes

definition GetCatalogItem :: "(bytes \<Rightarrow> bytes) \<Rightarrow> bytes \<Rightarrow> child_device \<Rightarrow> catalog_item" where
  "GetCatalogItem utf8ToGbk myId d =
     \<lparr>ci_DeviceID = ch_deviceId d,
      ci_Name = (if ch_name d = [] then [] else utf8ToGbk (ch_name d)),
      ci_Manufacturer = bs ''VSK'', ci_Model = [], ci_Owner = [], ci_CivilCode = take 6 (ch_deviceId d), ci_Block = [],
      ci_Address = [], ci_Parental = 0,
      ci_ParentID = (if parentId d = [] then myId else parentId d),
      ci_SafetyWay = 0, ci_RegisterWay = 1, ci_CertNum = 0, ci_Certifiable = 0, ci_ErrCode = 0, ci_EndTime = [],
      ci_Secrecy = 0, ci_IPAddress = ChildIp d, ci_Port = 0, ci_Password = [],
      ci_Status = (if ch_status d \<noteq> 0 then bs ''ON'' else bs ''OFF'')\<rparr>"

section \<open>The registry\<close>

record virtual_organization =
  vo_DeviceID :: bytes
  vo_Name :: bytes
  vo_ParentID :: bytes
  vo_BusinessGroupID :: bytes

record device_mng =
  selfId :: bytes
  mDeviceMap :: "(bytes, nat option) rbt"
  mChildMap :: "(bytes, nat option) rbt"
  mVoMap :: "(bytes, virtual_organization) rbt"
  dev_heap :: "nat \<Rightarrow> base_device"
  child_heap :: "nat \<Rightarrow> child_device"

definition setSelfId :: "bytes \<Rightarrow> device_mng \<Rightarrow> device_mng" where
  "setSelfId i s = s\<lparr>selfId := i\<rparr>"

definition addDevice :: "nat \<Rightarrow> device_mng \<Rightarrow> device_mng" where
  "addDevice dev s = s\<lparr>mDeviceMap := RBT.insert (deviceId (dev_heap s dev)) (Some dev) (mDeviceMap s)\<rparr>"

text \<open>The pointer behind \<open>m[Id]->\<close>, where a missing key gives a new null pointer: following it is \<open>None\<close>.\<close>

definition mapped :: "(bytes, nat option) rbt \<Rightarrow> bytes \<Rightarrow> nat option" where
  "mapped m i = (case RBT.lookup m i of None \<Rightarrow> None | Some p \<Rightarrow> p)"

definition removeDevice :: "bytes \<Rightarrow> device_mng \<times> dev_code_mng \<Rightarrow> (device_mng \<times> dev_code_mng) option" where
  "removeDevice i = (\<lambda>(s, ids). do {
     dev \<leftarrow> mapped (mDeviceMap s) i;
     let ids = DelDevCodeID (mGBID (dev_heap s dev)) ids;
     Some (s\<lparr>mDeviceMap := RBT.delete i (mDeviceMap s)\<rparr>, ids) })"

definition findDevice :: "bytes \<Rightarrow> device_mng \<Rightarrow> nat option" where
  "findDevice i s = (case RBT.lookup (mDeviceMap s) i of Some p \<Rightarrow> p | None \<Rightarrow> None)"

definition addChildDevice :: "nat \<Rightarrow> device_mng \<Rightarrow> device_mng" where
  "addChildDevice ch s = s\<lparr>mChildMap := RBT.insert (ch_deviceId (child_heap s ch)) (Some ch) (mChildMap s)\<rparr>"

definition removeChildDevice :: "bytes \<Rightarrow> device_mng \<times> dev_code_mng \<Rightarrow> (device_mng \<times> dev_code_mng) option" where
  "removeChildDevice i = (\<lambda>(s, ids). do {
     ch \<leftarrow> mapped (mChildMap s) i;
     let ids = DelDevCodeID (ch_GBID (child_heap s ch)) ids;
     Some (s\<lparr>mChildMap := RBT.delete i (mChildMap s)\<rparr>, ids) })"

definition findChildDevice :: "bytes \<Rightarrow> device_mng \<Rightarrow> nat option" where
  "findChildDevice i s = (case RBT.lookup (mChildMap s) i of Some p \<Rightarrow> p | None \<Rightarrow> None)"

text \<open>The search loops: the first channel of the map that satisfies a condition.\<close>

fun child_search :: "(nat \<Rightarrow> bool) \<Rightarrow> (bytes \<times> nat option) list \<Rightarrow> nat option" where
  "child_search c [] = None"
| "child_search c ((k, p) # es) =
     (case p of
        Some ch \<Rightarrow> if c ch then Some ch else child_search c es
      | None \<Rightarrow> child_search c es)"

definition findChildDeviceByGBID :: "bytes \<Rightarrow> device_mng \<Rightarrow> nat option" where
  "findChildDeviceByGBID g s = child_search (\<lambda>ch. ch_GBID (child_heap s ch) = g) (RBT.entries (mChildMap s))"

definition findChildDeviceByCCTVDeviceId :: "bytes \<Rightarrow> device_mng \<Rightarrow> nat option" where
  "findChildDeviceByCCTVDeviceId i s =
     (if i \<noteq> [] then child_search (\<lambda>ch. ch_name (child_heap s ch) = i) (RBT.entries (mChildMap s)) else None)"

definition getChildDevice :: "bytes \<Rightarrow> device_mng \<Rightarrow> nat option list \<Rightarrow> nat option list" where
  "getChildDevice i s out =
     (if i = [] \<or> i = selfId s then out @ map snd (RBT.entries (mChildMap s))
      else out @ filter (\<lambda>p. case p of Some ch \<Rightarrow> parentId (child_heap s ch) = i | None \<Rightarrow> False)
                   (map snd (RBT.entries (mChildMap s))))"

definition addVirtualOrganization :: "virtual_organization \<Rightarrow> device_mng \<Rightarrow> device_mng" where
  "addVirtualOrganization v s = s\<lparr>mVoMap := RBT.insert (vo_DeviceID v) v (mVoMap s)\<rparr>"

definition removeVirtualOrganization :: "bytes \<Rightarrow> device_mng \<Rightarrow> device_mng" where
  "removeVirtualOrganization i s = s\<lparr>mVoMap := RBT.delete i (mVoMap s)\<rparr>"

definition findVirtualOrganization :: "bytes \<Rightarrow> device_mng \<Rightarrow> virtual_organization option" where
  "findVirtualOrganization i s = RBT.lookup (mVoMap s) i"

text \<open>
  The breadth-first search below an organization: the list that is returned, the queue and the
  identifiers seen.  \<open>vo_scan\<close> is the loop over the map, \<open>vo_loop\<close> the one over the queue.
\<close>

type_synonym vo_search = "virtual_organization list \<times> bytes list \<times> bytes set"

fun vo_scan :: "bytes \<Rightarrow> (bytes \<times> virtual_organization) list \<Rightarrow> vo_search \<Rightarrow> vo_search" where
  "vo_scan cur [] st = st"
| "vo_scan cur ((k, v) # es) (out, queue, visited) =
     vo_scan cur es
       (if vo_ParentID v = cur \<and> vo_DeviceID v \<notin> visited
        then (out @ [v], queue @ [vo_DeviceID v], insert (vo_DeviceID v) visited)
        else (out, queue, visited))"

abbreviation vo_left :: "(bytes \<times> virtual_organization) list \<Rightarrow> vo_search \<Rightarrow> nat" where
  "vo_left es st \<equiv> (case st of (out, queue, visited) \<Rightarrow> 2 * card (vo_DeviceID ` snd ` set es - visited) + length queue)"

lemma card_insert_less: "finite A \<Longrightarrow> x \<in> A \<Longrightarrow> x \<notin> B \<Longrightarrow> Suc (card (A - insert x B)) = card (A - B)"
  by (metis Diff_iff Diff_insert card_Suc_Diff1 finite_Diff)

lemma vo_scan_left: "set es \<subseteq> set all \<Longrightarrow> vo_left all (vo_scan cur es st) \<le> vo_left all st"
proof (induction cur es st rule: vo_scan.induct)
  case (2 cur k v es out queue visited)
  have "vo_DeviceID v \<in> vo_DeviceID ` snd ` set all" using 2(2) by force
  then have "vo_DeviceID v \<notin> visited \<Longrightarrow>
      Suc (card (vo_DeviceID ` snd ` set all - insert (vo_DeviceID v) visited)) = card (vo_DeviceID ` snd ` set all - visited)"
    by (intro card_insert_less) auto
  then show ?case using 2 by (auto split: prod.splits if_splits)
qed auto

function vo_loop :: "(bytes \<times> virtual_organization) list \<Rightarrow> vo_search \<Rightarrow> virtual_organization list" where
  "vo_loop es (out, [], visited) = out"
| "vo_loop es (out, cur # queue, visited) = vo_loop es (vo_scan cur es (out, queue, visited))"
  by pat_completeness auto
termination
proof (relation "measure (\<lambda>(es, st). vo_left es st)")
  fix es :: "(bytes \<times> virtual_organization) list" and out cur queue visited
  show "((es, vo_scan cur es (out, queue, visited)), es, out, cur # queue, visited) \<in> measure (\<lambda>(es, st). vo_left es st)"
    using vo_scan_left [of es es cur "(out, queue, visited)"] by (auto split: prod.splits)
qed simp

definition getVirtualOrganization :: "bytes \<Rightarrow> device_mng \<Rightarrow> virtual_organization list \<Rightarrow> virtual_organization list" where
  "getVirtualOrganization i s out =
     (let es = RBT.entries (mVoMap s) in
      if i = [] then out @ map snd es else vo_loop es (out, [i], {i}))"

section \<open>Organizations below an organization\<close>

text \<open>The organizations below \<open>i\<close>: its children, and the children of those below it.\<close>

inductive below :: "(bytes \<rightharpoonup> virtual_organization) \<Rightarrow> bytes \<Rightarrow> bytes \<Rightarrow> bool" for m i where
  below_child: "m k = Some v \<Longrightarrow> vo_ParentID v = i \<Longrightarrow> below m i k"
| below_deeper: "below m i j \<Longrightarrow> m k = Some v \<Longrightarrow> vo_ParentID v = j \<Longrightarrow> below m i k"

text \<open>An organization is filed under its own identifier.\<close>

definition wf_vos :: "(bytes \<rightharpoonup> virtual_organization) \<Rightarrow> bool" where
  "wf_vos m \<longleftrightarrow> (\<forall>k v. m k = Some v \<longrightarrow> vo_DeviceID v = k)"

text \<open>A list in which every organization comes after its parent, unless the parent is \<open>i\<close>.\<close>

definition parents_first :: "bytes \<Rightarrow> virtual_organization list \<Rightarrow> bool" where
  "parents_first i vs \<longleftrightarrow> (\<forall>n < length vs. vo_ParentID (vs ! n) \<in> insert i (vo_DeviceID ` set (take n vs)))"

lemma parents_first_app:
  "parents_first i vs \<Longrightarrow> (\<And>v. v \<in> set ws \<Longrightarrow> vo_ParentID v \<in> insert i (vo_DeviceID ` set vs)) \<Longrightarrow> parents_first i (vs @ ws)"
  unfolding parents_first_def
proof (intro allI impI)
  fix n
  assume a: "\<forall>n < length vs. vo_ParentID (vs ! n) \<in> insert i (vo_DeviceID ` set (take n vs))"
    "\<And>v. v \<in> set ws \<Longrightarrow> vo_ParentID v \<in> insert i (vo_DeviceID ` set vs)" "n < length (vs @ ws)"
  show "vo_ParentID ((vs @ ws) ! n) \<in> insert i (vo_DeviceID ` set (take n (vs @ ws)))"
  proof (cases "n < length vs")
    case False
    then have "(vs @ ws) ! n \<in> set ws" using a(3) by (simp add: nth_append)
    then show ?thesis using a(2) False by auto
  qed (use a(1) in \<open>simp add: nth_append\<close>)
qed

lemma vo_scan_finds:
  "\<exists>ns. vo_scan cur es (out, queue, visited) = (out @ ns, queue @ map vo_DeviceID ns, visited \<union> vo_DeviceID ` set ns) \<and>
    (\<forall>v \<in> set ns. vo_ParentID v = cur \<and> vo_DeviceID v \<notin> visited \<and> (\<exists>k. (k, v) \<in> set es)) \<and>
    distinct (map vo_DeviceID ns) \<and>
    (\<forall>(k, v) \<in> set es. vo_ParentID v = cur \<longrightarrow> vo_DeviceID v \<in> visited \<union> vo_DeviceID ` set ns)"
proof (induction es arbitrary: out queue visited)
  case (Cons e es)
  obtain k v where e: "e = (k, v)" by (cases e)
  show ?case
  proof (cases "vo_ParentID v = cur \<and> vo_DeviceID v \<notin> visited")
    case True
    obtain ns where ns: "vo_scan cur es (out @ [v], queue @ [vo_DeviceID v], insert (vo_DeviceID v) visited) =
        ((out @ [v]) @ ns, (queue @ [vo_DeviceID v]) @ map vo_DeviceID ns, insert (vo_DeviceID v) visited \<union> vo_DeviceID ` set ns)"
      "\<forall>w \<in> set ns. vo_ParentID w = cur \<and> vo_DeviceID w \<notin> insert (vo_DeviceID v) visited \<and> (\<exists>k. (k, w) \<in> set es)"
      "distinct (map vo_DeviceID ns)"
      "\<forall>(k, w) \<in> set es. vo_ParentID w = cur \<longrightarrow> vo_DeviceID w \<in> insert (vo_DeviceID v) visited \<union> vo_DeviceID ` set ns"
      using Cons.IH [of "out @ [v]" "queue @ [vo_DeviceID v]" "insert (vo_DeviceID v) visited"] by blast
    then show ?thesis using True e by (intro exI [of _ "v # ns"]) auto
  next
    case False
    obtain ns where ns: "vo_scan cur es (out, queue, visited) = (out @ ns, queue @ map vo_DeviceID ns, visited \<union> vo_DeviceID ` set ns)"
      "\<forall>w \<in> set ns. vo_ParentID w = cur \<and> vo_DeviceID w \<notin> visited \<and> (\<exists>k. (k, w) \<in> set es)"
      "distinct (map vo_DeviceID ns)"
      "\<forall>(k, w) \<in> set es. vo_ParentID w = cur \<longrightarrow> vo_DeviceID w \<in> visited \<union> vo_DeviceID ` set ns"
      using Cons.IH [of out queue visited] by blast
    then show ?thesis using False e by (intro exI [of _ ns]) auto
  qed
qed simp

text \<open>
  The state of the search below \<open>i\<close>: \<open>ns\<close> has been found; the children of what has left the queue
  have been seen.
\<close>

definition bfs_inv :: "(bytes \<times> virtual_organization) list \<Rightarrow> bytes \<Rightarrow> virtual_organization list \<Rightarrow> bytes list \<Rightarrow> bytes set \<Rightarrow> bool" where
  "bfs_inv es i ns queue visited \<longleftrightarrow>
     visited = insert i (vo_DeviceID ` set ns) \<and> distinct (map vo_DeviceID ns) \<and> i \<notin> vo_DeviceID ` set ns \<and>
     (\<forall>v \<in> set ns. below (map_of es) i (vo_DeviceID v) \<and> map_of es (vo_DeviceID v) = Some v) \<and>
     set queue \<subseteq> visited \<and> parents_first i ns \<and>
     (\<forall>x \<in> visited - set queue. \<forall>k v. map_of es k = Some v \<longrightarrow> vo_ParentID v = x \<longrightarrow> k \<in> visited)"

lemma bfs_inv_step:
  assumes "bfs_inv es i ns (cur # queue) visited" "wf_vos (map_of es)" "distinct (map fst es)"
    "vo_scan cur es (out, queue, visited) = (out @ ms, queue @ map vo_DeviceID ms, visited \<union> vo_DeviceID ` set ms)"
    "\<forall>v \<in> set ms. vo_ParentID v = cur \<and> vo_DeviceID v \<notin> visited \<and> (\<exists>k. (k, v) \<in> set es)"
    "distinct (map vo_DeviceID ms)"
    "\<forall>(k, v) \<in> set es. vo_ParentID v = cur \<longrightarrow> vo_DeviceID v \<in> visited \<union> vo_DeviceID ` set ms"
  shows "bfs_inv es i (ns @ ms) (queue @ map vo_DeviceID ms) (visited \<union> vo_DeviceID ` set ms)"
proof -
  note I = assms(1) [unfolded bfs_inv_def]
  have closed: "x \<in> visited \<Longrightarrow> x \<notin> set (cur # queue) \<Longrightarrow> map_of es k = Some v \<Longrightarrow> vo_ParentID v = x \<Longrightarrow> k \<in> visited" for x k v
    using I by blast
  have in_map: "map_of es (vo_DeviceID v) = Some v" if "(k, v) \<in> set es" for k v
    using that assms(2,3) by (auto simp: wf_vos_def)
  have cur: "cur \<in> insert i (vo_DeviceID ` set ns)" using I by auto
  have b: "below (map_of es) i (vo_DeviceID v)" if v: "v \<in> set ms" for v
  proof -
    have m: "map_of es (vo_DeviceID v) = Some v" "vo_ParentID v = cur" using v assms(5) in_map by auto
    show ?thesis
    proof (cases "cur = i")
      case False
      then have "below (map_of es) i cur" using cur I by auto
      then show ?thesis using m by (rule below_deeper)
    qed (use m in \<open>auto intro: below_child\<close>)
  qed
  have 7: "k \<in> visited \<union> vo_DeviceID ` set ms"
    if "x \<in> (visited \<union> vo_DeviceID ` set ms) - set (queue @ map vo_DeviceID ms)" "map_of es k = Some v" "vo_ParentID v = x" for x k v
  proof (cases "x = cur")
    case True
    have "(k, v) \<in> set es" "vo_DeviceID v = k" using that(2) assms(2) by (auto simp: wf_vos_def dest: map_of_SomeD)
    then show ?thesis using assms(7) that(3) True by auto
  next
    case False
    then show ?thesis using that closed [of x k v] by auto
  qed
  have d: "visited \<inter> vo_DeviceID ` set ms = {}" "visited = insert i (vo_DeviceID ` set ns)"
    "distinct (map vo_DeviceID ns)" "i \<notin> vo_DeviceID ` set ns" using assms(5) I by fast+
  then have 1: "visited \<union> vo_DeviceID ` set ms = insert i (vo_DeviceID ` set (ns @ ms))" by auto
  have 2: "distinct (map vo_DeviceID (ns @ ms))" "i \<notin> vo_DeviceID ` set (ns @ ms)"
    using d assms(6) by (auto simp: image_Un)
  have 3: "below (map_of es) i (vo_DeviceID v)" "map_of es (vo_DeviceID v) = Some v" if "v \<in> set (ns @ ms)" for v
    using that I assms(5) in_map b by auto
  have 4: "set (queue @ map vo_DeviceID ms) \<subseteq> visited \<union> vo_DeviceID ` set ms" using I by auto
  have 6: "parents_first i (ns @ ms)" using I assms(5) cur by (intro parents_first_app) auto
  show ?thesis unfolding bfs_inv_def by (intro conjI ballI allI impI; (rule 1 2 3 4 6 7; assumption)?)
qed

lemma vo_loop_inv:
  assumes "wf_vos (map_of es)" "distinct (map fst es)" "bfs_inv es i ns queue visited"
  shows "\<exists>vs visited'. vo_loop es (out @ ns, queue, visited) = out @ vs \<and> bfs_inv es i vs [] visited'"
  using assms
proof (induction es "(out @ ns, queue, visited)" arbitrary: ns queue visited rule: vo_loop.induct)
  case (2 es cur queue visited)
  obtain ms where ms: "vo_scan cur es (out @ ns, queue, visited) =
      ((out @ ns) @ ms, queue @ map vo_DeviceID ms, visited \<union> vo_DeviceID ` set ms)"
    "\<forall>v \<in> set ms. vo_ParentID v = cur \<and> vo_DeviceID v \<notin> visited \<and> (\<exists>k. (k, v) \<in> set es)"
    "distinct (map vo_DeviceID ms)"
    "\<forall>(k, v) \<in> set es. vo_ParentID v = cur \<longrightarrow> vo_DeviceID v \<in> visited \<union> vo_DeviceID ` set ms"
    using vo_scan_finds by blast
  have "bfs_inv es i (ns @ ms) (queue @ map vo_DeviceID ms) (visited \<union> vo_DeviceID ` set ms)"
    by (rule bfs_inv_step [OF 2(4,2,3) ms])
  then show ?case using 2(1) [of "ns @ ms"] 2(2,3) ms(1) by simp
qed auto

lemma bfs_complete:
  assumes "bfs_inv es i vs [] visited" "below (map_of es) i k"
  shows "k \<in> insert i (vo_DeviceID ` set vs)"
proof -
  have closed: "x \<in> visited \<Longrightarrow> map_of es k = Some v \<Longrightarrow> vo_ParentID v = x \<Longrightarrow> k \<in> visited" for x k v
    using assms(1) unfolding bfs_inv_def by simp blast
  have v: "visited = insert i (vo_DeviceID ` set vs)" using assms(1) by (simp add: bfs_inv_def)
  have "k \<in> visited" using assms(2) 
  proof induction
    case (below_child k w)
    then show ?case using closed [of i k w] v by simp
  next
    case (below_deeper j k w)
    then show ?case using closed [of j k w] by simp
  qed
  then show ?thesis by (simp add: v)
qed

text \<open>
  C21.  The organizations below an organization: \<open>getVirtualOrganization\<close> ends, also when the parent links
  run in circles, and appends the organizations below the given one, all of them, each once and
  without itself, every one after its parent.
\<close>

theorem getVirtualOrganization_below:
  assumes "wf_vos (RBT.lookup (mVoMap s))" "i \<noteq> []"
  shows "\<exists>vs. getVirtualOrganization i s out = out @ vs \<and> distinct vs \<and> parents_first i vs \<and>
    set vs = {v. \<exists>k. k \<noteq> i \<and> below (RBT.lookup (mVoMap s)) i k \<and> RBT.lookup (mVoMap s) k = Some v}"
proof -
  let ?es = "RBT.entries (mVoMap s)"
  have "bfs_inv ?es i [] [i] {i}" by (simp add: bfs_inv_def parents_first_def)
  then obtain vs visited where vs: "vo_loop ?es (out @ [], [i], {i}) = out @ vs" and I: "bfs_inv ?es i vs [] visited"
    using vo_loop_inv [of ?es i "[]" "[i]" "{i}" out] assms(1) by (auto simp: RBT.distinct_entries)
  have "v \<in> set vs" if "below (RBT.lookup (mVoMap s)) i k" "k \<noteq> i" "RBT.lookup (mVoMap s) k = Some v" for k v
    using bfs_complete [OF I, of k] that I unfolding bfs_inv_def by auto
  moreover have "distinct vs" "parents_first i vs" using I by (auto simp: bfs_inv_def distinct_map)
  moreover have "vo_DeviceID v \<noteq> i \<and> below (RBT.lookup (mVoMap s)) i (vo_DeviceID v) \<and> RBT.lookup (mVoMap s) (vo_DeviceID v) = Some v"
    if "v \<in> set vs" for v using that I unfolding bfs_inv_def by auto
  ultimately show ?thesis using vs assms(2)
    by (intro exI [of _ vs]) (auto simp: getVirtualOrganization_def Let_def)
qed

definition sample_vo :: "string \<Rightarrow> string \<Rightarrow> virtual_organization" where
  "sample_vo i p = \<lparr>vo_DeviceID = bs i, vo_Name = [], vo_ParentID = bs p, vo_BusinessGroupID = []\<rparr>"

definition sample_registry :: device_mng where
  "sample_registry = \<lparr>selfId = [], mDeviceMap = RBT.empty, mChildMap = RBT.empty,
     mVoMap = RBT.insert (bs ''a'') (sample_vo ''a'' ''c'') (RBT.insert (bs ''b'') (sample_vo ''b'' ''a'')
       (RBT.insert (bs ''c'') (sample_vo ''c'' ''b'') (RBT.insert (bs ''d'') (sample_vo ''d'' ''x'') RBT.empty))),
     dev_heap = (\<lambda>_. undefined), child_heap = (\<lambda>_. undefined)\<rparr>"

theorem getVirtualOrganization_below_witness:
  "\<exists>vs. getVirtualOrganization (bs ''a'') sample_registry [] = vs \<and> distinct vs \<and>
     sample_vo ''b'' ''a'' \<in> set vs \<and> sample_vo ''c'' ''b'' \<in> set vs \<and> sample_vo ''a'' ''c'' \<notin> set vs"
proof -
  let ?m = "RBT.lookup (mVoMap sample_registry)"
  have m: "?m = [bs ''d'' \<mapsto> sample_vo ''d'' ''x'', bs ''c'' \<mapsto> sample_vo ''c'' ''b'', bs ''b'' \<mapsto> sample_vo ''b'' ''a'',
      bs ''a'' \<mapsto> sample_vo ''a'' ''c'']"
    by (simp add: sample_registry_def)
  have wf: "wf_vos ?m" unfolding m by (auto simp: wf_vos_def sample_vo_def split: if_splits)
  have b: "below ?m (bs ''a'') (bs ''b'')" unfolding m by (rule below_child [of _ _ "sample_vo ''b'' ''a''"]) (simp_all add: sample_vo_def)
  then have c: "below ?m (bs ''a'') (bs ''c'')" by (rule below_deeper [of _ _ _ _ "sample_vo ''c'' ''b''"]) (simp_all add: m sample_vo_def)
  obtain vs where vs: "getVirtualOrganization (bs ''a'') sample_registry [] = [] @ vs" "distinct vs"
      "set vs = {v. \<exists>k. k \<noteq> bs ''a'' \<and> below ?m (bs ''a'') k \<and> ?m k = Some v}"
    using getVirtualOrganization_below [OF wf, of "bs ''a''" "[]"] by auto
  have "sample_vo ''b'' ''a'' \<in> set vs" unfolding vs(3)
    by (intro CollectI exI [of _ "bs ''b''"] conjI b) (simp_all add: m)
  moreover have "sample_vo ''c'' ''b'' \<in> set vs" unfolding vs(3)
    by (intro CollectI exI [of _ "bs ''c''"] conjI c) (simp_all add: m)
  moreover have "sample_vo ''a'' ''c'' \<notin> set vs"
    unfolding vs(3) by (auto simp: m sample_vo_def split: if_splits)
  ultimately show ?thesis using vs(1,2) by simp
qed

section \<open>The registry as a map\<close>

text \<open>
  What the maps of devices and of channels promise: an object is found under the identifier it had when it
  was added, until it is replaced or removed; removing needs the object to be there, and the rest
  stays.
\<close>

locale registry =
  fixes key :: "'s \<Rightarrow> nat \<Rightarrow> bytes"
    and find :: "bytes \<Rightarrow> 's \<Rightarrow> nat option"
    and add :: "nat \<Rightarrow> 's \<Rightarrow> 's"
    and del :: "bytes \<Rightarrow> 's \<times> 'i \<Rightarrow> ('s \<times> 'i) option"
  assumes key_add: "key (add r s) = key s"
    and find_add: "find i (add r s) = (if i = key s r then Some r else find i s)"
    and del_None: "del i (s, ids) = None \<longleftrightarrow> find i s = None"
    and key_del: "del i (s, ids) = Some (s', ids') \<Longrightarrow> key s' = key s"
    and find_del: "del i (s, ids) = Some (s', ids') \<Longrightarrow> find j s' = (if j = i then None else find j s)"
begin

definition filed :: "'s \<Rightarrow> bool" where
  "filed s \<longleftrightarrow> (\<forall>i r. find i s = Some r \<longrightarrow> key s r = i)"

lemma filed_add: "filed s \<Longrightarrow> filed (add r s)"
  by (simp add: filed_def find_add key_add)

lemma filed_del: "filed s \<Longrightarrow> del i (s, ids) = Some (s', ids') \<Longrightarrow> filed s'"
  by (simp add: filed_def find_del key_del)

lemma add_del:
  assumes "del (key s r) (add r s, ids) = Some (s', ids')"
  shows "find (key s r) s' = None" "j \<noteq> key s r \<Longrightarrow> find j s' = find j s"
  using assms by (simp_all add: find_del find_add)

lemma del_added: "\<exists>s' ids'. del (key s r) (add r s, ids) = Some (s', ids')"
  using del_None [of "key s r" "add r s" ids] by (cases "del (key s r) (add r s, ids)") (auto simp: find_add)

end

lemma mapped_simps [simp]:
  "mapped (RBT.insert k v m) i = (if i = k then v else mapped m i)"
  "mapped (RBT.delete k m) i = (if i = k then None else mapped m i)" "mapped RBT.empty i = None"
  by (simp_all add: mapped_def)

lemma find_mapped: "findDevice i s = mapped (mDeviceMap s) i" "findChildDevice i s = mapped (mChildMap s) i"
  by (simp_all add: findDevice_def findChildDevice_def mapped_def split: option.splits)

lemma remove_simps:
  "removeDevice i (s, ids) = (case mapped (mDeviceMap s) i of None \<Rightarrow> None
     | Some dev \<Rightarrow> Some (s\<lparr>mDeviceMap := RBT.delete i (mDeviceMap s)\<rparr>, DelDevCodeID (mGBID (dev_heap s dev)) ids))"
  "removeChildDevice i (s, ids) = (case mapped (mChildMap s) i of None \<Rightarrow> None
     | Some ch \<Rightarrow> Some (s\<lparr>mChildMap := RBT.delete i (mChildMap s)\<rparr>, DelDevCodeID (ch_GBID (child_heap s ch)) ids))"
  by (simp_all add: removeDevice_def removeChildDevice_def Let_def split: option.split)

interpretation devs: registry "\<lambda>s r. deviceId (dev_heap s r)" findDevice addDevice removeDevice
  by unfold_locales (auto simp: addDevice_def find_mapped remove_simps split: option.splits)

interpretation chs: registry "\<lambda>s r. ch_deviceId (child_heap s r)" findChildDevice addChildDevice removeChildDevice
  by unfold_locales (auto simp: addChildDevice_def find_mapped remove_simps split: option.splits)

section \<open>The states of the registry\<close>

text \<open>
  The objects of the program: the identifier of a device stays and so does that of a channel while it
  is registered (\<open>setId\<close> is called on channels that are not, see \<open>ch_setId_misfiled\<close>), the device codes
  they carry are well formed or not of the length of one, all other fields may change at any time.
\<close>

definition codes_ok :: "device_mng \<Rightarrow> bool" where
  "codes_ok s \<longleftrightarrow> (\<forall>r. (length (mGBID (dev_heap s r)) = 20 \<longrightarrow> wf_id (mGBID (dev_heap s r))) \<and>
                     (length (ch_GBID (child_heap s r)) = 20 \<longrightarrow> wf_id (ch_GBID (child_heap s r))))"

inductive reg_reach :: "bytes \<Rightarrow> device_mng \<times> dev_code_mng \<Rightarrow> bool" for l where
  reg_init: "dev_reach l ids \<Longrightarrow> codes_ok (\<lparr>selfId = i, mDeviceMap = RBT.empty, mChildMap = RBT.empty,
      mVoMap = RBT.empty, dev_heap = dh, child_heap = ch\<rparr>) \<Longrightarrow>
    reg_reach l (\<lparr>selfId = i, mDeviceMap = RBT.empty, mChildMap = RBT.empty, mVoMap = RBT.empty, dev_heap = dh, child_heap = ch\<rparr>, ids)"
| reg_code_add: "reg_reach l (s, ids) \<Longrightarrow> wf_id g \<Longrightarrow> reg_reach l (s, AddDevCodeID g ids)"
| reg_code_del: "reg_reach l (s, ids) \<Longrightarrow> wf_id g \<Longrightarrow> reg_reach l (s, DelDevCodeID g ids)"
| reg_code_create: "reg_reach l (s, ids) \<Longrightarrow> CreateDevCode t ids = (g, ids') \<Longrightarrow> reg_reach l (s, ids')"
| reg_objects: "reg_reach l (s, ids) \<Longrightarrow> (\<And>r. deviceId (dh r) = deviceId (dev_heap s r)) \<Longrightarrow>
    (\<And>i r. findChildDevice i s = Some r \<Longrightarrow> ch_deviceId (ch r) = ch_deviceId (child_heap s r)) \<Longrightarrow> codes_ok (s\<lparr>dev_heap := dh, child_heap := ch\<rparr>) \<Longrightarrow>
    reg_reach l (s\<lparr>dev_heap := dh, child_heap := ch\<rparr>, ids)"
| reg_self: "reg_reach l (s, ids) \<Longrightarrow> reg_reach l (setSelfId i s, ids)"
| reg_add: "reg_reach l (s, ids) \<Longrightarrow> reg_reach l (addDevice r s, ids)"
| reg_remove: "reg_reach l (s, ids) \<Longrightarrow> removeDevice i (s, ids) = Some s' \<Longrightarrow> reg_reach l s'"
| reg_add_child: "reg_reach l (s, ids) \<Longrightarrow> reg_reach l (addChildDevice r s, ids)"
| reg_remove_child: "reg_reach l (s, ids) \<Longrightarrow> removeChildDevice i (s, ids) = Some s' \<Longrightarrow> reg_reach l s'"
| reg_add_vo: "reg_reach l (s, ids) \<Longrightarrow> reg_reach l (addVirtualOrganization v s, ids)"
| reg_remove_vo: "reg_reach l (s, ids) \<Longrightarrow> reg_reach l (removeVirtualOrganization i s, ids)"

definition reg_inv :: "bytes \<Rightarrow> device_mng \<times> dev_code_mng \<Rightarrow> bool" where
  "reg_inv l = (\<lambda>(s, ids). dev_reach l ids \<and> codes_ok s \<and> devs.filed s \<and> chs.filed s \<and>
     (\<forall>i p. RBT.lookup (mDeviceMap s) i = Some p \<longrightarrow> p \<noteq> None) \<and> (\<forall>i p. RBT.lookup (mChildMap s) i = Some p \<longrightarrow> p \<noteq> None) \<and>
     wf_vos (RBT.lookup (mVoMap s)))"

lemma codes_del:
  assumes "dev_reach l ids" "length g = 20 \<longrightarrow> wf_id g"
  shows "dev_reach l (DelDevCodeID g ids)"
proof (cases "length g = 20")
  case False
  then show ?thesis using assms(1) by (simp add: DelDevCodeID_def)
qed (use assms in \<open>auto intro: dev_del\<close>)

lemma remove_Some:
  assumes "removeDevice i (s, ids) = Some (s', ids')"
  obtains dev where "RBT.lookup (mDeviceMap s) i = Some (Some dev)" "s' = s\<lparr>mDeviceMap := RBT.delete i (mDeviceMap s)\<rparr>"
    "ids' = DelDevCodeID (mGBID (dev_heap s dev)) ids"
  using assms by (auto simp: remove_simps mapped_def split: option.splits)

lemma remove_child_Some:
  assumes "removeChildDevice i (s, ids) = Some (s', ids')"
  obtains ch where "RBT.lookup (mChildMap s) i = Some (Some ch)" "s' = s\<lparr>mChildMap := RBT.delete i (mChildMap s)\<rparr>"
    "ids' = DelDevCodeID (ch_GBID (child_heap s ch)) ids"
  using assms by (auto simp: remove_simps mapped_def split: option.splits)

lemma filed_same:
  "mDeviceMap s' = mDeviceMap s \<Longrightarrow> (\<And>r. deviceId (dev_heap s' r) = deviceId (dev_heap s r)) \<Longrightarrow> devs.filed s' = devs.filed s"
  "mChildMap s' = mChildMap s \<Longrightarrow> (\<And>i r. findChildDevice i s = Some r \<Longrightarrow> ch_deviceId (child_heap s' r) = ch_deviceId (child_heap s r)) \<Longrightarrow>
     chs.filed s' = chs.filed s"
  by (auto simp add: devs.filed_def chs.filed_def find_mapped)

text \<open>A registered channel whose identifier is changed stays filed under the old one.\<close>

lemma ch_setId_misfiled:
  assumes "findChildDevice i s = Some r" "findChildDevice v s = None"
  defines "s' \<equiv> s\<lparr>child_heap := (child_heap s)(r := ch_setId v (child_heap s r))\<rparr>"
  shows "findChildDevice i s' = Some r \<and> ch_deviceId (child_heap s' r) = v \<and> findChildDevice v s' = None"
  using assms by (simp add: findChildDevice_def ch_setId_def)

lemma reg_reach_inv: "reg_reach l st \<Longrightarrow> reg_inv l st"
proof (induction rule: reg_reach.induct)
  case (reg_init ids i dh ch)
  then show ?case by (simp add: reg_inv_def devs.filed_def chs.filed_def find_mapped wf_vos_def)
next
  case (reg_code_create s ids t g ids')
  then show ?case by (auto simp: reg_inv_def intro: dev_create)
next
  case (reg_objects s ids dh ch)
  have "devs.filed (s\<lparr>dev_heap := dh, child_heap := ch\<rparr>) = devs.filed s" "chs.filed (s\<lparr>dev_heap := dh, child_heap := ch\<rparr>) = chs.filed s"
    using reg_objects(2) by (intro filed_same; simp) (use reg_objects(3) in \<open>intro filed_same; simp\<close>)
  then show ?case using reg_objects by (simp add: reg_inv_def)
next
  case (reg_self s ids i)
  then show ?case using filed_same [of "setSelfId i s" s] by (simp add: reg_inv_def setSelfId_def codes_ok_def)
next
  case (reg_add s ids r)
  then show ?case using devs.filed_add [of s r] filed_same(2) [of "addDevice r s" s]
    by (simp add: reg_inv_def addDevice_def codes_ok_def)
next
  case (reg_add_child s ids r)
  then show ?case using chs.filed_add [of s r] filed_same(1) [of "addChildDevice r s" s]
    by (simp add: reg_inv_def addChildDevice_def codes_ok_def)
next
  case (reg_remove s ids i s')
  obtain t ids' where s': "s' = (t, ids')" by (cases s')
  from reg_remove(2) [unfolded s'] obtain dev where d: "t = s\<lparr>mDeviceMap := RBT.delete i (mDeviceMap s)\<rparr>"
    "ids' = DelDevCodeID (mGBID (dev_heap s dev)) ids" by (rule remove_Some)
  show ?case using reg_remove(3) devs.filed_del [OF _ reg_remove(2) [unfolded s']] filed_same(2) [of t s] codes_del
    by (simp add: reg_inv_def s' d codes_ok_def)
next
  case (reg_remove_child s ids i s')
  obtain t ids' where s': "s' = (t, ids')" by (cases s')
  from reg_remove_child(2) [unfolded s'] obtain ch where d: "t = s\<lparr>mChildMap := RBT.delete i (mChildMap s)\<rparr>"
    "ids' = DelDevCodeID (ch_GBID (child_heap s ch)) ids" by (rule remove_child_Some)
  show ?case using reg_remove_child(3) chs.filed_del [OF _ reg_remove_child(2) [unfolded s']] filed_same(1) [of t s] codes_del
    by (simp add: reg_inv_def s' d codes_ok_def)
next
  case (reg_add_vo s ids v)
  then show ?case using filed_same [of "addVirtualOrganization v s" s]
    by (simp add: reg_inv_def addVirtualOrganization_def codes_ok_def wf_vos_def)
next
  case (reg_remove_vo s ids i)
  then show ?case using filed_same [of "removeVirtualOrganization i s" s]
    by (simp add: reg_inv_def removeVirtualOrganization_def codes_ok_def wf_vos_def)
qed (auto simp: reg_inv_def intro: dev_add dev_del)

text \<open>
  A device code that was taken back: it is the only one that is no longer registered, and its number
  is free in the range of its type.
\<close>

definition code_returned :: "bytes \<Rightarrow> bytes \<Rightarrow> dev_code_mng \<Rightarrow> dev_code_mng \<Rightarrow> bool" where
  "code_returned l g ids ids' \<longleftrightarrow> gbid_list ids' = gbid_list ids - {g} \<and>
     (wf_id g \<and> take 10 g = take 10 l \<longrightarrow>
       (\<forall>m. code_seq ids' (int (id_type g)) = Some (Some m) \<longrightarrow> id_code g \<notin> handlemap m))"

lemma DelDevCodeID_returns:
  assumes "dev_inv l ids" "length g = 20 \<longrightarrow> wf_id g"
  shows "code_returned l g ids (DelDevCodeID g ids)"
proof (cases "length g = 20")
  case True
  then have g: "wf_id g" using assms(2) by simp
  have "0 < id_type g" if "code_seq ids (int (id_type g)) = Some (Some m)" for m
    using that dev_invD(5) [OF assms(1)] dev_types_pos by fastforce
  then show ?thesis
    by (auto simp: code_returned_def del_eq [OF assms(1) g] Let_def handlemap_Releas split: option.splits)
next
  case False
  have "\<forall>g \<in> gbid_list ids. wf_id g" using assms(1) by (simp add: dev_inv_def)
  then show ?thesis using False by (auto simp: code_returned_def DelDevCodeID_def wf_id_def)
qed

text \<open>
  C20.  The registry stays sound: whatever devices, channels and organizations are added, changed and removed
  and whatever codes are given out and taken back, both maps hold no null pointer and file every
  object under its own identifier, organizations likewise, and the device codes are in a state from
  which \<open>CreateDevCode\<close> gives fresh ones.  Removing a device or a channel fails exactly for what is not
  registered; otherwise it takes that object out of its map and gives its code back, and leaves every
  other device, channel, organization and code in place.
\<close>

theorem registry_sound:
  assumes "reg_reach l (s, ids)"
  shows "dev_reach l ids \<and>
    (\<forall>i p. RBT.lookup (mDeviceMap s) i = Some p \<longrightarrow> (\<exists>r. p = Some r \<and> deviceId (dev_heap s r) = i)) \<and>
    (\<forall>i p. RBT.lookup (mChildMap s) i = Some p \<longrightarrow> (\<exists>r. p = Some r \<and> ch_deviceId (child_heap s r) = i)) \<and>
    (\<forall>i v. findVirtualOrganization i s = Some v \<longrightarrow> vo_DeviceID v = i) \<and>
    (\<forall>i. case findDevice i s of
           None \<Rightarrow> removeDevice i (s, ids) = None
         | Some r \<Rightarrow> \<exists>s' ids'. removeDevice i (s, ids) = Some (s', ids') \<and>
             (\<forall>j. findDevice j s' = (if j = i then None else findDevice j s)) \<and>
             (\<forall>j. findChildDevice j s' = findChildDevice j s) \<and>
             (\<forall>j. findVirtualOrganization j s' = findVirtualOrganization j s) \<and>
             code_returned l (mGBID (dev_heap s r)) ids ids') \<and>
    (\<forall>i. case findChildDevice i s of
           None \<Rightarrow> removeChildDevice i (s, ids) = None
         | Some r \<Rightarrow> \<exists>s' ids'. removeChildDevice i (s, ids) = Some (s', ids') \<and>
             (\<forall>j. findChildDevice j s' = (if j = i then None else findChildDevice j s)) \<and>
             (\<forall>j. findDevice j s' = findDevice j s) \<and>
             (\<forall>j. findVirtualOrganization j s' = findVirtualOrganization j s) \<and>
             code_returned l (ch_GBID (child_heap s r)) ids ids')"
proof -
  note I = reg_reach_inv [OF assms, unfolded reg_inv_def prod.case]
  have filed: "deviceId (dev_heap s r) = i" if "RBT.lookup (mDeviceMap s) i = Some (Some r)" for i r
    using that I by (simp add: devs.filed_def find_mapped mapped_def)
  have filed_child: "ch_deviceId (child_heap s r) = i" if "RBT.lookup (mChildMap s) i = Some (Some r)" for i r
    using that I by (simp add: chs.filed_def find_mapped mapped_def)
  have ret: "code_returned l (mGBID (dev_heap s r)) ids (DelDevCodeID (mGBID (dev_heap s r)) ids)"
    "code_returned l (ch_GBID (child_heap s r)) ids (DelDevCodeID (ch_GBID (child_heap s r)) ids)" for r
    using I dev_reach_inv [of l ids] by (auto simp: codes_ok_def intro!: DelDevCodeID_returns)
  have "\<exists>r. p = Some r \<and> deviceId (dev_heap s r) = i" if "RBT.lookup (mDeviceMap s) i = Some p" for i p
    using that filed I by (cases p) auto
  moreover have "\<exists>r. p = Some r \<and> ch_deviceId (child_heap s r) = i" if "RBT.lookup (mChildMap s) i = Some p" for i p
    using that filed_child I by (cases p) auto
  ultimately show ?thesis using I ret
    by (simp add: findVirtualOrganization_def wf_vos_def find_mapped remove_simps split: option.split)
qed

definition sample_device :: base_device where
  "sample_device = \<lparr>devType = JSON_NVR, deviceId = bs ''7'', mLoginId = 0, mIP = [], mPort = 0, mName = [], mUser = [], mPswd = [],
     mGBID = sample_gbid, mUpdateTime = [], mProtocol = [], mDevType = [], bd_status = 0\<rparr>"

definition sample_child :: child_device where
  "sample_child = \<lparr>ch_deviceId = bs ''9'', mParentDev = None, ch_name = [], ch_status = 0, parentId = [], ChildIp = [], ch_GBID = sample_gbid,
     ch_UpdateTime = [], ch_channel = 0, ptzCmd = 0\<rparr>"

definition sample_start :: device_mng where
  "sample_start = \<lparr>selfId = [], mDeviceMap = RBT.empty, mChildMap = RBT.empty, mVoMap = RBT.empty,
     dev_heap = (\<lambda>_. sample_device), child_heap = (\<lambda>_. sample_child)\<rparr>"

lemma sample_reach: "reg_reach sample_gbid (addDevice 0 sample_start, SetLocalGBID sample_gbid CDevCodeMng)"
proof -
  have w: "wf_id sample_gbid" by (simp add: wf_id_def sample_gbid_def is_digit_def)
  then have "codes_ok sample_start" by (simp add: codes_ok_def sample_start_def sample_device_def sample_child_def)
  with dev_init [OF w] have "reg_reach sample_gbid (sample_start, SetLocalGBID sample_gbid CDevCodeMng)"
    unfolding sample_start_def by (intro reg_init)
  then show ?thesis by (rule reg_add)
qed

lemma sample_child_reach:
  "reg_reach sample_gbid (addChildDevice 0 (addDevice 0 sample_start), SetLocalGBID sample_gbid CDevCodeMng)"
  by (rule reg_add_child [OF sample_reach])

theorem registry_sound_witness:
  "\<exists>s' ids'. removeChildDevice (bs ''9'') (addChildDevice 0 (addDevice 0 sample_start), SetLocalGBID sample_gbid CDevCodeMng) = Some (s', ids') \<and>
     findChildDevice (bs ''9'') s' = None \<and> findDevice (bs ''7'') s' = Some 0 \<and> sample_gbid \<notin> gbid_list ids'"
proof -
  let ?s = "addChildDevice 0 (addDevice 0 sample_start)"
  have f: "findChildDevice (bs ''9'') ?s = Some 0" "findDevice (bs ''7'') ?s = Some 0" "ch_GBID (child_heap ?s 0) = sample_gbid"
    by (simp_all add: find_mapped addDevice_def addChildDevice_def sample_start_def sample_device_def sample_child_def)
  have "case findChildDevice (bs ''9'') ?s of
           None \<Rightarrow> removeChildDevice (bs ''9'') (?s, SetLocalGBID sample_gbid CDevCodeMng) = None
         | Some r \<Rightarrow> \<exists>s' ids'. removeChildDevice (bs ''9'') (?s, SetLocalGBID sample_gbid CDevCodeMng) = Some (s', ids') \<and>
             (\<forall>j. findChildDevice j s' = (if j = bs ''9'' then None else findChildDevice j ?s)) \<and>
             (\<forall>j. findDevice j s' = findDevice j ?s) \<and>
             (\<forall>j. findVirtualOrganization j s' = findVirtualOrganization j ?s) \<and>
             code_returned sample_gbid (ch_GBID (child_heap ?s r)) (SetLocalGBID sample_gbid CDevCodeMng) ids'"
    using registry_sound [OF sample_child_reach] by blast
  then obtain s' ids' where
    "removeChildDevice (bs ''9'') (?s, SetLocalGBID sample_gbid CDevCodeMng) = Some (s', ids')"
    "\<forall>j. findChildDevice j s' = (if j = bs ''9'' then None else findChildDevice j ?s)"
    "\<forall>j. findDevice j s' = findDevice j ?s" "sample_gbid \<notin> gbid_list ids'"
    unfolding f option.case code_returned_def by blast
  then show ?thesis using f by (intro exI [of _ s'] exI [of _ ids']) simp
qed

section \<open>Searching and merging\<close>

text \<open>The searches return the first channel of the map with the property, and nothing only if there is none.\<close>

lemma child_search_Some:
  "child_search c es = Some ch \<Longrightarrow> c ch \<and> (\<exists>es1 k es2. es = es1 @ (k, Some ch) # es2 \<and> (\<forall>k ch'. (k, Some ch') \<in> set es1 \<longrightarrow> \<not> c ch'))"
proof (induction es)
  case (Cons e es)
  obtain k p where e: "e = (k, p)" by (cases e)
  show ?case
  proof (cases "p \<noteq> None \<and> c (the p)")
    case True
    then show ?thesis using Cons.prems e by (intro conjI exI [of _ "[]"] exI [of _ k] exI [of _ es]) auto
  next
    case False
    then have "child_search c es = Some ch" using Cons.prems e by (auto split: option.splits)
    then obtain es1 k' es2 where "c ch" "es = es1 @ (k', Some ch) # es2" "\<forall>k ch'. (k, Some ch') \<in> set es1 \<longrightarrow> \<not> c ch'"
      using Cons.IH by blast
    then show ?thesis using False e by (intro conjI exI [of _ "e # es1"] exI [of _ k'] exI [of _ es2]) auto
  qed
qed simp

lemma child_search_None: "child_search c es = None \<longleftrightarrow> (\<forall>k ch. (k, Some ch) \<in> set es \<longrightarrow> \<not> c ch)"
proof (induction es)
  case (Cons e es)
  then show ?case by (cases e; cases "snd e") auto
qed simp

lemma findChildDeviceByGBID_finds:
  "findChildDeviceByGBID g s = None \<longleftrightarrow> (\<forall>i ch. findChildDevice i s = Some ch \<longrightarrow> ch_GBID (child_heap s ch) \<noteq> g)"
  "findChildDeviceByGBID g s = Some ch \<Longrightarrow> ch_GBID (child_heap s ch) = g \<and> (\<exists>i. findChildDevice i s = Some ch)"
proof -
  have m: "findChildDevice i s = Some ch \<longleftrightarrow> (i, Some ch) \<in> set (RBT.entries (mChildMap s))" for i ch
    by (auto simp: findChildDevice_def RBT.lookup_in_tree [symmetric] split: option.splits)
  show "findChildDeviceByGBID g s = None \<longleftrightarrow> (\<forall>i ch. findChildDevice i s = Some ch \<longrightarrow> ch_GBID (child_heap s ch) \<noteq> g)"
    by (auto simp: findChildDeviceByGBID_def child_search_None m)
  assume "findChildDeviceByGBID g s = Some ch"
  from child_search_Some [OF this [unfolded findChildDeviceByGBID_def]]
  show "ch_GBID (child_heap s ch) = g \<and> (\<exists>i. findChildDevice i s = Some ch)" by (auto simp: m)
qed

text \<open>An update takes over what is given and keeps the rest; the identity and the device code never change.\<close>

lemma merge_fields:
  "(if P \<and> mDevType d \<noteq> v then d\<lparr>mDevType := v\<rparr> else d) = d\<lparr>mDevType := (if P then v else mDevType d)\<rparr>"
  "(if P \<and> mProtocol d \<noteq> v then d\<lparr>mProtocol := v\<rparr> else d) = d\<lparr>mProtocol := (if P then v else mProtocol d)\<rparr>"
  "(if P \<and> mIP d \<noteq> v then d\<lparr>mIP := v\<rparr> else d) = d\<lparr>mIP := (if P then v else mIP d)\<rparr>"
  "(if P \<and> mPort d \<noteq> p then d\<lparr>mPort := p\<rparr> else d) = d\<lparr>mPort := (if P then p else mPort d)\<rparr>"
  "(if P \<and> mUser d \<noteq> v then d\<lparr>mUser := v\<rparr> else d) = d\<lparr>mUser := (if P then v else mUser d)\<rparr>"
  "(if P \<and> mPswd d \<noteq> v then d\<lparr>mPswd := v\<rparr> else d) = d\<lparr>mPswd := (if P then v else mPswd d)\<rparr>"
  "(if P \<and> mName d \<noteq> v then d\<lparr>mName := v\<rparr> else d) = d\<lparr>mName := (if P then v else mName d)\<rparr>"
  by (cases d; simp)+

lemma updateDeviceInfo_merges:
  "updateDeviceInfo (Some i) d = d\<lparr>mDevType := (if mDevType i \<noteq> [] then mDevType i else mDevType d),
     mProtocol := (if mProtocol i \<noteq> [] then mProtocol i else mProtocol d), mIP := (if mIP i \<noteq> [] then mIP i else mIP d),
     mPort := (if sint (mPort i) > 0 then mPort i else mPort d), mUser := (if mUser i \<noteq> [] then mUser i else mUser d),
     mPswd := (if mPswd i \<noteq> [] then mPswd i else mPswd d), mName := (if mName i \<noteq> [] then mName i else mName d)\<rparr>"
  unfolding updateDeviceInfo_def option.case Let_def merge_fields by simp

lemma updateDeviceInfo_idem: "updateDeviceInfo i (updateDeviceInfo i d) = updateDeviceInfo i d"
  by (cases i) (simp_all add: updateDeviceInfo_merges updateDeviceInfo_def [of None])

text \<open>Removing what is not registered follows a null pointer.\<close>

lemma remove_unknown_device: "RBT.lookup (mDeviceMap s) i = None \<Longrightarrow> removeDevice i (s, ids) = None"
  by (simp add: remove_simps mapped_def)

end
