(* ===== verification/Gb_Kmp.thy ===== *)
theory Gb_Kmp
  imports Prelude
begin

text \<open>
  Pattern search of \<open>src/tools/KMP.cpp\<close>, used to find the media headers in a stream.  The C
  \<open>int\<close> indices are integers, -1 included; every array access is checked, and a loop that would
  not end has no result, so that a \<open>Some\<close> is memory safety and termination together.
\<close>

section \<open>The search\<close>

definition rdi :: "'a list \<Rightarrow> int \<Rightarrow> 'a option" where
  "rdi xs i = (if 0 \<le> i then rd xs (nat i) else None)"

definition wri :: "'a list \<Rightarrow> int \<Rightarrow> 'a \<Rightarrow> 'a list option" where
  "wri xs i v = (if 0 \<le> i then wr xs (nat i) v else None)"

partial_function (option) next_loop :: "bytes \<Rightarrow> int list \<Rightarrow> int \<Rightarrow> int \<Rightarrow> int list option" where
  "next_loop p nx j k =
     (if j < int (length p) - 1 then do {
        same \<leftarrow> (if k = -1 then Some True else do { a \<leftarrow> rdi p j; b \<leftarrow> rdi p k; Some (a = b) });
        if same then do { nx \<leftarrow> wri nx (j + 1) (k + 1); next_loop p nx (j + 1) (k + 1) }
        else do { k \<leftarrow> rdi nx k; next_loop p nx j k } }
      else Some nx)"

definition getNext :: "bytes \<Rightarrow> int list \<Rightarrow> int list option" where
  "getNext p nx = do { nx \<leftarrow> wri nx 0 (-1); next_loop p nx 0 (-1) }"

partial_function (option) kmp_loop :: "bytes \<Rightarrow> bytes \<Rightarrow> int list \<Rightarrow> int \<Rightarrow> int \<Rightarrow> int option" where
  "kmp_loop s p nx i j =
     (if i < int (length s) then do {
        same \<leftarrow> (if j = -1 then Some True else do { a \<leftarrow> rdi s i; b \<leftarrow> rdi p j; Some (a = b) });
        (i, j) \<leftarrow> (if same then Some (i + 1, j + 1) else do { j \<leftarrow> rdi nx j; Some (i, j) });
        if j = int (length p) then Some (i - int (length p)) else kmp_loop s p nx i j }
      else Some (-1))"

definition KMPMatch :: "bytes \<Rightarrow> bytes \<Rightarrow> int option" where
  "KMPMatch s p = do { nx \<leftarrow> getNext p (replicate (length p) 0); kmp_loop s p nx 0 0 }"

section \<open>The second variant, on one-based indices and a table of ten entries\<close>

partial_function (option) Next_loop :: "bytes \<Rightarrow> int list \<Rightarrow> int \<Rightarrow> int \<Rightarrow> int list option" where
  "Next_loop T nx i j =
     (if i < int (length T) then do {
        same \<leftarrow> (if j = 0 then Some True else do { a \<leftarrow> rdi T (i - 1); b \<leftarrow> rdi T (j - 1); Some (a = b) });
        if same then do {
          let i = i + 1; let j = j + 1;
          a \<leftarrow> rdi T (i - 1);
          b \<leftarrow> rdi T (j - 1);
          v \<leftarrow> (if a \<noteq> b then Some j else rdi nx j);
          nx \<leftarrow> wri nx i v;
          Next_loop T nx i j }
        else do { j \<leftarrow> rdi nx j; Next_loop T nx i j } }
      else Some nx)"

definition Next :: "bytes \<Rightarrow> int list \<Rightarrow> int list option" where
  "Next T nx = do { nx \<leftarrow> wri nx 1 0; Next_loop T nx 1 0 }"

partial_function (option) KMP_loop :: "bytes \<Rightarrow> bytes \<Rightarrow> int list \<Rightarrow> int \<Rightarrow> int \<Rightarrow> int option" where
  "KMP_loop S T nx i j =
     (if i \<le> int (length S) \<and> j \<le> int (length T) then do {
        same \<leftarrow> (if j = 0 then Some True else do { a \<leftarrow> rdi S (i - 1); b \<leftarrow> rdi T (j - 1); Some (a = b) });
        if same then KMP_loop S T nx (i + 1) (j + 1)
        else do { j \<leftarrow> rdi nx j; KMP_loop S T nx i j } }
      else Some (if j > int (length T) then i - int (length T) else -1))"

definition KMP :: "bytes \<Rightarrow> bytes \<Rightarrow> int option" where
  "KMP S T = do { nx \<leftarrow> Next T (replicate 10 0); KMP_loop S T nx 1 1 }"

section \<open>Borders\<close>

text \<open>\<open>border p i k\<close>: the first \<open>k\<close> bytes of \<open>p\<close> end its first \<open>i\<close>, and \<open>k < i\<close>.\<close>

definition border :: "bytes \<Rightarrow> nat \<Rightarrow> nat \<Rightarrow> bool" where
  "border p i k \<longleftrightarrow> k < i \<and> (\<forall>m < k. p ! m = p ! (i - k + m))"

definition fails_to :: "bytes \<Rightarrow> nat \<Rightarrow> int \<Rightarrow> bool" where
  "fails_to p i v \<longleftrightarrow> (if i = 0 then v = -1 else border p i (nat v) \<and> 0 \<le> v \<and> (\<forall>k. border p i k \<longrightarrow> int k \<le> v))"

lemma border_0: "border p i 0 \<longleftrightarrow> 0 < i"
  by (auto simp: border_def)

lemma border_Suc:
  "border p (Suc i) (Suc k) \<longleftrightarrow> (if k = 0 then 0 < i else border p i k) \<and> p ! k = p ! i"
proof -
  have "(\<forall>m < Suc k. p ! m = p ! (Suc i - Suc k + m)) \<longleftrightarrow> (\<forall>m < k. p ! m = p ! (i - k + m)) \<and> p ! k = p ! (i - k + k)"
    by (auto simp: less_Suc_eq)
  then show ?thesis by (auto simp: border_def)
qed

lemma border_less: "border p i k \<Longrightarrow> border p i k' \<Longrightarrow> k' < k \<Longrightarrow> border p k k'"
proof -
  assume b: "border p i k" "border p i k'" "k' < k"
  have "p ! m = p ! (k - k' + m)" if "m < k'" for m
  proof -
    have "p ! (k - k' + m) = p ! (i - k + (k - k' + m))" using b(1,3) that by (auto simp: border_def)
    also have "i - k + (k - k' + m) = i - k' + m" using b(1,3) by (auto simp: border_def)
    finally show ?thesis using b(2) that by (simp add: border_def)
  qed
  with b(3) show ?thesis by (simp add: border_def)
qed

lemma border_trans: "border p i k \<Longrightarrow> border p k k' \<Longrightarrow> border p i k'"
proof -
  assume b: "border p i k" "border p k k'"
  have "p ! m = p ! (i - k' + m)" if "m < k'" for m
  proof -
    have "p ! m = p ! (k - k' + m)" using b(2) that by (simp add: border_def)
    also have "\<dots> = p ! (i - k + (k - k' + m))" using b that by (auto simp: border_def)
    also have "i - k + (k - k' + m) = i - k' + m" using b by (auto simp: border_def)
    finally show ?thesis .
  qed
  with b show ?thesis by (simp add: border_def)
qed

section \<open>The table\<close>

text \<open>The state of the loop at \<open>j\<close> and \<open>k\<close>.\<close>

definition next_inv :: "bytes \<Rightarrow> int list \<Rightarrow> nat \<Rightarrow> int \<Rightarrow> bool" where
  "next_inv p nx j k \<longleftrightarrow> length nx = length p \<and> j < length p \<and> (\<forall>t \<le> j. fails_to p t (nx ! t)) \<and>
     -1 \<le> k \<and> k < int j \<and> (0 \<le> k \<longrightarrow> border p j (nat k)) \<and> (\<forall>k'. border p (Suc j) (Suc k') \<longrightarrow> int k' \<le> k)"

lemma next_inv_match:
  assumes "next_inv p nx j k" "Suc j < length p" "k = -1 \<or> p ! j = p ! nat k"
  shows "next_inv p (nx[Suc j := k + 1]) (Suc j) (k + 1)"
proof -
  note I = assms(1) [unfolded next_inv_def]
  have b: "border p (Suc j) (nat (k + 1))"
  proof (cases "k = -1")
    case False
    then have "0 \<le> k" using I by linarith
    then have "nat (k + 1) = Suc (nat k)" by simp
    then show ?thesis using I assms(3) False \<open>0 \<le> k\<close> by (auto simp: border_Suc)
  qed (simp add: border_0)
  have m: "int k' \<le> k + 1" if "border p (Suc j) k'" for k'
    using that I by (cases k') auto
  have m2: "int k' \<le> k + 1" if "border p (Suc (Suc j)) (Suc k')" for k'
    using that m [of k'] I by (auto simp: border_Suc split: if_splits)
  have "fails_to p t (nx[Suc j := k + 1] ! t)" if "t \<le> Suc j" for t
    using that I b m assms(2) by (cases "t = Suc j") (auto simp: fails_to_def nth_list_update)
  then show ?thesis using I b m2 assms(2) by (auto simp: next_inv_def)
qed

lemma next_inv_fail:
  assumes "next_inv p nx j k" "0 \<le> k" "p ! j \<noteq> p ! nat k"
  shows "next_inv p nx j (nx ! nat k) \<and> nx ! nat k < k"
proof -
  note I = assms(1) [unfolded next_inv_def]
  have bk: "border p j (nat k)" "nat k \<le> j" using I assms(2) by (auto simp: border_def)
  then have f: "fails_to p (nat k) (nx ! nat k)" using I by simp
  have m: "int k' \<le> nx ! nat k" if "border p (Suc j) (Suc k')" for k'
  proof -
    have k': "int k' \<le> k" "p ! k' = p ! j" "k' = 0 \<or> border p j k'" using that I by (auto simp: border_Suc split: if_splits)
    then have "k' \<noteq> nat k" using assms(3) by auto
    then have lt: "k' < nat k" using k'(1) assms(2) by linarith
    then have "border p (nat k) k'" using k'(3) border_less [OF bk(1), of k'] by (auto simp: border_0)
    then show ?thesis using f lt by (auto simp: fails_to_def split: if_splits)
  qed
  have b: "0 \<le> nx ! nat k \<longrightarrow> border p j (nat (nx ! nat k))"
    using f border_trans [OF bk(1)] by (auto simp: fails_to_def split: if_splits)
  have l: "-1 \<le> nx ! nat k" "nx ! nat k < k" using f assms(2) by (auto simp: fails_to_def border_def split: if_splits)
  then show ?thesis using I m b by (auto simp: next_inv_def)
qed

lemma next_loop_spec:
  "next_inv p nx j k \<Longrightarrow> \<exists>nx'. next_loop p nx (int j) k = Some nx' \<and> length nx' = length p \<and>
     (\<forall>t < length p. fails_to p t (nx' ! t))"
proof (induction "2 * (length p - j) + nat (k + 1)" arbitrary: nx j k rule: less_induct)
  case less
  note I = less.prems [unfolded next_inv_def]
  show ?case
  proof (cases "Suc j < length p")
    case False
    then have "Suc j = length p" using I by simp
    then show ?thesis using I by (subst next_loop.simps) (auto simp: less_Suc_eq_le)
  next
    case True
    show ?thesis
    proof (cases "k = -1 \<or> p ! j = p ! nat k")
      case match: True
      have "\<exists>nx'. next_loop p (nx[Suc j := k + 1]) (int (Suc j)) (k + 1) = Some nx' \<and> length nx' = length p \<and>
          (\<forall>t < length p. fails_to p t (nx' ! t))"
        using True I by (intro less.hyps next_inv_match [OF less.prems True match]) auto
      moreover have "nat k < length p" using I by linarith
      ultimately show ?thesis
        using True I match by (subst next_loop.simps) (auto simp: rdi_def wri_def nat_add_distrib add.commute)
    next
      case fail: False
      then have k: "0 \<le> k" "nat k < length p" using I by linarith+
      note f = next_inv_fail [OF less.prems k(1)]
      have "\<exists>nx'. next_loop p nx (int j) (nx ! nat k) = Some nx' \<and> length nx' = length p \<and>
          (\<forall>t < length p. fails_to p t (nx' ! t))"
        using fail f k by (intro less.hyps) auto
      then show ?thesis
        using True I fail k by (subst next_loop.simps) (auto simp: rdi_def)
    qed
  qed
qed

lemma getNext_spec:
  assumes "p \<noteq> []"
  shows "\<exists>nx. getNext p (replicate (length p) 0) = Some nx \<and> length nx = length p \<and> (\<forall>t < length p. fails_to p t (nx ! t))"
proof -
  have "next_inv p ((replicate (length p) 0)[0 := -1]) 0 (-1)"
    using assms by (auto simp: next_inv_def fails_to_def border_Suc border_def)
  from next_loop_spec [OF this] show ?thesis using assms by (simp add: getNext_def wri_def)
qed

section \<open>The search finds the first occurrence\<close>

definition occurs :: "bytes \<Rightarrow> bytes \<Rightarrow> nat \<Rightarrow> bool" where
  "occurs s p m \<longleftrightarrow> m + length p \<le> length s \<and> (\<forall>t < length p. s ! (m + t) = p ! t)"

lemma occurs_span: "occurs s p m \<longleftrightarrow> m + length p \<le> length s \<and> span s m (length p) = p"
  by (auto simp: occurs_def list_eq_iff_nth_eq)

text \<open>All before the window is ruled out, and the window agrees with the pattern.\<close>

definition kmp_inv :: "bytes \<Rightarrow> bytes \<Rightarrow> nat \<Rightarrow> int \<Rightarrow> bool" where
  "kmp_inv s p i j \<longleftrightarrow> i \<le> length s \<and> -1 \<le> j \<and> j < int (length p) \<and> j \<le> int i \<and>
     (\<forall>t. int t < j \<longrightarrow> s ! (i - nat j + t) = p ! t) \<and> (\<forall>m. occurs s p m \<longrightarrow> int i - j \<le> int m)"

lemma kmp_inv_match:
  assumes "kmp_inv s p i j" "i < length s" "j = -1 \<or> s ! i = p ! nat j" "j + 1 < int (length p)"
  shows "kmp_inv s p (Suc i) (j + 1)"
proof -
  note I = assms(1) [unfolded kmp_inv_def]
  have "s ! (Suc i - nat (j + 1) + t) = p ! t" if t: "int t < j + 1" for t
  proof -
    have j: "0 \<le> j" "Suc i - nat (j + 1) = i - nat j" using t I by linarith+
    show ?thesis
    proof (cases "int t < j")
      case True
      then show ?thesis using I j by simp
    next
      case False
      then have "t = nat j" using t by linarith
      moreover have "i - nat j + nat j = i" using I j by linarith
      ultimately show ?thesis using assms(3) j by simp
    qed
  qed
  then show ?thesis using I assms(2,4) by (auto simp: kmp_inv_def)
qed

lemma kmp_inv_fail:
  assumes "kmp_inv s p i j" "0 \<le> j" "s ! i \<noteq> p ! nat j" "fails_to p (nat j) v"
  shows "kmp_inv s p i v \<and> v < j"
proof -
  note I = assms(1) [unfolded kmp_inv_def]
  have v: "-1 \<le> v" "v < j" "0 \<le> v \<Longrightarrow> border p (nat j) (nat v)"
    using assms(2,4) by (auto simp: fails_to_def border_def split: if_splits)
  have w: "s ! (i - nat v + t) = p ! t" if "int t < v" for t
  proof -
    have e: "i - nat j + (nat j - nat v + t) = i - nat v + t" using I v that by linarith
    have "s ! (i - nat v + t) = s ! (i - nat j + (nat j - nat v + t))" by (simp only: e)
    also have "\<dots> = p ! (nat j - nat v + t)" using I v that by (intro I [THEN conjunct2, THEN conjunct2, THEN conjunct2, THEN conjunct2, THEN conjunct1, rule_format]) linarith
    also have "\<dots> = p ! t" using v that by (auto simp: border_def)
    finally show ?thesis .
  qed
  have o: "int i - v \<le> int m" if occ: "occurs s p m" for m
  proof (cases "m \<le> i")
    case False
    then show ?thesis using v by linarith
  next
    case True
    define k where "k = i - m"
    have lo: "int i - j \<le> int m" using I occ by blast
    then have k: "k \<le> nat j" "m + k = i" using True by (simp_all add: k_def)
    have at: "s ! (m + t) = p ! t" if "t < length p" for t using occ that by (simp add: occurs_def)
    have "k \<noteq> nat j"
    proof
      assume "k = nat j"
      moreover have "nat j < length p" using I assms(2) by linarith
      ultimately show False using at [of "nat j"] k(2) assms(3) by simp
    qed
    then have lt: "k < nat j" using k(1) by simp
    have "border p (nat j) k"
      unfolding border_def
    proof (intro conjI allI impI lt)
      fix t assume t: "t < k"
      have e: "i - nat j + (nat j - k + t) = m + t" using I lt k(2) by linarith
      have "p ! t = s ! (m + t)" using at t lt I by auto
      also have "\<dots> = s ! (i - nat j + (nat j - k + t))" by (simp only: e)
      also have "\<dots> = p ! (nat j - k + t)" using I lt t
        by (intro I [THEN conjunct2, THEN conjunct2, THEN conjunct2, THEN conjunct2, THEN conjunct1, rule_format]) linarith
      finally show "p ! t = p ! (nat j - k + t)" .
    qed
    then have "int k \<le> v" using assms(2,4) lt by (auto simp: fails_to_def split: if_splits)
    then show ?thesis using k(2) by linarith
  qed
  show ?thesis using I v w o by (auto simp: kmp_inv_def)
qed

definition kmp_result :: "bytes \<Rightarrow> bytes \<Rightarrow> int \<Rightarrow> bool" where
  "kmp_result s p r \<longleftrightarrow> (if \<exists>m. occurs s p m then 0 \<le> r \<and> occurs s p (nat r) \<and> (\<forall>m. occurs s p m \<longrightarrow> r \<le> int m) else r = -1)"

lemma kmp_found:
  assumes "kmp_inv s p i j" "i < length s" "j = -1 \<or> s ! i = p ! nat j" "j + 1 = int (length p)" "p \<noteq> []"
  shows "kmp_result s p (int (Suc i) - int (length p))"
proof -
  note I = assms(1) [unfolded kmp_inv_def]
  have j: "0 \<le> j" "length p = Suc (nat j)" using assms(4,5) by (cases p; auto)+
  have "occurs s p (i - nat j)"
    unfolding occurs_def
  proof (intro conjI allI impI)
    show "i - nat j + length p \<le> length s" using I j assms(2) by linarith
    fix t assume "t < length p"
    then consider "t < nat j" | "t = nat j" using j by linarith
    then show "s ! (i - nat j + t) = p ! t"
    proof cases
      case 1
      then show ?thesis using I by auto
    next
      case 2
      then have "i - nat j + t = i" using I by linarith
      then show ?thesis using assms(3) 2 j by simp
    qed
  qed
  moreover have "int (Suc i) - int (length p) = int (i - nat j)" using I j by linarith
  moreover have "int (i - nat j) \<le> int m" if "occurs s p m" for m
    using I that j by (auto simp: of_nat_diff)
  ultimately show ?thesis unfolding kmp_result_def by auto
qed

lemma kmp_loop_spec:
  assumes "p \<noteq> []" "length nx = length p" "\<forall>t < length p. fails_to p t (nx ! t)"
  shows "kmp_inv s p i j \<Longrightarrow> \<exists>r. kmp_loop s p nx (int i) j = Some r \<and> kmp_result s p r"
proof (induction "2 * (length s - i) + nat (j + 1)" arbitrary: i j rule: less_induct)
  case less
  note I = less.prems [unfolded kmp_inv_def]
  have np: "nat j < length p" using I assms(1) by (cases "0 \<le> j") auto
  show ?case
  proof (cases "i < length s")
    case False
    then have i: "i = length s" using I by simp
    have "\<not> occurs s p m" for m
    proof
      assume "occurs s p m"
      then show False using I i by (auto simp: occurs_def)
    qed
    then show ?thesis using i by (subst kmp_loop.simps) (simp add: kmp_result_def)
  next
    case True
    consider (found) "j = -1 \<or> s ! i = p ! nat j" "j + 1 = int (length p)"
      | (match) "j = -1 \<or> s ! i = p ! nat j" "j + 1 < int (length p)" | (fail) "j \<noteq> -1" "s ! i \<noteq> p ! nat j"
      using I by linarith
    then show ?thesis
    proof cases
      case found
      then have "kmp_loop s p nx (int i) j = Some (int (Suc i) - int (length p))"
        using True np I by (subst kmp_loop.simps) (auto simp: rdi_def)
      then show ?thesis using kmp_found [OF less.prems True found assms(1)] by blast
    next
      case match
      have "\<exists>r. kmp_loop s p nx (int (Suc i)) (j + 1) = Some r \<and> kmp_result s p r"
        using True I by (intro less.hyps kmp_inv_match [OF less.prems True match]) auto
      then show ?thesis
        using True match np I by (subst kmp_loop.simps) (auto simp: rdi_def add.commute)
    next
      case fail
      then have j: "0 \<le> j" using I by linarith
      note f = kmp_inv_fail [OF less.prems j fail(2), of "nx ! nat j"]
      have "\<exists>r. kmp_loop s p nx (int i) (nx ! nat j) = Some r \<and> kmp_result s p r"
        using f assms(3) np j by (intro less.hyps) auto
      moreover have "nx ! nat j \<noteq> int (length p)" using f assms(3) np I by auto
      ultimately show ?thesis
        using True fail np I j assms(2) by (subst kmp_loop.simps) (auto simp: rdi_def)
    qed
  qed
qed

text \<open>
  C23.  Pattern search is total, memory safe and right: for every non-empty pattern \<open>KMPMatch\<close>
  returns, without reading or writing outside the text, the pattern and its table, the least
  position at which the pattern occurs, or -1 when there is none.
\<close>

theorem KMPMatch_correct:
  assumes "p \<noteq> []"
  shows "KMPMatch s p =
     Some (if \<exists>m. m + length p \<le> length s \<and> span s m (length p) = p
           then int (LEAST m. m + length p \<le> length s \<and> span s m (length p) = p) else -1)"
proof -
  obtain nx where nx: "getNext p (replicate (length p) 0) = Some nx" "length nx = length p" "\<forall>t < length p. fails_to p t (nx ! t)"
    using getNext_spec [OF assms] by blast
  have "kmp_inv s p 0 0" using assms by (simp add: kmp_inv_def)
  from kmp_loop_spec [OF assms nx(2,3) this] nx(1)
  obtain r where r: "KMPMatch s p = Some r" "kmp_result s p r" by (auto simp: KMPMatch_def)
  show ?thesis
  proof (cases "\<exists>m. occurs s p m")
    case True
    then have "0 \<le> r" "occurs s p (nat r)" "\<And>m. occurs s p m \<Longrightarrow> r \<le> int m" using r(2) by (auto simp: kmp_result_def)
    then have "(LEAST m. occurs s p m) = nat r" by (intro Least_equality) (auto simp: nat_le_iff)
    then show ?thesis using r(1) True \<open>0 \<le> r\<close> by (simp flip: occurs_span)
  next
    case False
    then show ?thesis using r by (simp add: kmp_result_def flip: occurs_span)
  qed
qed

theorem KMPMatch_correct_witness:
  "\<exists>r. KMPMatch (bs ''aabaabaac'') (bs ''aabaac'') = Some r \<and> r \<noteq> -1"
proof -
  have "\<exists>m. m + length (bs ''aabaac'') \<le> length (bs ''aabaabaac'') \<and>
      span (bs ''aabaabaac'') m (length (bs ''aabaac'')) = bs ''aabaac''"
    by (rule exI [of _ 3]) (simp add: span_def)
  then have "KMPMatch (bs ''aabaabaac'') (bs ''aabaac'') = Some (int (LEAST m. m + length (bs ''aabaac'') \<le> length (bs ''aabaabaac'') \<and>
      span (bs ''aabaabaac'') m (length (bs ''aabaac'')) = bs ''aabaac''))"
    using KMPMatch_correct [of "bs ''aabaac''" "bs ''aabaabaac''"] by (simp only: if_True) simp
  then show ?thesis by (simp only:) auto
qed

text \<open>An empty pattern writes before the start of its empty table; a pattern of ten bytes overruns the other one.\<close>

lemma KMPMatch_empty: "KMPMatch s [] = None"
  by (simp add: KMPMatch_def getNext_def wri_def wr_def)

lemma KMP_table_overrun: "KMP s (bs ''aaaaaaaaaa'') = None"
  by (simp add: KMP_def Next_def rdi_def wri_def wr_def rd_def Next_loop.simps)

end
