(* ===== verification/Spec2Isabelle.thy ===== *)
theory Spec2Isabelle
  imports Mg_Addr Mg_Addr_Texts Mg_Base64 Mg_Dns Mg_Dns_Packets Mg_Fmt Mg_Hash Mg_Http
    Mg_Http_Codec Mg_Http_Parse Mg_Http_Reply Mg_Iobuf Mg_Json Mg_Json_Paths Mg_Json_Texts
    Mg_Md5 Mg_Mqtt Mg_Mqtt_Packets Mg_Queue Mg_Queue_Steps Mg_Resolve Mg_Resolve_Answers Mg_Sha1
    Mg_Str Mg_Timer Mg_Url Mg_Util Mg_Ws Gb_Access_Units Gb_Buffers Gb_Devices Gb_Ids Gb_Kmp
    Gb_Video Stream_Reader
begin

text \<open>
  A verification library for SignalingServer, a GB/T 28181 video signaling server in C and C++.

  \<^bold>\<open>The program.\<close>  The server registers cameras and recorders over SIP, keeps them in a registry, hands
  out identifiers and RTP ports for them, relays their media streams, and is operated over HTTP and
  WebSockets.  Its own logic is the registry (\<open>src/deviceMng\<close>), the identifiers and ports
  (\<open>src/IDManager.cpp\<close>, \<open>src/RtpPortManager.cpp\<close>), the buffers, queues and readers of the media threads
  (\<open>src/tools\<close>, \<open>src/media\<close>) and the embedded network library \<open>src/mongoose.c\<close>, whose protocol layers make
  up most of the C code that computes rather than calls a library.  These are the parts modelled here.

  \<^bold>\<open>How the code is modelled.\<close>  Bytes are 8-bit words, C integers are words of their width where a wrap
  matters and \<open>nat\<close> where the code keeps them in range.  An object of \<open>n\<close> bytes is a list of length
  \<open>n\<close> that is read and written by the checked operations \<open>rd\<close>, \<open>wr\<close>, \<open>blit\<close> and \<open>slice\<close> of \<open>Prelude\<close>:
  an access outside it, like a failed assertion, a double free or a followed null pointer, is \<open>None\<close>.
  So a theorem that an operation is \<open>Some\<close> of something says that it is memory safe, and where the operation is
  a \<open>partial_function\<close> also that it returns.  A counted string (\<open>struct mg_str\<close>) is its bytes, the
  null string is \<open>None\<close> where the code tells it from the empty one.  Objects with state are records with
  the fields of the code, passed explicitly.  The clock, random bytes, memory allocation, character-set
  conversion and the event handlers of a user are parameters.  Two threads on a queue are
  interleavings of whole operations, as the code locks them or orders them.

  \<^bold>\<open>The theories\<close>, bottom up:

  \<^item> \<open>Prelude\<close>: words, checked arrays, byte order, decimal numbers; the contracts \<open>codec\<close> and
    \<open>prefix_codec\<close> of encoders that are inverted, alone or at the front of a stream.
  \<^item> \<open>Stream_Reader\<close>: the contract of a protocol handler that takes whole packets off a growing buffer.  Its
    conclusion, that the segmentation of the stream does not matter, is what the WebSocket and
    MQTT properties rest on.
  \<^item> \<open>Mg_Hash\<close>, \<open>Mg_Md5\<close>, \<open>Mg_Sha1\<close>: \<open>mg_md5_*\<close> and \<open>mg_sha1_*\<close>.  The unrolled transforms are equal to
    the loops of RFC 1321 and FIPS 180, and the incremental interface digests the concatenation.
  \<^item> \<open>Mg_Base64\<close>: \<open>mg_base64_*\<close> and the printer \<open>bcpy\<close>; equal to a reference by sextets, round trip, and
    the exact buffer sizes.
  \<^item> \<open>Mg_Str\<close>: comparison, search, the wildcard matcher \<open>mg_match\<close>, splitting, hexadecimal, path check.  The
    matcher has an explicit fuel, one unit a round; \<open>mg_match_glob\<close> shows that
    \<open>(sl + 2) * (length p + 1) + 1\<close> units are enough for every subject without wildcard characters, and
    \<open>mg_match_diverges\<close> that no fuel is enough for some subject with one.
  \<^item> \<open>Mg_Util\<close>, \<open>Mg_Timer\<close>, \<open>Mg_Iobuf\<close>, \<open>Mg_Queue\<close>, \<open>Mg_Url\<close>: byte order, CRC-32 against polynomial
    division, the address filter; timers; the connection buffers as byte streams; the ring buffer as
    a FIFO (locales \<open>byte_stream\<close> and \<open>fifo\<close>); URL parts.
  \<^item> \<open>Mg_Http_Codec\<close>, \<open>Mg_Http_Parse\<close>, \<open>Mg_Http\<close>, \<open>Mg_Http_Reply\<close>: numbers, percent-encoding, forms and
    header variables; \<open>mg_http_parse\<close>; the connection handler \<open>http_cb\<close> with chunked, plain and multipart
    bodies; replies.  The loops over a buffer take one unit of fuel a round and get one more than the
    buffer has bytes; each round that goes on consumes a byte, so they never run out of it, and the
    property of the handler shows that they end.
  \<^item> \<open>Mg_Fmt\<close>: \<open>mg_vxprintf\<close> with \<open>mg_vsnprintf\<close> and the printers of addresses and escaped strings; the
    variadic arguments are a list of typed values.
  \<^item> \<open>Mg_Addr\<close>, \<open>Mg_Addr_Texts\<close>: \<open>mg_aton\<close> and the printers of network addresses; what texts the parsers
    take, the double colon, and that printed addresses are read back.
  \<^item> \<open>Mg_Dns\<close>, \<open>Mg_Resolve\<close>: packets of the name service and the list of requests; \<open>Mg_Dns_Packets\<close> shows that
    no packet breaks the parser and that answers are read back, \<open>Mg_Resolve_Answers\<close> that identifiers of requests differ
    (a step relation) and that a connection to a host name is connected to the address that was answered.
  \<^item> \<open>Mg_Ws\<close>: frames, handshakes and \<open>mg_ws_cb\<close>; a server handles every frame of a stream once.
  \<^item> \<open>Mg_Mqtt\<close>, \<open>Mg_Mqtt_Packets\<close>: \<open>mg_mqtt_*\<close> of both protocol versions; the packets as a datatype, what
    the handler does on a stream of them, and what a client publishes.
  \<^item> \<open>Mg_Json\<close>, \<open>Mg_Json_Texts\<close>, \<open>Mg_Json_Paths\<close>: the scanner \<open>mg_json_get\<close> and its accessors; the texts of
    JSON values as an inductive relation on a datatype; a path of keys and indices finds the text of
    the value it selects, whatever the input the scanner stays inside it, and strings come back from their escapes.
  \<^item> \<open>Gb_Ids\<close>: \<open>IDManager\<close> and \<open>RtpPortManager\<close>; identifiers are fresh, ports are conserved, both by
    rule induction over the reachable states.
  \<^item> \<open>Gb_Devices\<close>: \<open>DeviceMng\<close> and \<open>BaseDevice\<close>.  A \<open>std::map\<close> is a red-black tree, objects are on a heap
    behind references; the locale \<open>registry\<close> is interpreted for devices and for channels; the
    breadth-first search over the organizations is a \<open>function\<close> with a termination proof.
  \<^item> \<open>Gb_Kmp\<close>: the pattern search of \<open>src/tools/KMP.cpp\<close>.
  \<^item> \<open>Gb_Buffers\<close>: \<open>LineBuffer\<close>, \<open>SafeQueue\<close>, \<open>unLockQueue\<close> and the ring of the H.264 reader (locales
    \<open>frame_queue\<close> and \<open>lossless_frame_queue\<close>).
  \<^item> \<open>Gb_Video\<close>, \<open>Gb_Access_Units\<close>: \<open>H264FileReader\<close> and the NAL scanner of \<open>videoNalu.hpp\<close>, on a heap of
    blocks; files and live input are cut into access units, and what goes wrong beyond the bounds.

  \<^bold>\<open>Bounds.\<close>  Lengths are below \<open>2 ^ 32\<close> or \<open>2 ^ 64\<close> where the code's types need it, stated in each
  theorem; the model of SHA-1's padding takes 65 units of fuel, which its correctness shows to be enough.

  \<^bold>\<open>Not modelled.\<close>  The SIP front ends (\<open>SipServer.cpp\<close>, \<open>RegistrarServer\<close>, \<open>UserAgent\<close>) are callbacks of the
  resiprocate library, whose objects hold the state and whose sources are not in the repository.
  \<open>http.cpp\<close> and \<open>ws/ws.cpp\<close> are glue over Mongoose, websocketpp and the JSON library; \<open>XmlMsgAnalysis.cpp\<close>
  and \<open>MsgContentXml.cpp\<close> read and fill trees of the XML library.  The database managers pass SQL to
  SQLite and MySQL.  The media sources are glue over ffmpeg and the RTP, MOV and MPEG libraries, which are
  binaries or headers only.  Of Mongoose, the sockets, drivers, TLS bindings, file systems and the TCP/IP
  stack are system calls and registers; the conversion of floating-point numbers (\<open>mg_dtoa\<close>, and with it
  JSON numbers) is left out.  Vendored code (\<open>sqlite3.c\<close>, \<open>asio\<close>, \<open>websocketpp\<close>, \<open>rapidjson\<close>,
  \<open>tinyxml2\<close>, \<open>curl\<close>, \<open>resip\<close>) is not the program's own.
\<close>

end
